(* ===== verification/Prelude.thy ===== *)
theory Prelude
  imports
    Main
    "HOL-Library.Word"
    "HOL-Library.Monad_Syntax"
    "HOL-Library.Signed_Division"
begin

text \<open>
  Shared vocabulary of the development: the machine types of the C++ sources on a 64-bit
  target, the conversions the compiler inserts between them, the collections of rewrite
  rules the component theories extend, and the generic facts on lists, words and powers of
  two that several components use.
\<close>

unbundle bit_operations_syntax

section \<open>Machine types\<close>

type_synonym u64 = "64 word"   \<comment> \<open>\<open>size_t\<close>, \<open>uintptr_t\<close>, \<open>PageID\<close>, \<open>Length\<close>, \<open>uint64_t\<close>\<close>
type_synonym u32 = "32 word"   \<comment> \<open>\<open>uint32\<close>\<close>
type_synonym addr = nat        \<comment> \<open>the value of a pointer; 0 is \<open>NULL\<close>\<close>

text \<open>
  Conversion of a signed value to \<open>size_t\<close>, and of a \<open>size_t\<close> value to \<open>int\<close> (32 bits,
  two's complement), as the C++ implicit conversions compute them.
\<close>

definition size_t_of_int :: "int \<Rightarrow> nat" where
  "size_t_of_int i = nat (i mod 2 ^ 64)"

definition int32_of_nat :: "nat \<Rightarrow> int" where
  "int32_of_nat n = signed_take_bit 31 (int n)"

section \<open>Collections of facts\<close>

named_theorems word_to_nat \<open>rules that read a word expression as a natural number\<close>
named_theorems inv_intros \<open>introduction rules for component invariants\<close>

section \<open>Conversions\<close>

lemma size_t_of_int_nonneg: "0 \<le> i \<Longrightarrow> i < 2 ^ 64 \<Longrightarrow> size_t_of_int i = nat i"
  by (simp add: size_t_of_int_def)

lemma size_t_of_int_neg: "i < 0 \<Longrightarrow> - (2 ^ 63) \<le> i \<Longrightarrow> 2 ^ 63 \<le> size_t_of_int i"
proof -
  assume "i < 0" "- (2 ^ 63) \<le> i"
  then have "i mod 2 ^ 64 = i + 2 ^ 64"
    by (intro mod_pos_pos_trivial [THEN trans [OF mod_add_self2 [symmetric]]]) auto
  with \<open>- (2 ^ 63) \<le> i\<close> show ?thesis
    by (simp add: size_t_of_int_def)
qed

lemma int32_of_nat_small: "n < 2 ^ 31 \<Longrightarrow> int32_of_nat n = int n"
  unfolding int32_of_nat_def by (rule signed_take_bit_int_eq_self) auto

section \<open>Lists\<close>

lemma nth_list_update_if:
  "i < length xs \<Longrightarrow> (xs[j := x]) ! i = (if i = j then x else xs ! i)"
  by (simp add: nth_list_update)

lemma distinct_remove1_set: "distinct xs \<Longrightarrow> set (remove1 x xs) = set xs - {x}"
  by (rule set_remove1_eq)

lemma sum_list_remove1:
  fixes f :: "'a \<Rightarrow> nat"
  shows "x \<in> set xs \<Longrightarrow> sum_list (map f xs) = f x + sum_list (map f (remove1 x xs))"
  by (rule sum_list_map_remove1)

section \<open>Powers of two and rounding\<close>

lemma pow2_dvd_pow2: "a \<le> b \<Longrightarrow> (2::nat) ^ a dvd 2 ^ b"
  by (rule le_imp_power_dvd)

lemma and_not_mask_word:
  fixes x :: "'a::len word"
  shows "x AND NOT (mask n) = push_bit n (drop_bit n x)"
  by (rule bit_word_eqI) (auto simp: bit_simps)

lemma unat_drop_bit [word_to_nat]:
  fixes x :: "'a::len word"
  shows "unat (drop_bit n x) = unat x div 2 ^ n"
  unfolding unsigned_drop_bit_eq take_bit_nat_eq_self [OF unsigned_less] by (rule drop_bit_eq_div)

lemma unat_and_mask [word_to_nat]:
  fixes x :: "'a::len word"
  shows "unat (x AND mask n) = unat x mod 2 ^ n"
  unfolding take_bit_eq_mask [symmetric] unsigned_take_bit_eq by (rule take_bit_eq_mod)

lemma unat_and_not_mask:
  fixes x :: "'a::len word"
  shows "unat (x AND NOT (mask n)) = (unat x div 2 ^ n) * 2 ^ n"
proof -
  have "unat x div 2 ^ n * 2 ^ n \<le> unat x"
    by simp
  also have "unat x < 2 ^ LENGTH('a)"
    by (rule unsigned_less)
  finally have "unat x div 2 ^ n * 2 ^ n < 2 ^ LENGTH('a)" .
  then show ?thesis
    unfolding and_not_mask_word unsigned_push_bit_eq unsigned_drop_bit_eq
    by (simp add: take_bit_eq_mod push_bit_eq_mult drop_bit_eq_div)
qed

lemma round_up_nat:
  fixes n s :: nat
  assumes "0 < s"
  shows "n \<le> (n + s - 1) div s * s" and "(n + s - 1) div s * s < n + s"
proof -
  have e: "n + s - 1 = (n + s - 1) div s * s + (n + s - 1) mod s"
    by simp
  have m: "(n + s - 1) mod s < s"
    using assms by simp
  show "n \<le> (n + s - 1) div s * s"
    using e m assms by linarith
  show "(n + s - 1) div s * s < n + s"
    using e m assms by linarith
qed

lemma ceil_div_nat:
  fixes n s :: nat
  assumes "0 < s"
  shows "(n + s - 1) div s = (if n mod s = 0 then n div s else n div s + 1)"
proof (cases "n mod s = 0")
  case True
  then have "n + s - 1 = s - 1 + n div s * s"
    using assms div_mult_mod_eq [of n s] by simp
  moreover have "(s - 1 + n div s * s) div s = n div s"
    using assms by (subst div_mult_self1) auto
  ultimately show ?thesis using True by simp
next
  case False
  have "n + s - 1 = n mod s - 1 + (n div s + 1) * s"
    using False div_mult_mod_eq [of n s] by simp
  moreover have "n mod s - 1 < s"
    using mod_less_divisor [OF assms, of n] by linarith
  then have "(n mod s - 1 + (n div s + 1) * s) div s = n div s + 1"
    using assms by (subst div_mult_self1) simp_all
  ultimately show ?thesis using False by simp
qed

end
