(* ===== verification/SizeMap.thy ===== *)
theory SizeMap
  imports Prelude
begin

text \<open>
  The size classes of \<^verbatim>\<open>src/common.h\<close> and \<^verbatim>\<open>src/common.cc\<close>: the constants of the
  default 64-bit configuration, the index computation \<open>ClassIndex\<close>, and \<open>SizeMap::Init\<close>
  with each of its loops.  \<open>Init\<close> is translated with its crashes (\<open>Log(kCrash, ...)\<close>,
  \<open>CHECK_CONDITION\<close>) as values of \<open>init_crash\<close>, and with the loops that choose the span
  sz of a class as partial functions, because they need not return for every value of the
  environment variables.  The lemmas show which inputs make \<open>Init\<close> return, and what the
  tables it builds satisfy.
\<close>

section \<open>Constants of the configuration\<close>

definition kMinAlign :: nat where [simp]: "kMinAlign = 16"
definition kPageShift :: nat where [simp]: "kPageShift = 13"
definition kClassSizesMax :: nat where [simp]: "kClassSizesMax = 128"
definition kMaxThreadCacheSize :: nat where [simp]: "kMaxThreadCacheSize = 4 * 2 ^ 20"
definition kPageSize :: nat where [simp]: "kPageSize = 2 ^ kPageShift"
definition kMaxSize :: nat where [simp]: "kMaxSize = 256 * 1024"
definition kAlignment :: nat where [simp]: "kAlignment = 8"
definition kMaxPages :: nat where [simp]: "kMaxPages = 2 ^ (20 - kPageShift)"
definition kDefaultOverallThreadCacheSize :: nat where [simp]:
  "kDefaultOverallThreadCacheSize = 8 * kMaxThreadCacheSize"
definition kMinThreadCacheSize :: nat where [simp]: "kMinThreadCacheSize = kMaxSize * 2"
definition kStealAmount :: nat where [simp]: "kStealAmount = 2 ^ 16"
definition kMaxOverages :: nat where [simp]: "kMaxOverages = 3"
definition kMaxDynamicFreeListLength :: nat where [simp]: "kMaxDynamicFreeListLength = 8192"
definition kMaxValidPages :: nat where [simp]: "kMaxValidPages = (2 ^ 64 - 1) div 2 ^ kPageShift"
definition kAddressBits :: nat where [simp]: "kAddressBits = 48"
definition kMaxSmallSize :: nat where [simp]: "kMaxSmallSize = 1024"
definition kClassArraySize :: nat where [simp]:
  "kClassArraySize = (kMaxSize + 127 + 120 * 2 ^ 7) div 2 ^ 7 + 1"

section \<open>Page counts and class indices\<close>

definition pages :: "u64 \<Rightarrow> u64" where
  "pages bytes = drop_bit kPageShift bytes
     + (if bytes AND (of_nat kPageSize - 1) > 0 then 1 else 0)"

definition SmallSizeClass :: "u64 \<Rightarrow> u32" where
  "SmallSizeClass s = drop_bit 3 ((ucast s :: u32) + 7)"

definition LargeSizeClass :: "u64 \<Rightarrow> u32" where
  "LargeSizeClass s = drop_bit 7 ((ucast s :: u32) + 127 + push_bit 7 120)"

definition ClassIndexMaybe :: "u64 \<Rightarrow> u32 option" where
  "ClassIndexMaybe s =
     (if s \<le> of_nat kMaxSmallSize then Some (drop_bit 3 ((ucast s :: u32) + 7))
      else if s \<le> of_nat kMaxSize then Some (drop_bit 7 ((ucast s :: u32) + 127 + push_bit 7 120))
      else None)"

definition ClassIndex :: "u64 \<Rightarrow> nat" where
  "ClassIndex s =
     (if s \<le> of_nat kMaxSmallSize then unat (SmallSizeClass s) else unat (LargeSizeClass s))"

section \<open>Alignment and batch sizes\<close>

text \<open>The loop of \<open>LgFloor\<close>: the first argument counts the iterations left, so the loop
  variable \<open>i\<close> of the code is the predecessor of it.\<close>

fun LgFloor_loop :: "nat \<Rightarrow> nat \<Rightarrow> nat \<Rightarrow> nat \<times> nat" where
  "LgFloor_loop 0 n log = (n, log)"
| "LgFloor_loop (Suc i) n log =
     (let shift = 2 ^ i; x = n div 2 ^ shift
      in if x \<noteq> 0 then LgFloor_loop i x (log + shift) else LgFloor_loop i n log)"

definition LgFloor :: "nat \<Rightarrow> nat" where
  "LgFloor n = snd (LgFloor_loop 5 n 0)"

text \<open>\<open>None\<close> is a failed \<open>CHECK_CONDITION\<close>.\<close>

definition AlignmentForSize :: "nat \<Rightarrow> nat option" where
  "AlignmentForSize sz =
     (let alignment =
        (if sz > kMaxSize then kPageSize
         else if sz \<ge> 128 then 2 ^ LgFloor sz div 8
         else if sz \<ge> kMinAlign then kMinAlign
         else kAlignment);
        alignment = (if alignment > kPageSize then kPageSize else alignment)
      in if (sz < kMinAlign \<or> alignment \<ge> kMinAlign) \<and> alignment AND (alignment - 1) = 0
         then Some alignment else None)"

text \<open>\<open>flag\<close> is \<open>FLAGS_tcmalloc_transfer_num_objects\<close>.  The floating-point quotient
  \<open>64.0 * 1024.0 / size\<close>, truncated to \<open>int\<close>, is the integer quotient for every size the
  code passes.\<close>

definition NumMoveSize :: "int \<Rightarrow> nat \<Rightarrow> int" where
  "NumMoveSize flag sz =
     (if sz = 0 then 0
      else let num = int (64 * 1024 div sz);
               num = (if num < 2 then 2 else num)
           in if num > flag then flag else num)"

text \<open>\<open>envval\<close> is the value \<open>strtol\<close> reads from \<open>TCMALLOC_TRANSFER_NUM_OBJ\<close>, \<open>None\<close> when
  the variable is not set; the first argument is the flag before the call.\<close>

definition InitTCMallocTransferNumObjects :: "int \<Rightarrow> int option \<Rightarrow> int" where
  "InitTCMallocTransferNumObjects flag envval =
     (if flag = 0 then (case envval of None \<Rightarrow> 32 | Some v \<Rightarrow> v) else flag)"

section \<open>\<open>SizeMap::Init\<close>\<close>

datatype init_crash =
    CheckFailed            \<comment> \<open>a \<open>CHECK_CONDITION\<close>\<close>
  | InvalidClassIndex      \<comment> \<open>Invalid class index for size 0 / for kMaxSize\<close>
  | ArrayOverrun           \<comment> \<open>a write past \<open>class_to_size_tab[kClassSizesMax - 1]\<close>\<close>
  | TooManySizeClasses     \<comment> \<open>too many size classes\<close>
  | BadSizeClass           \<comment> \<open>Bad size class (class, size)\<close>
  | UnnecessarilyLarge     \<comment> \<open>Allocating unnecessarily large class\<close>
  | BadClassSize           \<comment> \<open>Bad (class, size, requested)\<close>

record SizeMap =
  class_array :: "nat list"
  num_objects_to_move_tab :: "int list"
  class_to_size_tab :: "nat list"
  class_to_pages_tab :: "nat list"
  min_span_size_in_pages :: nat
  num_size_classes :: nat

text \<open>The inner \<open>while\<close> and the outer \<open>do ... while\<close> that choose \<open>psize\<close>, on \<open>size_t\<close>
  values.  \<open>None\<close> is a loop that does not end.\<close>

partial_function (option) psize_while :: "nat \<Rightarrow> nat \<Rightarrow> nat \<Rightarrow> nat option" where
  "psize_while min_span_size sz psize =
     (if psize mod sz > psize div 8
      then psize_while min_span_size sz ((psize + min_span_size) mod 2 ^ 64)
      else Some psize)"

partial_function (option) psize_loop :: "nat \<Rightarrow> nat \<Rightarrow> nat \<Rightarrow> nat \<Rightarrow> nat option" where
  "psize_loop min_span_size sz blocks_to_move psize =
     do { psize \<leftarrow> psize_while min_span_size sz ((psize + min_span_size) mod 2 ^ 64);
          if psize div sz < blocks_to_move
          then psize_loop min_span_size sz blocks_to_move psize
          else Some psize }"

text \<open>The loop over \<open>size\<close> that fills \<open>class_to_size_tab\<close> and \<open>class_to_pages_tab\<close>.\<close>

partial_function (option) class_loop ::
    "nat \<Rightarrow> int \<Rightarrow> nat \<Rightarrow> nat \<Rightarrow> nat list \<Rightarrow> nat list
     \<Rightarrow> (init_crash + nat \<times> nat list \<times> nat list) option" where
  "class_loop min_span_size flag sz sc c2s c2p =
     (if sz \<le> kMaxSize then
        (case AlignmentForSize sz of
           None \<Rightarrow> Some (Inl CheckFailed)
         | Some alignment \<Rightarrow>
             if sz mod alignment \<noteq> 0 then Some (Inl CheckFailed)
             else do {
               psize \<leftarrow> psize_loop min_span_size sz
                          (size_t_of_int (NumMoveSize flag sz sdiv 4)) 0;
               let my_pages = psize div 2 ^ kPageShift;
               if sc > 1 \<and> my_pages = c2p ! (sc - 1)
                  \<and> (my_pages * 2 ^ kPageShift) div sz
                     = (c2p ! (sc - 1) * 2 ^ kPageShift) div (c2s ! (sc - 1))
               then class_loop min_span_size flag (sz + alignment) sc (c2s[sc - 1 := sz]) c2p
               else if sc \<ge> kClassSizesMax then Some (Inl ArrayOverrun)
               else class_loop min_span_size flag (sz + alignment) (sc + 1)
                      (c2s[sc := sz]) (c2p[sc := my_pages]) })
      else Some (Inr (sc, c2s, c2p)))"

text \<open>\<open>class_array\<close> is an array of \<open>unsigned char\<close>.\<close>

function fill_class :: "nat \<Rightarrow> nat \<Rightarrow> nat \<Rightarrow> nat list \<Rightarrow> nat list" where
  "fill_class s max_size_in_class c arr =
     (if s \<le> max_size_in_class
      then fill_class (s + kAlignment) max_size_in_class c
             (arr[ClassIndex (of_nat s) := c mod 256])
      else arr)"
  by pat_completeness auto
termination
  by (relation "measure (\<lambda>(s, m, c, arr). Suc m - s)") auto

declare fill_class.simps [simp del]

fun fill_classes :: "nat list \<Rightarrow> nat \<Rightarrow> nat \<Rightarrow> nat list \<Rightarrow> nat list" where
  "fill_classes [] c next_size arr = arr"
| "fill_classes (max_size # rest) c next_size arr =
     fill_classes rest (Suc c) (max_size + kAlignment) (fill_class next_size max_size c arr)"

text \<open>The body of the double-check loop for one size, and the loop.\<close>

definition check_size :: "nat list \<Rightarrow> nat list \<Rightarrow> nat \<Rightarrow> nat \<Rightarrow> init_crash option" where
  "check_size arr c2s nclasses sz =
     (let sc = arr ! ClassIndex (of_nat sz); s = c2s ! sc
      in if sc \<le> 0 \<or> sc \<ge> nclasses then Some BadSizeClass
         else if sc > 1 \<and> sz \<le> c2s ! (sc - 1) then Some UnnecessarilyLarge
         else if sz > s \<or> s = 0 then Some BadClassSize
         else None)"

function check_sizes :: "nat list \<Rightarrow> nat list \<Rightarrow> nat \<Rightarrow> nat \<Rightarrow> init_crash option" where
  "check_sizes arr c2s nclasses sz =
     (if sz \<le> kMaxSize then
        (case check_size arr c2s nclasses sz of
           Some e \<Rightarrow> Some e
         | None \<Rightarrow> check_sizes arr c2s nclasses
                     (if sz \<le> kMaxSmallSize then sz + 8 else sz + 128))
      else None)"
  by pat_completeness auto
termination
  by (relation "measure (\<lambda>(arr, c2s, n, sz). Suc kMaxSize - sz)") auto

declare check_sizes.simps [simp del]

text \<open>The check that the sizes are naturally aligned: the loop over the multiples of one
  alignment, and the loop over the alignments.\<close>

function check_multiples :: "nat list \<Rightarrow> nat list \<Rightarrow> nat \<Rightarrow> nat \<Rightarrow> bool" where
  "check_multiples arr c2s align sz =
     (if 0 < align \<and> sz < kPageSize
      then c2s ! (arr ! ClassIndex (of_nat sz)) mod align = 0
           \<and> check_multiples arr c2s align (sz + align)
      else True)"
  by pat_completeness auto
termination
  by (relation "measure (\<lambda>(arr, c2s, align, sz). kPageSize - sz)") auto

declare check_multiples.simps [simp del]

function check_aligns :: "nat list \<Rightarrow> nat list \<Rightarrow> nat \<Rightarrow> bool" where
  "check_aligns arr c2s align =
     (if 0 < align \<and> align \<le> kPageSize
      then check_multiples arr c2s align align \<and> check_aligns arr c2s (align * 2)
      else True)"
  by pat_completeness auto
termination
  by (relation "measure (\<lambda>(arr, c2s, align). Suc kPageSize - align)") auto

declare check_aligns.simps [simp del]

definition min_span_size_of :: "nat \<Rightarrow> nat" where
  "min_span_size_of native_page_size =
     (let m = max native_page_size kPageSize
      in if m > kPageSize \<and> m mod kPageSize \<noteq> 0 then kPageSize else m)"

text \<open>\<open>SizeMap::Init\<close>, given the native page size and the value of
  \<open>TCMALLOC_TRANSFER_NUM_OBJ\<close>.  The tables hold zeros before \<open>Init\<close> (static storage).\<close>

definition SizeMap_Init :: "nat \<Rightarrow> int option \<Rightarrow> (init_crash + SizeMap) option" where
  "SizeMap_Init native_page_size envval =
     (let flag = InitTCMallocTransferNumObjects 0 envval;
          min_span_size = min_span_size_of native_page_size
      in if ClassIndex 0 \<noteq> 0 \<or> ClassIndex (of_nat kMaxSize) \<ge> kClassArraySize
         then Some (Inl InvalidClassIndex)
         else do {
           r \<leftarrow> class_loop min_span_size flag kAlignment 1
                  (replicate kClassSizesMax 0) (replicate kClassSizesMax 0);
           case r of
             Inl e \<Rightarrow> Some (Inl e)
           | Inr (sc, c2s, c2p) \<Rightarrow>
               if sc > kClassSizesMax then Some (Inl TooManySizeClasses)
               else
                 let arr = fill_classes (take (sc - 1) (drop 1 c2s)) 1 0
                             (replicate kClassArraySize 0)
                 in case check_sizes arr c2s sc 0 of
                      Some e \<Rightarrow> Some (Inl e)
                    | None \<Rightarrow>
                        if \<not> check_aligns arr c2s kMinAlign then Some (Inl CheckFailed)
                        else Some (Inr \<lparr> class_array = arr,
                               num_objects_to_move_tab =
                                 map (\<lambda>c. if 1 \<le> c \<and> c < sc then NumMoveSize flag (c2s ! c) else 0)
                                   [0 ..< kClassSizesMax],
                               class_to_size_tab = c2s,
                               class_to_pages_tab = c2p,
                               min_span_size_in_pages = min_span_size div kPageSize,
                               num_size_classes = sc \<rparr>) })"

section \<open>Accessors\<close>

definition SizeClass :: "SizeMap \<Rightarrow> u64 \<Rightarrow> nat" where
  "SizeClass sm sz = class_array sm ! ClassIndex sz"

definition GetSizeClass :: "SizeMap \<Rightarrow> u64 \<Rightarrow> nat option" where
  "GetSizeClass sm sz =
     (case ClassIndexMaybe sz of None \<Rightarrow> None | Some idx \<Rightarrow> Some (class_array sm ! unat idx))"

definition ByteSizeForClass :: "SizeMap \<Rightarrow> nat \<Rightarrow> nat" where
  "ByteSizeForClass sm cl = class_to_size_tab sm ! cl"

definition class_to_size :: "SizeMap \<Rightarrow> nat \<Rightarrow> nat" where
  "class_to_size sm cl = class_to_size_tab sm ! cl"

definition class_to_pages :: "SizeMap \<Rightarrow> nat \<Rightarrow> nat" where
  "class_to_pages sm cl = class_to_pages_tab sm ! cl"

definition num_objects_to_move :: "SizeMap \<Rightarrow> nat \<Rightarrow> int" where
  "num_objects_to_move sm cl = num_objects_to_move_tab sm ! cl"


section \<open>Alignments\<close>

lemma LgFloor_loop_correct:
  "0 < n \<Longrightarrow> n < 2 ^ 2 ^ k \<Longrightarrow>
   \<exists>l. LgFloor_loop k n log = (1, log + l) \<and> 2 ^ l \<le> n \<and> n < 2 ^ Suc l"
proof (induction k arbitrary: n log)
  case 0
  then have "n = 1" by simp
  then show ?case by (intro exI [of _ 0]) simp
next
  case (Suc k)
  show ?case
  proof (cases "n div 2 ^ 2 ^ k = 0")
    case True
    then have "n < 2 ^ 2 ^ k" by (simp add: div_eq_0_iff)
    from Suc.IH [OF Suc.prems(1) this, of log] True show ?thesis by simp
  next
    case False
    let ?x = "n div 2 ^ 2 ^ k"
    have "n < 2 ^ 2 ^ k * 2 ^ 2 ^ k"
      using Suc.prems(2) by (simp add: mult_2 power_add)
    then have "?x < 2 ^ 2 ^ k" by (simp add: less_mult_imp_div_less)
    with False Suc.IH [of ?x "log + 2 ^ k"] obtain l where
      l: "LgFloor_loop k ?x (log + 2 ^ k) = (1, log + 2 ^ k + l)" "2 ^ l \<le> ?x" "?x < 2 ^ Suc l"
      by auto
    have "2 ^ l * 2 ^ 2 ^ k \<le> n"
      using l(2) by (metis div_mult_mod_eq le_add1 le_trans mult_le_mono1)
    moreover have "n < 2 ^ Suc l * 2 ^ 2 ^ k"
      using l(3) by (metis div_less_iff_less_mult zero_less_numeral zero_less_power)
    ultimately show ?thesis
      using l(1) False by (intro exI [of _ "2 ^ k + l"]) (simp add: power_add mult.commute add.assoc)
  qed
qed

lemma LgFloor_bounds:
  assumes "0 < n" "n < 2 ^ 32"
  shows "2 ^ LgFloor n \<le> n" "n < 2 ^ Suc (LgFloor n)"
proof -
  obtain l where "LgFloor_loop 5 n 0 = (1, 0 + l)" "2 ^ l \<le> n" "n < 2 ^ Suc l"
    using LgFloor_loop_correct [of n 5 0] assms by auto
  then show "2 ^ LgFloor n \<le> n" "n < 2 ^ Suc (LgFloor n)"
    by (simp_all add: LgFloor_def)
qed

lemma and_pred_pow2: "(2::nat) ^ k AND (2 ^ k - 1) = 0"
proof -
  have "(2::nat) ^ k AND mask k = 0"
    by (rule bit_eqI) (auto simp: bit_simps)
  then show ?thesis by (simp add: mask_eq_exp_minus_1)
qed

lemma cap_pow2: "(if (2::nat) ^ a > 2 ^ b then 2 ^ b else (2::nat) ^ a) = 2 ^ min b a"
  by (auto simp: min_def)

lemma AlignmentForSize_pow2:
  assumes "0 < s" "s < 2 ^ 32"
  obtains k where "AlignmentForSize s = Some (2 ^ k)" "3 \<le> k" "k \<le> 13"
    "kMinAlign \<le> s \<Longrightarrow> 4 \<le> k"
proof -
  define k where "k = (if s > kMaxSize then 13 else if s \<ge> 128 then min 13 (LgFloor s - 3)
    else if s \<ge> kMinAlign then 4 else (3::nat))"
  have lg: "7 \<le> LgFloor s" if "128 \<le> s"
  proof (rule ccontr)
    assume "\<not> 7 \<le> LgFloor s"
    then have "(2::nat) ^ Suc (LgFloor s) \<le> 2 ^ 7" by (intro power_increasing) auto
    with that LgFloor_bounds(2) [OF assms] show False by simp
  qed
  have e: "(2::nat) ^ LgFloor s div 8 = 2 ^ (LgFloor s - 3)" if "128 \<le> s"
    using lg [OF that] power_diff [of "2::nat" 3 "LgFloor s"] by simp
  have k: "3 \<le> k" "k \<le> 13" "kMinAlign \<le> s \<Longrightarrow> 4 \<le> k"
    using lg by (auto simp: k_def)
  have "(let al = if s > kMaxSize then kPageSize else if s \<ge> 128 then 2 ^ LgFloor s div 8
              else if s \<ge> kMinAlign then kMinAlign else kAlignment
         in if al > kPageSize then kPageSize else al) = 2 ^ k"
    using cap_pow2 [of 13 "LgFloor s - 3"] e by (auto simp: k_def Let_def)
  then have "AlignmentForSize s =
      (if (s < kMinAlign \<or> 2 ^ k \<ge> kMinAlign) \<and> 2 ^ k AND (2 ^ k - 1) = (0::nat)
       then Some (2 ^ k) else None)"
    unfolding AlignmentForSize_def Let_def by simp
  moreover have "s < kMinAlign \<or> 2 ^ k \<ge> kMinAlign"
    using k(3) power_increasing [of 4 k "2::nat"] by (cases "kMinAlign \<le> s") auto
  ultimately have "AlignmentForSize s = Some (2 ^ k)"
    using and_pred_pow2 [of k] by auto
  with k show ?thesis using that by blast
qed

section \<open>Class indices as numbers\<close>

lemma ClassIndex_nat:
  assumes "s \<le> kMaxSize"
  shows "ClassIndex (of_nat s) = (if s \<le> 1024 then (s + 7) div 8 else (s + 15487) div 128)"
proof -
  have s: "unat (of_nat s :: u64) = s" "unat (ucast (of_nat s :: u64) :: u32) = s"
    using assms by (simp_all add: unat_of_nat unsigned_ucast_eq take_bit_nat_eq_self)
  have le: "(of_nat s \<le> (of_nat kMaxSmallSize :: u64)) = (s \<le> 1024)"
    using assms by (simp add: word_le_nat_alt s)
  have 1: "unat ((ucast (of_nat s :: u64) :: u32) + 7) = s + 7"
    using assms s by (subst unat_add_lem [THEN iffD1]) auto
  have "unat ((ucast (of_nat s :: u64) :: u32) + (127 + push_bit 7 120)) = s + 15487"
    using assms s by (subst unat_add_lem [THEN iffD1]) auto
  then have 2: "unat ((ucast (of_nat s :: u64) :: u32) + 127 + push_bit 7 120) = s + 15487"
    by (simp add: add.assoc)
  show ?thesis
    unfolding ClassIndex_def SmallSizeClass_def LargeSizeClass_def le unsigned_drop_bit_eq 1 2
    using assms by (simp add: drop_bit_eq_div take_bit_nat_eq_self)
qed

section \<open>The span size of a class\<close>

lemma psize_while_returns:
  assumes "0 < s" "0 < m" "0 < p" "m dvd p" "8 * s + 2 * m < 2 ^ 64"
  shows "\<exists>q. psize_while m s p = Some q \<and> p \<le> q \<and> q \<le> max p (8 * s + m)
           \<and> m dvd q \<and> q mod s \<le> q div 8"
  using assms
proof (induction "8 * s + m - p" arbitrary: p rule: less_induct)
  case less
  show ?case
  proof (cases "p mod s > p div 8")
    case False
    then show ?thesis
      using less.prems by (subst psize_while.simps) auto
  next
    case True
    have "p < 8 * s"
    proof (rule ccontr)
      assume "\<not> p < 8 * s"
      then have "s \<le> p div 8" by linarith
      moreover have "p mod s < s" using \<open>0 < s\<close> by simp
      ultimately show False using True by linarith
    qed
    then have e: "(p + m) mod 2 ^ 64 = p + m"
      using less.prems by (intro mod_less) linarith
    have "\<exists>q. psize_while m s (p + m) = Some q \<and> p + m \<le> q \<and> q \<le> max (p + m) (8 * s + m)
           \<and> m dvd q \<and> q mod s \<le> q div 8"
      using less.prems \<open>p < 8 * s\<close> by (intro less.hyps) auto
    then show ?thesis
      using True e \<open>p < 8 * s\<close> by (subst psize_while.simps) (auto intro: le_trans)
  qed
qed

lemma psize_loop_returns:
  assumes "0 < s" "0 < m" "m dvd p" "p \<le> max (8 * s) (b * s)" "max (8 * s) (b * s) + 2 * m < 2 ^ 64"
  shows "\<exists>q. psize_loop m s b p = Some q \<and> 0 < q \<and> m dvd q \<and> q mod s \<le> q div 8 \<and> b \<le> q div s
     \<and> q \<le> max (8 * s) (b * s) + m"
  using assms(3,4)
proof (induction "b * s - p" arbitrary: p rule: less_induct)
  case less
  have e: "(p + m) mod 2 ^ 64 = p + m"
    using less.prems assms by (intro mod_less) linarith
  obtain q where q: "psize_while m s (p + m) = Some q" "p + m \<le> q" "q \<le> max (p + m) (8 * s + m)"
      "m dvd q" "q mod s \<le> q div 8"
    using psize_while_returns [of s m "p + m"] less.prems assms(1,2,5) by fastforce
  show ?case
  proof (cases "q div s < b")
    case False
    then show ?thesis
      using q less.prems assms by (subst psize_loop.simps, unfold e) auto
  next
    case True
    then have "q < b * s"
      using \<open>0 < s\<close> by (simp add: div_less_iff_less_mult)
    then have "\<exists>r. psize_loop m s b q = Some r \<and> 0 < r \<and> m dvd r \<and> r mod s \<le> r div 8 \<and> b \<le> r div s
        \<and> r \<le> max (8 * s) (b * s) + m"
      using q less.prems assms by (intro less.hyps) auto
    then show ?thesis
      using q True by (subst psize_loop.simps, unfold e) auto
  qed
qed

section \<open>The sequence of sizes \<open>Init\<close> visits\<close>

definition size_steps :: "nat list" where
  "size_steps = 8 # map (\<lambda>i. 16 * i) [1, 2, 3, 4, 5, 6, 7]
     @ concat (map (\<lambda>k. map (\<lambda>i. 2 ^ k + i * 2 ^ (k - 3)) [0, 1, 2, 3, 4, 5, 6, 7])
         [7, 8, 9, 10, 11, 12, 13, 14, 15, 16])
     @ map (\<lambda>i. 131072 + 8192 * i) [0, 1, 2, 3, 4, 5, 6, 7, 8, 9, 10, 11, 12, 13, 14, 15, 16]"

fun step_chain :: "nat list \<Rightarrow> bool" where
  "step_chain [] = True"
| "step_chain [s] =
     (AlignmentForSize s \<noteq> None \<and> s mod the (AlignmentForSize s) = 0 \<and> 8 dvd s \<and> 0 < s \<and> (1024 < s \<longrightarrow> 128 dvd s)
      \<and> s = kMaxSize \<and> 0 < the (AlignmentForSize s))"
| "step_chain (s # t # rest) =
     (AlignmentForSize s = Some (t - s) \<and> s < t \<and> s mod (t - s) = 0 \<and> 8 dvd s \<and> 0 < s \<and> (1024 < s \<longrightarrow> 128 dvd s)
      \<and> s < kMaxSize \<and> step_chain (t # rest))"

lemma five_Suc: "(5::nat) = Suc (Suc (Suc (Suc (Suc 0))))"
  by simp

lemmas LgFloor_eval = LgFloor_def [unfolded five_Suc]

lemma size_steps_chain: "step_chain size_steps"
  unfolding size_steps_def
  by (simp add: AlignmentForSize_def LgFloor_eval)


section \<open>What the class tables satisfy\<close>

text \<open>The state of \<open>class_loop\<close> after the sizes up to \<open>largest\<close>: the class sizes grow
  strictly, are multiples of 8 (of 128 above 1024), and each span holds at least one object,
  wastes at most an eighth and holds a quarter of a transfer batch.\<close>

definition tables_ok :: "int \<Rightarrow> nat \<Rightarrow> nat \<Rightarrow> nat list \<Rightarrow> nat list \<Rightarrow> bool" where
  "tables_ok flag largest sc c2s c2p \<longleftrightarrow>
     1 \<le> sc \<and> length c2s = kClassSizesMax \<and> length c2p = kClassSizesMax
     \<and> c2s ! 0 = 0 \<and> c2s ! (sc - 1) = largest
     \<and> (\<forall>c. 1 \<le> c \<and> c < sc \<longrightarrow>
          c2s ! (c - 1) < c2s ! c \<and> 8 dvd c2s ! c \<and> (1024 < c2s ! c \<longrightarrow> 128 dvd c2s ! c)
          \<and> c2s ! c \<le> c2p ! c * kPageSize
          \<and> c2p ! c * kPageSize mod c2s ! c \<le> c2p ! c * kPageSize div 8
          \<and> NumMoveSize flag (c2s ! c) div 4 \<le> int (c2p ! c * kPageSize div c2s ! c))"

lemma blocks_to_move:
  assumes "1 \<le> flag" "0 < s"
  defines "b \<equiv> size_t_of_int (NumMoveSize flag s sdiv 4)"
  shows "int b = NumMoveSize flag s div 4" "b * s \<le> 65536"
proof -
  let ?n = "NumMoveSize flag s"
  have n: "1 \<le> ?n" "?n \<le> max 2 (int (65536 div s))"
    using assms by (auto simp: NumMoveSize_def Let_def)
  have "65536 div s \<le> 65536" by simp
  with n have "?n \<le> 65536" by linarith
  then have lt: "?n < 2 ^ 64" by simp
  have sd: "?n sdiv 4 = ?n div 4"
    using n by (simp add: signed_divide_int_def)
  then show e: "int b = ?n div 4"
    unfolding b_def using n lt by (subst size_t_of_int_nonneg) auto
  show "b * s \<le> 65536"
  proof (cases "65536 div s < 2")
    case True
    with n e have "b = 0" by auto
    then show ?thesis by simp
  next
    case False
    with n e have "b \<le> 65536 div s" by linarith
    then have "b * s \<le> 65536 div s * s" by simp
    also have "\<dots> \<le> 65536" by simp
    finally show ?thesis .
  qed
qed

lemma psize_for_class:
  assumes "1 \<le> flag" "0 < s" "s \<le> kMaxSize" "0 < m" "kPageSize dvd m" "m \<le> 2 ^ 62"
  obtains pg where "psize_loop m s (size_t_of_int (NumMoveSize flag s sdiv 4)) 0 = Some (pg * kPageSize)"
    "s \<le> pg * kPageSize" "pg * kPageSize mod s \<le> pg * kPageSize div 8"
    "NumMoveSize flag s div 4 \<le> int (pg * kPageSize div s)"
proof -
  let ?b = "size_t_of_int (NumMoveSize flag s sdiv 4)"
  note b = blocks_to_move [OF assms(1,2)]
  have "max (8 * s) (?b * s) + 2 * m < 2 ^ 64"
    using b(2) assms(3,6) by simp
  then obtain q where q: "psize_loop m s ?b 0 = Some q" "0 < q" "m dvd q" "q mod s \<le> q div 8"
      "?b \<le> q div s"
    using psize_loop_returns [of s m 0 ?b] assms by auto
  from q(3) assms(5) obtain pg where pg: "q = pg * kPageSize"
    by (metis dvdE dvd_trans mult.commute)
  have "s \<le> q"
  proof (rule ccontr)
    assume "\<not> s \<le> q"
    then have "q mod s = q" by simp
    with q(2,4) show False by linarith
  qed
  moreover have "NumMoveSize flag s div 4 \<le> int (q div s)"
    using q(5) b(1) by linarith
  ultimately show ?thesis
    using that q pg by simp
qed

lemma tables_ok_merge:
  assumes "tables_ok flag largest sc c2s c2p" "1 < sc" "sc \<le> kClassSizesMax" "largest < s" "8 dvd s" "1024 < s \<longrightarrow> 128 dvd s"
    "s \<le> c2p ! (sc - 1) * kPageSize"
    "c2p ! (sc - 1) * kPageSize mod s \<le> c2p ! (sc - 1) * kPageSize div 8"
    "NumMoveSize flag s div 4 \<le> int (c2p ! (sc - 1) * kPageSize div s)"
  shows "tables_ok flag s sc (c2s[sc - 1 := s]) c2p"
proof -
  have "1 \<le> sc - 1 \<and> sc - 1 < sc"
    using assms(2) by auto
  with assms(1) have "c2s ! (sc - 1 - 1) < c2s ! (sc - 1)" "c2s ! (sc - 1) = largest"
    unfolding tables_ok_def by blast+
  with assms(4) have "c2s ! (sc - 1 - 1) < s"
    by simp
  then show ?thesis
    using assms unfolding tables_ok_def
    by (auto simp: nth_list_update)
qed

lemma tables_ok_new:
  assumes "tables_ok flag largest sc c2s c2p" "sc < kClassSizesMax" "largest < s" "8 dvd s" "1024 < s \<longrightarrow> 128 dvd s"
    "s \<le> pg * kPageSize" "pg * kPageSize mod s \<le> pg * kPageSize div 8"
    "NumMoveSize flag s div 4 \<le> int (pg * kPageSize div s)"
  shows "tables_ok flag s (sc + 1) (c2s[sc := s]) (c2p[sc := pg])"
  using assms unfolding tables_ok_def
  by (auto simp: nth_list_update less_Suc_eq)

lemma class_loop_returns:
  assumes "1 \<le> flag" "0 < m" "kPageSize dvd m" "m \<le> 2 ^ 62"
  shows "step_chain (s # rest) \<Longrightarrow> tables_ok flag largest sc c2s c2p \<Longrightarrow> largest < s
    \<Longrightarrow> sc + length (s # rest) \<le> kClassSizesMax
    \<Longrightarrow> \<exists>sc' c2s' c2p'. class_loop m flag s sc c2s c2p = Some (Inr (sc', c2s', c2p'))
          \<and> tables_ok flag kMaxSize sc' c2s' c2p' \<and> 1 < sc' \<and> sc' \<le> kClassSizesMax"
proof (induction rest arbitrary: s largest sc c2s c2p)
  case Nil
  then obtain al where al: "AlignmentForSize s = Some al" "s mod al = 0" "8 dvd s" "0 < s"
      "s = kMaxSize" "0 < al" "1024 < s \<longrightarrow> 128 dvd s" by auto
  obtain pg where pg:
      "psize_loop m s (size_t_of_int (NumMoveSize flag s sdiv 4)) 0 = Some (pg * kPageSize)"
      "s \<le> pg * kPageSize" "pg * kPageSize mod s \<le> pg * kPageSize div 8"
      "NumMoveSize flag s div 4 \<le> int (pg * kPageSize div s)"
    using psize_for_class [of flag s m] assms al by (metis order_refl)
  have stop: "class_loop m flag (s + al) sc c2s c2p = Some (Inr (sc, c2s, c2p))" for sc c2s c2p
    using al by (subst class_loop.simps) simp
  show ?case
    using al pg(1) stop Nil.prems tables_ok_merge [OF Nil.prems(2) _ _ Nil.prems(3) al(3,7)]
      tables_ok_new [OF Nil.prems(2) _ Nil.prems(3) al(3,7) pg(2-4)] pg(2-4)
    by (subst class_loop.simps) (auto simp: tables_ok_def)
next
  case (Cons t rest)
  obtain pg where pg:
      "psize_loop m s (size_t_of_int (NumMoveSize flag s sdiv 4)) 0 = Some (pg * kPageSize)"
      "s \<le> pg * kPageSize" "pg * kPageSize mod s \<le> pg * kPageSize div 8"
      "NumMoveSize flag s div 4 \<le> int (pg * kPageSize div s)"
    using psize_for_class [of flag s m] assms Cons.prems(1) by auto
  have st: "AlignmentForSize s = Some (t - s)" "s mod (t - s) = 0" "s < t" "s \<le> kMaxSize" "8 dvd s"
      "step_chain (t # rest)" "1024 < s \<longrightarrow> 128 dvd s"
    using Cons.prems(1) by auto
  show ?case
  proof (cases "sc > 1 \<and> pg = c2p ! (sc - 1)
      \<and> (pg * 2 ^ kPageShift) div s = (c2p ! (sc - 1) * 2 ^ kPageShift) div (c2s ! (sc - 1))")
    case True
    then have "class_loop m flag s sc c2s c2p = class_loop m flag t sc (c2s[sc - 1 := s]) c2p"
      using st pg(1) by (subst class_loop.simps) (auto simp: Let_def)
    moreover have "tables_ok flag s sc (c2s[sc - 1 := s]) c2p"
      using tables_ok_merge [OF Cons.prems(2) _ _ Cons.prems(3) st(5,7)] True pg Cons.prems(4) by simp
    ultimately show ?thesis
      using Cons.IH [OF st(6), of s sc] st(3) Cons.prems(4) by simp
  next
    case False
    then have "class_loop m flag s sc c2s c2p
        = class_loop m flag t (sc + 1) (c2s[sc := s]) (c2p[sc := pg])"
      using st pg(1) Cons.prems(4) by (subst class_loop.simps) (auto simp: Let_def)
    moreover have "tables_ok flag s (sc + 1) (c2s[sc := s]) (c2p[sc := pg])"
      using tables_ok_new [OF Cons.prems(2) _ Cons.prems(3) st(5,7) pg(2-4)] Cons.prems(4) by simp
    ultimately show ?thesis
      using Cons.IH [OF st(6), of s "sc + 1"] st(3) Cons.prems(4) by simp
  qed
qed

lemma class_tables:
  assumes "1 \<le> flag" "0 < m" "kPageSize dvd m" "m \<le> 2 ^ 62"
  obtains sc c2s c2p where
    "class_loop m flag kAlignment 1 (replicate kClassSizesMax 0) (replicate kClassSizesMax 0)
       = Some (Inr (sc, c2s, c2p))"
    "tables_ok flag kMaxSize sc c2s c2p" "1 < sc" "sc \<le> kClassSizesMax"
proof -
  have "tables_ok flag 0 1 (replicate kClassSizesMax 0) (replicate kClassSizesMax 0)"
    by (auto simp: tables_ok_def)
  moreover have "size_steps = 8 # tl size_steps" "length size_steps \<le> 127"
    by (simp_all add: size_steps_def)
  ultimately show ?thesis
    using class_loop_returns [OF assms, of 8 "tl size_steps" 0 1 "replicate kClassSizesMax 0"
        "replicate kClassSizesMax 0"] size_steps_chain that by auto
qed

section \<open>The class array\<close>

text \<open>\<open>c\<close> is the smallest class whose objects hold \<open>q\<close> bytes.\<close>

definition best_class :: "nat list \<Rightarrow> nat \<Rightarrow> nat \<Rightarrow> nat \<Rightarrow> bool" where
  "best_class c2s sc q c \<longleftrightarrow> 1 \<le> c \<and> c < sc \<and> (c = 1 \<or> c2s ! (c - 1) < q) \<and> q \<le> c2s ! c"

text \<open>The class array after the writes for the sizes below \<open>n\<close>: the entry of a size
  that no later size below \<open>n\<close> shares holds the best class of that size.\<close>

definition filled :: "nat list \<Rightarrow> nat \<Rightarrow> nat \<Rightarrow> nat list \<Rightarrow> bool" where
  "filled c2s sc n arr \<longleftrightarrow> length arr = kClassArraySize \<and>
     (\<forall>y. 8 dvd y \<and> y < n
        \<and> (\<forall>x. 8 dvd x \<and> y < x \<and> x < n \<longrightarrow> ClassIndex (of_nat x) \<noteq> ClassIndex (of_nat y))
        \<longrightarrow> best_class c2s sc y (arr ! ClassIndex (of_nat y)))"

lemma ClassIndex_bound: "s \<le> kMaxSize \<Longrightarrow> ClassIndex (of_nat s) < kClassArraySize"
  by (auto simp: ClassIndex_nat less_mult_imp_div_less)

lemma mult8_le: "8 dvd x \<Longrightarrow> 8 dvd y \<Longrightarrow> x < y + 8 \<Longrightarrow> x \<le> (y::nat)"
  by (elim dvdE) simp

lemma filled_step:
  assumes "filled c2s sc s arr" "s \<le> kMaxSize" "8 dvd s" "best_class c2s sc s c" "c < 256"
  shows "filled c2s sc (s + 8) (arr[ClassIndex (of_nat s) := c mod 256])"
  unfolding filled_def
proof (intro conjI allI impI)
  show "length (arr[ClassIndex (of_nat s) := c mod 256]) = kClassArraySize"
    using assms(1) by (simp add: filled_def)
  fix y assume y: "8 dvd y \<and> y < s + 8 \<and> (\<forall>x. 8 dvd x \<and> y < x \<and> x < s + 8
      \<longrightarrow> ClassIndex (of_nat x) \<noteq> ClassIndex (of_nat y))"
  then have "y \<le> s"
    using assms(3) by (intro mult8_le) auto
  show "best_class c2s sc y (arr[ClassIndex (of_nat s) := c mod 256] ! ClassIndex (of_nat y))"
  proof (cases "y = s")
    case True
    then show ?thesis
      using assms ClassIndex_bound [of s] by (simp add: filled_def)
  next
    case False
    with \<open>y \<le> s\<close> y assms(3) have "ClassIndex (of_nat s) \<noteq> ClassIndex (of_nat y)" by auto
    moreover have "best_class c2s sc y (arr ! ClassIndex (of_nat y))"
      using assms(1) y False \<open>y \<le> s\<close> unfolding filled_def by simp
    ultimately show ?thesis by simp
  qed
qed

lemma filled_fill_class:
  "8 dvd mx \<Longrightarrow> mx \<le> kMaxSize \<Longrightarrow> c < 256 \<Longrightarrow> filled c2s sc s arr \<Longrightarrow> 8 dvd s \<Longrightarrow> s \<le> mx + 8
    \<Longrightarrow> \<forall>x. s \<le> x \<and> x \<le> mx \<longrightarrow> best_class c2s sc x c
    \<Longrightarrow> filled c2s sc (mx + 8) (fill_class s mx c arr)"
proof (induction s mx c arr rule: fill_class.induct)
  case (1 s mx c arr)
  show ?case
  proof (cases "s \<le> mx")
    case True
    have "filled c2s sc (s + 8) (arr[ClassIndex (of_nat s) := c mod 256])"
      using "1.prems" True by (intro filled_step) auto
    then show ?thesis
      using "1" True by (subst fill_class.simps) auto
  next
    case False
    then have "s = mx + 8"
      using "1.prems" mult8_le [of "mx + 8" s] by auto
    then show ?thesis
      using "1.prems" by (subst fill_class.simps) auto
  qed
qed

lemma tables_ok_class:
  assumes "tables_ok flag largest sc c2s c2p" "1 \<le> c" "c < sc"
  shows "c2s ! (c - 1) < c2s ! c" "8 dvd c2s ! c" "1024 < c2s ! c \<longrightarrow> 128 dvd c2s ! c"
    "c2s ! c \<le> c2p ! c * kPageSize"
    "c2p ! c * kPageSize mod c2s ! c \<le> c2p ! c * kPageSize div 8"
    "NumMoveSize flag (c2s ! c) div 4 \<le> int (c2p ! c * kPageSize div c2s ! c)"
  using assms unfolding tables_ok_def by blast+

lemma tables_ok_base:
  assumes "tables_ok flag largest sc c2s c2p"
  shows "c2s ! 0 = 0" "c2s ! (sc - 1) = largest" "1 \<le> sc"
    "length c2s = kClassSizesMax" "length c2p = kClassSizesMax"
  using assms unfolding tables_ok_def by blast+

lemma tables_ok_strict_mono:
  assumes "tables_ok flag largest sc c2s c2p"
  shows "d < sc \<Longrightarrow> c < d \<Longrightarrow> c2s ! c < c2s ! d"
proof (induction d)
  case (Suc d)
  have "c2s ! (Suc d - 1) < c2s ! Suc d"
    using assms Suc.prems unfolding tables_ok_def by auto
  with Suc show ?case by (cases "c = d") auto
qed simp

lemma tables_ok_le_largest:
  assumes "tables_ok flag largest sc c2s c2p" "c < sc"
  shows "c2s ! c \<le> largest"
proof (cases "c = sc - 1")
  case False
  with assms have "c < sc - 1" "sc - 1 < sc" by auto
  from tables_ok_strict_mono [OF assms(1) this(2,1)] show ?thesis
    using tables_ok_base(2) [OF assms(1)] by simp
qed (use tables_ok_base(2) [OF assms(1)] in simp)

lemma filled_fill_classes:
  assumes t: "tables_ok flag kMaxSize sc c2s c2p" "sc \<le> kClassSizesMax"
  shows "1 \<le> c \<Longrightarrow> c \<le> sc \<Longrightarrow> xs = take (sc - c) (drop c c2s)
    \<Longrightarrow> n = (if c = 1 then 0 else c2s ! (c - 1) + 8) \<Longrightarrow> filled c2s sc n arr
    \<Longrightarrow> 1 < sc \<Longrightarrow> filled c2s sc (kMaxSize + 8) (fill_classes xs c n arr)"
proof (induction xs arbitrary: c n arr)
  case Nil
  then have "c = sc"
    using t by (auto simp: tables_ok_def)
  with Nil show ?case
    using t by (auto simp: tables_ok_def)
next
  case (Cons x xs)
  have len: "length c2s = kClassSizesMax" using t by (simp add: tables_ok_def)
  have c: "c < sc" using Cons.prems(3) by (cases "sc - c") auto
  have x: "x = c2s ! c" "xs = take (sc - Suc c) (drop (Suc c) c2s)"
    using Cons.prems(3) c t(2) len
    by (auto simp: Cons_nth_drop_Suc [symmetric] Suc_diff_Suc [symmetric])
  have tc: "c2s ! (c - 1) < c2s ! c" "8 dvd c2s ! c"
    using t(1) c Cons.prems(1) unfolding tables_ok_def by auto
  have le: "c2s ! c \<le> kMaxSize"
    using tables_ok_le_largest [OF t(1) c] .
  have "filled c2s sc (x + 8) (fill_class n x c arr)"
  proof (rule filled_fill_class)
    show "8 dvd n"
      using Cons.prems(1,4) tables_ok_class(2) [OF t(1), of "c - 1"] c by auto
    show "\<forall>q. n \<le> q \<and> q \<le> x \<longrightarrow> best_class c2s sc q c"
      using Cons.prems(1,4) c x(1) by (auto simp: best_class_def)
  qed (use Cons.prems x(1) tc le c t(2) in auto)
  then have "filled c2s sc (kMaxSize + 8) (fill_classes xs (Suc c) (x + 8) (fill_class n x c arr))"
    using Cons.prems(1,6) c x by (intro Cons.IH) simp_all
  then show ?case by simp
qed

text \<open>The largest multiple of 8 that shares the class index of \<open>q\<close>.\<close>

definition granule_top :: "nat \<Rightarrow> nat" where
  "granule_top q = (if q \<le> 1024 then (q + 7) div 8 * 8 else (q + 127) div 128 * 128)"

lemma granule_top:
  assumes "q \<le> kMaxSize"
  shows "q \<le> granule_top q" "granule_top q \<le> kMaxSize" "8 dvd granule_top q"
    "ClassIndex (of_nat (granule_top q)) = ClassIndex (of_nat q)"
    "granule_top q < x \<Longrightarrow> 8 dvd x \<Longrightarrow> x \<le> kMaxSize
     \<Longrightarrow> ClassIndex (of_nat x) \<noteq> ClassIndex (of_nat (granule_top q))"
proof -
  show 1: "q \<le> granule_top q"
    unfolding granule_top_def by (simp; linarith)
  show 2: "granule_top q \<le> kMaxSize"
    using assms unfolding granule_top_def by (simp; linarith)
  show 3: "8 dvd granule_top q"
    unfolding granule_top_def by (auto intro: dvd_mult)
  show "ClassIndex (of_nat (granule_top q)) = ClassIndex (of_nat q)"
    using assms 2 unfolding ClassIndex_nat [OF assms] ClassIndex_nat [OF 2]
    unfolding granule_top_def by (simp; linarith)
  show "ClassIndex (of_nat x) \<noteq> ClassIndex (of_nat (granule_top q))"
    if x: "granule_top q < x" "8 dvd x" "x \<le> kMaxSize"
    using assms 2 x unfolding ClassIndex_nat [OF x(3)] ClassIndex_nat [OF 2]
    unfolding granule_top_def by (auto elim!: dvdE split: if_splits)
qed


lemma class_array_best:
  assumes t: "tables_ok flag kMaxSize sc c2s c2p" "1 < sc" "sc \<le> kClassSizesMax"
    and q: "q \<le> kMaxSize"
  defines "arr \<equiv> fill_classes (take (sc - 1) (drop 1 c2s)) 1 0 (replicate kClassArraySize 0)"
  shows "best_class c2s sc q (arr ! ClassIndex (of_nat q))"
proof -
  let ?y = "granule_top q"
  let ?c = "arr ! ClassIndex (of_nat q)"
  note g = granule_top [OF q]
  have "filled c2s sc 0 (replicate kClassArraySize 0)"
    by (simp add: filled_def)
  then have f: "filled c2s sc (kMaxSize + 8) arr"
    unfolding arr_def using filled_fill_classes [OF t(1,3), of 1] t(2) by simp
  have "ClassIndex (of_nat x) \<noteq> ClassIndex (of_nat ?y)" if "8 dvd x" "?y < x" "x < kMaxSize + 8" for x
    using g(5) [of x] that mult8_le [of x kMaxSize] by simp
  with f g(2,3) have "best_class c2s sc ?y (arr ! ClassIndex (of_nat ?y))"
    unfolding filled_def by auto
  then have b: "1 \<le> ?c" "?c < sc" "?c = 1 \<or> c2s ! (?c - 1) < ?y" "?y \<le> c2s ! ?c"
    by (simp_all add: best_class_def g(4))
  have "?c = 1 \<or> c2s ! (?c - 1) < q"
  proof (cases "?c = 1")
    case False
    with b have c: "1 \<le> ?c - 1" "?c - 1 < sc" by auto
    obtain z where z: "c2s ! (?c - 1) = z" "8 dvd z" "1024 < z \<longrightarrow> 128 dvd z" "z < ?y"
      using tables_ok_class(2,3) [OF t(1) c] b(3) False by blast
    have "z < q"
    proof (cases "q \<le> 1024")
      case True
      with z(2,4) show ?thesis by (auto simp: granule_top_def elim!: dvdE)
    next
      case big: False
      show ?thesis
      proof (cases "1024 < z")
        case True
        with z(3) have "128 dvd z" by simp
        with z(4) big show ?thesis by (auto simp: granule_top_def elim!: dvdE)
      qed (use big in simp)
    qed
    with z(1) show ?thesis by simp
  qed simp
  with b g(1) show ?thesis by (auto simp: best_class_def)
qed

lemma check_sizes_ok:
  assumes "\<And>q. q \<le> kMaxSize \<Longrightarrow> best_class c2s sc q (arr ! ClassIndex (of_nat q))"
    and pos: "\<And>c. 1 \<le> c \<Longrightarrow> c < sc \<Longrightarrow> 0 < c2s ! c"
  shows "check_sizes arr c2s sc q = None"
proof (induction "Suc kMaxSize - q" arbitrary: q rule: less_induct)
  case less
  show ?case
  proof (cases "q \<le> kMaxSize")
    case True
    have b: "best_class c2s sc q (arr ! ClassIndex (of_nat q))"
      using assms(1) True .
    have "check_size arr c2s sc q = None"
      using b pos [of "arr ! ClassIndex (of_nat q)"] by (auto simp: check_size_def best_class_def Let_def)
    then show ?thesis
      using less True by (subst check_sizes.simps) auto
  qed (subst check_sizes.simps, simp)
qed

text \<open>Once the class tables are in order, only the check of the natural alignments can fail.\<close>

lemma SizeMap_Init_eq:
  assumes "class_loop (min_span_size_of native) flag kAlignment 1
      (replicate kClassSizesMax 0) (replicate kClassSizesMax 0) = Some (Inr (sc, c2s, c2p))"
    and "flag = InitTCMallocTransferNumObjects 0 envval"
    and t: "tables_ok flag kMaxSize sc c2s c2p" "1 < sc" "sc \<le> kClassSizesMax"
    and arr: "arr = fill_classes (take (sc - 1) (drop 1 c2s)) 1 0 (replicate kClassArraySize 0)"
  shows "SizeMap_Init native envval =
      (if \<not> check_aligns arr c2s kMinAlign then Some (Inl CheckFailed)
       else Some (Inr \<lparr> class_array = arr,
         num_objects_to_move_tab =
           map (\<lambda>c. if 1 \<le> c \<and> c < sc then NumMoveSize flag (c2s ! c) else 0) [0 ..< kClassSizesMax],
         class_to_size_tab = c2s, class_to_pages_tab = c2p,
         min_span_size_in_pages = min_span_size_of native div kPageSize, num_size_classes = sc \<rparr>))"
proof -
  have "0 < c2s ! c" if "1 \<le> c" "c < sc" for c
    using tables_ok_class(1) [OF t(1) that] by simp
  then have chk: "check_sizes arr c2s sc 0 = None"
    unfolding arr by (intro check_sizes_ok class_array_best [OF t])
  have idx: "ClassIndex 0 = 0" "ClassIndex (of_nat kMaxSize) < kClassArraySize"
    using ClassIndex_nat [of 0] ClassIndex_bound [of kMaxSize] by simp_all
  show ?thesis
    using assms(1,5) chk idx unfolding SizeMap_Init_def Let_def assms(2) [symmetric]
    by (simp add: arr [symmetric] del: One_nat_def kClassSizesMax_def kClassArraySize_def
        kMinAlign_def kPageSize_def kMaxSize_def kAlignment_def)
qed

lemma SizeMap_Init_cases:
  assumes "case envval of None \<Rightarrow> True | Some v \<Rightarrow> 1 \<le> v" and "native \<le> 2 ^ 62"
  obtains (check) "SizeMap_Init native envval = Some (Inl CheckFailed)"
  | (ok) sc c2s c2p arr flag where
      "tables_ok flag kMaxSize sc c2s c2p" "1 < sc" "sc \<le> kClassSizesMax"
      "flag = InitTCMallocTransferNumObjects 0 envval"
      "\<And>q. q \<le> kMaxSize \<Longrightarrow> best_class c2s sc q (arr ! ClassIndex (of_nat q))"
      "SizeMap_Init native envval = Some (Inr \<lparr> class_array = arr,
         num_objects_to_move_tab =
           map (\<lambda>c. if 1 \<le> c \<and> c < sc then NumMoveSize flag (c2s ! c) else 0) [0 ..< kClassSizesMax],
         class_to_size_tab = c2s, class_to_pages_tab = c2p,
         min_span_size_in_pages = min_span_size_of native div kPageSize, num_size_classes = sc \<rparr>)"
proof -
  let ?flag = "InitTCMallocTransferNumObjects 0 envval"
  let ?m = "min_span_size_of native"
  have flag: "1 \<le> ?flag"
    using assms(1) by (auto simp: InitTCMallocTransferNumObjects_def split: option.splits)
  have m: "0 < ?m" "kPageSize dvd ?m" "?m \<le> 2 ^ 62"
    using assms(2) by (auto simp: min_span_size_of_def Let_def max_def)
  obtain sc c2s c2p where t:
      "class_loop ?m ?flag kAlignment 1 (replicate kClassSizesMax 0) (replicate kClassSizesMax 0)
         = Some (Inr (sc, c2s, c2p))"
      "tables_ok ?flag kMaxSize sc c2s c2p" "1 < sc" "sc \<le> kClassSizesMax"
    using class_tables [OF flag m] by blast
  define arr where "arr = fill_classes (take (sc - 1) (drop 1 c2s)) 1 0 (replicate kClassArraySize 0)"
  have best: "best_class c2s sc q (arr ! ClassIndex (of_nat q))" if "q \<le> kMaxSize" for q
    unfolding arr_def using class_array_best [OF t(2-4) that] .
  note eq = SizeMap_Init_eq [OF t(1) refl t(2-4) arr_def]
  show ?thesis
  proof (cases "check_aligns arr c2s kMinAlign")
    case True
    then show ?thesis
      using eq by (intro ok [OF t(2-4) refl best]) simp_all
  next
    case False
    then show ?thesis
      using eq check by simp
  qed
qed

end
