(* ===== verification/SizeMap_Default.thy ===== *)
theory SizeMap_Default
  imports SizeMap
begin

text \<open>
  The size classes of the default build: a 4096-byte system page, and no
  \<open>TCMALLOC_TRANSFER_NUM_OBJ\<close> in the environment.  \<open>SizeMap::Init\<close> is evaluated on them.
\<close>

section \<open>The default configuration\<close>

definition default_class_sizes :: "nat list" where
  "default_class_sizes = [
    0, 8, 16, 32, 48, 64, 80, 96, 112, 128, 144, 160, 176, 192, 208, 224, 240, 256, 288, 320,
    352, 384, 416, 448, 480, 512, 576, 640, 704, 768, 896, 1024, 1152, 1280, 1408, 1536, 1792,
    2048, 2304, 2560, 2816, 3072, 3328, 4096, 4608, 5120, 6144, 6656, 8192, 9216, 10240,
    12288, 13312, 16384, 20480, 24576, 26624, 32768, 40960, 49152, 57344, 65536, 73728, 81920,
    90112, 98304, 106496, 114688, 122880, 131072, 139264, 147456, 155648, 163840, 172032,
    180224, 188416, 196608, 204800, 212992, 221184, 229376, 237568, 245760, 253952, 262144]"

definition default_class_pages :: "nat list" where
  "default_class_pages = [
    0, 1, 1, 1, 1, 1, 1, 1, 1, 1, 1, 1, 1, 1, 1, 1, 1, 1, 1, 1, 1, 1, 1, 1, 1, 1, 1, 1, 1, 1,
    1, 1, 2, 2, 2, 2, 2, 2, 2, 2, 3, 2, 3, 2, 3, 2, 3, 5, 2, 5, 4, 3, 5, 2, 5, 3, 7, 4, 5, 6,
    7, 8, 9, 10, 11, 12, 13, 14, 15, 16, 17, 18, 19, 20, 21, 22, 23, 24, 25, 26, 27, 28, 29,
    30, 31, 32]"

lemma replicate_numeral: "replicate (numeral k) x = x # replicate (pred_numeral k) x"
  by (simp add: numeral_eq_Suc)

lemma list_update_Cons_numeral: "(x # xs)[numeral k := v] = x # xs[pred_numeral k := v]"
  by (simp add: numeral_eq_Suc)

lemmas class_loop_eval = class_loop.simps psize_loop.simps psize_while.simps
  AlignmentForSize_def LgFloor_eval NumMoveSize_def size_t_of_int_def signed_divide_int_def Let_def
  default_class_sizes_def default_class_pages_def replicate_numeral list_update_Cons_numeral

lemma class_loop_default:
  "class_loop 8192 32 8 1 (replicate 128 0) (replicate 128 0)
     = Some (Inr (86, default_class_sizes @ replicate 42 0, default_class_pages @ replicate 42 0))"
  by (simp add: class_loop_eval)

text \<open>Neighbouring class sizes \<open>x < y\<close> with a multiple of \<open>align\<close> between them: the larger one
  must be a multiple itself.\<close>

fun neighbours_aligned :: "nat \<Rightarrow> nat list \<Rightarrow> bool" where
  "neighbours_aligned align (x # y # rest) \<longleftrightarrow>
     (x < y div align * align \<longrightarrow> y mod align = 0) \<and> neighbours_aligned align (y # rest)"
| "neighbours_aligned align _ \<longleftrightarrow> True"

lemma neighbours_alignedD:
  "neighbours_aligned align xs \<Longrightarrow> Suc c < length xs
   \<Longrightarrow> xs ! c < xs ! Suc c div align * align \<Longrightarrow> xs ! Suc c mod align = 0"
proof (induction align xs arbitrary: c rule: neighbours_aligned.induct)
  case (1 align x y rest)
  then show ?case by (cases c) auto
qed auto

lemma check_multiples_ok:
  assumes best: "\<And>q. q \<le> kMaxSize \<Longrightarrow> best_class c2s sc q (arr ! ClassIndex (of_nat q))"
    and al: "neighbours_aligned align (take sc c2s)" "c2s ! 0 = 0" "sc \<le> length c2s" "0 < align"
  shows "0 < q \<Longrightarrow> align dvd q \<Longrightarrow> check_multiples arr c2s align q"
proof (induction "kPageSize - q" arbitrary: q rule: less_induct)
  case less
  show ?case
  proof (cases "q < kPageSize")
    case True
    let ?c = "arr ! ClassIndex (of_nat q)"
    have b: "1 \<le> ?c" "?c < sc" "?c = 1 \<or> c2s ! (?c - 1) < q" "q \<le> c2s ! ?c"
      using best [of q] True by (auto simp: best_class_def)
    then have lt: "c2s ! (?c - 1) < q" using al(2) less.prems by auto
    have "q div align * align \<le> c2s ! ?c div align * align"
      using b(4) by (intro mult_le_mono1 div_le_mono)
    then have "c2s ! (?c - 1) < c2s ! ?c div align * align"
      using lt less.prems(2) by simp
    then have "c2s ! ?c mod align = 0"
      using neighbours_alignedD [OF al(1), of "?c - 1"] b(1,2) al(3) by simp
    then show ?thesis
      using less True al(4) by (subst check_multiples.simps) auto
  qed (subst check_multiples.simps, simp)
qed

lemma default_neighbours_aligned:
  "neighbours_aligned 16 default_class_sizes" "neighbours_aligned 32 default_class_sizes"
  "neighbours_aligned 64 default_class_sizes" "neighbours_aligned 128 default_class_sizes"
  "neighbours_aligned 256 default_class_sizes" "neighbours_aligned 512 default_class_sizes"
  "neighbours_aligned 1024 default_class_sizes" "neighbours_aligned 2048 default_class_sizes"
  "neighbours_aligned 4096 default_class_sizes" "neighbours_aligned 8192 default_class_sizes"
  by (simp_all add: default_class_sizes_def)

lemma check_aligns_default:
  assumes best: "\<And>q. q \<le> kMaxSize \<Longrightarrow> best_class c2s 86 q (arr ! ClassIndex (of_nat q))"
    and c2s: "c2s = default_class_sizes @ replicate 42 0"
  shows "check_aligns arr c2s kMinAlign"
proof -
  have t: "take 86 c2s = default_class_sizes" "c2s ! 0 = 0" "86 \<le> length c2s"
    by (simp_all add: c2s default_class_sizes_def)
  have m: "check_multiples arr c2s a a" if "neighbours_aligned a default_class_sizes" "0 < a" for a
    using that t by (intro check_multiples_ok [OF best]) simp_all
  show ?thesis
    by (simp add: check_aligns.simps m default_neighbours_aligned)
qed

end
