(* ===== verification/SizeMap_Props.thy ===== *)
theory SizeMap_Props
  imports SizeMap_Default
begin

text \<open>
  The properties of the size classes: what \<open>SizeMap::Init\<close> returns, what its tables give the
  callers of \<open>SizeClass\<close>, \<open>GetSizeClass\<close>, \<open>ByteSizeForClass\<close> and \<open>class_to_pages\<close>, and the
  values of \<open>TCMALLOC_TRANSFER_NUM_OBJ\<close> for which it does not return.
\<close>

section \<open>What \<open>Init\<close> guarantees\<close>

lemma SizeMap_Init_default:
  obtains sm where "SizeMap_Init 4096 None = Some (Inr sm)" "num_size_classes sm = 86"
    "class_to_size_tab sm = default_class_sizes @ replicate 42 0"
    "class_to_pages_tab sm = default_class_pages @ replicate 42 0"
proof -
  let ?c2s = "default_class_sizes @ replicate 42 (0::nat)"
  define arr where "arr = fill_classes (take 85 (drop 1 ?c2s)) 1 0 (replicate kClassArraySize 0)"
  have env: "InitTCMallocTransferNumObjects 0 None = 32" "min_span_size_of 4096 = 8192"
    by (simp_all add: InitTCMallocTransferNumObjects_def min_span_size_of_def)
  obtain sc c2s c2p where t:
      "class_loop 8192 32 kAlignment 1 (replicate kClassSizesMax 0) (replicate kClassSizesMax 0)
         = Some (Inr (sc, c2s, c2p))" "tables_ok 32 kMaxSize sc c2s c2p"
    by (rule class_tables [of 32 8192]) simp_all
  with class_loop_default have e: "sc = 86" "c2s = ?c2s" "c2p = default_class_pages @ replicate 42 0"
    by simp_all
  have best: "best_class ?c2s 86 q (arr ! ClassIndex (of_nat q))" if "q \<le> kMaxSize" for q
    using class_array_best [OF t(2) _ _ that] unfolding arr_def e by simp
  have le: "86 \<le> kClassSizesMax" by simp
  have "SizeMap_Init 4096 None = Some (Inr \<lparr> class_array = arr,
      num_objects_to_move_tab =
        map (\<lambda>c. if 1 \<le> c \<and> c < 86 then NumMoveSize 32 (?c2s ! c) else 0) [0 ..< kClassSizesMax],
      class_to_size_tab = ?c2s, class_to_pages_tab = default_class_pages @ replicate 42 0,
      min_span_size_in_pages = 8192 div kPageSize, num_size_classes = 86 \<rparr>)"
    using SizeMap_Init_eq [of 4096 32 86 ?c2s _ None arr] le t check_aligns_default [OF best refl]
    unfolding arr_def env e
    by (simp del: One_nat_def kClassSizesMax_def kClassArraySize_def kMinAlign_def kPageSize_def
      kMaxSize_def kAlignment_def append_take_drop_id take_append drop_append)
  then show ?thesis by (rule that) simp_all
qed

text \<open>The environments in which \<open>Init\<close> is meant to run: \<open>TCMALLOC_TRANSFER_NUM_OBJ\<close> is unset or
  positive, and the system page is not astronomically large.\<close>

definition init_env :: "nat \<Rightarrow> int option \<Rightarrow> bool" where
  "init_env native_page_size envval \<longleftrightarrow>
     (case envval of None \<Rightarrow> True | Some v \<Rightarrow> 1 \<le> v) \<and> native_page_size \<le> 2 ^ 62"

lemma SizeMap_Init_tables:
  assumes "SizeMap_Init native envval = Some (Inr sm)" "init_env native envval"
  shows "tables_ok (InitTCMallocTransferNumObjects 0 envval) kMaxSize (num_size_classes sm)
      (class_to_size_tab sm) (class_to_pages_tab sm)" (is ?t)
    and "1 < num_size_classes sm" "num_size_classes sm \<le> kClassSizesMax"
    and "q \<le> kMaxSize \<Longrightarrow> best_class (class_to_size_tab sm) (num_size_classes sm) q
      (class_array sm ! ClassIndex (of_nat q))"
    and "1 \<le> c \<Longrightarrow> c < num_size_classes sm \<Longrightarrow> num_objects_to_move sm c
      = NumMoveSize (InitTCMallocTransferNumObjects 0 envval) (class_to_size_tab sm ! c)"
proof -
  have "?t \<and> 1 < num_size_classes sm \<and> num_size_classes sm \<le> kClassSizesMax
    \<and> (\<forall>q \<le> kMaxSize. best_class (class_to_size_tab sm) (num_size_classes sm) q
        (class_array sm ! ClassIndex (of_nat q)))
    \<and> (\<forall>c. 1 \<le> c \<and> c < num_size_classes sm \<longrightarrow> num_objects_to_move sm c
      = NumMoveSize (InitTCMallocTransferNumObjects 0 envval) (class_to_size_tab sm ! c))"
  proof (rule SizeMap_Init_cases [of envval native])
    fix sc c2s c2p arr flag
    assume ok: "tables_ok flag kMaxSize sc c2s c2p" "1 < sc" "sc \<le> kClassSizesMax"
      "flag = InitTCMallocTransferNumObjects 0 envval"
      "\<And>q. q \<le> kMaxSize \<Longrightarrow> best_class c2s sc q (arr ! ClassIndex (of_nat q))"
      "SizeMap_Init native envval = Some (Inr \<lparr> class_array = arr,
         num_objects_to_move_tab =
           map (\<lambda>c. if 1 \<le> c \<and> c < sc then NumMoveSize flag (c2s ! c) else 0) [0 ..< kClassSizesMax],
         class_to_size_tab = c2s, class_to_pages_tab = c2p,
         min_span_size_in_pages = min_span_size_of native div kPageSize, num_size_classes = sc \<rparr>)"
    then have "sm = \<lparr> class_array = arr,
         num_objects_to_move_tab =
           map (\<lambda>c. if 1 \<le> c \<and> c < sc then NumMoveSize flag (c2s ! c) else 0) [0 ..< kClassSizesMax],
         class_to_size_tab = c2s, class_to_pages_tab = c2p,
         min_span_size_in_pages = min_span_size_of native div kPageSize, num_size_classes = sc \<rparr>"
      using assms(1) by simp
    with ok show ?thesis
      by (simp add: num_objects_to_move_def del: upt_rec_numeral)
  qed (use assms in \<open>auto simp: init_env_def\<close>)
  then show ?t "1 < num_size_classes sm" "num_size_classes sm \<le> kClassSizesMax"
    "q \<le> kMaxSize \<Longrightarrow> best_class (class_to_size_tab sm) (num_size_classes sm) q
      (class_array sm ! ClassIndex (of_nat q))"
    "1 \<le> c \<Longrightarrow> c < num_size_classes sm \<Longrightarrow> num_objects_to_move sm c
      = NumMoveSize (InitTCMallocTransferNumObjects 0 envval) (class_to_size_tab sm ! c)"
    by blast+
qed

lemma SizeClass_best:
  assumes "SizeMap_Init native envval = Some (Inr sm)" "init_env native envval"
    and "sz \<le> of_nat kMaxSize"
  shows "best_class (class_to_size_tab sm) (num_size_classes sm) (unat sz) (SizeClass sm sz)"
proof -
  have "unat sz \<le> kMaxSize"
    using assms(3) by (simp add: word_le_nat_alt)
  from SizeMap_Init_tables(4) [OF assms(1,2) this] show ?thesis
    by (simp add: SizeClass_def)
qed

lemma best_class_least:
  assumes "tables_ok flag largest sc c2s c2p" "best_class c2s sc q c"
    and "1 \<le> d" "d < sc" "q \<le> c2s ! d"
  shows "c \<le> d"
proof (rule ccontr)
  assume "\<not> c \<le> d"
  moreover from this have "d = c - 1 \<or> c2s ! d < c2s ! (c - 1)"
    using assms(2) by (cases "d = c - 1")
      (auto simp: best_class_def intro!: tables_ok_strict_mono [OF assms(1)])
  ultimately show False
    using assms(2-) unfolding best_class_def by auto
qed

text \<open>C28. After \<open>SizeMap::Init\<close>, \<open>SizeClass\<close> gives every request of at most \<open>kMaxSize\<close> bytes the
  smallest size class whose objects hold it: the class is a valid one, its objects are large
  enough, and no smaller class has objects that large.\<close>

theorem SizeClass_best_fit:
  assumes "SizeMap_Init native envval = Some (Inr sm)" "init_env native envval"
    and "sz \<le> of_nat kMaxSize"
  shows "1 \<le> SizeClass sm sz \<and> SizeClass sm sz < num_size_classes sm
    \<and> unat sz \<le> ByteSizeForClass sm (SizeClass sm sz)
    \<and> (\<forall>c. 1 \<le> c \<and> c < num_size_classes sm \<and> unat sz \<le> ByteSizeForClass sm c
           \<longrightarrow> SizeClass sm sz \<le> c)"
proof -
  note b = SizeClass_best [OF assms]
  have "SizeClass sm sz \<le> c" if "1 \<le> c \<and> c < num_size_classes sm \<and> unat sz \<le> ByteSizeForClass sm c" for c
    using best_class_least [OF SizeMap_Init_tables(1) [OF assms(1,2)] b, of c] that
    by (simp add: ByteSizeForClass_def)
  with b show ?thesis
    unfolding best_class_def ByteSizeForClass_def by blast
qed

theorem SizeClass_best_fit_witness:
  "\<exists>sm. SizeMap_Init 4096 None = Some (Inr sm) \<and> 1 \<le> SizeClass sm 100
     \<and> 100 \<le> ByteSizeForClass sm (SizeClass sm 100) \<and> SizeClass sm 100 \<le> 8"
proof -
  obtain sm where sm: "SizeMap_Init 4096 None = Some (Inr sm)" "num_size_classes sm = 86"
      "class_to_size_tab sm = default_class_sizes @ replicate 42 0"
    by (rule SizeMap_Init_default)
  have env: "init_env 4096 None" by (simp add: init_env_def)
  have "(100 :: u64) \<le> of_nat kMaxSize" by (simp add: word_le_nat_alt)
  note b = SizeClass_best_fit [OF sm(1) env this]
  have "100 \<le> ByteSizeForClass sm 8"
    by (simp add: ByteSizeForClass_def sm(3) default_class_sizes_def)
  with sm(1,2) b show ?thesis by auto
qed




text \<open>C30. Every size class has usable spans: its span holds at least one object and at least a
  quarter of a transfer batch, the bytes left over at the end are at most an eighth of the span,
  and the object size is a multiple of 8 that grows strictly with the class.\<close>

theorem class_spans_usable:
  assumes "SizeMap_Init native envval = Some (Inr sm)" "init_env native envval"
    and "1 \<le> c" "c < num_size_classes sm"
  shows "0 < ByteSizeForClass sm c \<and> 8 dvd ByteSizeForClass sm c
    \<and> ByteSizeForClass sm c \<le> class_to_pages sm c * kPageSize
    \<and> class_to_pages sm c * kPageSize mod ByteSizeForClass sm c
        \<le> class_to_pages sm c * kPageSize div 8
    \<and> num_objects_to_move sm c div 4
        \<le> int (class_to_pages sm c * kPageSize div ByteSizeForClass sm c)
    \<and> (\<forall>d < c. ByteSizeForClass sm d < ByteSizeForClass sm c)"
proof -
  note t = SizeMap_Init_tables [OF assms(1,2)]
  have "ByteSizeForClass sm d < ByteSizeForClass sm c" if "d < c" for d
    using tables_ok_strict_mono [OF t(1) assms(4) that] by (simp add: ByteSizeForClass_def)
  with tables_ok_class [OF t(1) assms(3,4)] show ?thesis
    unfolding ByteSizeForClass_def class_to_pages_def t(5) [OF assms(3,4)] by auto
qed

theorem class_spans_usable_witness:
  "\<exists>sm. SizeMap_Init 4096 None = Some (Inr sm)
     \<and> class_to_pages sm 46 * kPageSize mod ByteSizeForClass sm 46 \<le> class_to_pages sm 46 * kPageSize div 8"
proof -
  obtain sm where sm: "SizeMap_Init 4096 None = Some (Inr sm)" "num_size_classes sm = 86"
    by (rule SizeMap_Init_default)
  have "init_env 4096 None" by (simp add: init_env_def)
  from class_spans_usable [OF sm(1) this, of 46] sm show ?thesis by auto
qed

lemma ClassIndexMaybe_ClassIndex:
  "ClassIndexMaybe s = (if s \<le> of_nat kMaxSize
     then Some (if s \<le> of_nat kMaxSmallSize then SmallSizeClass s else LargeSizeClass s) else None)"
proof -
  have "s \<le> of_nat kMaxSmallSize \<Longrightarrow> s \<le> of_nat kMaxSize"
    by (simp add: word_le_nat_alt)
  then show ?thesis
    unfolding ClassIndexMaybe_def SmallSizeClass_def LargeSizeClass_def by simp
qed

text \<open>\<open>GetSizeClass\<close> succeeds exactly on the sizes up to \<open>kMaxSize\<close>, for all 64-bit sizes (the
  32-bit arithmetic of the index never lets a larger size through), and then agrees with
  \<open>SizeClass\<close>.\<close>

lemma GetSizeClass_SizeClass:
  "GetSizeClass sm sz = (if unat sz \<le> kMaxSize then Some (SizeClass sm sz) else None)"
proof -
  have "(sz \<le> of_nat kMaxSize) = (unat sz \<le> kMaxSize)"
    by (simp add: word_le_nat_alt)
  then show ?thesis
    unfolding GetSizeClass_def ClassIndexMaybe_ClassIndex SizeClass_def ClassIndex_def by simp
qed

text \<open>\<open>pages\<close> rounds a byte count up to whole pages, for every 64-bit count: the result is the
  least number of pages that holds the bytes, and it does not wrap around.\<close>

lemma pages_round_up:
  "unat (pages bytes) = (unat bytes + kPageSize - 1) div kPageSize"
proof -
  let ?b = "unat bytes"
  have m: "(bytes AND (of_nat kPageSize - 1) > 0) = (?b mod 8192 \<noteq> 0)"
  proof -
    have e: "of_nat kPageSize - 1 = (mask 13 :: u64)"
      by (simp add: mask_eq_exp_minus_1)
    have "unat (bytes AND (of_nat kPageSize - 1)) = ?b mod 8192"
      unfolding e unat_and_mask by simp
    then show ?thesis
      by (metis unat_eq_zero word_neq_0_conv)
  qed
  have d: "unat (drop_bit 13 bytes) = ?b div 8192"
    unfolding unat_drop_bit by simp
  have "?b < 2 ^ 64" using unsigned_less [of bytes] by simp
  then have "?b div 8192 < 2 ^ 51" by simp
  then have "unat (drop_bit 13 bytes + 1) = ?b div 8192 + 1"
    using d by (subst unat_add_lem [THEN iffD1]) simp_all
  then show ?thesis
    unfolding pages_def m using d ceil_div_nat [of 8192 ?b] by simp
qed

section \<open>Transfer limits for which \<open>Init\<close> does not return\<close>

lemma psize_while_lt: "psize_while m s p = Some q \<Longrightarrow> p < 2 ^ 64 \<longrightarrow> q < 2 ^ 64"
proof (rule psize_while.raw_induct [of "\<lambda>m s p q. p < 2 ^ 64 \<longrightarrow> q < 2 ^ 64"])
  fix rec and m s p q :: nat
  assume IH: "\<And>m s p q. rec m s p = Some q \<Longrightarrow> p < 2 ^ 64 \<longrightarrow> q < 2 ^ 64"
    and body: "(if p div 8 < p mod s then rec m s ((p + m) mod 2 ^ 64) else Some p) = Some q"
  show "p < 2 ^ 64 \<longrightarrow> q < 2 ^ 64"
  proof (cases "p div 8 < p mod s")
    case True
    have "(p + m) mod 2 ^ 64 < (2::nat) ^ 64" by (rule mod_less_divisor) simp
    with IH [of m s "(p + m) mod 2 ^ 64" q] body True show ?thesis by presburger
  qed (use body in simp)
qed

lemma psize_loop_stops: "psize_loop m s b p = Some q \<Longrightarrow> b \<le> q div s \<and> q < 2 ^ 64"
proof (rule psize_loop.raw_induct [of "\<lambda>m s b p q. b \<le> q div s \<and> q < 2 ^ 64"])
  fix rec and m s b p q :: nat
  assume IH: "\<And>m s b p q. rec m s b p = Some q \<Longrightarrow> b \<le> q div s \<and> q < 2 ^ 64"
    and body: "do { p \<leftarrow> psize_while m s ((p + m) mod 2 ^ 64);
      if p div s < b then rec m s b p else Some p } = Some q"
  from body obtain r where r: "psize_while m s ((p + m) mod 2 ^ 64) = Some r"
      "(if r div s < b then rec m s b r else Some r) = Some q"
    by (auto simp: bind_eq_Some_conv)
  have "(p + m) mod 2 ^ 64 < (2::nat) ^ 64" by (rule mod_less_divisor) simp
  with psize_while_lt [OF r(1)] have "r < 2 ^ 64" by blast
  with r(2) IH [of m s b r q] show "b \<le> q div s \<and> q < 2 ^ 64"
    by (cases "r div s < b") auto
qed

lemma blocks_to_move_negative:
  assumes "- (2 ^ 31) \<le> v" "v \<le> - 4"
  shows "2 ^ 63 \<le> size_t_of_int (NumMoveSize v 8 sdiv 4)"
proof -
  have "NumMoveSize v 8 = v" using assms by (simp add: NumMoveSize_def)
  moreover have "v sdiv 4 < 0" "- (2 ^ 63) \<le> v sdiv 4"
    using assms by (auto simp: signed_divide_int_def sgn_if; linarith)+
  ultimately show ?thesis using size_t_of_int_neg [of "v sdiv 4"] by simp
qed

text \<open>C31. With \<open>TCMALLOC_TRANSFER_NUM_OBJ\<close> set to -4 or less (an \<open>int\<close>), the allocator never finishes
  its initialisation: the quotient by 4 is negative, its conversion to \<open>size_t\<close> is larger than
  any number of objects, and the loop that chooses the span size of the first class runs
  forever.\<close>

theorem SizeMap_Init_diverges:
  assumes "- (2 ^ 31) \<le> v" "v \<le> - 4"
  shows "SizeMap_Init native (Some v) = None"
proof -
  let ?b = "size_t_of_int (NumMoveSize v 8 sdiv 4)"
  have "psize_loop m 8 ?b 0 = None" for m
  proof (rule ccontr)
    assume "psize_loop m 8 ?b 0 \<noteq> None"
    then obtain q where "?b \<le> q div 8" "q < 2 ^ 64"
      using psize_loop_stops [of m 8 ?b 0] by auto
    with blocks_to_move_negative [OF assms] show False by simp
  qed
  moreover have "AlignmentForSize 8 = Some 8"
    by (simp add: AlignmentForSize_def)
  ultimately have "class_loop m v kAlignment 1 c2s c2p = None" for m c2s c2p
    by (subst class_loop.simps) simp
  moreover have "InitTCMallocTransferNumObjects 0 (Some v) = v"
    by (simp add: InitTCMallocTransferNumObjects_def)
  moreover have "ClassIndex 0 = 0" "ClassIndex (of_nat kMaxSize) < kClassArraySize"
    using ClassIndex_nat [of 0] ClassIndex_bound [of kMaxSize] by simp_all
  ultimately show ?thesis
    unfolding SizeMap_Init_def Let_def by simp
qed

theorem SizeMap_Init_diverges_witness: "SizeMap_Init 4096 (Some (- 4)) = None"
  by (rule SizeMap_Init_diverges) simp_all

end
