(* ===== verification/PageMap.thy ===== *)
theory PageMap
  imports Prelude
begin

text \<open>
  The page maps of \<^verbatim>\<open>src/pagemap.h\<close>: the flat array \<open>TCMalloc_PageMap1\<close> and the radix trees
  \<open>TCMalloc_PageMap2\<close> and \<open>TCMalloc_PageMap3\<close>, for every value of the template parameter \<open>BITS\<close>.
  A stored \<open>void*\<close> is an \<open>option\<close> (\<open>None\<close> is \<open>NULL\<close>), a node is a function on indices (the
  zeroed node is the empty map), and the memory allocator is a function on a state that
  says whether it returned memory and gives its next state.  \<open>set\<close> gives \<open>None\<close> where the code would follow a null or
  out-of-range node pointer.  The locale \<open>page_map\<close> is the contract the page heap relies on;
  the three maps are interpretations of it.
\<close>

section \<open>The reference for \<open>Next\<close>\<close>

text \<open>The first value at or after \<open>k\<close> below \<open>n\<close>, searched one key at a time.\<close>

function first_from :: "(nat \<Rightarrow> 'v option) \<Rightarrow> nat \<Rightarrow> nat \<Rightarrow> 'v option" where
  "first_from f n k =
     (if k < n then (case f k of Some v \<Rightarrow> Some v | None \<Rightarrow> first_from f n (k + 1)) else None)"
  by pat_completeness auto
termination
  by (relation "measure (\<lambda>(f, n, k). n - k)") auto

declare first_from.simps [simp del]

lemma first_from_skip:
  "k \<le> k' \<Longrightarrow> (\<And>j. k \<le> j \<Longrightarrow> j < k' \<Longrightarrow> j < n \<Longrightarrow> f j = None) \<Longrightarrow> first_from f n k = first_from f n k'"
proof (induction f n k rule: first_from.induct)
  case (1 f n k)
  show ?case
  proof (cases "k < n \<and> k < k'")
    case True
    then have "f k = None" using "1.prems"(2) [of k] by simp
    moreover have "first_from f n (k + 1) = first_from f n k'"
      using "1.IH" \<open>f k = None\<close> "1.prems" True by auto
    ultimately show ?thesis using True by (subst first_from.simps) simp
  next
    case False
    then show ?thesis
      using "1.prems"(1) by (cases "k = k'") (auto simp: first_from.simps [of f n])
  qed
qed

lemma first_from_cong:
  "(\<And>j. k \<le> j \<Longrightarrow> j < n \<Longrightarrow> f j = g j) \<Longrightarrow> first_from f n k = first_from g n k"
proof (induction f n k rule: first_from.induct)
  case (1 f n k)
  then show ?case
    by (subst (1 2) first_from.simps) (auto split: option.splits)
qed

lemma first_from_none: "first_from f n k = None \<longleftrightarrow> (\<forall>j. k \<le> j \<and> j < n \<longrightarrow> f j = None)"
proof (induction f n k rule: first_from.induct)
  case (1 f n k)
  show ?case
  proof (cases "k < n \<and> f k = None")
    case True
    then have "first_from f n k = first_from f n (k + 1)"
      by (subst first_from.simps) simp
    with 1 True have "first_from f n k = None \<longleftrightarrow> (\<forall>j. k + 1 \<le> j \<and> j < n \<longrightarrow> f j = None)"
      by simp
    also have "\<dots> \<longleftrightarrow> (\<forall>j. k \<le> j \<and> j < n \<longrightarrow> f j = None)"
      using True by (metis Suc_eq_plus1 Suc_leD le_eq_less_or_eq Suc_leI)
    finally show ?thesis .
  next
    case False
    then show ?thesis
      by (subst first_from.simps) (auto split: option.splits)
  qed
qed

section \<open>\<open>TCMalloc_PageMap1\<close>\<close>

record 'v PageMap1 =
  array1 :: "nat \<Rightarrow> 'v option"

definition PageMap1_init :: "'v PageMap1" where
  "PageMap1_init = \<lparr> array1 = (\<lambda>_. None) \<rparr>"

text \<open>\<open>LENGTH - x\<close> is computed in \<open>uintptr_t\<close>.\<close>

definition PageMap1_Ensure :: "nat \<Rightarrow> 'v PageMap1 \<Rightarrow> nat \<Rightarrow> nat \<Rightarrow> bool \<times> 'v PageMap1" where
  "PageMap1_Ensure BITS pm x n = (n \<le> (2 ^ BITS + 2 ^ 64 - x) mod 2 ^ 64, pm)"

definition PageMap1_get :: "nat \<Rightarrow> 'v PageMap1 \<Rightarrow> nat \<Rightarrow> 'v option" where
  "PageMap1_get BITS pm k = (if k div 2 ^ BITS > 0 then None else array1 pm k)"

definition PageMap1_set :: "nat \<Rightarrow> 'v PageMap1 \<Rightarrow> nat \<Rightarrow> 'v option \<Rightarrow> 'v PageMap1 option" where
  "PageMap1_set BITS pm k v = (if k < 2 ^ BITS then Some (pm\<lparr> array1 := (array1 pm)(k := v) \<rparr>) else None)"

function PageMap1_Next :: "nat \<Rightarrow> 'v PageMap1 \<Rightarrow> nat \<Rightarrow> 'v option" where
  "PageMap1_Next BITS pm k =
     (if k < 2 ^ BITS then
        if array1 pm k \<noteq> None then array1 pm k else PageMap1_Next BITS pm (k + 1)
      else None)"
  by pat_completeness auto
termination
  by (relation "measure (\<lambda>(b, pm, k). 2 ^ b - k)") auto

declare PageMap1_Next.simps [simp del]

section \<open>\<open>TCMalloc_PageMap2\<close>\<close>

record ('a, 'v) PageMap2 =
  root2 :: "nat \<Rightarrow> (nat \<Rightarrow> 'v option) option"
  allocator2 :: "'a \<Rightarrow> bool \<times> 'a"
  astate2 :: 'a

definition LEAF_BITS2 :: "nat \<Rightarrow> nat" where
  "LEAF_BITS2 BITS = (BITS + 1) div 2"

definition ROOT_LENGTH2 :: "nat \<Rightarrow> nat" where
  "ROOT_LENGTH2 BITS = 2 ^ (BITS - LEAF_BITS2 BITS)"

definition PageMap2_init :: "('a \<Rightarrow> bool \<times> 'a) \<Rightarrow> 'a \<Rightarrow> ('a, 'v) PageMap2" where
  "PageMap2_init allocator a = \<lparr> root2 = (\<lambda>_. None), allocator2 = allocator, astate2 = a \<rparr>"

definition PageMap2_get :: "nat \<Rightarrow> ('a, 'v) PageMap2 \<Rightarrow> nat \<Rightarrow> 'v option" where
  "PageMap2_get BITS pm k =
     (let i1 = k div 2 ^ LEAF_BITS2 BITS; i2 = k mod 2 ^ LEAF_BITS2 BITS
      in if k div 2 ^ BITS > 0 then None
         else case root2 pm i1 of None \<Rightarrow> None | Some leaf \<Rightarrow> leaf i2)"

definition PageMap2_set :: "nat \<Rightarrow> ('a, 'v) PageMap2 \<Rightarrow> nat \<Rightarrow> 'v option \<Rightarrow> ('a, 'v) PageMap2 option" where
  "PageMap2_set BITS pm k v =
     (let i1 = k div 2 ^ LEAF_BITS2 BITS; i2 = k mod 2 ^ LEAF_BITS2 BITS
      in if i1 < ROOT_LENGTH2 BITS then
           (case root2 pm i1 of
              None \<Rightarrow> None
            | Some leaf \<Rightarrow> Some (pm\<lparr> root2 := (root2 pm)(i1 \<mapsto> leaf(i2 := v)) \<rparr>))
         else None)"

text \<open>One call of the allocator.\<close>

definition PageMap2_allocate :: "('a, 'v) PageMap2 \<Rightarrow> bool \<times> ('a, 'v) PageMap2" where
  "PageMap2_allocate pm =
     (case allocator2 pm (astate2 pm) of (ok, a) \<Rightarrow> (ok, pm\<lparr> astate2 := a \<rparr>))"

text \<open>Makes the leaf for root entry \<open>i1\<close> if it is missing; \<open>False\<close> when the allocator fails.\<close>

definition PageMap2_make_leaf :: "('a, 'v) PageMap2 \<Rightarrow> nat \<Rightarrow> bool \<times> ('a, 'v) PageMap2" where
  "PageMap2_make_leaf pm i1 =
     (if root2 pm i1 = None then
        (case PageMap2_allocate pm of
           (False, pm') \<Rightarrow> (False, pm')
         | (True, pm') \<Rightarrow> (True, pm'\<lparr> root2 := (root2 pm')(i1 \<mapsto> (\<lambda>_. None)) \<rparr>))
      else (True, pm))"

text \<open>The loop of \<open>Ensure\<close>; \<open>final\<close> is \<open>start + n - 1\<close>.  The next key does not wrap around: the
  guard on \<open>i1\<close> keeps it at most \<open>2^BITS\<close>.\<close>

function PageMap2_Ensure_loop :: "nat \<Rightarrow> nat \<Rightarrow> nat \<Rightarrow> ('a, 'v) PageMap2 \<Rightarrow> bool \<times> ('a, 'v) PageMap2" where
  "PageMap2_Ensure_loop BITS final key pm =
     (if key \<le> final then
        let i1 = key div 2 ^ LEAF_BITS2 BITS;
            key' = (key div 2 ^ LEAF_BITS2 BITS + 1) * 2 ^ LEAF_BITS2 BITS
        in if i1 \<ge> ROOT_LENGTH2 BITS then (False, pm)
           else (case PageMap2_make_leaf pm i1 of
                   (False, pm') \<Rightarrow> (False, pm')
                 | (True, pm') \<Rightarrow> PageMap2_Ensure_loop BITS final key' pm')
      else (True, pm))"
  by pat_completeness auto

lemma next_leaf_gt: "key < (key div 2 ^ b + 1) * (2::nat) ^ b"
proof -
  have "key div 2 ^ b * 2 ^ b + key mod 2 ^ b = key" "key mod 2 ^ b < 2 ^ b"
    by (rule div_mult_mod_eq) simp
  then show ?thesis by (simp only: distrib_right mult_1)
qed

termination PageMap2_Ensure_loop
proof (relation "measure (\<lambda>(b, final, key, pm). Suc final - key)", goal_cases)
  case (2 BITS final key pm)
  then show ?case
    using next_leaf_gt [of key "LEAF_BITS2 BITS"] by (simp add: diff_less_mono2)
qed simp

declare PageMap2_Ensure_loop.simps [simp del]

definition PageMap2_Ensure :: "nat \<Rightarrow> ('a, 'v) PageMap2 \<Rightarrow> nat \<Rightarrow> nat \<Rightarrow> bool \<times> ('a, 'v) PageMap2" where
  "PageMap2_Ensure BITS pm start n =
     PageMap2_Ensure_loop BITS ((start + n + (2 ^ 64 - 1)) mod 2 ^ 64) start pm"

definition PageMap2_PreallocateMoreMemory :: "nat \<Rightarrow> ('a, 'v) PageMap2 \<Rightarrow> ('a, 'v) PageMap2" where
  "PageMap2_PreallocateMoreMemory BITS pm =
     (if BITS < 20 then snd (PageMap2_Ensure BITS pm 0 (2 ^ BITS)) else pm)"

text \<open>The scan of one leaf, shared by the two radix trees.\<close>

function scan_leaf :: "(nat \<Rightarrow> 'v option) \<Rightarrow> nat \<Rightarrow> nat \<Rightarrow> 'v option" where
  "scan_leaf leaf len i =
     (if i < len then if leaf i \<noteq> None then leaf i else scan_leaf leaf len (i + 1) else None)"
  by pat_completeness auto
termination
  by (relation "measure (\<lambda>(l, n, i). n - i)") auto

declare scan_leaf.simps [simp del]

function PageMap2_Next :: "nat \<Rightarrow> ('a, 'v) PageMap2 \<Rightarrow> nat \<Rightarrow> 'v option" where
  "PageMap2_Next BITS pm k =
     (if k < 2 ^ BITS then
        let i1 = k div 2 ^ LEAF_BITS2 BITS;
            k' = (i1 + 1) * 2 ^ LEAF_BITS2 BITS
        in case root2 pm i1 of
             None \<Rightarrow> PageMap2_Next BITS pm k'
           | Some leaf \<Rightarrow>
               (case scan_leaf leaf (2 ^ LEAF_BITS2 BITS) (k mod 2 ^ LEAF_BITS2 BITS) of
                  Some v \<Rightarrow> Some v
                | None \<Rightarrow> PageMap2_Next BITS pm k')
      else None)"
  by pat_completeness auto
termination
proof (relation "measure (\<lambda>(b, pm, k). 2 ^ b - k)", goal_cases)
  case (2 BITS pm k x xa)
  then show ?case
    using next_leaf_gt [of k "LEAF_BITS2 BITS"] by (simp add: diff_less_mono2)
next
  case (3 BITS pm k x xa xb)
  then show ?case
    using next_leaf_gt [of k "LEAF_BITS2 BITS"] by (simp add: diff_less_mono2)
qed simp

declare PageMap2_Next.simps [simp del]

section \<open>\<open>TCMalloc_PageMap3\<close>\<close>

record ('a, 'v) PageMap3 =
  root3 :: "nat \<Rightarrow> (nat \<Rightarrow> (nat \<Rightarrow> 'v option) option) option"
  allocator3 :: "'a \<Rightarrow> bool \<times> 'a"
  astate3 :: 'a

definition INTERIOR_BITS3 :: "nat \<Rightarrow> nat" where
  "INTERIOR_BITS3 BITS = (BITS + 2) div 3"

definition LEAF_BITS3 :: "nat \<Rightarrow> nat" where
  "LEAF_BITS3 BITS = BITS - 2 * INTERIOR_BITS3 BITS"

definition PageMap3_init :: "('a \<Rightarrow> bool \<times> 'a) \<Rightarrow> 'a \<Rightarrow> ('a, 'v) PageMap3" where
  "PageMap3_init allocator a = \<lparr> root3 = (\<lambda>_. None), allocator3 = allocator, astate3 = a \<rparr>"

definition PageMap3_allocate :: "('a, 'v) PageMap3 \<Rightarrow> bool \<times> ('a, 'v) PageMap3" where
  "PageMap3_allocate pm =
     (case allocator3 pm (astate3 pm) of (ok, a) \<Rightarrow> (ok, pm\<lparr> astate3 := a \<rparr>))"

definition PageMap3_get :: "nat \<Rightarrow> ('a, 'v) PageMap3 \<Rightarrow> nat \<Rightarrow> 'v option" where
  "PageMap3_get BITS pm k =
     (let i1 = k div 2 ^ (LEAF_BITS3 BITS + INTERIOR_BITS3 BITS);
          i2 = k div 2 ^ LEAF_BITS3 BITS mod 2 ^ INTERIOR_BITS3 BITS;
          i3 = k mod 2 ^ LEAF_BITS3 BITS
      in if k div 2 ^ BITS > 0 then None
         else case root3 pm i1 of
                None \<Rightarrow> None
              | Some node \<Rightarrow> (case node i2 of None \<Rightarrow> None | Some leaf \<Rightarrow> leaf i3))"

definition PageMap3_set :: "nat \<Rightarrow> ('a, 'v) PageMap3 \<Rightarrow> nat \<Rightarrow> 'v option \<Rightarrow> ('a, 'v) PageMap3 option" where
  "PageMap3_set BITS pm k v =
     (let i1 = k div 2 ^ (LEAF_BITS3 BITS + INTERIOR_BITS3 BITS);
          i2 = k div 2 ^ LEAF_BITS3 BITS mod 2 ^ INTERIOR_BITS3 BITS;
          i3 = k mod 2 ^ LEAF_BITS3 BITS
      in if i1 < 2 ^ INTERIOR_BITS3 BITS then
           (case root3 pm i1 of
              None \<Rightarrow> None
            | Some node \<Rightarrow>
                (case node i2 of
                   None \<Rightarrow> None
                 | Some leaf \<Rightarrow>
                     Some (pm\<lparr> root3 := (root3 pm)(i1 \<mapsto> node(i2 \<mapsto> leaf(i3 := v))) \<rparr>)))
         else None)"

text \<open>Makes the interior node for \<open>i1\<close> and the leaf for \<open>i2\<close> below it where they are missing.\<close>

definition PageMap3_make_node :: "('a, 'v) PageMap3 \<Rightarrow> nat \<Rightarrow> bool \<times> ('a, 'v) PageMap3" where
  "PageMap3_make_node pm i1 =
     (if root3 pm i1 = None then
        (case PageMap3_allocate pm of
           (False, pm') \<Rightarrow> (False, pm')
         | (True, pm') \<Rightarrow> (True, pm'\<lparr> root3 := (root3 pm')(i1 \<mapsto> (\<lambda>_. None)) \<rparr>))
      else (True, pm))"

definition PageMap3_make_leaf :: "('a, 'v) PageMap3 \<Rightarrow> nat \<Rightarrow> nat \<Rightarrow> bool \<times> ('a, 'v) PageMap3" where
  "PageMap3_make_leaf pm i1 i2 =
     (case root3 pm i1 of
        None \<Rightarrow> (False, pm)
      | Some node \<Rightarrow>
          if node i2 = None then
            (case PageMap3_allocate pm of
               (False, pm') \<Rightarrow> (False, pm')
             | (True, pm') \<Rightarrow>
                 (True, pm'\<lparr> root3 := (root3 pm')(i1 \<mapsto> node(i2 \<mapsto> (\<lambda>_. None))) \<rparr>))
          else (True, pm))"

function PageMap3_Ensure_loop :: "nat \<Rightarrow> nat \<Rightarrow> nat \<Rightarrow> ('a, 'v) PageMap3 \<Rightarrow> bool \<times> ('a, 'v) PageMap3" where
  "PageMap3_Ensure_loop BITS final key pm =
     (if key \<le> final then
        let i1 = key div 2 ^ (LEAF_BITS3 BITS + INTERIOR_BITS3 BITS);
            i2 = key div 2 ^ LEAF_BITS3 BITS mod 2 ^ INTERIOR_BITS3 BITS;
            key' = (key div 2 ^ LEAF_BITS3 BITS + 1) * 2 ^ LEAF_BITS3 BITS
        in if i1 \<ge> 2 ^ INTERIOR_BITS3 BITS \<or> i2 \<ge> 2 ^ INTERIOR_BITS3 BITS then (False, pm)
           else (case PageMap3_make_node pm i1 of
                   (False, pm1) \<Rightarrow> (False, pm1)
                 | (True, pm1) \<Rightarrow>
                     (case PageMap3_make_leaf pm1 i1 i2 of
                        (False, pm2) \<Rightarrow> (False, pm2)
                      | (True, pm2) \<Rightarrow> PageMap3_Ensure_loop BITS final key' pm2))
      else (True, pm))"
  by pat_completeness auto
termination PageMap3_Ensure_loop
proof (relation "measure (\<lambda>(b, final, key, pm). Suc final - key)", goal_cases)
  case (2 BITS final key pm)
  then show ?case
    using next_leaf_gt [of key "LEAF_BITS3 BITS"] by (simp add: diff_less_mono2)
qed simp

declare PageMap3_Ensure_loop.simps [simp del]

definition PageMap3_Ensure :: "nat \<Rightarrow> ('a, 'v) PageMap3 \<Rightarrow> nat \<Rightarrow> nat \<Rightarrow> bool \<times> ('a, 'v) PageMap3" where
  "PageMap3_Ensure BITS pm start n =
     PageMap3_Ensure_loop BITS ((start + n + (2 ^ 64 - 1)) mod 2 ^ 64) start pm"

function PageMap3_Next :: "nat \<Rightarrow> ('a, 'v) PageMap3 \<Rightarrow> nat \<Rightarrow> 'v option" where
  "PageMap3_Next BITS pm k =
     (if k < 2 ^ BITS then
        let i1 = k div 2 ^ (LEAF_BITS3 BITS + INTERIOR_BITS3 BITS);
            i2 = k div 2 ^ LEAF_BITS3 BITS mod 2 ^ INTERIOR_BITS3 BITS;
            k' = (k div 2 ^ LEAF_BITS3 BITS + 1) * 2 ^ LEAF_BITS3 BITS
        in case root3 pm i1 of
             None \<Rightarrow> PageMap3_Next BITS pm ((i1 + 1) * 2 ^ (LEAF_BITS3 BITS + INTERIOR_BITS3 BITS))
           | Some node \<Rightarrow>
               (case node i2 of
                  None \<Rightarrow> PageMap3_Next BITS pm k'
                | Some leaf \<Rightarrow>
                    (case scan_leaf leaf (2 ^ LEAF_BITS3 BITS) (k mod 2 ^ LEAF_BITS3 BITS) of
                       Some v \<Rightarrow> Some v
                     | None \<Rightarrow> PageMap3_Next BITS pm k'))
      else None)"
  by pat_completeness auto
termination
proof (relation "measure (\<lambda>(b, pm, k). 2 ^ b - k)", goal_cases)
  case (2 BITS pm k)
  then show ?case
    using next_leaf_gt [of k "LEAF_BITS3 BITS + INTERIOR_BITS3 BITS"] by (simp add: diff_less_mono2)
next
  case (3 BITS pm k)
  then show ?case
    using next_leaf_gt [of k "LEAF_BITS3 BITS"] by (simp add: diff_less_mono2)
next
  case (4 BITS pm k)
  then show ?case
    using next_leaf_gt [of k "LEAF_BITS3 BITS"] by (simp add: diff_less_mono2)
qed simp

declare PageMap3_Next.simps [simp del]

section \<open>The contract of a page map\<close>

text \<open>\<open>ensured s k\<close> says that \<open>k\<close> may be set; a range becomes ensured by a successful \<open>Ensure\<close>.\<close>

locale page_map =
  fixes bits :: nat
    and ensured :: "'s \<Rightarrow> nat \<Rightarrow> bool"
    and get :: "'s \<Rightarrow> nat \<Rightarrow> 'v option"
    and set :: "'s \<Rightarrow> nat \<Rightarrow> 'v option \<Rightarrow> 's option"
    and Ensure :: "'s \<Rightarrow> nat \<Rightarrow> nat \<Rightarrow> bool \<times> 's"
    and Next :: "'s \<Rightarrow> nat \<Rightarrow> 'v option"
  assumes ensured_bound: "ensured s k \<Longrightarrow> k < 2 ^ bits"
    and get_unensured: "\<not> ensured s k \<Longrightarrow> get s k = None"
    and set_defined: "ensured s k \<Longrightarrow> set s k v \<noteq> None"
    and set_get: "ensured s k \<Longrightarrow> set s k v = Some s' \<Longrightarrow> get s' j = (if j = k then v else get s j)"
    and set_ensured: "ensured s k \<Longrightarrow> set s k v = Some s' \<Longrightarrow> ensured s' j \<longleftrightarrow> ensured s j"
    and Ensure_get: "get (snd (Ensure s x n)) k = get s k"
    and Ensure_mono: "ensured s k \<Longrightarrow> ensured (snd (Ensure s x n)) k"
    and Ensure_ok: "fst (Ensure s x n) \<Longrightarrow> x < 2 ^ bits \<Longrightarrow> x + n \<le> 2 ^ 64 \<Longrightarrow> x \<le> k \<Longrightarrow> k < x + n
      \<Longrightarrow> ensured (snd (Ensure s x n)) k"
    and Next_first: "Next s k = first_from (get s) (2 ^ bits) k"
begin

lemma set_some:
  assumes "ensured s k"
  obtains s' where "set s k v = Some s'" "\<And>j. get s' j = (if j = k then v else get s j)"
    "\<And>j. ensured s' j \<longleftrightarrow> ensured s j"
proof -
  obtain s' where s': "set s k v = Some s'"
    using set_defined [OF assms, of v] by blast
  show ?thesis
    by (rule that [OF s' set_get [OF assms s'] set_ensured [OF assms s']])
qed

lemma Ensure_then_set:
  assumes "fst (Ensure s x n)" "x < 2 ^ bits" "x + n \<le> 2 ^ 64" "x \<le> k" "k < x + n"
  shows "\<exists>s'. set (snd (Ensure s x n)) k v = Some s'
           \<and> (\<forall>j. get s' j = (if j = k then v else get s j))"
proof -
  obtain s' where "set (snd (Ensure s x n)) k v = Some s'"
      "\<forall>j. get s' j = (if j = k then v else get (snd (Ensure s x n)) j)"
    using set_some [OF Ensure_ok [OF assms], of v] by (metis (mono_tags))
  then show ?thesis by (simp add: Ensure_get)
qed

lemma Next_none_iff: "Next s k = None \<longleftrightarrow> (\<forall>j \<ge> k. get s j = None)"
proof -
  have "get s j = None" if "2 ^ bits \<le> j" for j
    using get_unensured [of s j] ensured_bound [of s j] that by auto
  then show ?thesis
    unfolding Next_first first_from_none by (metis not_le_imp_less)
qed

lemma Next_least:
  assumes "get s j = Some v" "k \<le> j" "\<And>i. k \<le> i \<Longrightarrow> i < j \<Longrightarrow> get s i = None"
  shows "Next s k = Some v"
proof -
  have "j < 2 ^ bits"
    using get_unensured [of s j] ensured_bound [of s j] assms(1) by fastforce
  then show ?thesis
    using first_from_skip [OF assms(2), of "2 ^ bits" "get s"] assms
    by (simp add: Next_first first_from.simps [of _ _ j])
qed

end

section \<open>The flat map keeps the contract\<close>

definition PageMap1_ensured :: "nat \<Rightarrow> 'v PageMap1 \<Rightarrow> nat \<Rightarrow> bool" where
  "PageMap1_ensured BITS pm k \<longleftrightarrow> k < 2 ^ BITS"

lemma PageMap1_Next_first: "PageMap1_Next BITS pm k = first_from (PageMap1_get BITS pm) (2 ^ BITS) k"
proof (induction BITS pm k rule: PageMap1_Next.induct)
  case (1 BITS pm k)
  have "PageMap1_get BITS pm k = array1 pm k" if "k < 2 ^ BITS"
    using that by (simp add: PageMap1_get_def)
  with 1 show ?case
    by (subst PageMap1_Next.simps, subst first_from.simps) (auto split: option.splits)
qed

lemma PageMap1_page_map:
  assumes "BITS < 64"
  shows "page_map BITS (PageMap1_ensured BITS) (PageMap1_get BITS) (PageMap1_set BITS)
    (PageMap1_Ensure BITS) (PageMap1_Next BITS)"
proof
  fix x n k and s :: "'v PageMap1"
  assume e: "fst (PageMap1_Ensure BITS s x n)" "x < 2 ^ BITS" "k < x + n"
  have "(2::nat) ^ BITS < 2 ^ 64" using assms by (rule power_strict_increasing) simp
  moreover have "2 ^ BITS + 2 ^ 64 - x = 2 ^ BITS - x + 2 ^ 64"
    using e(2) by linarith
  ultimately have "(2 ^ BITS + 2 ^ 64 - x) mod 2 ^ 64 = 2 ^ BITS - x"
    by (simp only: mod_add_self2) (rule mod_less, linarith)
  with e show "PageMap1_ensured BITS (snd (PageMap1_Ensure BITS s x n)) k"
    by (simp add: PageMap1_Ensure_def PageMap1_ensured_def)
qed (auto simp: PageMap1_ensured_def PageMap1_get_def PageMap1_set_def PageMap1_Ensure_def
    PageMap1_Next_first div_eq_0_iff split: if_splits)

section \<open>The two-level tree keeps the contract\<close>

definition PageMap2_ensured :: "nat \<Rightarrow> ('a, 'v) PageMap2 \<Rightarrow> nat \<Rightarrow> bool" where
  "PageMap2_ensured BITS pm k \<longleftrightarrow> k < 2 ^ BITS \<and> root2 pm (k div 2 ^ LEAF_BITS2 BITS) \<noteq> None"

lemma root_index2: "k div 2 ^ LEAF_BITS2 BITS < ROOT_LENGTH2 BITS \<longleftrightarrow> k < 2 ^ BITS"
proof -
  have "LEAF_BITS2 BITS \<le> BITS \<or> BITS = 0" by (auto simp: LEAF_BITS2_def)
  then have "(2::nat) ^ BITS = ROOT_LENGTH2 BITS * 2 ^ LEAF_BITS2 BITS"
    unfolding ROOT_LENGTH2_def power_add [symmetric] by (auto simp: LEAF_BITS2_def)
  then show ?thesis by (simp add: div_less_iff_less_mult)
qed

lemma same_leaf:
  assumes "(key::nat) \<le> k" "k < (key div 2 ^ b + 1) * 2 ^ b"
  shows "k div 2 ^ b = key div 2 ^ b"
proof (rule antisym)
  show "k div 2 ^ b \<le> key div 2 ^ b"
    using less_mult_imp_div_less [OF assms(2)] by simp
qed (rule div_le_mono [OF assms(1)])

lemma div_mod_eq_iff: "(j::nat) = k \<longleftrightarrow> j div m = k div m \<and> j mod m = k mod m"
  by (metis div_mult_mod_eq)

lemma PageMap2_set_eq:
  assumes "PageMap2_ensured BITS pm k"
  obtains leaf where "root2 pm (k div 2 ^ LEAF_BITS2 BITS) = Some leaf"
    "PageMap2_set BITS pm k v = Some (pm\<lparr> root2 := (root2 pm)(k div 2 ^ LEAF_BITS2 BITS
       \<mapsto> leaf(k mod 2 ^ LEAF_BITS2 BITS := v)) \<rparr>)"
  using assms root_index2 [of k BITS] that unfolding PageMap2_ensured_def PageMap2_set_def Let_def
  by auto

lemma PageMap2_Ensure_loop_step:
  assumes "key \<le> final" "key div 2 ^ LEAF_BITS2 BITS < ROOT_LENGTH2 BITS"
    and "PageMap2_make_leaf pm (key div 2 ^ LEAF_BITS2 BITS) = (ok, pm')"
  shows "PageMap2_Ensure_loop BITS final key pm =
    (if ok then PageMap2_Ensure_loop BITS final ((key div 2 ^ LEAF_BITS2 BITS + 1) * 2 ^ LEAF_BITS2 BITS) pm'
     else (False, pm'))"
  using assms by (subst PageMap2_Ensure_loop.simps) (simp add: Let_def split: bool.splits)

lemma PageMap2_Ensure_loop_inv:
  assumes step: "\<And>pm i. P pm \<Longrightarrow> P (snd (PageMap2_make_leaf pm i))"
  shows "P pm \<Longrightarrow> P (snd (PageMap2_Ensure_loop BITS final key pm))"
proof (induction "Suc final - key" arbitrary: key pm rule: less_induct)
  case less
  let ?i = "key div 2 ^ LEAF_BITS2 BITS"
  obtain ok pm' where m: "PageMap2_make_leaf pm ?i = (ok, pm')" by fastforce
  have "P pm'" using step [OF less.prems, of ?i] m by simp
  show ?case
  proof (cases "key \<le> final \<and> ?i < ROOT_LENGTH2 BITS")
    case True
    with \<open>P pm'\<close> show ?thesis
      using PageMap2_Ensure_loop_step [of key final BITS pm ok pm'] m less.hyps [of _ pm']
        next_leaf_gt [of key "LEAF_BITS2 BITS"] by (auto simp: diff_less_mono2)
  next
    case False
    with less.prems show ?thesis
      by (subst PageMap2_Ensure_loop.simps) (auto simp: Let_def)
  qed
qed

lemma PageMap2_make_leaf_ok:
  "fst (PageMap2_make_leaf pm i) \<Longrightarrow> root2 (snd (PageMap2_make_leaf pm i)) i \<noteq> None"
  by (auto simp: PageMap2_make_leaf_def PageMap2_allocate_def split: bool.splits if_splits prod.splits)

lemma PageMap2_make_leaf_get:
  "PageMap2_get BITS (snd (PageMap2_make_leaf pm i)) k = PageMap2_get BITS pm k"
  by (auto simp: PageMap2_make_leaf_def PageMap2_allocate_def PageMap2_get_def Let_def
    split: option.splits bool.splits prod.splits)

lemma PageMap2_make_leaf_mono:
  "PageMap2_ensured BITS pm k \<Longrightarrow> PageMap2_ensured BITS (snd (PageMap2_make_leaf pm i)) k"
  by (auto simp: PageMap2_make_leaf_def PageMap2_allocate_def PageMap2_ensured_def split: bool.splits prod.splits)

lemma PageMap2_Ensure_loop_mono:
  "PageMap2_ensured BITS pm k \<Longrightarrow> PageMap2_ensured BITS (snd (PageMap2_Ensure_loop BITS final key pm)) k"
  by (rule PageMap2_Ensure_loop_inv [where P = "\<lambda>q. PageMap2_ensured BITS q k"]) (rule PageMap2_make_leaf_mono)

lemma PageMap2_Ensure_loop_get:
  "PageMap2_get BITS (snd (PageMap2_Ensure_loop BITS final key pm)) k = PageMap2_get BITS pm k"
  by (rule PageMap2_Ensure_loop_inv [where P = "\<lambda>q. PageMap2_get BITS q k = PageMap2_get BITS pm k"])
    (simp_all add: PageMap2_make_leaf_get)

lemma PageMap2_Ensure_loop_ok:
  "fst (PageMap2_Ensure_loop BITS final key pm) \<Longrightarrow> key \<le> k \<Longrightarrow> k \<le> final
   \<Longrightarrow> PageMap2_ensured BITS (snd (PageMap2_Ensure_loop BITS final key pm)) k"
proof (induction "Suc final - key" arbitrary: key pm rule: less_induct)
  case less
  let ?i = "key div 2 ^ LEAF_BITS2 BITS"
  let ?key' = "(?i + 1) * 2 ^ LEAF_BITS2 BITS"
  obtain ok pm' where m: "PageMap2_make_leaf pm ?i = (ok, pm')" by fastforce
  have le: "key \<le> final" using less.prems by simp
  have i: "?i < ROOT_LENGTH2 BITS"
    using less.prems(1) le by (subst (asm) PageMap2_Ensure_loop.simps) (auto simp: Let_def split: if_splits)
  note eq = PageMap2_Ensure_loop_step [OF le i m]
  have ok: ok using less.prems(1) eq by (auto split: if_splits)
  show ?case
  proof (cases "k < ?key'")
    case True
    with less.prems(2) have "k div 2 ^ LEAF_BITS2 BITS = ?i" by (rule same_leaf)
    then have "PageMap2_ensured BITS pm' k"
      using i root_index2 [of k BITS] PageMap2_make_leaf_ok [of pm ?i] m ok
      by (simp add: PageMap2_ensured_def)
    then show ?thesis
      using eq ok PageMap2_Ensure_loop_mono by auto
  next
    case False
    then show ?thesis
      using less.hyps [of ?key' pm'] eq ok less.prems le next_leaf_gt [of key "LEAF_BITS2 BITS"]
      by (simp add: diff_less_mono2)
  qed
qed

lemma scan_leaf_first: "scan_leaf leaf len i = first_from leaf len i"
proof (induction leaf len i rule: scan_leaf.induct)
  case (1 leaf len i)
  then show ?case
    by (subst scan_leaf.simps, subst first_from.simps) (auto split: option.splits)
qed

lemma first_from_slice:
  assumes "base + len \<le> n" "\<And>i. i < len \<Longrightarrow> f (base + i) = leaf i"
  shows "i \<le> len \<Longrightarrow> first_from f n (base + i) = (case first_from leaf len i of
    Some v \<Rightarrow> Some v | None \<Rightarrow> first_from f n (base + len))"
proof (induction "len - i" arbitrary: i)
  case 0
  then show ?case by (simp add: first_from.simps [of leaf])
next
  case (Suc d)
  have i: "i < len" "base + i < n" "first_from f n (base + Suc i) = (case first_from leaf len (Suc i) of
      Some v \<Rightarrow> Some v | None \<Rightarrow> first_from f n (base + len))"
    using assms(1) Suc.hyps(2) Suc.prems by (linarith, linarith, intro Suc.hyps(1)) linarith+
  with assms(2) [OF i(1)] show ?case
    by (simp add: first_from.simps [of f n "base + i"] first_from.simps [of leaf len i] split: option.splits)
qed

text \<open>A search that starts in a leaf is the scan of the leaf, then the search after it.\<close>

lemma leaf_slice:
  assumes "(k div 2 ^ b + 1) * 2 ^ b \<le> n"
    and "\<And>j. j div 2 ^ b = k div 2 ^ b \<Longrightarrow> f j = leaf (j mod 2 ^ b)"
  shows "first_from f n k = (case scan_leaf leaf (2 ^ b) (k mod 2 ^ b) of
    Some v \<Rightarrow> Some v | None \<Rightarrow> first_from f n ((k div 2 ^ b + 1) * 2 ^ b))"
proof -
  have "first_from f n (k div 2 ^ b * 2 ^ b + k mod 2 ^ b) = (case first_from leaf (2 ^ b) (k mod 2 ^ b) of
    Some v \<Rightarrow> Some v | None \<Rightarrow> first_from f n (k div 2 ^ b * 2 ^ b + 2 ^ b))"
    using assms by (intro first_from_slice) (auto simp: less_imp_le)
  then show ?thesis
    by (simp only: scan_leaf_first div_mult_mod_eq distrib_right mult_1)
qed

text \<open>A search that starts in a missing leaf continues after it.\<close>

lemma leaf_skip:
  assumes "\<And>j. j div 2 ^ b = k div 2 ^ b \<Longrightarrow> f j = None"
  shows "first_from f n k = first_from f n ((k div 2 ^ b + 1) * 2 ^ b)"
  by (rule first_from_skip [OF less_imp_le [OF next_leaf_gt]]) (blast intro: assms same_leaf)

lemma leaf_end_bound:
  assumes "k < 2 ^ B" "b \<le> B"
  shows "(k div 2 ^ b + 1) * 2 ^ b \<le> (2::nat) ^ B"
proof -
  have e: "(2::nat) ^ B = 2 ^ (B - b) * 2 ^ b"
    using assms(2) by (simp flip: power_add)
  with assms(1) have "k div 2 ^ b < 2 ^ (B - b)"
    by (simp add: div_less_iff_less_mult)
  then show ?thesis unfolding e by (intro mult_le_mono1) simp
qed

lemma PageMap2_get_leaf:
  "j < 2 ^ BITS \<Longrightarrow> PageMap2_get BITS pm j =
     (case root2 pm (j div 2 ^ LEAF_BITS2 BITS) of None \<Rightarrow> None | Some leaf \<Rightarrow> leaf (j mod 2 ^ LEAF_BITS2 BITS))"
  by (simp add: PageMap2_get_def Let_def)

lemma PageMap2_Next_first:
  "PageMap2_Next BITS pm k = first_from (PageMap2_get BITS pm) (2 ^ BITS) k"
proof (induction BITS pm k rule: PageMap2_Next.induct)
  case (1 BITS pm k)
  let ?b = "LEAF_BITS2 BITS"
  let ?k' = "(k div 2 ^ ?b + 1) * 2 ^ ?b"
  show ?case
  proof (cases "k < 2 ^ BITS")
    case k: True
    have g: "PageMap2_get BITS pm j = (case root2 pm (k div 2 ^ ?b) of
        None \<Rightarrow> None | Some leaf \<Rightarrow> leaf (j mod 2 ^ ?b))" if "j div 2 ^ ?b = k div 2 ^ ?b" for j
      using that root_index2 [of j BITS] root_index2 [of k BITS] k PageMap2_get_leaf [of j BITS pm] by simp
    show ?thesis
    proof (cases "root2 pm (k div 2 ^ ?b)")
      case None
      with 1 k show ?thesis
        using leaf_skip [of ?b k "PageMap2_get BITS pm"] g
        by (subst PageMap2_Next.simps) (simp add: Let_def)
    next
      case (Some leaf)
      have "?k' \<le> 2 ^ BITS"
        using leaf_end_bound [OF k, of ?b] by (simp add: LEAF_BITS2_def)
      with 1 k Some show ?thesis
        using leaf_slice [of k ?b _ "PageMap2_get BITS pm" leaf] g
        by (subst PageMap2_Next.simps) (simp add: Let_def split: option.splits)
    qed
  qed (simp add: PageMap2_Next.simps first_from.simps)
qed

lemma final_key: "0 < n \<Longrightarrow> x + n \<le> 2 ^ 64 \<Longrightarrow> (x + n + (2 ^ 64 - 1)) mod 2 ^ 64 = x + n - (1::nat)"
proof -
  assume "0 < n" "x + n \<le> 2 ^ 64"
  then have "x + n + (2 ^ 64 - 1) = (x + n - 1) + 2 ^ 64" "x + n - 1 < 2 ^ 64" by simp_all
  then show ?thesis by (metis mod_add_self2 mod_less)
qed

lemma PageMap2_page_map:
  "page_map BITS (PageMap2_ensured BITS) (PageMap2_get BITS) (PageMap2_set BITS)
    (PageMap2_Ensure BITS) (PageMap2_Next BITS)"
proof
  fix x n k and s :: "('a, 'v) PageMap2"
  assume e: "fst (PageMap2_Ensure BITS s x n)" "x + n \<le> 2 ^ 64" "x \<le> k" "k < x + n"
  show "PageMap2_ensured BITS (snd (PageMap2_Ensure BITS s x n)) k"
    using e PageMap2_Ensure_loop_ok [of BITS "x + n - 1" x s k] final_key [of n x]
    unfolding PageMap2_Ensure_def by simp
next
  fix s s' :: "('a, 'v) PageMap2" and k v j
  assume k: "PageMap2_ensured BITS s k" and set: "PageMap2_set BITS s k v = Some s'"
  obtain leaf where leaf: "root2 s (k div 2 ^ LEAF_BITS2 BITS) = Some leaf"
      "s' = s\<lparr> root2 := (root2 s)(k div 2 ^ LEAF_BITS2 BITS \<mapsto> leaf(k mod 2 ^ LEAF_BITS2 BITS := v)) \<rparr>"
    using PageMap2_set_eq [OF k, of v] set by (metis option.inject)
  show "PageMap2_get BITS s' j = (if j = k then v else PageMap2_get BITS s j)"
    using k leaf div_mod_eq_iff [of j k "2 ^ LEAF_BITS2 BITS"]
    by (auto simp: PageMap2_get_def PageMap2_ensured_def Let_def)
  show "PageMap2_ensured BITS s' j \<longleftrightarrow> PageMap2_ensured BITS s j"
    using leaf by (auto simp: PageMap2_ensured_def)
next
  fix s :: "('a, 'v) PageMap2" and k v
  assume "PageMap2_ensured BITS s k"
  then show "PageMap2_set BITS s k v \<noteq> None"
    using PageMap2_set_eq [of BITS s k v] by fastforce
next
  show "PageMap2_ensured BITS s k \<Longrightarrow> PageMap2_ensured BITS (snd (PageMap2_Ensure BITS s x n)) k"
    for s :: "('a, 'v) PageMap2" and k x n
    unfolding PageMap2_Ensure_def by (rule PageMap2_Ensure_loop_mono)
  show "\<not> PageMap2_ensured BITS s k \<Longrightarrow> PageMap2_get BITS s k = None" for s :: "('a, 'v) PageMap2" and k
    by (auto simp: PageMap2_ensured_def PageMap2_get_def Let_def div_eq_0_iff)
qed (simp_all add: PageMap2_ensured_def PageMap2_Ensure_def PageMap2_Ensure_loop_get PageMap2_Next_first)

section \<open>The three-level tree keeps the contract\<close>

definition PageMap3_path :: "('a, 'v) PageMap3 \<Rightarrow> nat \<Rightarrow> nat \<Rightarrow> (nat \<Rightarrow> 'v option) option" where
  "PageMap3_path pm i1 i2 = (case root3 pm i1 of None \<Rightarrow> None | Some node \<Rightarrow> node i2)"

text \<open>The leaf number of a key splits into the two interior indices.\<close>

abbreviation leaf_no3 :: "nat \<Rightarrow> nat \<Rightarrow> nat" where
  "leaf_no3 BITS k \<equiv> k div 2 ^ LEAF_BITS3 BITS"

definition PageMap3_leaf :: "nat \<Rightarrow> ('a, 'v) PageMap3 \<Rightarrow> nat \<Rightarrow> (nat \<Rightarrow> 'v option) option" where
  "PageMap3_leaf BITS pm l = PageMap3_path pm (l div 2 ^ INTERIOR_BITS3 BITS) (l mod 2 ^ INTERIOR_BITS3 BITS)"

definition PageMap3_ensured :: "nat \<Rightarrow> ('a, 'v) PageMap3 \<Rightarrow> nat \<Rightarrow> bool" where
  "PageMap3_ensured BITS pm k \<longleftrightarrow> k < 2 ^ BITS \<and> PageMap3_leaf BITS pm (leaf_no3 BITS k) \<noteq> None"

lemma top_index3: "k div 2 ^ (LEAF_BITS3 BITS + INTERIOR_BITS3 BITS) = leaf_no3 BITS k div 2 ^ INTERIOR_BITS3 BITS"
  by (simp add: power_add div_mult2_eq)

lemma root_index3:
  assumes "2 \<le> BITS"
  shows "leaf_no3 BITS k div 2 ^ INTERIOR_BITS3 BITS < 2 ^ INTERIOR_BITS3 BITS \<longleftrightarrow> k < 2 ^ BITS"
proof -
  have "BITS = INTERIOR_BITS3 BITS + (LEAF_BITS3 BITS + INTERIOR_BITS3 BITS)"
    using assms by (simp add: LEAF_BITS3_def INTERIOR_BITS3_def; linarith)
  then have "(2::nat) ^ BITS = 2 ^ INTERIOR_BITS3 BITS * 2 ^ (LEAF_BITS3 BITS + INTERIOR_BITS3 BITS)"
    by (metis power_add)
  then show ?thesis
    unfolding top_index3 [symmetric] by (simp add: div_less_iff_less_mult)
qed

lemma PageMap3_get_leaf:
  "PageMap3_get BITS pm k = (if k < 2 ^ BITS then
     case PageMap3_leaf BITS pm (leaf_no3 BITS k) of None \<Rightarrow> None | Some leaf \<Rightarrow> leaf (k mod 2 ^ LEAF_BITS3 BITS)
   else None)"
  by (auto simp: PageMap3_get_def PageMap3_leaf_def PageMap3_path_def Let_def top_index3 div_eq_0_iff
    split: option.splits)

definition PageMap3_make :: "nat \<Rightarrow> ('a, 'v) PageMap3 \<Rightarrow> nat \<Rightarrow> bool \<times> ('a, 'v) PageMap3" where
  "PageMap3_make BITS pm l = (let i1 = l div 2 ^ INTERIOR_BITS3 BITS; i2 = l mod 2 ^ INTERIOR_BITS3 BITS
     in case PageMap3_make_node pm i1 of (False, pm1) \<Rightarrow> (False, pm1) | (True, pm1) \<Rightarrow> PageMap3_make_leaf pm1 i1 i2)"

lemmas PageMap3_make_defs = PageMap3_make_def PageMap3_make_node_def PageMap3_make_leaf_def
  PageMap3_allocate_def PageMap3_path_def Let_def

lemma PageMap3_make_path:
  "PageMap3_path (snd (PageMap3_make BITS pm l)) i j = PageMap3_path pm i j
   \<or> PageMap3_path pm i j = None \<and> PageMap3_path (snd (PageMap3_make BITS pm l)) i j = Some (\<lambda>_. None)"
  by (auto simp: PageMap3_make_defs split: option.splits prod.splits bool.splits if_splits)

lemma PageMap3_make_ok:
  "fst (PageMap3_make BITS pm l) \<Longrightarrow> PageMap3_leaf BITS (snd (PageMap3_make BITS pm l)) l \<noteq> None"
  by (auto simp: PageMap3_make_defs PageMap3_leaf_def split: option.splits prod.splits bool.splits if_splits)

lemma PageMap3_make_get: "PageMap3_get BITS (snd (PageMap3_make B pm l)) k = PageMap3_get BITS pm k"
  unfolding PageMap3_get_leaf PageMap3_leaf_def
  using PageMap3_make_path [of B pm l "leaf_no3 BITS k div 2 ^ INTERIOR_BITS3 BITS"
      "leaf_no3 BITS k mod 2 ^ INTERIOR_BITS3 BITS"] by auto

lemma PageMap3_make_mono: "PageMap3_ensured BITS pm k \<Longrightarrow> PageMap3_ensured BITS (snd (PageMap3_make B pm l)) k"
  unfolding PageMap3_ensured_def PageMap3_leaf_def
  using PageMap3_make_path [of B pm l "leaf_no3 BITS k div 2 ^ INTERIOR_BITS3 BITS"
      "leaf_no3 BITS k mod 2 ^ INTERIOR_BITS3 BITS"] by auto

lemma PageMap3_Ensure_loop_eq:
  "PageMap3_Ensure_loop BITS final key pm =
     (if key \<le> final then
        if leaf_no3 BITS key div 2 ^ INTERIOR_BITS3 BITS \<ge> 2 ^ INTERIOR_BITS3 BITS then (False, pm)
        else case PageMap3_make BITS pm (leaf_no3 BITS key) of
               (False, pm') \<Rightarrow> (False, pm')
             | (True, pm') \<Rightarrow> PageMap3_Ensure_loop BITS final ((leaf_no3 BITS key + 1) * 2 ^ LEAF_BITS3 BITS) pm'
      else (True, pm))"
proof -
  have "\<not> 2 ^ INTERIOR_BITS3 BITS \<le> leaf_no3 BITS key mod 2 ^ INTERIOR_BITS3 BITS"
    by (simp add: not_le)
  moreover obtain b1 p1 where "PageMap3_make_node pm (leaf_no3 BITS key div 2 ^ INTERIOR_BITS3 BITS) = (b1, p1)"
    by fastforce
  moreover obtain b2 p2 where "PageMap3_make_leaf p1 (leaf_no3 BITS key div 2 ^ INTERIOR_BITS3 BITS)
      (leaf_no3 BITS key mod 2 ^ INTERIOR_BITS3 BITS) = (b2, p2)"
    by fastforce
  ultimately show ?thesis
    unfolding PageMap3_Ensure_loop.simps [of BITS final key pm] Let_def top_index3 PageMap3_make_def
    by (cases b1; cases b2) simp_all
qed

lemma PageMap3_Ensure_loop_inv:
  assumes step: "\<And>pm l. P pm \<Longrightarrow> P (snd (PageMap3_make BITS pm l))"
  shows "P pm \<Longrightarrow> P (snd (PageMap3_Ensure_loop BITS final key pm))"
proof (induction "Suc final - key" arbitrary: key pm rule: less_induct)
  case less
  obtain ok pm' where m: "PageMap3_make BITS pm (leaf_no3 BITS key) = (ok, pm')" by fastforce
  have "P pm'" using step [OF less.prems, of "leaf_no3 BITS key"] m by simp
  then have "key \<le> final \<Longrightarrow> P (snd (PageMap3_Ensure_loop BITS final ((leaf_no3 BITS key + 1) * 2 ^ LEAF_BITS3 BITS) pm'))"
    using less.hyps [of "(leaf_no3 BITS key + 1) * 2 ^ LEAF_BITS3 BITS" pm']
      next_leaf_gt [of key "LEAF_BITS3 BITS"] by (simp add: diff_less_mono2)
  with \<open>P pm'\<close> less.prems m show ?case
    by (subst PageMap3_Ensure_loop_eq) (auto split: bool.splits)
qed

lemma PageMap3_Ensure_loop_mono:
  "PageMap3_ensured BITS pm k \<Longrightarrow> PageMap3_ensured BITS (snd (PageMap3_Ensure_loop BITS final key pm)) k"
  by (rule PageMap3_Ensure_loop_inv [where P = "\<lambda>q. PageMap3_ensured BITS q k"]) (rule PageMap3_make_mono)

lemma PageMap3_Ensure_loop_get:
  "PageMap3_get BITS (snd (PageMap3_Ensure_loop BITS final key pm)) k = PageMap3_get BITS pm k"
  by (rule PageMap3_Ensure_loop_inv [where P = "\<lambda>q. PageMap3_get BITS q k = PageMap3_get BITS pm k"])
    (simp_all add: PageMap3_make_get)

lemma PageMap3_Ensure_loop_ok:
  assumes "2 \<le> BITS"
  shows "fst (PageMap3_Ensure_loop BITS final key pm) \<Longrightarrow> key \<le> k \<Longrightarrow> k \<le> final
   \<Longrightarrow> PageMap3_ensured BITS (snd (PageMap3_Ensure_loop BITS final key pm)) k"
proof (induction "Suc final - key" arbitrary: key pm rule: less_induct)
  case less
  let ?l = "leaf_no3 BITS key"
  let ?key' = "(?l + 1) * 2 ^ LEAF_BITS3 BITS"
  obtain ok pm' where m: "PageMap3_make BITS pm ?l = (ok, pm')" by fastforce
  have le: "key \<le> final" using less.prems by simp
  have eq: "ok" "?l div 2 ^ INTERIOR_BITS3 BITS < 2 ^ INTERIOR_BITS3 BITS"
      "PageMap3_Ensure_loop BITS final key pm = PageMap3_Ensure_loop BITS final ?key' pm'"
    using less.prems(1) le m PageMap3_Ensure_loop_eq [of BITS final key pm]
    by (auto split: if_splits bool.splits)
  show ?case
  proof (cases "k < ?key'")
    case True
    with less.prems(2) have "leaf_no3 BITS k = ?l" by (rule same_leaf)
    then have "PageMap3_ensured BITS pm' k"
      using eq(1,2) root_index3 [OF assms, of k] PageMap3_make_ok [of BITS pm ?l] m
      by (simp add: PageMap3_ensured_def)
    then show ?thesis
      unfolding eq(3) by (rule PageMap3_Ensure_loop_mono)
  next
    case False
    then show ?thesis
      using less.hyps [of ?key' pm'] eq less.prems le next_leaf_gt [of key "LEAF_BITS3 BITS"]
      by (simp add: diff_less_mono2)
  qed
qed

lemma PageMap3_Next_eq:
  "PageMap3_Next BITS pm k =
     (if k < 2 ^ BITS then
        (case root3 pm (k div 2 ^ (LEAF_BITS3 BITS + INTERIOR_BITS3 BITS)) of
           None \<Rightarrow> PageMap3_Next BITS pm ((k div 2 ^ (LEAF_BITS3 BITS + INTERIOR_BITS3 BITS) + 1)
                     * 2 ^ (LEAF_BITS3 BITS + INTERIOR_BITS3 BITS))
         | Some node \<Rightarrow>
             (case PageMap3_leaf BITS pm (leaf_no3 BITS k) of
                None \<Rightarrow> PageMap3_Next BITS pm ((leaf_no3 BITS k + 1) * 2 ^ LEAF_BITS3 BITS)
              | Some leaf \<Rightarrow>
                  (case scan_leaf leaf (2 ^ LEAF_BITS3 BITS) (k mod 2 ^ LEAF_BITS3 BITS) of
                     Some v \<Rightarrow> Some v
                   | None \<Rightarrow> PageMap3_Next BITS pm ((leaf_no3 BITS k + 1) * 2 ^ LEAF_BITS3 BITS))))
      else None)"
  by (subst PageMap3_Next.simps)
    (simp add: Let_def top_index3 PageMap3_leaf_def PageMap3_path_def split: option.splits)

lemma PageMap3_Next_first:
  assumes "2 \<le> BITS"
  shows "PageMap3_Next BITS pm k = first_from (PageMap3_get BITS pm) (2 ^ BITS) k"
proof (induction "2 ^ BITS - k" arbitrary: k rule: less_induct)
  case less
  let ?b = "LEAF_BITS3 BITS" and ?t = "LEAF_BITS3 BITS + INTERIOR_BITS3 BITS" and ?g = "PageMap3_get BITS pm"
  show ?case
  proof (cases "k < 2 ^ BITS")
    case k: True
    have top: "root3 pm (k div 2 ^ ?t) = None \<Longrightarrow> j div 2 ^ ?t = k div 2 ^ ?t \<Longrightarrow> ?g j = None" for j
      unfolding PageMap3_get_leaf PageMap3_leaf_def PageMap3_path_def top_index3 by simp
    have g: "?g j = (case PageMap3_leaf BITS pm (leaf_no3 BITS k) of
        None \<Rightarrow> None | Some leaf \<Rightarrow> leaf (j mod 2 ^ ?b))" if "j div 2 ^ ?b = k div 2 ^ ?b" for j
      using that root_index3 [OF assms, of j] root_index3 [OF assms, of k] k by (simp add: PageMap3_get_leaf)
    have IH: "PageMap3_Next BITS pm k' = first_from ?g (2 ^ BITS) k'" if "k < k'" for k'
      using less that k by simp
    note gt = next_leaf_gt [of k ?b] next_leaf_gt [of k ?t]
    have b: "(leaf_no3 BITS k + 1) * 2 ^ ?b \<le> 2 ^ BITS"
      by (rule leaf_end_bound [OF k]) (simp add: LEAF_BITS3_def)
    consider "root3 pm (k div 2 ^ ?t) = None"
      | node where "root3 pm (k div 2 ^ ?t) = Some node" "PageMap3_leaf BITS pm (leaf_no3 BITS k) = None"
      | node leaf where "root3 pm (k div 2 ^ ?t) = Some node" "PageMap3_leaf BITS pm (leaf_no3 BITS k) = Some leaf"
      by (cases "root3 pm (k div 2 ^ ?t)"; cases "PageMap3_leaf BITS pm (leaf_no3 BITS k)") blast+
    then show ?thesis
    proof cases
      case 1
      then show ?thesis
        using k IH [OF gt(2)] leaf_skip [OF top [OF 1]] by (subst PageMap3_Next_eq) simp
    next
      case 2
      then show ?thesis
        using k IH [OF gt(1)] leaf_skip [of ?b k ?g] g by (subst PageMap3_Next_eq) simp
    next
      case (3 node leaf)
      then show ?thesis
        using k IH [OF gt(1)] leaf_slice [OF b, of ?g leaf] g
        by (subst PageMap3_Next_eq) (simp split: option.splits)
    qed
  qed (simp add: PageMap3_Next_eq first_from.simps)
qed

lemma PageMap3_set_eq:
  assumes "PageMap3_ensured BITS pm k" "2 \<le> BITS"
  obtains node leaf where "root3 pm (k div 2 ^ (LEAF_BITS3 BITS + INTERIOR_BITS3 BITS)) = Some node"
    "node (leaf_no3 BITS k mod 2 ^ INTERIOR_BITS3 BITS) = Some leaf"
    "PageMap3_set BITS pm k v = Some (pm\<lparr> root3 := (root3 pm)(k div 2 ^ (LEAF_BITS3 BITS + INTERIOR_BITS3 BITS)
       \<mapsto> node(leaf_no3 BITS k mod 2 ^ INTERIOR_BITS3 BITS \<mapsto> leaf(k mod 2 ^ LEAF_BITS3 BITS := v))) \<rparr>)"
  using assms(1) root_index3 [OF assms(2), of k] that
  unfolding PageMap3_ensured_def PageMap3_leaf_def PageMap3_path_def PageMap3_set_def Let_def top_index3
  by (fastforce split: option.splits)

lemma PageMap3_page_map:
  assumes "2 \<le> BITS"
  shows "page_map BITS (PageMap3_ensured BITS) (PageMap3_get BITS) (PageMap3_set BITS)
    (PageMap3_Ensure BITS) (PageMap3_Next BITS)"
proof
  fix x n k and s :: "('a, 'v) PageMap3"
  assume e: "fst (PageMap3_Ensure BITS s x n)" "x + n \<le> 2 ^ 64" "x \<le> k" "k < x + n"
  show "PageMap3_ensured BITS (snd (PageMap3_Ensure BITS s x n)) k"
    using e PageMap3_Ensure_loop_ok [OF assms, of "x + n - 1" x s k] final_key [of n x]
    unfolding PageMap3_Ensure_def by simp
next
  fix s s' :: "('a, 'v) PageMap3" and k v j
  assume k: "PageMap3_ensured BITS s k" and set: "PageMap3_set BITS s k v = Some s'"
  obtain node leaf where n: "root3 s (leaf_no3 BITS k div 2 ^ INTERIOR_BITS3 BITS) = Some node"
      "node (leaf_no3 BITS k mod 2 ^ INTERIOR_BITS3 BITS) = Some leaf"
      "s' = s\<lparr> root3 := (root3 s)(leaf_no3 BITS k div 2 ^ INTERIOR_BITS3 BITS
         \<mapsto> node(leaf_no3 BITS k mod 2 ^ INTERIOR_BITS3 BITS \<mapsto> leaf(k mod 2 ^ LEAF_BITS3 BITS := v))) \<rparr>"
    using PageMap3_set_eq [OF k assms, of v] set unfolding top_index3 by (metis option.inject)
  have l: "PageMap3_leaf BITS s' l = (if l = leaf_no3 BITS k then Some (leaf(k mod 2 ^ LEAF_BITS3 BITS := v))
      else PageMap3_leaf BITS s l)" for l
    using n div_mod_eq_iff [of l "leaf_no3 BITS k" "2 ^ INTERIOR_BITS3 BITS"]
    by (auto simp: PageMap3_leaf_def PageMap3_path_def)
  moreover have "PageMap3_leaf BITS s (leaf_no3 BITS k) = Some leaf"
    using n by (simp add: PageMap3_leaf_def PageMap3_path_def)
  ultimately show "PageMap3_get BITS s' j = (if j = k then v else PageMap3_get BITS s j)"
    using k div_mod_eq_iff [of j k "2 ^ LEAF_BITS3 BITS"]
    by (auto simp: PageMap3_get_leaf PageMap3_ensured_def)
  show "PageMap3_ensured BITS s' j \<longleftrightarrow> PageMap3_ensured BITS s j"
    using l \<open>PageMap3_leaf BITS s (leaf_no3 BITS k) = Some leaf\<close> by (auto simp: PageMap3_ensured_def)
next
  fix s :: "('a, 'v) PageMap3" and k v
  assume "PageMap3_ensured BITS s k"
  then show "PageMap3_set BITS s k v \<noteq> None"
    using PageMap3_set_eq [OF _ assms, of s k v] by fastforce
next
  show "PageMap3_ensured BITS s k \<Longrightarrow> PageMap3_ensured BITS (snd (PageMap3_Ensure BITS s x n)) k"
    for s :: "('a, 'v) PageMap3" and k x n
    unfolding PageMap3_Ensure_def by (rule PageMap3_Ensure_loop_mono)
qed (auto simp: PageMap3_ensured_def PageMap3_get_leaf PageMap3_Ensure_def
    PageMap3_Ensure_loop_get [unfolded PageMap3_get_leaf] PageMap3_Next_first [OF assms])

section \<open>The maps of the three configurations\<close>

text \<open>\<open>TCMalloc_PageMap2<35>\<close> is the map of the page heap on a 64-bit machine with 48-bit
  addresses and 8 KB pages, \<open>TCMalloc_PageMap3<51>\<close> the one for 64-bit addresses, and
  \<open>TCMalloc_PageMap1<19>\<close> a flat map for 32-bit addresses.\<close>

interpretation pm1: page_map 19 "PageMap1_ensured 19" "PageMap1_get 19" "PageMap1_set 19"
  "PageMap1_Ensure 19" "PageMap1_Next 19"
  by (rule PageMap1_page_map) simp

interpretation pm2: page_map 35 "PageMap2_ensured 35" "PageMap2_get 35" "PageMap2_set 35"
  "PageMap2_Ensure 35" "PageMap2_Next 35"
  by (rule PageMap2_page_map)

interpretation pm3: page_map 51 "PageMap3_ensured 51" "PageMap3_get 51" "PageMap3_set 51"
  "PageMap3_Ensure 51" "PageMap3_Next 51"
  by (rule PageMap3_page_map) simp

section \<open>Properties\<close>

text \<open>C36. The two-level page map is a map: after \<open>Ensure(x, n)\<close> returned true, every page of the
  range can be set without following a null node, \<open>get\<close> then returns the value set, and no other
  page changes; pages outside \<open>[0, 2^BITS)\<close> read as \<open>NULL\<close>.\<close>

theorem PageMap2_set_get:
  assumes "PageMap2_Ensure BITS pm x n = (True, pm')" "x < 2 ^ BITS" "x + n \<le> 2 ^ 64"
    and "x \<le> k" "k < x + n"
  shows "\<exists>pm''. PageMap2_set BITS pm' k v = Some pm''
    \<and> (\<forall>j. PageMap2_get BITS pm'' j = (if j = k then v else PageMap2_get BITS pm j))
    \<and> (\<forall>j \<ge> 2 ^ BITS. PageMap2_get BITS pm'' j = None)"
proof -
  have "fst (PageMap2_Ensure BITS pm x n)" "snd (PageMap2_Ensure BITS pm x n) = pm'"
    using assms(1) by simp_all
  from page_map.Ensure_then_set [OF PageMap2_page_map this(1) assms(2-), of v, unfolded this(2)]
  show ?thesis
    by (auto simp: PageMap2_get_def Let_def div_greater_zero_iff)
qed

lemmas PageMap2_eval = PageMap2_Ensure_def PageMap2_Ensure_loop.simps PageMap2_make_leaf_def
  PageMap2_allocate_def PageMap2_init_def LEAF_BITS2_def ROOT_LENGTH2_def Let_def

theorem PageMap2_set_get_witness:
  "\<exists>pm''. PageMap2_set 4 (snd (PageMap2_Ensure 4 (PageMap2_init (\<lambda>a. (True, a)) ()) 3 3)) 5 (Some CHR ''x'') = Some pm''
     \<and> PageMap2_get 4 pm'' 5 = Some CHR ''x''"
proof -
  have "PageMap2_Ensure 4 (PageMap2_init (\<lambda>a. (True, a)) () :: (unit, char) PageMap2) 3 3
      = (True, snd (PageMap2_Ensure 4 (PageMap2_init (\<lambda>a. (True, a)) ()) 3 3))"
    by (simp add: PageMap2_eval)
  from PageMap2_set_get [OF this, of 5 "Some CHR ''x''"] show ?thesis by auto
qed

text \<open>The three-level page map keeps the same promise, for every \<open>BITS\<close> of at least 2.\<close>

lemma PageMap3_set_get:
  assumes "2 \<le> BITS" "PageMap3_Ensure BITS pm x n = (True, pm')" "x < 2 ^ BITS" "x + n \<le> 2 ^ 64"
    and "x \<le> k" "k < x + n"
  shows "\<exists>pm''. PageMap3_set BITS pm' k v = Some pm''
    \<and> (\<forall>j. PageMap3_get BITS pm'' j = (if j = k then v else PageMap3_get BITS pm j))
    \<and> (\<forall>j \<ge> 2 ^ BITS. PageMap3_get BITS pm'' j = None)"
proof -
  have "fst (PageMap3_Ensure BITS pm x n)" "snd (PageMap3_Ensure BITS pm x n) = pm'"
    using assms(2) by simp_all
  from page_map.Ensure_then_set [OF PageMap3_page_map [OF assms(1)] this(1) assms(3-), of v, unfolded this(2)]
  show ?thesis
    by (auto simp: PageMap3_get_leaf)
qed

text \<open>C37. \<open>Next\<close> of both radix trees, which skips missing nodes, finds what a search of the keys one
  by one finds: the value of the least key at or after \<open>k\<close> that has one, and \<open>NULL\<close> when there is
  none.\<close>

theorem PageMap_Next_linear_search:
  "PageMap2_Next BITS pm2 k = first_from (PageMap2_get BITS pm2) (2 ^ BITS) k
   \<and> PageMap3_Next (BITS + 2) pm3 k = first_from (PageMap3_get (BITS + 2) pm3) (2 ^ (BITS + 2)) k"
  by (simp add: PageMap2_Next_first PageMap3_Next_first)

text \<open>\<open>TCMalloc_PageMap1::Ensure\<close> does not check the bound it is there to check: its
  ``overflow-free'' comparison wraps around for a start beyond the array, so that it accepts
  ranges that \<open>set\<close> would write out of bounds.\<close>

lemma PageMap1_Ensure_accepts_out_of_range:
  assumes "BITS < 64" "2 ^ BITS < x" "x \<le> 2 ^ 63" "n \<le> 2 ^ 63"
  shows "fst (PageMap1_Ensure BITS pm x n) \<and> PageMap1_set BITS pm x v = None"
proof -
  have "2 ^ BITS + 2 ^ 64 - x < 2 ^ 64" "2 ^ 63 \<le> 2 ^ BITS + 2 ^ 64 - x"
    using assms(2,3) by auto
  then have "n \<le> (2 ^ BITS + 2 ^ 64 - x) mod 2 ^ 64"
    using assms(4) by (subst mod_less) auto
  with assms(2) show ?thesis
    by (simp add: PageMap1_Ensure_def PageMap1_set_def)
qed

end
