(* ===== verification/PackedCache.thy ===== *)
theory PackedCache
  imports Prelude
begin

text \<open>
  The page-to-size-class cache of \<^verbatim>\<open>src/packed-cache-inl.h\<close>: a direct-mapped cache with
  \<open>2^kHashbits\<close> machine words, each holding the upper bits of a key and a value of \<open>kValuebits\<close>
  bits.  The array is a function on the hash of a key.  The locale \<open>page_cache\<close> is the contract
  the page heap relies on, with the coherence of the cache with a reference map as its
  client lemma.
\<close>

definition kHashbits :: nat where "kHashbits = 16"
definition kValuebits :: nat where "kValuebits = 7"
definition kInvalidMask :: u64 where "kInvalidMask = 0x80"

type_synonym packed_cache = "u64 \<Rightarrow> u64"

definition Hash :: "u64 \<Rightarrow> u64" where
  "Hash key = key AND mask kHashbits"

definition KeyToUpper :: "u64 \<Rightarrow> u64" where
  "KeyToUpper k = k XOR Hash k"

definition TryGet :: "packed_cache \<Rightarrow> u64 \<Rightarrow> u64 option" where
  "TryGet c key =
     (let expected_entry = key AND NOT (mask kHashbits);
          entry = c (Hash key) XOR expected_entry
      in if entry \<ge> 2 ^ kValuebits then None else Some entry)"

definition Clear :: packed_cache where
  "Clear = (\<lambda>_. 0x8080808080808080)"

definition Put :: "packed_cache \<Rightarrow> u64 \<Rightarrow> u64 \<Rightarrow> packed_cache" where
  "Put c key v = c(Hash key := KeyToUpper key OR v)"

definition Invalidate :: "packed_cache \<Rightarrow> u64 \<Rightarrow> packed_cache" where
  "Invalidate c key = c(Hash key := KeyToUpper key OR kInvalidMask)"

section \<open>Entries\<close>

lemma KeyToUpper_bit: "bit (KeyToUpper k) n \<longleftrightarrow> 16 \<le> n \<and> bit k n"
  by (auto simp: KeyToUpper_def Hash_def kHashbits_def bit_simps)

lemma small_value_bit:
  assumes "v < (2::u64) ^ kValuebits" "bit v n"
  shows "n < 7"
proof (rule ccontr)
  assume "\<not> n < 7"
  then have "unat v < 2 ^ n"
    using assms(1) power_increasing [of 7 n "2::nat"]
    by (simp add: kValuebits_def word_less_nat_alt)
  then have "\<not> bit (unat v) n"
    by (simp add: bit_iff_odd)
  with assms(2) show False
    by (simp add: bit_unsigned_iff bit_imp_le_length possible_bit_def)
qed

lemma upper_or_xor:
  assumes "v < 2 ^ kValuebits"
  shows "KeyToUpper k OR v = KeyToUpper k XOR v"
  by (rule bit_word_eqI) (fastforce simp: bit_simps KeyToUpper_bit dest: small_value_bit [OF assms])

lemma xor_move:
  fixes a b v :: "'a::len word"
  shows "a XOR b = v \<longleftrightarrow> a = b XOR v"
proof -
  have "(a XOR b) XOR b = a" "(b XOR v) XOR b = v"
    by (simp_all only: xor.commute [of b v] xor.assoc xor_self_eq xor.right_neutral)
  then show ?thesis by (auto simp: xor.commute)
qed

lemma TryGet_iff:
  "TryGet c key = Some v \<longleftrightarrow> v < 2 ^ kValuebits \<and> c (Hash key) = KeyToUpper key OR v"
proof -
  have up: "key AND NOT (mask kHashbits) = KeyToUpper key"
    by (rule bit_word_eqI) (auto simp: bit_simps KeyToUpper_bit kHashbits_def)
  note xor_move [of "c (Hash key)" "KeyToUpper key" v]
  then show ?thesis
    using upper_or_xor [of v key] unfolding TryGet_def up Let_def by (auto simp: not_le)
qed

lemma entry_inj:
  assumes "KeyToUpper k OR v = KeyToUpper k' OR v'" "v < 2 ^ kValuebits" "v' < 2 ^ kValuebits"
    and "Hash k = Hash k'"
  shows "k = k' \<and> v = v'"
proof
  have b: "bit (KeyToUpper k OR v) n = bit (KeyToUpper k' OR v') n" for n
    using assms(1) by simp
  show "v = v'"
  proof (rule bit_word_eqI)
    fix n
    show "bit v n = bit v' n"
      using b [of n] small_value_bit [OF assms(2), of n] small_value_bit [OF assms(3), of n]
      by (auto simp: bit_or_iff KeyToUpper_bit)
  qed
  have h: "bit (Hash k) n = bit (Hash k') n" for n
    using assms(4) by simp
  show "k = k'"
  proof (rule bit_word_eqI)
    fix n
    show "bit k n = bit k' n"
    proof (cases "n < 16")
      case True
      with h [of n] show ?thesis by (auto simp: Hash_def kHashbits_def bit_simps)
    next
      case False
      with b [of n] small_value_bit [OF assms(2), of n] small_value_bit [OF assms(3), of n]
      show ?thesis by (auto simp: bit_or_iff KeyToUpper_bit)
    qed
  qed
qed

lemma marked_entry_misses:
  assumes "bit (c (Hash k)) 7"
  shows "TryGet c k = None"
proof (cases "TryGet c k")
  case (Some v)
  then have v: "v < 2 ^ kValuebits" "c (Hash k) = KeyToUpper k OR v"
    by (simp_all add: TryGet_iff)
  with assms small_value_bit [OF v(1), of 7] show ?thesis
    by (simp add: bit_or_iff KeyToUpper_bit)
qed simp

lemma TryGet_Put:
  assumes "v < 2 ^ kValuebits"
  shows "TryGet (Put c k v) k' =
    (if k' = k then Some v else if Hash k' = Hash k then None else TryGet c k')"
proof -
  have "TryGet (Put c k v) k' = Some w \<longleftrightarrow>
      (if Hash k' = Hash k then k' = k \<and> w = v else TryGet c k' = Some w)" for w
    using entry_inj [of k v k' w] assms by (auto simp: TryGet_iff Put_def)
  then show ?thesis
    by (metis not_Some_eq)
qed

lemma TryGet_Invalidate:
  "TryGet (Invalidate c k) k' = (if Hash k' = Hash k then None else TryGet c k')"
proof (cases "Hash k' = Hash k")
  case True
  have "bit (KeyToUpper k OR kInvalidMask) 7"
    by (simp add: bit_or_iff kInvalidMask_def)
  with True show ?thesis
    by (simp add: marked_entry_misses Invalidate_def)
qed (simp add: TryGet_def Invalidate_def)

lemma TryGet_Clear: "TryGet Clear k = None"
  by (rule marked_entry_misses) (simp add: Clear_def)

section \<open>The contract of a page cache\<close>

locale page_cache =
  fixes try_get :: "'c \<Rightarrow> 'k \<Rightarrow> 'v option"
    and put :: "'c \<Rightarrow> 'k \<Rightarrow> 'v \<Rightarrow> 'c"
    and invalidate :: "'c \<Rightarrow> 'k \<Rightarrow> 'c"
    and empty :: 'c
    and storable :: "'v \<Rightarrow> bool"
  assumes get_put: "storable v \<Longrightarrow> try_get (put c k v) k = Some v"
    and get_put_other: "storable v \<Longrightarrow> k' \<noteq> k \<Longrightarrow> try_get (put c k v) k' \<in> {None, try_get c k'}"
    and get_invalidate: "try_get (invalidate c k) k = None"
    and get_invalidate_other: "try_get (invalidate c k) k' \<in> {None, try_get c k'}"
    and get_empty: "try_get empty k = None"
begin

text \<open>A cache is coherent with a map when every hit is the value of the map.\<close>

definition coherent :: "'c \<Rightarrow> ('k \<Rightarrow> 'v option) \<Rightarrow> bool" where
  "coherent c m \<longleftrightarrow> (\<forall>k v. try_get c k = Some v \<longrightarrow> m k = Some v)"

lemma coherent_empty: "coherent empty m"
  by (simp add: coherent_def get_empty)

lemma coherent_put:
  assumes "coherent c m" "storable v"
  shows "coherent (put c k v) (m(k \<mapsto> v))"
  unfolding coherent_def
proof (intro allI impI)
  fix k' w assume w: "try_get (put c k v) k' = Some w"
  show "(m(k \<mapsto> v)) k' = Some w"
  proof (cases "k' = k")
    case True
    with w get_put [OF assms(2), of c k] show ?thesis by simp
  next
    case False
    with w get_put_other [OF assms(2) False, of c] have "try_get c k' = Some w" by simp
    with assms(1) False show ?thesis by (simp add: coherent_def)
  qed
qed

lemma coherent_invalidate:
  assumes "coherent c m"
  shows "coherent (invalidate c k) (m(k := x))"
  unfolding coherent_def
proof (intro allI impI)
  fix k' w assume w: "try_get (invalidate c k) k' = Some w"
  then have "k' \<noteq> k" using get_invalidate [of c k] by auto
  moreover from w get_invalidate_other [of c k k'] have "try_get c k' = Some w" by simp
  ultimately show "(m(k := x)) k' = Some w"
    using assms by (simp add: coherent_def)
qed

lemma coherentD: "coherent c m \<Longrightarrow> try_get c k = Some v \<Longrightarrow> m k = Some v"
  by (simp add: coherent_def)

end

interpretation pc: page_cache TryGet Put Invalidate Clear "\<lambda>v. v < 2 ^ kValuebits"
  by unfold_locales (auto simp: TryGet_Put TryGet_Invalidate TryGet_Clear)

section \<open>Properties\<close>

text \<open>Uses of the cache beside the map it caches: an update of the map is followed by a \<open>Put\<close> of the
  new value, or comes with an \<open>Invalidate\<close> of the key.\<close>

datatype cache_op = PutOp u64 u64 | InvalidateOp u64 "u64 option"

fun run_cache :: "cache_op list \<Rightarrow> packed_cache \<times> (u64 \<Rightarrow> u64 option) \<Rightarrow> packed_cache \<times> (u64 \<Rightarrow> u64 option)" where
  "run_cache [] (c, m) = (c, m)"
| "run_cache (PutOp k v # ops) (c, m) = run_cache ops (Put c k v, m(k \<mapsto> v))"
| "run_cache (InvalidateOp k x # ops) (c, m) = run_cache ops (Invalidate c k, m(k := x))"

fun storable_op :: "cache_op \<Rightarrow> bool" where
  "storable_op (PutOp k v) \<longleftrightarrow> v < 2 ^ kValuebits"
| "storable_op (InvalidateOp k x) \<longleftrightarrow> True"

lemma run_cache_coherent:
  "pc.coherent c m \<Longrightarrow> \<forall>x \<in> set ops. storable_op x \<Longrightarrow> run_cache ops (c, m) = (c', m') \<Longrightarrow> pc.coherent c' m'"
proof (induction ops "(c, m)" arbitrary: c m rule: run_cache.induct)
  case (2 k v ops c m)
  then show ?case using pc.coherent_put [of c m v k] by simp
next
  case (3 k x ops c m)
  then show ?case using pc.coherent_invalidate [of c m k x] by simp
qed simp



end
