(* ===== verification/SystemAlloc.thy ===== *)
theory SystemAlloc
  imports Prelude
begin

text \<open>
  Memory from the operating system: \<open>TCMalloc_SystemAlloc\<close> and \<open>TCMalloc_SystemRelease\<close> of
  \<^verbatim>\<open>src/system-alloc.cc\<close>, \<open>MetaDataAlloc\<close> of \<^verbatim>\<open>src/common.cc\<close>, and the allocator of internal
  objects \<open>PageHeapAllocator\<close> of \<^verbatim>\<open>src/page_heap_allocator.h\<close>.  The pluggable \<open>SysAllocator\<close> and
  the system call that releases pages are functions of the number of the call, fields of the
  state \<open>sys\<close>; \<open>os_ok\<close> states what \<^verbatim>\<open>malloc_extension.h\<close> documents of a \<open>SysAllocator\<close>.  A
  failed \<open>CHECK_CONDITION\<close> sets \<open>aborted\<close>.
\<close>

section \<open>State\<close>

record sys =
  Alloc :: "nat \<Rightarrow> nat \<Rightarrow> nat \<Rightarrow> (addr \<times> nat) option"   \<comment> \<open>\<open>tcmalloc_sys_alloc->Alloc\<close>: call, size, alignment\<close>
  alloc_calls :: nat
  release_call :: "nat \<Rightarrow> addr \<Rightarrow> nat \<Rightarrow> bool \<times> bool"    \<comment> \<open>\<open>madvise\<close>: success, and \<open>errno == EAGAIN\<close>\<close>
  release_calls :: nat
  SystemTaken :: u64                                     \<comment> \<open>\<open>TCMalloc_SystemTaken\<close>\<close>
  disable_memory_release :: bool                         \<comment> \<open>\<open>FLAGS_malloc_disable_memory_release\<close>\<close>
  pagesize :: nat
  aborted :: bool
  metadata_chunk_alloc :: addr
  metadata_chunk_avail :: nat
  metadata_system_bytes :: u64

definition sizeof_MemoryAligner :: nat where "sizeof_MemoryAligner = 64"

section \<open>\<open>TCMalloc_SystemAlloc\<close> and \<open>TCMalloc_SystemRelease\<close>\<close>

definition CheckAddressBits :: "nat \<Rightarrow> bool" where
  "CheckAddressBits ptr \<longleftrightarrow> ptr div 2 ^ 48 = 0"

definition TCMalloc_SystemAlloc :: "sys \<Rightarrow> nat \<Rightarrow> nat \<Rightarrow> (addr \<times> nat) option \<times> sys" where
  "TCMalloc_SystemAlloc s sz alignment =
     (if (sz + alignment) mod 2 ^ 64 < sz then (None, s)
      else let alignment = (if alignment < sizeof_MemoryAligner then sizeof_MemoryAligner else alignment);
               r = Alloc s (alloc_calls s) sz alignment;
               s = s\<lparr> alloc_calls := alloc_calls s + 1 \<rparr>
           in case r of
                None \<Rightarrow> (None, s)
              | Some (p, actual_size) \<Rightarrow>
                  (Some (p, actual_size),
                   s\<lparr> aborted := aborted s \<or> \<not> CheckAddressBits ((p + actual_size + (2 ^ 64 - 1)) mod 2 ^ 64),
                      SystemTaken := SystemTaken s + of_nat actual_size \<rparr>))"

text \<open>The \<open>do ... while (!result && retry)\<close> around the system call; it need not return when the
  call keeps failing with \<open>EAGAIN\<close>.\<close>

partial_function (option) release_retry :: "sys \<Rightarrow> addr \<Rightarrow> nat \<Rightarrow> (bool \<times> sys) option" where
  "release_retry s start len =
     (let r = release_call s (release_calls s) start len;
          s' = s\<lparr> release_calls := release_calls s + 1 \<rparr>
      in if \<not> fst r \<and> snd r then release_retry s' start len else Some (fst r, s'))"

definition TCMalloc_SystemRelease :: "sys \<Rightarrow> addr \<Rightarrow> nat \<Rightarrow> (bool \<times> sys) option" where
  "TCMalloc_SystemRelease s start len =
     (if disable_memory_release s then Some (False, s)
      else let pagemask = of_nat (pagesize s) - (1 :: u64);
               new_start = (of_nat start + of_nat (pagesize s) - 1) AND NOT pagemask;
               new_end = (of_nat start + of_nat len) AND NOT pagemask
           in if new_end > new_start
              then release_retry s (unat new_start) (unat (new_end - new_start))
              else Some (False, s))"

section \<open>\<open>MetaDataAlloc\<close>\<close>

definition kMetadataAllocChunkSize :: nat where "kMetadataAllocChunkSize = 8 * 1024 * 1024"

definition MetaDataAlloc :: "sys \<Rightarrow> nat \<Rightarrow> addr option \<times> sys" where
  "MetaDataAlloc s bytes =
     (if bytes \<ge> kMetadataAllocChunkSize then
        (case TCMalloc_SystemAlloc s bytes sizeof_MemoryAligner of
           (None, s) \<Rightarrow> (None, s)
         | (Some (rv, _), s) \<Rightarrow>
             (Some rv, s\<lparr> metadata_system_bytes := metadata_system_bytes s + of_nat bytes \<rparr>))
      else
        let alignment = (sizeof_MemoryAligner - metadata_chunk_alloc s mod sizeof_MemoryAligner)
                          mod sizeof_MemoryAligner;
            take = (\<lambda>s alignment.
              (Some (metadata_chunk_alloc s + alignment),
               s\<lparr> metadata_chunk_alloc := metadata_chunk_alloc s + (bytes + alignment),
                  metadata_chunk_avail := metadata_chunk_avail s - (bytes + alignment),
                  metadata_system_bytes := metadata_system_bytes s + of_nat (bytes + alignment) \<rparr>))
        in if metadata_chunk_avail s < bytes + alignment then
             (case TCMalloc_SystemAlloc s kMetadataAllocChunkSize sizeof_MemoryAligner of
                (None, s) \<Rightarrow> (None, s)
              | (Some (ptr, real_size), s) \<Rightarrow>
                  take (s\<lparr> metadata_chunk_alloc := ptr, metadata_chunk_avail := real_size \<rparr>) 0)
           else take s alignment)"

section \<open>\<open>PageHeapAllocator\<close>\<close>

text \<open>The free list is threaded through the free objects; here it is the list of their addresses.\<close>

record PageHeapAllocator =
  free_area :: addr
  free_avail :: nat
  free_list :: "addr list"
  inuse :: int

definition kAllocIncrement :: nat where "kAllocIncrement = 128 * 1024"

text \<open>\<open>None\<close> is the crash ``Out of memory trying to allocate internal tcmalloc data''.\<close>

definition PHA_New :: "nat \<Rightarrow> sys \<Rightarrow> PageHeapAllocator \<Rightarrow> (addr \<times> sys \<times> PageHeapAllocator) option" where
  "PHA_New sizeof_T s a =
     (case free_list a of
        p # rest \<Rightarrow> Some (p, s, a\<lparr> free_list := rest, inuse := inuse a + 1 \<rparr>)
      | [] \<Rightarrow>
          do {
            (s, a) \<leftarrow>
              (if free_avail a < sizeof_T then
                 (case MetaDataAlloc s kAllocIncrement of
                    (None, s) \<Rightarrow> None
                  | (Some area, s) \<Rightarrow> Some (s, a\<lparr> free_area := area, free_avail := kAllocIncrement \<rparr>))
               else Some (s, a));
            Some (free_area a, s,
              a\<lparr> free_area := free_area a + sizeof_T, free_avail := free_avail a - sizeof_T,
                 inuse := inuse a + 1 \<rparr>)
          })"

definition PHA_Delete :: "PageHeapAllocator \<Rightarrow> addr \<Rightarrow> PageHeapAllocator" where
  "PHA_Delete a p = a\<lparr> free_list := p # free_list a, inuse := inuse a - 1 \<rparr>"

definition PHA_Init :: "nat \<Rightarrow> sys \<Rightarrow> (sys \<times> PageHeapAllocator) option" where
  "PHA_Init sizeof_T s =
     do { (p, s, a) \<leftarrow> PHA_New sizeof_T s \<lparr> free_area = 0, free_avail = 0, free_list = [], inuse = 0 \<rparr>;
          Some (s, PHA_Delete a p) }"

section \<open>What the system promises\<close>

text \<open>The bytes the n-th call of the system allocator may return.\<close>

definition sys_region :: "sys \<Rightarrow> nat \<Rightarrow> addr set" where
  "sys_region s i = {x. \<exists>sz al p act. Alloc s i sz al = Some (p, act) \<and> p \<le> x \<and> x < p + act}"

definition os_ok :: "sys \<Rightarrow> bool" where
  "os_ok s \<longleftrightarrow>
     (\<forall>i sz al p act. Alloc s i sz al = Some (p, act) \<longrightarrow>
        sz \<le> act \<and> al dvd p \<and> 0 < p \<and> p + act \<le> 2 ^ 48)
     \<and> (\<forall>i j. i \<noteq> j \<longrightarrow> sys_region s i \<inter> sys_region s j = {})"

definition sys_taken :: "sys \<Rightarrow> addr set" where
  "sys_taken s = (\<Union>i < alloc_calls s. sys_region s i)"

text \<open>What a step of the system interface leaves alone.\<close>

definition same_oracles :: "sys \<Rightarrow> sys \<Rightarrow> bool" where
  "same_oracles s s' \<longleftrightarrow> Alloc s' = Alloc s \<and> release_call s' = release_call s"

lemma sys_region_cong: "Alloc s' = Alloc s \<Longrightarrow> sys_region s' i = sys_region s i"
  by (simp add: sys_region_def)

lemma os_ok_cong: "Alloc s' = Alloc s \<Longrightarrow> os_ok s' = os_ok s"
  by (simp add: os_ok_def sys_region_def)

lemma sys_region_fresh: "os_ok s \<Longrightarrow> sys_region s (alloc_calls s) \<inter> sys_taken s = {}"
proof -
  assume "os_ok s"
  then have "sys_region s (alloc_calls s) \<inter> sys_region s i = {}" if "i < alloc_calls s" for i
    using that unfolding os_ok_def by (metis nat_neq_iff)
  then show ?thesis by (auto simp: sys_taken_def)
qed

lemma SystemAlloc_frame:
  assumes "TCMalloc_SystemAlloc s sz al = (r, s')"
  shows "Alloc s' = Alloc s" "release_call s' = release_call s" "alloc_calls s \<le> alloc_calls s'"
    "metadata_chunk_alloc s' = metadata_chunk_alloc s" "metadata_chunk_avail s' = metadata_chunk_avail s"
    "pagesize s' = pagesize s" "release_calls s' = release_calls s"
  using assms by (auto simp: TCMalloc_SystemAlloc_def Let_def split: if_splits option.splits prod.splits)

lemma SystemAlloc_region:
  assumes "os_ok s" "TCMalloc_SystemAlloc s sz al = (Some (p, act), s')"
  shows "{p ..< p + act} \<subseteq> sys_region s (alloc_calls s)" "alloc_calls s' = alloc_calls s + 1"
    "sz \<le> act" "max al 64 dvd p" "0 < p" "p + act \<le> 2 ^ 48" "0 < act \<Longrightarrow> aborted s' = aborted s"
proof -
  have eq: "Alloc s (alloc_calls s) sz (max al 64) = Some (p, act)"
      "alloc_calls s' = alloc_calls s + 1"
      "aborted s' = (aborted s \<or> \<not> CheckAddressBits ((p + act + (2 ^ 64 - 1)) mod 2 ^ 64))"
    using assms(2) unfolding TCMalloc_SystemAlloc_def Let_def max_def sizeof_MemoryAligner_def
    by (auto split: if_splits option.splits prod.splits)
  then show "{p ..< p + act} \<subseteq> sys_region s (alloc_calls s)"
    by (fastforce simp: sys_region_def)
  show 1: "alloc_calls s' = alloc_calls s + 1" "sz \<le> act" "max al 64 dvd p" "0 < p" "p + act \<le> 2 ^ 48"
    using assms(1) eq unfolding os_ok_def by blast+
  show "aborted s' = aborted s" if "0 < act"
  proof -
    have "p + act + (2 ^ 64 - 1) = p + act - 1 + 2 ^ 64" "p + act - 1 < 2 ^ 48"
      using that 1(5) by simp_all
    then have "(p + act + (2 ^ 64 - 1)) mod 2 ^ 64 = p + act - 1"
      by (simp only: mod_add_self2) simp
    with \<open>p + act - 1 < 2 ^ 48\<close> show ?thesis
      using eq(3) by (simp add: CheckAddressBits_def)
  qed
qed

section \<open>Metadata blocks never overlap\<close>

text \<open>\<open>U\<close> are the bytes handed out as metadata so far.\<close>

definition meta_inv :: "addr set \<Rightarrow> sys \<Rightarrow> bool" where
  "meta_inv U s \<longleftrightarrow> os_ok s \<and> U \<subseteq> sys_taken s
     \<and> {metadata_chunk_alloc s ..< metadata_chunk_alloc s + metadata_chunk_avail s} \<subseteq> sys_taken s
     \<and> U \<inter> {metadata_chunk_alloc s ..< metadata_chunk_alloc s + metadata_chunk_avail s} = {}"

lemma sys_taken_step:
  assumes "Alloc s' = Alloc s" "alloc_calls s \<le> alloc_calls s'"
  shows "sys_taken s \<subseteq> sys_taken s'"
  unfolding sys_taken_def sys_region_cong [OF assms(1)] using assms(2) by (intro UN_mono) auto

lemma sys_taken_Suc:
  assumes "Alloc s' = Alloc s" "alloc_calls s' = alloc_calls s + 1"
  shows "sys_taken s' = sys_taken s \<union> sys_region s (alloc_calls s)"
  unfolding sys_taken_def sys_region_cong [OF assms(1)] assms(2) by (auto simp: lessThan_Suc)

lemma MetaDataAlloc_frame:
  assumes "MetaDataAlloc s n = (r, s')"
  shows "Alloc s' = Alloc s" "release_call s' = release_call s" "alloc_calls s \<le> alloc_calls s'"
    "pagesize s' = pagesize s"
  using assms SystemAlloc_frame
  by (fastforce simp: MetaDataAlloc_def Let_def split: if_splits option.splits prod.splits)+

lemma meta_inv_cong:
  assumes "meta_inv U s" "Alloc s' = Alloc s" "alloc_calls s \<le> alloc_calls s'"
    "metadata_chunk_alloc s' = metadata_chunk_alloc s" "metadata_chunk_avail s' = metadata_chunk_avail s"
  shows "meta_inv U s'"
  using assms sys_taken_step [OF assms(2,3)] os_ok_cong [OF assms(2)] unfolding meta_inv_def by auto

lemma SystemAlloc_meta_inv:
  assumes "meta_inv U s" "TCMalloc_SystemAlloc s sz al = (r, s')"
  shows "meta_inv U s'"
  using SystemAlloc_frame [OF assms(2)] by (intro meta_inv_cong [OF assms(1)]) simp_all

text \<open>Carving a block off the current chunk.\<close>

lemma meta_take:
  assumes "meta_inv U s" "n + al \<le> metadata_chunk_avail s"
    and "p = metadata_chunk_alloc s + al"
    and "s' = s\<lparr> metadata_chunk_alloc := metadata_chunk_alloc s + (n + al),
                metadata_chunk_avail := metadata_chunk_avail s - (n + al),
                metadata_system_bytes := b \<rparr>"
  shows "{p ..< p + n} \<inter> U = {}" "meta_inv (U \<union> {p ..< p + n}) s'"
proof -
  have t: "sys_taken s' = sys_taken s" "os_ok s' = os_ok s"
    using assms(4) os_ok_cong [of s' s] by (simp_all add: sys_taken_def sys_region_def)
  show "{p ..< p + n} \<inter> U = {}" "meta_inv (U \<union> {p ..< p + n}) s'"
    using assms unfolding meta_inv_def t by (auto simp: disjoint_iff subset_iff)
qed

text \<open>A new chunk replaces the old one.\<close>

lemma meta_new_chunk:
  assumes "meta_inv U s" "TCMalloc_SystemAlloc s sz al = (Some (ptr, real), s1)"
  shows "meta_inv U (s1\<lparr> metadata_chunk_alloc := ptr, metadata_chunk_avail := real \<rparr>)"
proof -
  let ?s2 = "s1\<lparr> metadata_chunk_alloc := ptr, metadata_chunk_avail := real \<rparr>"
  have ok: "os_ok s" "U \<subseteq> sys_taken s"
    using assms(1) by (auto simp: meta_inv_def)
  note r = SystemAlloc_region [OF ok(1) assms(2)] and f = SystemAlloc_frame [OF assms(2)]
  have t: "sys_taken ?s2 = sys_taken s \<union> sys_region s (alloc_calls s)"
    using r(2) f(1) by (intro sys_taken_Suc) simp_all
  have "os_ok ?s2" using ok(1) f(1) os_ok_cong [of ?s2 s] by simp
  then show ?thesis
    using r(1) ok(2) sys_region_fresh [OF ok(1)] unfolding meta_inv_def t by auto
qed

lemma pad_dvd: "sizeof_MemoryAligner dvd a + (sizeof_MemoryAligner - a mod sizeof_MemoryAligner) mod sizeof_MemoryAligner"
proof -
  have "(a + (64 - a mod 64) mod 64) mod 64 = (a mod 64 + (64 - a mod 64)) mod 64"
    by (simp only: mod_add_left_eq mod_add_right_eq)
  also have "a mod 64 + (64 - a mod 64) = 64"
    by (simp add: less_imp_le)
  finally show ?thesis
    unfolding sizeof_MemoryAligner_def dvd_eq_mod_eq_0 by (simp only: mod_self)
qed

lemma MetaDataAlloc_fresh:
  assumes "meta_inv U s" "MetaDataAlloc s n = (Some p, s')"
  shows "{p ..< p + n} \<inter> U = {} \<and> meta_inv (U \<union> {p ..< p + n}) s' \<and> sizeof_MemoryAligner dvd p"
proof -
  let ?al = "(sizeof_MemoryAligner - metadata_chunk_alloc s mod sizeof_MemoryAligner) mod sizeof_MemoryAligner"
  have ok: "os_ok s" using assms(1) by (simp add: meta_inv_def)
  consider (large) "kMetadataAllocChunkSize \<le> n"
    | (chunk) "n < kMetadataAllocChunkSize" "metadata_chunk_avail s < n + ?al"
    | (fits) "n < kMetadataAllocChunkSize" "n + ?al \<le> metadata_chunk_avail s"
    by linarith
  then show ?thesis
  proof cases
    case large
    then obtain act s1 where a: "TCMalloc_SystemAlloc s n sizeof_MemoryAligner = (Some (p, act), s1)"
        "s' = s1\<lparr> metadata_system_bytes := metadata_system_bytes s1 + of_nat n \<rparr>"
      using assms(2) by (auto simp: MetaDataAlloc_def split: prod.splits option.splits)
    note r = SystemAlloc_region [OF ok a(1)] and f = SystemAlloc_frame [OF a(1)]
    have sub: "{p ..< p + n} \<subseteq> sys_region s (alloc_calls s)"
      using r(1,3) by auto
    have t: "sys_taken s' = sys_taken s \<union> sys_region s (alloc_calls s)"
      using a(2) r(2) f(1) by (intro sys_taken_Suc) simp_all
    have "os_ok s'" using ok f(1) a(2) os_ok_cong [of s' s] by simp
    then have "meta_inv (U \<union> {p ..< p + n}) s'" "{p ..< p + n} \<inter> U = {}"
      using assms(1) sub sys_region_fresh [OF ok] a(2) f(4,5) unfolding meta_inv_def t by auto
    with r(4) show ?thesis by (simp add: sizeof_MemoryAligner_def)
  next
    case chunk
    then obtain ptr real s1 where a: "TCMalloc_SystemAlloc s kMetadataAllocChunkSize sizeof_MemoryAligner = (Some (ptr, real), s1)"
        "p = ptr" "s' = s1\<lparr> metadata_chunk_alloc := ptr + n, metadata_chunk_avail := real - n,
           metadata_system_bytes := metadata_system_bytes s1 + of_nat n \<rparr>"
      using assms(2) by (auto simp: MetaDataAlloc_def Let_def split: prod.splits option.splits)
    note r = SystemAlloc_region [OF ok a(1)]
    let ?s2 = "s1\<lparr> metadata_chunk_alloc := ptr, metadata_chunk_avail := real \<rparr>"
    have fit: "n + 0 \<le> metadata_chunk_avail ?s2"
      using r(3) chunk(1) by simp
    have "p = metadata_chunk_alloc ?s2 + 0"
      "s' = ?s2\<lparr> metadata_chunk_alloc := metadata_chunk_alloc ?s2 + (n + 0),
                 metadata_chunk_avail := metadata_chunk_avail ?s2 - (n + 0),
                 metadata_system_bytes := metadata_system_bytes s1 + of_nat n \<rparr>"
      using a(2,3) by simp_all
    from meta_take [OF meta_new_chunk [OF assms(1) a(1)] fit this] r(4) a(2) show ?thesis
      by (simp add: sizeof_MemoryAligner_def)
  next
    case fits
    then have "p = metadata_chunk_alloc s + ?al"
        "s' = s\<lparr> metadata_chunk_alloc := metadata_chunk_alloc s + (n + ?al),
                metadata_chunk_avail := metadata_chunk_avail s - (n + ?al),
                metadata_system_bytes := metadata_system_bytes s + of_nat (n + ?al) \<rparr>"
      using assms(2) by (auto simp: MetaDataAlloc_def Let_def)
    from meta_take [OF assms(1) fits(2) this] show ?thesis
      using pad_dvd [of "metadata_chunk_alloc s"] \<open>p = _\<close> by simp
  qed
qed

lemma MetaDataAlloc_meta_inv:
  assumes "meta_inv U s" "MetaDataAlloc s n = (r, s')"
  obtains U' where "U \<subseteq> U'" "meta_inv U' s'"
proof (cases r)
  case (Some p)
  with MetaDataAlloc_fresh [OF assms(1)] assms(2) that show ?thesis by blast
next
  case None
  then have "meta_inv U s'"
    using assms SystemAlloc_meta_inv [OF assms(1)]
    by (auto simp: MetaDataAlloc_def Let_def split: if_splits prod.splits option.splits)
  then show ?thesis using that by blast
qed

section \<open>Internal objects\<close>

text \<open>The state of an object allocator with the set \<open>L\<close> of objects in use: the objects in use, the
  free objects and the free area are pairwise disjoint pieces of the metadata \<open>U\<close>.\<close>

definition block :: "nat \<Rightarrow> addr \<Rightarrow> addr set" where
  "block n p = {p ..< p + n}"

definition pha_inv :: "nat \<Rightarrow> addr set \<Rightarrow> addr set \<Rightarrow> PageHeapAllocator \<Rightarrow> bool" where
  "pha_inv n L U a \<longleftrightarrow> 0 < n \<and> distinct (free_list a) \<and> L \<inter> set (free_list a) = {}
     \<and> (\<forall>p \<in> L \<union> set (free_list a). block n p \<subseteq> U \<and> block n p \<inter> block (free_avail a) (free_area a) = {}
          \<and> (\<forall>q \<in> L \<union> set (free_list a). p \<noteq> q \<longrightarrow> block n p \<inter> block n q = {}))
     \<and> block (free_avail a) (free_area a) \<subseteq> U"

lemma pha_inv_mono: "pha_inv n L U a \<Longrightarrow> U \<subseteq> U' \<Longrightarrow> pha_inv n L U' a"
  unfolding pha_inv_def by blast

lemma PHA_Delete_inv:
  assumes "pha_inv n L U a" "p \<in> L"
  shows "pha_inv n (L - {p}) U (PHA_Delete a p)"
proof -
  have e: "L - {p} \<union> set (p # free_list a) = L \<union> set (free_list a)"
    using assms(2) by auto
  show ?thesis
    using assms unfolding pha_inv_def PHA_Delete_def by (simp add: e [simplified]) blast
qed

lemma pha_inv_pop:
  assumes "pha_inv n L U a" "free_list a = p # rest"
  shows "p \<notin> L" "pha_inv n (insert p L) U (a\<lparr> free_list := rest, inuse := i \<rparr>)"
  using assms unfolding pha_inv_def by auto

lemma pha_inv_carve:
  assumes "pha_inv n L U a" "free_list a = []" "n \<le> free_avail a"
  shows "free_area a \<notin> L"
    "pha_inv n (insert (free_area a) L) U
       (a\<lparr> free_area := free_area a + n, free_avail := free_avail a - n, inuse := i \<rparr>)"
proof -
  let ?p = "free_area a"
  have sub: "block n ?p \<subseteq> block (free_avail a) ?p"
      "block (free_avail a - n) (?p + n) \<subseteq> block (free_avail a) ?p"
      "block n ?p \<inter> block (free_avail a - n) (?p + n) = {}"
    using assms(3) by (auto simp: block_def)
  have "?p \<in> block n ?p" using assms(1) by (simp add: block_def pha_inv_def)
  with assms(1) sub show "?p \<notin> L" unfolding pha_inv_def by blast
  have old: "block n q \<inter> block (free_avail a) ?p = {}" if "q \<in> L" for q
    using assms(1) that unfolding pha_inv_def by blast
  have pair: "block n p \<inter> block n q = {}" if "p \<in> L" "q \<in> L" "p \<noteq> q" for p q
    using assms(1) that unfolding pha_inv_def by blast
  show "pha_inv n (insert ?p L) U
       (a\<lparr> free_area := free_area a + n, free_avail := free_avail a - n, inuse := i \<rparr>)"
    unfolding pha_inv_def
  proof (intro conjI ballI impI)
    fix p assume "p \<in> insert ?p L \<union> set (free_list (a\<lparr> free_area := ?p + n, free_avail := free_avail a - n, inuse := i \<rparr>))"
    then have p: "p = ?p \<or> p \<in> L" using assms(2) by simp
    show "block n p \<subseteq> U"
      using p assms(1) sub(1) unfolding pha_inv_def by blast
    show "block n p \<inter> block (free_avail (a\<lparr> free_area := ?p + n, free_avail := free_avail a - n, inuse := i \<rparr>))
        (free_area (a\<lparr> free_area := ?p + n, free_avail := free_avail a - n, inuse := i \<rparr>)) = {}"
      using p old sub(2,3) by auto
    fix q assume "q \<in> insert ?p L \<union> set (free_list (a\<lparr> free_area := ?p + n, free_avail := free_avail a - n, inuse := i \<rparr>))" "p \<noteq> q"
    then have "q = ?p \<and> p \<in> L \<or> p = ?p \<and> q \<in> L \<or> p \<in> L \<and> q \<in> L" using p assms(2) by auto
    then show "block n p \<inter> block n q = {}"
      using old sub(1) pair \<open>p \<noteq> q\<close> by blast
  qed (use assms(1,2) sub(2) in \<open>auto simp: pha_inv_def\<close>)
qed

lemma pha_inv_refill:
  assumes "pha_inv n L U a" "block m area \<inter> U = {}"
  shows "pha_inv n L (U \<union> block m area) (a\<lparr> free_area := area, free_avail := m \<rparr>)"
  using assms unfolding pha_inv_def by simp blast

lemma PHA_New_inv:
  assumes "meta_inv U s" "pha_inv n L U a" "n \<le> kAllocIncrement" "PHA_New n s a = Some (p, s', a')"
  obtains U' where "p \<notin> L" "U \<subseteq> U'" "meta_inv U' s'" "pha_inv n (insert p L) U' a'"
proof (cases "free_list a")
  case (Cons q rest)
  then have "p = q" "s' = s" "a' = a\<lparr> free_list := rest, inuse := inuse a + 1 \<rparr>"
    using assms(4) by (simp_all add: PHA_New_def)
  with pha_inv_pop [OF assms(2) Cons] assms(1) that [of U] show ?thesis by simp
next
  case Nil
  show ?thesis
  proof (cases "free_avail a < n")
    case False
    then have "p = free_area a" "s' = s" "a' = a\<lparr> free_area := free_area a + n,
        free_avail := free_avail a - n, inuse := inuse a + 1 \<rparr>"
      using assms(4) Nil by (auto simp: PHA_New_def)
    with pha_inv_carve [OF assms(2) Nil] False assms(1) that [of U] show ?thesis by simp
  next
    case True
    then obtain area s1 where m: "MetaDataAlloc s kAllocIncrement = (Some area, s')"
        "p = area" "a' = a\<lparr> free_area := area + n, free_avail := kAllocIncrement - n, inuse := inuse a + 1 \<rparr>"
      using assms(4) Nil by (auto simp: PHA_New_def split: prod.splits option.splits)
    note f = MetaDataAlloc_fresh [OF assms(1) m(1)]
    let ?U = "U \<union> block kAllocIncrement area"
    let ?a = "a\<lparr> free_area := area, free_avail := kAllocIncrement \<rparr>"
    have "pha_inv n L ?U ?a"
      using f by (intro pha_inv_refill [OF assms(2)]) (simp add: block_def)
    from pha_inv_carve [OF this] Nil assms(3) m(2,3)
    have "p \<notin> L" "pha_inv n (insert p L) ?U a'" by simp_all
    with f that [of ?U] show ?thesis by (simp add: block_def)
  qed
qed

lemma PHA_New_frame:
  assumes "PHA_New n s a = Some (p, s', a')"
  shows "Alloc s' = Alloc s" "release_call s' = release_call s" "alloc_calls s \<le> alloc_calls s'"
    "pagesize s' = pagesize s"
  using assms MetaDataAlloc_frame
  by (fastforce simp: PHA_New_def split: list.splits if_splits prod.splits option.splits bind_splits)+

section \<open>The contract of an object allocator\<close>

locale object_allocator =
  fixes New :: "'s \<Rightarrow> (addr \<times> 's) option"
    and Delete :: "'s \<Rightarrow> addr \<Rightarrow> 's"
    and inv :: "addr set \<Rightarrow> 's \<Rightarrow> bool"
    and sz :: nat
  assumes New_fresh: "inv L s \<Longrightarrow> New s = Some (p, s') \<Longrightarrow> p \<notin> L \<and> inv (insert p L) s'"
    and Delete_inv: "inv L s \<Longrightarrow> p \<in> L \<Longrightarrow> inv (L - {p}) (Delete s p)"
    and blocks_disjoint: "inv L s \<Longrightarrow> p \<in> L \<Longrightarrow> q \<in> L \<Longrightarrow> p \<noteq> q \<Longrightarrow> block sz p \<inter> block sz q = {}"
begin

lemma New_block_fresh:
  assumes "inv L s" "New s = Some (p, s')" "q \<in> L"
  shows "block sz p \<inter> block sz q = {}"
  using New_fresh [OF assms(1,2)] assms(3) blocks_disjoint [of "insert p L" s' p q] by blast

lemma New_New_distinct:
  assumes "inv L s" "New s = Some (p, s')" "New s' = Some (q, s'')"
  shows "p \<noteq> q"
  using New_fresh [OF assms(1,2)] New_fresh [of "insert p L" s' q s''] assms(3) by blast

lemma Delete_New_inv:
  assumes "inv L s" "p \<in> L" "New (Delete s p) = Some (q, s')"
  shows "inv (insert q (L - {p})) s'"
  using New_fresh [OF Delete_inv [OF assms(1,2)] assms(3)] by blast

end

definition PHA_New' :: "nat \<Rightarrow> sys \<times> PageHeapAllocator \<Rightarrow> (addr \<times> sys \<times> PageHeapAllocator) option" where
  "PHA_New' n = (\<lambda>(s, a). PHA_New n s a)"

definition pha_ok :: "nat \<Rightarrow> addr set \<Rightarrow> sys \<times> PageHeapAllocator \<Rightarrow> bool" where
  "pha_ok n L = (\<lambda>(s, a). \<exists>U. meta_inv U s \<and> pha_inv n L U a)"

lemma pha_okE:
  assumes "pha_ok n L (s, a)"
  obtains U where "meta_inv U s" "pha_inv n L U a"
  using assms by (auto simp: pha_ok_def)

lemma pha_ok_New:
  assumes "pha_ok n L (s, a)" "n \<le> kAllocIncrement" "PHA_New n s a = Some (p, s', a')"
  shows "p \<notin> L \<and> pha_ok n (insert p L) (s', a')"
proof -
  obtain U where U: "meta_inv U s" "pha_inv n L U a" by (rule pha_okE [OF assms(1)])
  show ?thesis
    by (rule PHA_New_inv [OF U assms(2,3)]) (auto simp: pha_ok_def)
qed

lemma pha_ok_Delete: "pha_ok n L (s, a) \<Longrightarrow> p \<in> L \<Longrightarrow> pha_ok n (L - {p}) (s, PHA_Delete a p)"
  by (auto simp: pha_ok_def intro: PHA_Delete_inv)

lemma pha_ok_MetaDataAlloc:
  "pha_ok n L (s, a) \<Longrightarrow> MetaDataAlloc s m = (r, s') \<Longrightarrow> pha_ok n L (s', a)"
  by (elim pha_okE, erule (1) MetaDataAlloc_meta_inv) (auto simp: pha_ok_def intro: pha_inv_mono)

lemma pha_ok_blocks:
  "pha_ok n L (s, a) \<Longrightarrow> p \<in> L \<Longrightarrow> q \<in> L \<Longrightarrow> p \<noteq> q \<Longrightarrow> block n p \<inter> block n q = {}"
  by (elim pha_okE) (auto simp: pha_inv_def)

lemma pha_ok_cong:
  assumes "pha_ok n L (s, a)" "Alloc s' = Alloc s" "alloc_calls s \<le> alloc_calls s'"
    "metadata_chunk_alloc s' = metadata_chunk_alloc s" "metadata_chunk_avail s' = metadata_chunk_avail s"
  shows "pha_ok n L (s', a)"
  using assms by (auto simp: pha_ok_def intro: meta_inv_cong)

lemma pha_ok_other:
  assumes "pha_ok n L (s, a)" "PHA_New m s b = Some (p, s', b')"
  shows "pha_ok n L (s', a)"
proof -
  have "s' = s \<or> (\<exists>area. MetaDataAlloc s kAllocIncrement = (Some area, s'))"
    using assms(2) by (auto simp: PHA_New_def split: list.splits if_splits prod.splits option.splits bind_splits)
  then show ?thesis using assms(1) pha_ok_MetaDataAlloc [OF assms(1)] by blast
qed

text \<open>The allocated objects have addresses other than the null pointer.\<close>

lemma pha_ok_nonzero:
  assumes "pha_ok n L (s, a)" "p \<in> L"
  shows "p \<noteq> 0"
proof -
  obtain U where U: "meta_inv U s" "pha_inv n L U a" by (rule pha_okE [OF assms(1)])
  then have "block n p \<subseteq> U" "U \<subseteq> sys_taken s" "0 < n" "os_ok s" using assms(2) by (simp_all add: pha_inv_def meta_inv_def)
  moreover have "p \<in> block n p" using \<open>0 < n\<close> by (simp add: block_def)
  ultimately have "p \<in> sys_taken s" by blast
  then obtain i sz al q act where "Alloc s i sz al = Some (q, act)" "q \<le> p" by (auto simp: sys_taken_def sys_region_def)
  moreover have "0 < q" using \<open>os_ok s\<close> calculation(1) unfolding os_ok_def by blast
  ultimately show ?thesis by simp
qed

text \<open>A step of the system, by whichever user of the metadata, keeps every allocator of objects well formed.\<close>

definition sys_step :: "sys \<Rightarrow> sys \<Rightarrow> bool" where
  "sys_step s s' \<longleftrightarrow> (\<forall>n L a. pha_ok n L (s, a) \<longrightarrow> pha_ok n L (s', a))"

lemma sys_stepD: "sys_step s s' \<Longrightarrow> pha_ok n L (s, a) \<Longrightarrow> pha_ok n L (s', a)"
  by (simp add: sys_step_def)

lemma sys_step_refl [simp]: "sys_step s s"
  by (simp add: sys_step_def)

lemma sys_step_trans: "sys_step s s1 \<Longrightarrow> sys_step s1 s2 \<Longrightarrow> sys_step s s2"
  by (simp add: sys_step_def)

lemma sys_step_cong:
  assumes "Alloc s' = Alloc s" "alloc_calls s \<le> alloc_calls s'"
    "metadata_chunk_alloc s' = metadata_chunk_alloc s" "metadata_chunk_avail s' = metadata_chunk_avail s"
  shows "sys_step s s'"
  using pha_ok_cong [OF _ assms] by (simp add: sys_step_def)

lemma sys_step_MetaDataAlloc: "MetaDataAlloc s m = (r, s') \<Longrightarrow> sys_step s s'"
  using pha_ok_MetaDataAlloc by (simp add: sys_step_def)

lemma sys_step_New: "PHA_New m s b = Some (p, s', b') \<Longrightarrow> sys_step s s'"
  using pha_ok_other by (simp add: sys_step_def)

text \<open>The allocator of \<open>Span\<close> objects (48 bytes each on a 64-bit machine), with the other users of
  the metadata allocator.\<close>

definition sizeof_Span :: nat where "sizeof_Span = 48"

interpretation span_objects: object_allocator "PHA_New' sizeof_Span" "\<lambda>(s, a) p. (s, PHA_Delete a p)"
  "pha_ok sizeof_Span" sizeof_Span
proof
  fix L and s s' :: "sys \<times> PageHeapAllocator" and p
  assume "pha_ok sizeof_Span L s" "PHA_New' sizeof_Span s = Some (p, s')"
  then show "p \<notin> L \<and> pha_ok sizeof_Span (insert p L) s'"
    using pha_ok_New [of sizeof_Span L "fst s" "snd s" p "fst s'" "snd s'"]
    by (simp add: PHA_New'_def kAllocIncrement_def sizeof_Span_def split: prod.splits)
qed (auto intro: pha_ok_Delete dest: pha_ok_blocks)

section \<open>Properties\<close>

text \<open>Histories of the system interface: \<open>bs\<close> are the blocks \<open>MetaDataAlloc\<close> returned, latest first, while
  the page heap calls \<open>TCMalloc_SystemAlloc\<close> on its own.\<close>

inductive meta_history :: "sys \<Rightarrow> (addr \<times> nat) list \<Rightarrow> sys \<Rightarrow> bool" for s0 :: sys where
  meta_start: "metadata_chunk_avail s0 = 0 \<Longrightarrow> meta_history s0 [] s0"
| meta_alloc: "meta_history s0 bs s \<Longrightarrow> MetaDataAlloc s n = (Some p, s') \<Longrightarrow> meta_history s0 ((p, n) # bs) s'"
| meta_fail: "meta_history s0 bs s \<Longrightarrow> MetaDataAlloc s n = (None, s') \<Longrightarrow> meta_history s0 bs s'"
| meta_sys: "meta_history s0 bs s \<Longrightarrow> TCMalloc_SystemAlloc s n al = (r, s') \<Longrightarrow> meta_history s0 bs s'"

lemma meta_history_inv:
  assumes "meta_history s0 bs s" "os_ok s0"
  shows "\<exists>U. meta_inv U s \<and> (\<forall>(p, n) \<in> set bs. {p ..< p + n} \<subseteq> U \<and> sizeof_MemoryAligner dvd p)
     \<and> sorted_wrt (\<lambda>(p, n) (q, m). {p ..< p + n} \<inter> {q ..< q + m} = {}) bs"
  using assms
proof (induction rule: meta_history.induct)
  case meta_start
  then show ?case by (intro exI [of _ "{}"]) (simp add: meta_inv_def)
next
  case (meta_alloc bs s n p s')
  then obtain U where U: "meta_inv U s" "\<forall>(p, n) \<in> set bs. {p ..< p + n} \<subseteq> U \<and> sizeof_MemoryAligner dvd p"
      "sorted_wrt (\<lambda>(p, n) (q, m). {p ..< p + n} \<inter> {q ..< q + m} = {}) bs" by auto
  note f = MetaDataAlloc_fresh [OF U(1) meta_alloc.hyps(2)]
  have "\<forall>(q, m) \<in> set bs. {p ..< p + n} \<inter> {q ..< q + m} = {}"
    using U(2) f by fastforce
  with U(2,3) f show ?case
    by (intro exI [of _ "U \<union> {p ..< p + n}"]) auto
next
  case (meta_fail bs s n s')
  then obtain U where U: "meta_inv U s" "\<forall>(p, n) \<in> set bs. {p ..< p + n} \<subseteq> U \<and> sizeof_MemoryAligner dvd p"
      "sorted_wrt (\<lambda>(p, n) (q, m). {p ..< p + n} \<inter> {q ..< q + m} = {}) bs" by auto
  obtain U' where "U \<subseteq> U'" "meta_inv U' s'"
    by (rule MetaDataAlloc_meta_inv [OF U(1) meta_fail.hyps(2)])
  with U(2,3) show ?case by (intro exI [of _ U']) fastforce
next
  case (meta_sys bs s n al r s')
  then show ?case using SystemAlloc_meta_inv by blast
qed

text \<open>Blocks returned by \<open>MetaDataAlloc\<close> never overlap and are aligned to a cache line, whatever the
  sizes requested, also across a change of chunk, failed requests and the page heap's own calls
  of \<open>TCMalloc_SystemAlloc\<close>, provided the system allocator returns disjoint aligned regions.\<close>

lemma MetaDataAlloc_disjoint:
  assumes "meta_history s0 bs s" "os_ok s0" "i < j" "j < length bs"
  shows "{fst (bs ! i) ..< fst (bs ! i) + snd (bs ! i)} \<inter> {fst (bs ! j) ..< fst (bs ! j) + snd (bs ! j)} = {}
    \<and> sizeof_MemoryAligner dvd fst (bs ! i)"
proof -
  from meta_history_inv [OF assms(1,2)] have
    "sorted_wrt (\<lambda>(p, n) (q, m). {p ..< p + n} \<inter> {q ..< q + m} = {}) bs"
    and al: "\<forall>(p, n) \<in> set bs. sizeof_MemoryAligner dvd p" by auto
  from sorted_wrt_nth_less [OF this(1) assms(3,4)] have
    "{fst (bs ! i) ..< fst (bs ! i) + snd (bs ! i)} \<inter> {fst (bs ! j) ..< fst (bs ! j) + snd (bs ! j)} = {}"
    by (simp add: case_prod_beta)
  moreover have "bs ! i \<in> set bs" using assms(3,4) by simp
  with al have "sizeof_MemoryAligner dvd fst (bs ! i)" by (auto simp: case_prod_beta)
  ultimately show ?thesis by simp
qed

text \<open>A system that hands out one 8 MB region per call, at increasing addresses.\<close>

definition demo_sys :: sys where
  "demo_sys = \<lparr> Alloc = (\<lambda>i sz al. if sz \<le> 8388608 \<and> al dvd 8388608 \<and> i < 1000
                   then Some ((i + 1) * 8388608, 8388608) else None),
     alloc_calls = 0, release_call = (\<lambda>_ _ _. (True, False)), release_calls = 0, SystemTaken = 0,
     disable_memory_release = False, pagesize = 4096, aborted = False, metadata_chunk_alloc = 0,
     metadata_chunk_avail = 0, metadata_system_bytes = 0 \<rparr>"

lemma demo_sys_ok: "os_ok demo_sys"
proof -
  have r: "sys_region demo_sys i \<subseteq> {(i + 1) * 8388608 ..< (i + 2) * 8388608}" for i
    by (auto simp: sys_region_def demo_sys_def split: if_splits)
  have "sys_region demo_sys i \<inter> sys_region demo_sys j = {}" if "i < j" for i j
  proof -
    have "(i + 2) * 8388608 \<le> (j + 1) * 8388608" using that by (intro mult_le_mono1) simp
    with r [of i] r [of j] show ?thesis by (fastforce simp: disjoint_iff)
  qed
  then have "i \<noteq> j \<Longrightarrow> sys_region demo_sys i \<inter> sys_region demo_sys j = {}" for i j
    by (metis Int_commute nat_neq_iff)
  moreover have "al dvd (i + 1) * 8388608" if "al dvd 8388608" for al i :: nat
    using that by (rule dvd_mult)
  ultimately show ?thesis
    unfolding os_ok_def by (auto simp: demo_sys_def split: if_splits)
qed

text \<open>Histories of one object allocator among the other users of the system interface: \<open>L\<close> are the
  objects in use.\<close>

inductive object_history :: "nat \<Rightarrow> sys \<Rightarrow> addr set \<Rightarrow> sys \<Rightarrow> PageHeapAllocator \<Rightarrow> bool"
  for n :: nat and s0 :: sys where
  obj_start: "metadata_chunk_avail s0 = 0 \<Longrightarrow> PHA_Init n s0 = Some (s, a) \<Longrightarrow> object_history n s0 {} s a"
| obj_new: "object_history n s0 L s a \<Longrightarrow> PHA_New n s a = Some (p, s', a')
    \<Longrightarrow> object_history n s0 (insert p L) s' a'"
| obj_delete: "object_history n s0 L s a \<Longrightarrow> p \<in> L \<Longrightarrow> object_history n s0 (L - {p}) s (PHA_Delete a p)"
| obj_meta: "object_history n s0 L s a \<Longrightarrow> MetaDataAlloc s m = (r, s') \<Longrightarrow> object_history n s0 L s' a"

lemma PHA_Init_New:
  assumes "PHA_Init n s = Some (s', a)"
  obtains p a1 where "PHA_New n s \<lparr> free_area = 0, free_avail = 0, free_list = [], inuse = 0 \<rparr> = Some (p, s', a1)" "a = PHA_Delete a1 p"
  using assms by (auto simp: PHA_Init_def bind_eq_Some_conv)

lemma pha_ok_Init:
  assumes "meta_inv U s" "0 < n" "n \<le> kAllocIncrement" "PHA_Init n s = Some (s', a)"
  shows "pha_ok n {} (s', a)"
proof -
  let ?a0 = "\<lparr> free_area = 0, free_avail = 0, free_list = [], inuse = 0 \<rparr>"
  have "pha_ok n {} (s, ?a0)" using assms(1,2) by (auto simp: pha_ok_def pha_inv_def block_def)
  moreover obtain p a1 where "PHA_New n s ?a0 = Some (p, s', a1)" "a = PHA_Delete a1 p"
    by (rule PHA_Init_New [OF assms(4)])
  ultimately show ?thesis
    using pha_ok_New [OF _ assms(3)] pha_ok_Delete [of n "{p}" s' a1 p] by fastforce
qed

lemma meta_inv_start: "os_ok s \<Longrightarrow> metadata_chunk_avail s = 0 \<Longrightarrow> meta_inv {} s"
  by (simp add: meta_inv_def)

lemma object_history_ok:
  assumes "object_history n s0 L s a" "os_ok s0" "0 < n" "n \<le> kAllocIncrement"
  shows "pha_ok n L (s, a)"
  using assms
proof (induction rule: object_history.induct)
  case (obj_start s a)
  then show ?case by (intro pha_ok_Init [OF meta_inv_start, of s0]) simp_all
next
  case (obj_new L s a p s' a')
  then show ?case using pha_ok_New [of n L s a p s' a'] by simp
next
  case (obj_delete L s a p)
  then show ?case by (intro pha_ok_Delete) simp_all
next
  case (obj_meta L s a m r s')
  then show ?case using pha_ok_MetaDataAlloc by blast
qed

text \<open>C34. \<open>PageHeapAllocator\<close> never hands out memory that is in use: after any history of \<open>New\<close>, \<open>Delete\<close>
  and other metadata allocations, the objects in use do not overlap, and the next \<open>New\<close> returns an
  object disjoint from all of them.\<close>

theorem PageHeapAllocator_fresh:
  assumes "object_history n s0 L s a" "os_ok s0" "0 < n" "n \<le> kAllocIncrement"
    and "PHA_New n s a = Some (p, s', a')" "q \<in> L"
  shows "p \<noteq> q \<and> block n p \<inter> block n q = {} \<and> (\<forall>r \<in> L. r \<noteq> q \<longrightarrow> block n r \<inter> block n q = {})"
proof -
  note ok = object_history_ok [OF assms(1-4)]
  note new = pha_ok_New [OF ok assms(4,5)]
  have "p \<noteq> q" using new assms(6) by auto
  with new assms(6) pha_ok_blocks [of n "insert p L" s' a' p q] pha_ok_blocks [OF ok _ assms(6)]
  show ?thesis by blast
qed

theorem PageHeapAllocator_fresh_witness:
  "\<exists>s a p s' a'. object_history 48 demo_sys {8388608} s a \<and> PHA_New 48 s a = Some (p, s', a')
     \<and> block 48 p \<inter> block 48 8388608 = {}"
proof -
  obtain s a where 1: "PHA_Init 48 demo_sys = Some (s, a)" "free_list a = [8388608]"
      "free_area a = 8388656" "free_avail a = 131024"
    by (simp add: PHA_Init_def PHA_New_def PHA_Delete_def kAllocIncrement_def MetaDataAlloc_def
      TCMalloc_SystemAlloc_def demo_sys_def Let_def kMetadataAllocChunkSize_def sizeof_MemoryAligner_def
      CheckAddressBits_def)
  obtain a1 where 2: "PHA_New 48 s a = Some (8388608, s, a1)" "free_list a1 = []"
      "free_area a1 = 8388656" "free_avail a1 = 131024"
    using 1 by (simp add: PHA_New_def)
  obtain a2 where 3: "PHA_New 48 s a1 = Some (8388656, s, a2)"
    using 2 by (simp add: PHA_New_def)
  have h: "object_history 48 demo_sys {8388608} s a1"
    by (rule obj_new [OF obj_start [OF _ 1(1)] 2(1)]) (simp add: demo_sys_def)
  have "block 48 8388656 \<inter> block 48 8388608 = {}"
    using PageHeapAllocator_fresh [OF h demo_sys_ok _ _ 3, of 8388608] by (simp add: kAllocIncrement_def)
  with h 3 show ?thesis by blast
qed

section \<open>The allocators of the metadata objects\<close>

text \<open>The steps of \<open>Static::InitStaticVars\<close> that initialise the allocators of the \<open>Span\<close> and of the
  \<open>StackTrace\<close> objects.\<close>

definition kMaxStackDepth :: nat where "kMaxStackDepth = 31"
definition sizeof_StackTrace :: nat where "sizeof_StackTrace = 8 * (2 + kMaxStackDepth)"

definition InitAllocators :: "sys \<Rightarrow> (sys \<times> PageHeapAllocator \<times> PageHeapAllocator) option" where
  "InitAllocators s =
     do { (s, a) \<leftarrow> PHA_Init sizeof_Span s;
          (p, s, a) \<leftarrow> PHA_New sizeof_Span s a;
          (p, s, a) \<leftarrow> PHA_New sizeof_Span s a;
          (s, b) \<leftarrow> PHA_Init sizeof_StackTrace s;
          Some (s, a, b) }"

lemma pha_ok_fewer: "pha_ok n L (s, a) \<Longrightarrow> L' \<subseteq> L \<Longrightarrow> pha_ok n L' (s, a)"
proof -
  assume ok: "pha_ok n L (s, a)" and L: "L' \<subseteq> L"
  obtain U where U: "meta_inv U s" "pha_inv n L U a" by (rule pha_okE [OF ok])
  have sub: "L' \<union> set (free_list a) \<subseteq> L \<union> set (free_list a)" using L by blast
  have "pha_inv n L' U a"
    using U(2) sub L unfolding pha_inv_def by (meson disjoint_iff subsetD)
  with U(1) show ?thesis by (auto simp: pha_ok_def)
qed

lemma sys_step_Init: "PHA_Init n s = Some (s', a) \<Longrightarrow> sys_step s s'"
  by (elim PHA_Init_New) (rule sys_step_New)

lemma InitAllocators_ok:
  assumes "os_ok s0" "metadata_chunk_avail s0 = 0" "InitAllocators s0 = Some (s, a, b)"
  shows "pha_ok sizeof_Span {} (s, a)" "pha_ok sizeof_StackTrace {} (s, b)" "Alloc s = Alloc s0" "release_call s = release_call s0"
proof -
  have le: "sizeof_Span \<le> kAllocIncrement" "sizeof_StackTrace \<le> kAllocIncrement" "0 < sizeof_Span" "0 < sizeof_StackTrace"
    by (simp_all add: sizeof_Span_def sizeof_StackTrace_def kMaxStackDepth_def kAllocIncrement_def)
  obtain s1 a1 p s2 a2 q s3 where i: "PHA_Init sizeof_Span s0 = Some (s1, a1)" "PHA_New sizeof_Span s1 a1 = Some (p, s2, a2)"
      "PHA_New sizeof_Span s2 a2 = Some (q, s3, a)" "PHA_Init sizeof_StackTrace s3 = Some (s, b)"
    using assms(3) by (auto simp: InitAllocators_def bind_eq_Some_conv)
  have "pha_ok sizeof_Span {} (s1, a1)" by (rule pha_ok_Init [OF meta_inv_start [OF assms(1,2)] le(3,1) i(1)])
  then have "pha_ok sizeof_Span (insert q (insert p {})) (s3, a)"
    using pha_ok_New [OF _ le(1) i(2)] pha_ok_New [OF _ le(1) i(3)] by blast
  then have ok: "pha_ok sizeof_Span {} (s3, a)" by (rule pha_ok_fewer) simp
  show "pha_ok sizeof_Span {} (s, a)" by (rule sys_stepD [OF sys_step_Init [OF i(4)] ok])
  from ok obtain U where "meta_inv U s3" by (rule pha_okE)
  from pha_ok_Init [OF this le(4,2) i(4)] show "pha_ok sizeof_StackTrace {} (s, b)" .
  show "Alloc s = Alloc s0" "release_call s = release_call s0"
    using PHA_New_frame [OF i(2)] PHA_New_frame [OF i(3)] PHA_Init_New [OF i(1)] PHA_Init_New [OF i(4)] PHA_New_frame by metis+
qed

end
