(* ===== verification/PageHeap.thy ===== *)
theory PageHeap
  imports Complex_Main SizeMap PageMap PackedCache SystemAlloc
begin

text \<open>
  The page-level allocator of \<^verbatim>\<open>src/page_heap.h\<close> and \<^verbatim>\<open>src/page_heap.cc\<close>, with the spans of
  \<^verbatim>\<open>src/span.h\<close> and \<^verbatim>\<open>src/span.cc\<close>.  \<open>Span\<close> objects live in a store indexed by their address;
  an operation that changes the heap takes the heap and returns it, in the option monad.
  \<open>None\<close> is a crash: a failed \<open>CHECK_CONDITION\<close>, the end of the metadata, a read through a
  null pointer, or a loop that does not return.  The doubly linked lists of free spans are lists
  of span addresses, first element next to the list head; the ordered sets of large spans are
  lists in the order of \<open>SpanBestFitLess\<close>.  \<open>free h ON_NORMAL_FREELIST i\<close> is \<open>free_[i].normal\<close>,
  \<open>large h ON_RETURNED_FREELIST\<close> is \<open>large_returned_\<close>, and so on.
\<close>

section \<open>Spans\<close>

datatype location = IN_USE | ON_NORMAL_FREELIST | ON_RETURNED_FREELIST

record Span =
  sp_start :: nat
  sp_length :: nat
  sp_objects :: "addr list"
  sp_refcount :: nat
  sp_sizeclass :: nat
  sp_location :: location
  sp_sample :: bool

type_synonym span_store = "addr \<rightharpoonup> Span"

text \<open>\<open>SpanPtrWithLength\<close>: the cached length and the span.\<close>

type_synonym SpanPtrWithLength = "nat \<times> addr"

definition start_of :: "span_store \<Rightarrow> addr \<Rightarrow> nat" where
  "start_of sp p = (case sp p of None \<Rightarrow> 0 | Some s \<Rightarrow> sp_start s)"

definition SpanBestFitLess :: "span_store \<Rightarrow> SpanPtrWithLength \<Rightarrow> SpanPtrWithLength \<Rightarrow> bool" where
  "SpanBestFitLess sp a b =
     (if fst a < fst b then True
      else if fst a > fst b then False
      else start_of sp (snd a) < start_of sp (snd b))"

text \<open>\<open>std::set\<close> with this comparison: insertion, and the first element after the bound
  \<open>{start = 0, length = n}\<close>.\<close>

fun SpanSet_insert :: "span_store \<Rightarrow> SpanPtrWithLength \<Rightarrow> SpanPtrWithLength list \<Rightarrow> SpanPtrWithLength list" where
  "SpanSet_insert sp x [] = [x]"
| "SpanSet_insert sp x (y # ys) =
     (if SpanBestFitLess sp x y then x # y # ys
      else if SpanBestFitLess sp y x then y # SpanSet_insert sp x ys
      else y # ys)"

definition SpanSet_upper_bound :: "span_store \<Rightarrow> nat \<Rightarrow> SpanPtrWithLength list \<Rightarrow> addr option" where
  "SpanSet_upper_bound sp n xs =
     map_option snd (find (\<lambda>(l, p). n < l \<or> n = l \<and> 0 < start_of sp p) xs)"

section \<open>State\<close>

record Stats =
  system_bytes :: u64
  free_bytes :: u64
  unmapped_bytes :: u64
  committed_bytes :: u64
  scavenge_count :: u64
  commit_count :: u64
  total_commit_bytes :: u64
  decommit_count :: u64
  total_decommit_bytes :: u64
  reserve_count :: u64
  total_reserve_bytes :: u64

record PageHeap =
  smallest_span_size :: nat
  pagemap :: "(sys, addr) PageMap2"
  pagemap_cache :: packed_cache
  large :: "location \<Rightarrow> SpanPtrWithLength list"
  free :: "location \<Rightarrow> nat \<Rightarrow> addr list"
  stats :: Stats
  scavenge_counter :: int
  release_index :: nat
  aggressive_decommit :: bool
  spans :: span_store
  span_allocator :: PageHeapAllocator
  system :: sys
  heap_limit_mb :: int            \<comment> \<open>\<open>FLAGS_tcmalloc_heap_limit_mb\<close>\<close>
  release_rate :: rat             \<comment> \<open>\<open>FLAGS_tcmalloc_release_rate\<close>\<close>
  stacktrace_allocator :: PageHeapAllocator
  growth_stacks :: "(addr \<times> nat) list"   \<comment> \<open>the traces pushed by \<open>HandleUnlock\<close>, with their sizes\<close>

definition kPageMapBits :: nat where [simp]: "kPageMapBits = 35"   \<comment> \<open>\<open>kAddressBits - kPageShift\<close>\<close>
definition kMinSystemAlloc :: nat where "kMinSystemAlloc = kMaxPages"
definition kMaxReleaseDelay :: int where "kMaxReleaseDelay = 2 ^ 20"
definition kDefaultReleaseDelay :: int where "kDefaultReleaseDelay = 2 ^ 18"
definition kForcedCoalesceInterval :: u64 where "kForcedCoalesceInterval = 128 * 1024 * 1024"
definition kPageMapBigAllocationThreshold :: u64 where "kPageMapBigAllocationThreshold = 128 * 2 ^ 20"

text \<open>\<open>n << kPageShift\<close> in 64 bits.\<close>

definition page_bytes :: "nat \<Rightarrow> u64" where
  "page_bytes n = of_nat n * 2 ^ kPageShift"

abbreviation upd_stats :: "(Stats \<Rightarrow> Stats) \<Rightarrow> PageHeap \<Rightarrow> PageHeap" where
  "upd_stats f h \<equiv> h\<lparr> stats := f (stats h) \<rparr>"

abbreviation upd_span :: "addr \<Rightarrow> Span \<Rightarrow> PageHeap \<Rightarrow> PageHeap" where
  "upd_span p s h \<equiv> h\<lparr> spans := (spans h)(p \<mapsto> s) \<rparr>"

text \<open>The metadata allocator as the page map calls it, for a leaf of \<open>2^18\<close> pointers.\<close>

definition pagemap_allocator :: "sys \<Rightarrow> bool \<times> sys" where
  "pagemap_allocator s = (case MetaDataAlloc s (8 * 2 ^ 18) of (r, s) \<Rightarrow> (r \<noteq> None, s))"

definition PageHeap_init :: "nat \<Rightarrow> sys \<Rightarrow> PageHeapAllocator \<Rightarrow> PageHeapAllocator \<Rightarrow> int \<Rightarrow> rat \<Rightarrow> PageHeap option" where
  "PageHeap_init smallest s a b limit rate =
     (if (of_nat smallest :: u64) AND (of_nat smallest - 1) = 0 then
        Some \<lparr> smallest_span_size = smallest,
           pagemap = PageMap2_init pagemap_allocator s,
           pagemap_cache = Clear, large = (\<lambda>_. []), free = (\<lambda>_ _. []),
           stats = \<lparr> system_bytes = 0, free_bytes = 0, unmapped_bytes = 0, committed_bytes = 0,
             scavenge_count = 0, commit_count = 0, total_commit_bytes = 0, decommit_count = 0,
             total_decommit_bytes = 0, reserve_count = 0, total_reserve_bytes = 0 \<rparr>,
           scavenge_counter = 0, release_index = kMaxPages, aggressive_decommit = False,
           spans = Map.empty, span_allocator = a, system = s,
           heap_limit_mb = limit, release_rate = rate, stacktrace_allocator = b, growth_stacks = [] \<rparr>
      else None)"

section \<open>Descriptors and the page map\<close>

definition NewSpan :: "PageHeap \<Rightarrow> nat \<Rightarrow> nat \<Rightarrow> (addr \<times> PageHeap) option" where
  "NewSpan h p n =
     do { (q, s, a) \<leftarrow> PHA_New sizeof_Span (system h) (span_allocator h);
          Some (q, h\<lparr> system := s, span_allocator := a,
                spans := (spans h)(q \<mapsto> \<lparr> sp_start = p, sp_length = n, sp_objects = [],
                  sp_refcount = 0, sp_sizeclass = 0, sp_location = IN_USE, sp_sample = False \<rparr>) \<rparr>) }"

definition DeleteSpan :: "PageHeap \<Rightarrow> addr \<Rightarrow> PageHeap" where
  "DeleteSpan h p = h\<lparr> spans := (spans h)(p := None), span_allocator := PHA_Delete (span_allocator h) p \<rparr>"

definition pagemap_set :: "PageHeap \<Rightarrow> nat \<Rightarrow> addr \<Rightarrow> PageHeap option" where
  "pagemap_set h k p =
     do { pm \<leftarrow> PageMap2_set kPageMapBits (pagemap h) k (Some p); Some (h\<lparr> pagemap := pm \<rparr>) }"

definition GetDescriptor :: "PageHeap \<Rightarrow> nat \<Rightarrow> addr option" where
  "GetDescriptor h k = PageMap2_get kPageMapBits (pagemap h) k"

definition RecordSpan :: "PageHeap \<Rightarrow> addr \<Rightarrow> PageHeap option" where
  "RecordSpan h p =
     do { s \<leftarrow> spans h p;
          h \<leftarrow> pagemap_set h (sp_start s) p;
          if sp_length s > 1 then pagemap_set h (sp_start s + sp_length s - 1) p else Some h }"

definition RegisterSizeClass :: "PageHeap \<Rightarrow> addr \<Rightarrow> nat \<Rightarrow> PageHeap option" where
  "RegisterSizeClass h p sc =
     do { s \<leftarrow> spans h p;
          foldl (\<lambda>r i. do { h \<leftarrow> r; pagemap_set h (sp_start s + i) p })
            (Some (upd_span p (s\<lparr> sp_sizeclass := sc mod 256 \<rparr>) h)) [1 ..< sp_length s - 1] }"

definition InvalidateCachedSizeClass :: "PageHeap \<Rightarrow> nat \<Rightarrow> PageHeap" where
  "InvalidateCachedSizeClass h p = h\<lparr> pagemap_cache := Invalidate (pagemap_cache h) (of_nat p) \<rparr>"

definition SetCachedSizeClass :: "PageHeap \<Rightarrow> nat \<Rightarrow> nat \<Rightarrow> PageHeap" where
  "SetCachedSizeClass h p cl = h\<lparr> pagemap_cache := Put (pagemap_cache h) (of_nat p) (of_nat cl) \<rparr>"

definition TryGetSizeClass :: "PageHeap \<Rightarrow> nat \<Rightarrow> nat option" where
  "TryGetSizeClass h p = map_option unat (TryGet (pagemap_cache h) (of_nat p))"

definition GetSizeClassOrZero :: "PageHeap \<Rightarrow> nat \<Rightarrow> nat" where
  "GetSizeClassOrZero h p = (case TryGetSizeClass h p of None \<Rightarrow> 0 | Some cl \<Rightarrow> cl)"

section \<open>Free lists and statistics\<close>

definition add_free :: "location \<Rightarrow> u64 \<Rightarrow> Stats \<Rightarrow> Stats" where
  "add_free loc b st = (if loc = ON_NORMAL_FREELIST then st\<lparr> free_bytes := free_bytes st + b \<rparr>
     else st\<lparr> unmapped_bytes := unmapped_bytes st + b \<rparr>)"

definition sub_free :: "location \<Rightarrow> u64 \<Rightarrow> Stats \<Rightarrow> Stats" where
  "sub_free loc b st = (if loc = ON_NORMAL_FREELIST then st\<lparr> free_bytes := free_bytes st - b \<rparr>
     else st\<lparr> unmapped_bytes := unmapped_bytes st - b \<rparr>)"

definition PrependToFreeList :: "PageHeap \<Rightarrow> addr \<Rightarrow> PageHeap option" where
  "PrependToFreeList h p =
     do { s \<leftarrow> spans h p;
          let loc = (if sp_location s = ON_NORMAL_FREELIST then ON_NORMAL_FREELIST else ON_RETURNED_FREELIST);
          let h = upd_stats (add_free loc (page_bytes (sp_length s))) h;
          if sp_length s > kMaxPages
          then Some (h\<lparr> large := (large h)(loc := SpanSet_insert (spans h) (sp_length s, p) (large h loc)) \<rparr>)
          else Some (h\<lparr> free := (free h)(loc := (free h loc)(sp_length s - 1 := p # free h loc (sp_length s - 1))) \<rparr>) }"

definition RemoveFromFreeList :: "PageHeap \<Rightarrow> addr \<Rightarrow> PageHeap option" where
  "RemoveFromFreeList h p =
     do { s \<leftarrow> spans h p;
          let loc = (if sp_location s = ON_NORMAL_FREELIST then ON_NORMAL_FREELIST else ON_RETURNED_FREELIST);
          let h = upd_stats (sub_free loc (page_bytes (sp_length s))) h;
          if sp_length s > kMaxPages
          then Some (h\<lparr> large := (large h)(loc := filter (\<lambda>e. snd e \<noteq> p) (large h loc)) \<rparr>)
          else Some (h\<lparr> free := (free h)(loc := (free h loc)(sp_length s - 1 := remove1 p (free h loc (sp_length s - 1)))) \<rparr>) }"

definition CommitSpan :: "PageHeap \<Rightarrow> addr \<Rightarrow> PageHeap option" where
  "CommitSpan h p =
     do { s \<leftarrow> spans h p;
          let b = page_bytes (sp_length s);
          Some (upd_stats (\<lambda>st. st\<lparr> commit_count := commit_count st + 1,
                  committed_bytes := committed_bytes st + b,
                  total_commit_bytes := total_commit_bytes st + b \<rparr>) h) }"

definition DecommitSpan :: "PageHeap \<Rightarrow> addr \<Rightarrow> (bool \<times> PageHeap) option" where
  "DecommitSpan h p =
     do { s \<leftarrow> spans h p;
          let h = upd_stats (\<lambda>st. st\<lparr> decommit_count := decommit_count st + 1 \<rparr>) h;
          (rv, sy) \<leftarrow> TCMalloc_SystemRelease (system h) (sp_start s * kPageSize) (sp_length s * kPageSize);
          let h = h\<lparr> system := sy \<rparr>;
          let b = page_bytes (sp_length s);
          Some (rv, if rv
            then upd_stats (\<lambda>st. st\<lparr> committed_bytes := committed_bytes st - b,
                   total_decommit_bytes := total_decommit_bytes st + b \<rparr>) h
            else h) }"

section \<open>Splitting and merging\<close>

text \<open>\<open>const int extra = span->length - n\<close>: the difference is truncated to 32 bits.\<close>

definition extra_pages :: "Span \<Rightarrow> nat \<Rightarrow> int" where
  "extra_pages s n = int32_of_nat ((sp_length s + 2 ^ 64 - n) mod 2 ^ 64)"

definition Carve :: "PageHeap \<Rightarrow> addr \<Rightarrow> nat \<Rightarrow> PageHeap option" where
  "Carve h p n =
     do { s \<leftarrow> spans h p;
          let old_location = sp_location s;
          h \<leftarrow> RemoveFromFreeList h p;
          let h = upd_span p (s\<lparr> sp_location := IN_USE \<rparr>) h;
          let extra = extra_pages s n;
          h \<leftarrow> (if extra > 0 then
                 do { (q, h) \<leftarrow> NewSpan h (sp_start s + n) (nat extra);
                      t \<leftarrow> spans h q;
                      let h = upd_span q (t\<lparr> sp_location := old_location \<rparr>) h;
                      h \<leftarrow> RecordSpan h q;
                      h \<leftarrow> PrependToFreeList h q;
                      let h = upd_span p (s\<lparr> sp_location := IN_USE, sp_length := n \<rparr>) h;
                      pagemap_set h (sp_start s + n - 1) p }
               else Some h);
          if old_location = ON_RETURNED_FREELIST then CommitSpan h p else Some h }"

definition Split :: "PageHeap \<Rightarrow> addr \<Rightarrow> nat \<Rightarrow> (addr \<times> PageHeap) option" where
  "Split h p n =
     do { s \<leftarrow> spans h p;
          (q, h) \<leftarrow> NewSpan h (sp_start s + n) (size_t_of_int (extra_pages s n));
          h \<leftarrow> RecordSpan h q;
          h \<leftarrow> pagemap_set h (sp_start s + n - 1) p;
          Some (q, upd_span p (s\<lparr> sp_length := n \<rparr>) h) }"

definition CheckAndHandlePreMerge :: "PageHeap \<Rightarrow> addr \<Rightarrow> addr option \<Rightarrow> (addr option \<times> PageHeap) option" where
  "CheckAndHandlePreMerge h p other =
     (case other of
        None \<Rightarrow> Some (None, h)
      | Some q \<Rightarrow>
          do { s \<leftarrow> spans h p;
               t \<leftarrow> spans h q;
               (mergeable, h) \<leftarrow>
                 (if aggressive_decommit h \<and> sp_location t = ON_NORMAL_FREELIST
                       \<and> sp_location s = ON_RETURNED_FREELIST
                  then DecommitSpan h q
                  else Some (sp_location t = sp_location s, h));
               if mergeable then do { h \<leftarrow> RemoveFromFreeList h q; Some (Some q, h) }
               else Some (None, h) })"

text \<open>The two halves of \<open>MergeIntoFreeList\<close>: the span that ends before page \<open>p\<close> is merged into \<open>sp\<close>, and
  the span that starts at page \<open>k\<close>.\<close>

definition MergeWithPrev :: "PageHeap \<Rightarrow> addr \<Rightarrow> nat \<Rightarrow> PageHeap option" where
  "MergeWithPrev h sp p =
     do { (prev, h) \<leftarrow> CheckAndHandlePreMerge h sp (GetDescriptor h (p - 1));
          (case prev of
             None \<Rightarrow> Some h
           | Some q \<Rightarrow>
               do { t \<leftarrow> spans h q;
                    let h = DeleteSpan h q;
                    s \<leftarrow> spans h sp;
                    let s = s\<lparr> sp_start := sp_start s - sp_length t, sp_length := sp_length s + sp_length t \<rparr>;
                    pagemap_set (upd_span sp s h) (sp_start s) sp }) }"

definition MergeWithNext :: "PageHeap \<Rightarrow> addr \<Rightarrow> nat \<Rightarrow> PageHeap option" where
  "MergeWithNext h sp k =
     do { (nxt, h) \<leftarrow> CheckAndHandlePreMerge h sp (GetDescriptor h k);
          (case nxt of
             None \<Rightarrow> Some h
           | Some q \<Rightarrow>
               do { t \<leftarrow> spans h q;
                    let h = DeleteSpan h q;
                    s \<leftarrow> spans h sp;
                    let s = s\<lparr> sp_length := sp_length s + sp_length t \<rparr>;
                    pagemap_set (upd_span sp s h) (sp_start s + sp_length s - 1) sp }) }"

definition MergeIntoFreeList :: "PageHeap \<Rightarrow> addr \<Rightarrow> PageHeap option" where
  "MergeIntoFreeList h sp =
     do { s \<leftarrow> spans h sp;
          h \<leftarrow> (if aggressive_decommit h \<and> sp_location s = ON_NORMAL_FREELIST then
                 do { (ok, h) \<leftarrow> DecommitSpan h sp;
                      Some (if ok then upd_span sp (s\<lparr> sp_location := ON_RETURNED_FREELIST \<rparr>) h else h) }
               else Some h);
          h \<leftarrow> MergeWithPrev h sp (sp_start s);
          h \<leftarrow> MergeWithNext h sp (sp_start s + sp_length s);
          PrependToFreeList h sp }"

section \<open>Releasing memory\<close>

definition ReleaseSpan :: "PageHeap \<Rightarrow> addr \<Rightarrow> (nat \<times> PageHeap) option" where
  "ReleaseSpan h p =
     do { (ok, h) \<leftarrow> DecommitSpan h p;
          if ok then
            do { h \<leftarrow> RemoveFromFreeList h p;
                 s \<leftarrow> spans h p;
                 h \<leftarrow> MergeIntoFreeList (upd_span p (s\<lparr> sp_location := ON_RETURNED_FREELIST \<rparr>) h) p;
                 Some (sp_length s, h) }
          else Some (0, h) }"

text \<open>The span the round robin would release from list \<open>i\<close>: the last of the list, or the first large
  span.\<close>

definition release_candidate :: "PageHeap \<Rightarrow> nat \<Rightarrow> addr option" where
  "release_candidate h i =
     (if i = kMaxPages then
        (case large h ON_NORMAL_FREELIST of [] \<Rightarrow> None | e # _ \<Rightarrow> Some (snd e))
      else if free h ON_NORMAL_FREELIST i = [] then None
      else Some (last (free h ON_NORMAL_FREELIST i)))"

text \<open>The \<open>for\<close> loop over the lists: the first argument counts the iterations left; \<open>False\<close> in the result
  is the early return when a span could not be released.\<close>

fun release_pass :: "nat \<Rightarrow> nat \<Rightarrow> nat \<Rightarrow> PageHeap \<Rightarrow> (bool \<times> nat \<times> PageHeap) option" where
  "release_pass 0 num_pages released h = Some (True, released, h)"
| "release_pass (Suc i) num_pages released h =
     (if released < num_pages then
        let h = (if release_index h > kMaxPages then h\<lparr> release_index := 0 \<rparr> else h)
        in case release_candidate h (release_index h) of
             None \<Rightarrow> release_pass i num_pages released (h\<lparr> release_index := release_index h + 1 \<rparr>)
           | Some p \<Rightarrow>
               do { (n, h) \<leftarrow> ReleaseSpan h p;
                    if n = 0 then Some (False, released, h)
                    else release_pass i num_pages (released + n) (h\<lparr> release_index := release_index h + 1 \<rparr>) }
      else Some (True, released, h))"

partial_function (option) release_loop :: "nat \<Rightarrow> nat \<Rightarrow> PageHeap \<Rightarrow> (nat \<times> PageHeap) option" where
  "release_loop num_pages released h =
     (if released < num_pages \<and> free_bytes (stats h) > 0 then
        do { (go, released, h) \<leftarrow> release_pass (kMaxPages + 1) num_pages released h;
             if go then release_loop num_pages released h else Some (released, h) }
      else Some (released, h))"

definition ReleaseAtLeastNPages :: "PageHeap \<Rightarrow> nat \<Rightarrow> (nat \<times> PageHeap) option" where
  "ReleaseAtLeastNPages h num_pages = release_loop num_pages 0 h"

text \<open>The floating-point computation of the wait is done on rationals.\<close>

definition IncrementalScavenge :: "PageHeap \<Rightarrow> nat \<Rightarrow> PageHeap option" where
  "IncrementalScavenge h n =
     (let h = h\<lparr> scavenge_counter := scavenge_counter h - int n \<rparr>
      in if scavenge_counter h \<ge> 0 then Some h
         else if release_rate h \<le> 1 / 1000000
              then Some (h\<lparr> scavenge_counter := kDefaultReleaseDelay \<rparr>)
         else do {
           (released, h) \<leftarrow> ReleaseAtLeastNPages (upd_stats (\<lambda>st. st\<lparr> scavenge_count := scavenge_count st + 1 \<rparr>) h) 1;
           let wait = 1000 / release_rate h * of_nat released;
           Some (h\<lparr> scavenge_counter :=
             (if released = 0 then kDefaultReleaseDelay
              else if wait > of_int kMaxReleaseDelay then kMaxReleaseDelay
              else \<lfloor>wait\<rfloor>) \<rparr>) })"

definition EnsureLimit :: "PageHeap \<Rightarrow> nat \<Rightarrow> bool \<Rightarrow> (bool \<times> PageHeap) option" where
  "EnsureLimit h n withRelease =
     (let limit = (of_int (heap_limit_mb h * 1024 * 1024 div 2 ^ kPageShift) :: u64)
      in if limit = 0 then Some (True, h)
         else let takenPages = drop_bit kPageShift (SystemTaken (system h))
                - drop_bit kPageShift (unmapped_bytes (stats h))
              in if takenPages + of_nat n > limit \<and> withRelease
                 then do { (r, h) \<leftarrow> ReleaseAtLeastNPages h (unat (takenPages + of_nat n - limit));
                           Some (takenPages - of_nat r + of_nat n \<le> limit, h) }
                 else Some (takenPages + of_nat n \<le> limit, h))"

definition DeleteLocked :: "PageHeap \<Rightarrow> addr \<Rightarrow> PageHeap option" where
  "DeleteLocked h p =
     do { s \<leftarrow> spans h p;
          h \<leftarrow> MergeIntoFreeList
                 (upd_span p (s\<lparr> sp_sizeclass := 0, sp_sample := False, sp_location := ON_NORMAL_FREELIST \<rparr>) h) p;
          IncrementalScavenge h (sp_length s) }"

section \<open>Allocation\<close>

partial_function (option) AllocLarge :: "PageHeap \<Rightarrow> nat \<Rightarrow> (addr option \<times> PageHeap) option" where
  "AllocLarge h n =
     (let best_normal = SpanSet_upper_bound (spans h) n (large h ON_NORMAL_FREELIST);
          place = SpanSet_upper_bound (spans h) n (large h ON_RETURNED_FREELIST);
          best = (case place of
                    None \<Rightarrow> best_normal
                  | Some c \<Rightarrow>
                      (case best_normal of
                         None \<Rightarrow> Some c
                       | Some b \<Rightarrow>
                           (case (spans h c, spans h b) of
                              (Some sc, Some sb) \<Rightarrow>
                                if sp_length sc < sp_length sb
                                   \<or> sp_length sc = sp_length sb \<and> sp_start sc < sp_start sb
                                then Some c else Some b
                            | _ \<Rightarrow> Some b)))
      in if best = best_normal then
           (case best of
              None \<Rightarrow> Some (None, h)
            | Some b \<Rightarrow> do { h \<leftarrow> Carve h b n; Some (Some b, h) })
         else
           do { (ok, h) \<leftarrow> EnsureLimit h n False;
                if ok then do { b \<leftarrow> best; h \<leftarrow> Carve h b n; Some (Some b, h) }
                else do { (ok, h) \<leftarrow> EnsureLimit h n True;
                          if ok then AllocLarge h n else Some (None, h) } })"

function search_lists :: "nat \<Rightarrow> PageHeap \<Rightarrow> nat \<Rightarrow> (addr option \<times> PageHeap) option" where
  "search_lists s h n =
     (if s \<le> kMaxPages then
        (case free h ON_NORMAL_FREELIST (s - 1) of
           p # _ \<Rightarrow> do { h \<leftarrow> Carve h p n; Some (Some p, h) }
         | [] \<Rightarrow>
             if free h ON_RETURNED_FREELIST (s - 1) \<noteq> [] then
               do { (ok, h) \<leftarrow> EnsureLimit h n True;
                    (case (ok, free h ON_RETURNED_FREELIST (s - 1)) of
                       (True, p # _) \<Rightarrow> do { h \<leftarrow> Carve h p n; Some (Some p, h) }
                     | _ \<Rightarrow> search_lists (s + 1) h n) }
             else search_lists (s + 1) h n)
      else AllocLarge h n)"
  by pat_completeness auto
termination
  by (relation "measure (\<lambda>(s, h, n). kMaxPages + 1 - s)") auto

declare search_lists.simps [simp del]

definition SearchFreeAndLargeLists :: "PageHeap \<Rightarrow> nat \<Rightarrow> (addr option \<times> PageHeap) option" where
  "SearchFreeAndLargeLists h n = search_lists n h n"

definition RoundUpSize :: "PageHeap \<Rightarrow> nat \<Rightarrow> nat" where
  "RoundUpSize h n =
     (let m = NOT (of_nat (smallest_span_size h) - 1) :: u64;
          rounded_n = (of_nat n + of_nat (smallest_span_size h) - 1) AND m
      in if rounded_n < of_nat n then unat ((- 1) AND m) else unat rounded_n)"

text \<open>One attempt of \<open>GrowHeap\<close> to get memory, and what it does with the memory it got.\<close>

definition grow_try :: "PageHeap \<Rightarrow> nat \<Rightarrow> ((addr \<times> nat) option \<times> PageHeap) option" where
  "grow_try h ask = do {
     (ok, h) \<leftarrow> EnsureLimit h ask True;
     if ok then let (r, sy) = TCMalloc_SystemAlloc (system h) (ask * kPageSize) kPageSize
                in Some (r, h\<lparr> system := sy \<rparr>)
     else Some (None, h) }"

definition grow_rest :: "PageHeap \<Rightarrow> addr \<Rightarrow> nat \<Rightarrow> (bool \<times> nat \<times> PageHeap) option" where
  "grow_rest h ptr actual_size =
     (let ask = actual_size div kPageSize;
          old_system_bytes = system_bytes (stats h);
          h = upd_stats (\<lambda>st. st\<lparr> reserve_count := reserve_count st + 1,
                commit_count := commit_count st + 1,
                system_bytes := system_bytes st + page_bytes ask,
                committed_bytes := committed_bytes st + page_bytes ask,
                total_commit_bytes := total_commit_bytes st + page_bytes ask,
                total_reserve_bytes := total_reserve_bytes st + page_bytes ask \<rparr>) h;
          p = ptr div kPageSize;
          pm = (pagemap h)\<lparr> astate2 := system h \<rparr>;
          pm = (if old_system_bytes < kPageMapBigAllocationThreshold
                   \<and> system_bytes (stats h) \<ge> kPageMapBigAllocationThreshold
                then PageMap2_PreallocateMoreMemory kPageMapBits pm else pm);
          (ok, pm) = PageMap2_Ensure kPageMapBits pm (p - 1) (ask + 2);
          h = h\<lparr> pagemap := pm, system := astate2 pm \<rparr>
      in if ok then
           do { (q, h) \<leftarrow> NewSpan h p ask;
                h \<leftarrow> RecordSpan h q;
                h \<leftarrow> DeleteLocked h q;
                Some (True, ask * kPageSize, h) }
         else Some (False, ask * kPageSize, h))"

text \<open>The second component of the result is \<open>context->grown_by\<close>.\<close>

definition GrowHeap :: "PageHeap \<Rightarrow> nat \<Rightarrow> (bool \<times> nat \<times> PageHeap) option" where
  "GrowHeap h n =
     (if n > kMaxValidPages then Some (False, 0, h)
      else
        let ask = (if n > kMinSystemAlloc then n else kMinSystemAlloc)
        in do {
          (r, h) \<leftarrow> do { (r, h) \<leftarrow> grow_try h ask;
                         if r = None \<and> n < ask then grow_try h n else Some (r, h) };
          (case r of
             None \<Rightarrow> Some (False, 0, h)
           | Some (ptr, actual_size) \<Rightarrow> grow_rest h ptr actual_size) })"

definition NewLocked :: "PageHeap \<Rightarrow> nat \<Rightarrow> (addr option \<times> nat \<times> PageHeap) option" where
  "NewLocked h n =
     (let n = RoundUpSize h n
      in do {
        (r, h) \<leftarrow> SearchFreeAndLargeLists h n;
        if r \<noteq> None then Some (r, 0, h)
        else do {
          let st = stats h;
          (r, h) \<leftarrow>
            (if free_bytes st \<noteq> 0 \<and> unmapped_bytes st \<noteq> 0
                \<and> free_bytes st + unmapped_bytes st \<ge> system_bytes st div 4
                \<and> system_bytes st div kForcedCoalesceInterval
                   \<noteq> (system_bytes st + page_bytes n) div kForcedCoalesceInterval
             then do { (_, h) \<leftarrow> ReleaseAtLeastNPages h (2 ^ 31 - 1); SearchFreeAndLargeLists h n }
             else Some (None, h));
          if r \<noteq> None then Some (r, 0, h)
          else do {
            (grown, by, h) \<leftarrow> GrowHeap h n;
            if grown then do { (r, h) \<leftarrow> SearchFreeAndLargeLists h n; Some (r, by, h) }
            else Some (None, by, h) } } })"

text \<open>\<open>HandleUnlock\<close> records the growth of the heap; the captured stack itself is not kept.\<close>

definition HandleUnlock :: "PageHeap \<Rightarrow> nat \<Rightarrow> PageHeap option" where
  "HandleUnlock h grown_by =
     (if grown_by \<noteq> 0 then
        do { (t, s, a) \<leftarrow> PHA_New sizeof_StackTrace (system h) (stacktrace_allocator h);
             Some (h\<lparr> system := s, stacktrace_allocator := a, growth_stacks := (t, grown_by) # growth_stacks h \<rparr>) }
      else Some h)"

definition NewWithSizeClass :: "PageHeap \<Rightarrow> nat \<Rightarrow> nat \<Rightarrow> (addr option \<times> PageHeap) option" where
  "NewWithSizeClass h n sizeclass =
     do { (r, by, h) \<leftarrow> NewLocked h n;
          (case r of
             None \<Rightarrow> do { h \<leftarrow> HandleUnlock h by; Some (None, h) }
           | Some p \<Rightarrow>
               do { s \<leftarrow> spans h p;
                    let h = InvalidateCachedSizeClass h (sp_start s);
                    h \<leftarrow> (if sizeclass \<noteq> 0 then RegisterSizeClass h p sizeclass else Some h);
                    h \<leftarrow> HandleUnlock h by;
                    Some (Some p, h) }) }"

definition PH_New :: "PageHeap \<Rightarrow> nat \<Rightarrow> (addr option \<times> PageHeap) option" where
  "PH_New h n = NewWithSizeClass h n 0"

definition PH_Delete :: "PageHeap \<Rightarrow> addr \<Rightarrow> PageHeap option" where
  "PH_Delete h p = DeleteLocked h p"

text \<open>The loop of \<open>NewAligned\<close> that looks for an aligned page; \<open>m\<close> is \<open>align_bytes - 1\<close>.\<close>

partial_function (option) skip_loop :: "u64 \<Rightarrow> nat \<Rightarrow> nat \<Rightarrow> nat option" where
  "skip_loop m st skip =
     (if page_bytes (st + skip) AND m \<noteq> 0 then skip_loop m st (skip + 1) else Some skip)"

definition NewAligned :: "PageHeap \<Rightarrow> nat \<Rightarrow> nat \<Rightarrow> (addr option \<times> PageHeap) option" where
  "NewAligned h n align_pages =
     (let n = RoundUpSize h n;
          alloc = (n + align_pages) mod 2 ^ 64
      in if alloc < n \<or> alloc < align_pages then
           do { (r, h) \<leftarrow> PH_New h (2 ^ 64 - 1);
                if r = None then Some (None, h) else None }
         else do {
           (r, by, h) \<leftarrow> NewLocked h alloc;
           (case r of
              None \<Rightarrow> do { h \<leftarrow> HandleUnlock h by; Some (None, h) }
            | Some p \<Rightarrow>
                do { s \<leftarrow> spans h p;
                     skip \<leftarrow> skip_loop (page_bytes align_pages - 1) (sp_start s) 0;
                     (p, h) \<leftarrow> (if skip > 0 then
                                do { (rest, h) \<leftarrow> Split h p skip;
                                     h \<leftarrow> DeleteLocked h p;
                                     Some (rest, h) }
                              else Some (p, h));
                     s \<leftarrow> spans h p;
                     h \<leftarrow> (if sp_length s > n then
                            do { (trailer, h) \<leftarrow> Split h p n; DeleteLocked h trailer }
                          else Some h);
                     h \<leftarrow> HandleUnlock (InvalidateCachedSizeClass h (sp_start s)) by;
                     Some (Some p, h) }) })"

end
