(* ===== verification/LinkedList.thy ===== *)
theory LinkedList
  imports PageHeap
begin

text \<open>
  The linked lists of the allocator at the level of memory: the singly linked lists of free objects
  of \<^verbatim>\<open>src/linked_list.h\<close>, whose links are stored in the objects themselves, and the circular doubly
  linked lists of spans of \<^verbatim>\<open>src/span.cc\<close>.  The other theories use lists of addresses in their place; here the
  operations on memory are shown to implement the operations on lists.
\<close>

section \<open>Singly linked lists\<close>

text \<open>A memory gives the word at an address; an address outside its domain is not mapped, and reading or
  writing there is a crash (\<open>None\<close>).\<close>

type_synonym memory = "addr \<rightharpoonup> addr"

definition SLL_Next :: "memory \<Rightarrow> addr \<Rightarrow> addr option" where
  "SLL_Next m t = m t"

definition SLL_SetNext :: "memory \<Rightarrow> addr \<Rightarrow> addr \<Rightarrow> memory option" where
  "SLL_SetNext m t n = (if m t = None then None else Some (m(t \<mapsto> n)))"

text \<open>The list argument \<open>void **list\<close> is passed by value and returned.\<close>

definition SLL_Push :: "memory \<Rightarrow> addr \<Rightarrow> addr \<Rightarrow> (addr \<times> memory) option" where
  "SLL_Push m lst element =
     (let nxt = lst in do { m \<leftarrow> SLL_SetNext m element nxt; Some (element, m) })"

definition SLL_Pop :: "memory \<Rightarrow> addr \<Rightarrow> (addr \<times> addr) option" where
  "SLL_Pop m lst = do { nxt \<leftarrow> SLL_Next m lst; Some (lst, nxt) }"

text \<open>The result is the object popped, if any, and the new head.\<close>

definition SLL_TryPop :: "memory \<Rightarrow> addr \<Rightarrow> (addr option \<times> addr) option" where
  "SLL_TryPop m lst =
     (if lst = 0 then Some (None, lst)
      else do { nxt \<leftarrow> SLL_Next m lst; Some (Some lst, nxt) })"

fun skip_nodes :: "nat \<Rightarrow> memory \<Rightarrow> addr \<Rightarrow> addr option" where
  "skip_nodes 0 m tmp = Some tmp"
| "skip_nodes (Suc i) m tmp = do { tmp \<leftarrow> SLL_Next m tmp; skip_nodes i m tmp }"

text \<open>The result is \<open>start\<close>, \<open>end\<close> and the new head.\<close>

definition SLL_PopRange :: "memory \<Rightarrow> addr \<Rightarrow> nat \<Rightarrow> (addr \<times> addr \<times> addr \<times> memory) option" where
  "SLL_PopRange m head N =
     (if N = 0 then Some (0, 0, head, m)
      else do { tmp \<leftarrow> skip_nodes (N - 1) m head;
                head' \<leftarrow> SLL_Next m tmp;
                m \<leftarrow> SLL_SetNext m tmp 0;
                Some (head, tmp, head', m) })"

definition SLL_PushRange :: "memory \<Rightarrow> addr \<Rightarrow> addr \<Rightarrow> addr \<Rightarrow> (addr \<times> memory) option" where
  "SLL_PushRange m head start end' =
     (if start = 0 then Some (head, m)
      else do { m \<leftarrow> SLL_SetNext m end' head; Some (start, m) })"

partial_function (option) size_loop :: "memory \<Rightarrow> nat \<Rightarrow> addr \<Rightarrow> nat option" where
  "size_loop m count head =
     (if head = 0 then Some count
      else do { head \<leftarrow> SLL_Next m head; size_loop m (count + 1) head })"

definition SLL_Size :: "memory \<Rightarrow> addr \<Rightarrow> nat option" where
  "SLL_Size m head = size_loop m 0 head"

section \<open>Doubly linked lists of spans\<close>

text \<open>The \<open>next\<close> and \<open>prev\<close> fields of the spans, the list heads included; a field that is \<open>0\<close> is \<open>NULL\<close>, and a
  span outside the domain is a crash.\<close>

record links =
  span_next :: "addr \<rightharpoonup> addr"
  span_prev :: "addr \<rightharpoonup> addr"

definition set_next :: "links \<Rightarrow> addr \<Rightarrow> addr \<Rightarrow> links option" where
  "set_next l p v = (if span_next l p = None then None else Some (l\<lparr> span_next := (span_next l)(p \<mapsto> v) \<rparr>))"

definition set_prev :: "links \<Rightarrow> addr \<Rightarrow> addr \<Rightarrow> links option" where
  "set_prev l p v = (if span_prev l p = None then None else Some (l\<lparr> span_prev := (span_prev l)(p \<mapsto> v) \<rparr>))"

definition DLL_Init :: "links \<Rightarrow> addr \<Rightarrow> links option" where
  "DLL_Init l lst = do { l \<leftarrow> set_next l lst lst; set_prev l lst lst }"

definition DLL_IsEmpty :: "links \<Rightarrow> addr \<Rightarrow> bool option" where
  "DLL_IsEmpty l lst = do { n \<leftarrow> span_next l lst; Some (n = lst) }"

definition DLL_Remove :: "links \<Rightarrow> addr \<Rightarrow> links option" where
  "DLL_Remove l sp =
     do { p \<leftarrow> span_prev l sp; n \<leftarrow> span_next l sp; l \<leftarrow> set_next l p n;
          n \<leftarrow> span_next l sp; p \<leftarrow> span_prev l sp; l \<leftarrow> set_prev l n p;
          l \<leftarrow> set_prev l sp 0;
          set_next l sp 0 }"

definition DLL_Prepend :: "links \<Rightarrow> addr \<Rightarrow> addr \<Rightarrow> links option" where
  "DLL_Prepend l lst sp =
     do { n \<leftarrow> span_next l lst; l \<leftarrow> set_next l sp n;
          l \<leftarrow> set_prev l sp lst;
          n \<leftarrow> span_next l lst; l \<leftarrow> set_prev l n sp;
          set_next l lst sp }"

partial_function (option) dll_length_loop :: "links \<Rightarrow> addr \<Rightarrow> nat \<Rightarrow> addr \<Rightarrow> nat option" where
  "dll_length_loop l lst result s =
     (if s \<noteq> lst then do { n \<leftarrow> span_next l s; dll_length_loop l lst (result + 1) n } else Some result)"

definition DLL_Length :: "links \<Rightarrow> addr \<Rightarrow> nat option" where
  "DLL_Length l lst = do { s \<leftarrow> span_next l lst; dll_length_loop l lst 0 s }"

section \<open>Lists in memory\<close>

text \<open>A segment of linked objects from \<open>p\<close> to \<open>q\<close>, and a whole list, which ends at \<open>NULL\<close>.\<close>

fun seg :: "memory \<Rightarrow> addr \<Rightarrow> addr list \<Rightarrow> addr \<Rightarrow> bool" where
  "seg m p [] q \<longleftrightarrow> p = q"
| "seg m p (x # xs) q \<longleftrightarrow> p = x \<and> x \<noteq> 0 \<and> (\<exists>n. m x = Some n \<and> seg m n xs q)"

abbreviation sll :: "memory \<Rightarrow> addr \<Rightarrow> addr list \<Rightarrow> bool" where
  "sll m p xs \<equiv> seg m p xs 0"

lemma seg_append [simp]: "seg m p (xs @ ys) q \<longleftrightarrow> (\<exists>r. seg m p xs r \<and> seg m r ys q)"
  by (induction xs arbitrary: p) auto

lemma seg_upd [simp]: "x \<notin> set xs \<Longrightarrow> seg (m(x := v)) p xs q = seg m p xs q"
  by (induction xs arbitrary: p) auto

lemma seg_null [simp]: "seg m 0 xs q \<longleftrightarrow> xs = [] \<and> q = 0"
  by (cases xs) auto

lemma sll_unique: "sll m p xs \<Longrightarrow> sll m p ys \<Longrightarrow> xs = ys"
proof (induction xs arbitrary: p ys)
  case (Cons x xs)
  then show ?case by (cases ys) auto
qed auto

lemma sll_distinct: "sll m p xs \<Longrightarrow> distinct xs"
proof (induction xs arbitrary: p)
  case (Cons x xs)
  then obtain n where n: "m x = Some n" "sll m n xs" "p = x" by auto
  have "x \<notin> set xs"
  proof
    assume "x \<in> set xs"
    then obtain ys zs where "xs = ys @ x # zs" by (meson split_list)
    moreover from n(2) have "sll m x (x # zs)" unfolding \<open>xs = ys @ x # zs\<close> seg_append by auto
    moreover have "sll m x (x # xs)" using n Cons.prems by auto
    ultimately have "x # zs = x # ys @ x # zs" using sll_unique by blast
    then have "length zs = length ys + Suc (length zs)" by (metis length_Cons length_append list.inject)
    then show False by simp
  qed
  with Cons n show ?case by auto
qed simp

lemma sll_last: "sll m p xs \<Longrightarrow> xs \<noteq> [] \<Longrightarrow> seg m p (butlast xs) (last xs) \<and> m (last xs) = Some 0 \<and> last xs \<noteq> 0"
  using seg_append [of m p "butlast xs" "[last xs]" 0] by (auto simp del: seg_append)

lemma skip_nodes_seg: "seg m p xs q \<Longrightarrow> skip_nodes (length xs) m p = Some q"
  by (induction xs arbitrary: p) (auto simp: SLL_Next_def)

lemma size_loop_sll: "sll m p xs \<Longrightarrow> size_loop m c p = Some (c + length xs)"
proof (induction xs arbitrary: p c)
  case Nil
  then show ?case by (subst size_loop.simps) simp
next
  case (Cons x xs)
  then show ?case by (subst size_loop.simps) (auto simp: SLL_Next_def)
qed

section \<open>The contract of a stack of objects\<close>

text \<open>\<open>rep m p xs\<close> says that in memory \<open>m\<close> the list with head \<open>p\<close> holds the objects \<open>xs\<close>; a chain is a list of
  objects handed over by its first and last object.\<close>

locale object_stack =
  fixes rep :: "'m \<Rightarrow> addr \<Rightarrow> addr list \<Rightarrow> bool"
    and writable :: "'m \<Rightarrow> addr \<Rightarrow> bool"
    and push :: "'m \<Rightarrow> addr \<Rightarrow> addr \<Rightarrow> (addr \<times> 'm) option"
    and try_pop :: "'m \<Rightarrow> addr \<Rightarrow> (addr option \<times> addr) option"
    and pop_range :: "'m \<Rightarrow> addr \<Rightarrow> nat \<Rightarrow> (addr \<times> addr \<times> addr \<times> 'm) option"
    and push_range :: "'m \<Rightarrow> addr \<Rightarrow> addr \<Rightarrow> addr \<Rightarrow> (addr \<times> 'm) option"
  assumes push_rep: "rep m p xs \<Longrightarrow> writable m x \<Longrightarrow> x \<notin> set xs \<Longrightarrow>
      \<exists>m'. push m p x = Some (x, m') \<and> rep m' x (x # xs) \<and> (\<forall>q ys. x \<notin> set ys \<longrightarrow> rep m q ys \<longrightarrow> rep m' q ys)
        \<and> (\<forall>y. writable m y \<longrightarrow> writable m' y)"
    and pop_rep: "rep m p (x # xs) \<Longrightarrow> \<exists>p'. try_pop m p = Some (Some x, p') \<and> rep m p' xs"
    and pop_empty: "rep m p [] \<Longrightarrow> try_pop m p = Some (None, p)"
    and pop_range_rep: "rep m p (xs @ ys) \<Longrightarrow> xs \<noteq> [] \<Longrightarrow>
      \<exists>p' m'. pop_range m p (length xs) = Some (hd xs, last xs, p', m') \<and> rep m' (hd xs) xs \<and> rep m' p' ys
        \<and> (\<forall>y. writable m y \<longrightarrow> writable m' y)"
    and push_range_rep: "rep m (hd xs) xs \<Longrightarrow> rep m p ys \<Longrightarrow> xs \<noteq> [] \<Longrightarrow> set xs \<inter> set ys = {} \<Longrightarrow>
      \<exists>m'. push_range m p (hd xs) (last xs) = Some (hd xs, m') \<and> rep m' (hd xs) (xs @ ys)
        \<and> (\<forall>y. writable m y \<longrightarrow> writable m' y)"
    and rep_distinct: "rep m p xs \<Longrightarrow> distinct xs"
begin

text \<open>A chain that was cut off can be put back.\<close>

lemma pop_push_range:
  assumes "rep m p (xs @ ys)" "xs \<noteq> []"
  shows "\<exists>s e p' m1 p2 m2. pop_range m p (length xs) = Some (s, e, p', m1)
    \<and> push_range m1 p' s e = Some (p2, m2) \<and> rep m2 p2 (xs @ ys)"
proof -
  obtain p' m1 where 1: "pop_range m p (length xs) = Some (hd xs, last xs, p', m1)" "rep m1 (hd xs) xs" "rep m1 p' ys"
    using pop_range_rep [OF assms] by blast
  have "set xs \<inter> set ys = {}" using rep_distinct [OF assms(1)] by simp
  with push_range_rep [OF 1(2,3) assms(2)] 1(1) show ?thesis by blast
qed

text \<open>Moving a chain from one list to another moves its objects and changes no other.\<close>

lemma push_pop:
  assumes "rep m p xs" "writable m x" "x \<notin> set xs"
  shows "\<exists>p1 m1 p2. push m p x = Some (p1, m1) \<and> try_pop m1 p1 = Some (Some x, p2) \<and> rep m1 p2 xs"
  using push_rep [OF assms] pop_rep by blast

end

interpretation sl: object_stack "\<lambda>m p xs. sll m p xs" "\<lambda>m x. x \<noteq> 0 \<and> m x \<noteq> None"
  SLL_Push SLL_TryPop SLL_PopRange SLL_PushRange
proof (unfold_locales, goal_cases)
  case (1 m p xs x)
  then show ?case by (auto simp: SLL_Push_def SLL_SetNext_def)
next
  case (2 m p x xs)
  then show ?case by (auto simp: SLL_TryPop_def SLL_Next_def)
next
  case (3 m p)
  then show ?case by (simp add: SLL_TryPop_def)
next
  case (4 m p xs ys)
  obtain zs z where xs: "xs = zs @ [z]" using 4(2) by (cases xs rule: rev_cases) auto
  have d: "distinct (xs @ ys)" by (rule sll_distinct [OF 4(1)])
  obtain n where n: "seg m p zs z" "z \<noteq> 0" "m z = Some n" "sll m n ys" using 4(1) xs by auto
  have p: "p = hd xs" using n(1) xs by (cases zs) auto
  have "SLL_PopRange m p (length xs) = Some (hd xs, z, n, m(z \<mapsto> 0))"
    using skip_nodes_seg [OF n(1)] n(3) p by (simp add: SLL_PopRange_def xs SLL_Next_def SLL_SetNext_def)
  moreover have "sll (m(z \<mapsto> 0)) (hd xs) xs" "sll (m(z \<mapsto> 0)) n ys"
    using n d p by (auto simp: xs)
  ultimately show ?case using xs by auto
next
  case (5 m xs p ys)
  obtain zs z where xs: "xs = zs @ [z]" using 5(3) by (cases xs rule: rev_cases) auto
  have d: "distinct xs" by (rule sll_distinct [OF 5(1)])
  have n: "seg m (hd xs) zs z" "z \<noteq> 0" "m z = Some 0" using 5(1) xs by auto
  have "hd xs \<noteq> 0" using n(1,2) xs by (cases zs) auto
  then have "SLL_PushRange m p (hd xs) (last xs) = Some (hd xs, m(z \<mapsto> p))"
    using n(3) by (simp add: SLL_PushRange_def SLL_SetNext_def xs)
  moreover have "sll (m(z \<mapsto> p)) (hd xs) (xs @ ys)" using n d 5(2,4) by (auto simp: xs)
  ultimately show ?case by auto
next
  case (6 m p xs)
  then show ?case by (rule sll_distinct)
qed

lemma SLL_Size_sll: "sll m p xs \<Longrightarrow> SLL_Size m p = Some (length xs)"
  by (simp add: SLL_Size_def size_loop_sll)

section \<open>Circular lists\<close>

text \<open>Consecutive elements are linked in both directions; a list is closed by its head.\<close>

fun linked :: "links \<Rightarrow> addr list \<Rightarrow> bool" where
  "linked l (a # b # ys) \<longleftrightarrow> span_next l a = Some b \<and> span_prev l b = Some a \<and> linked l (b # ys)"
| "linked l _ \<longleftrightarrow> True"

definition dll :: "links \<Rightarrow> addr \<Rightarrow> addr list \<Rightarrow> bool" where
  "dll l lst xs \<longleftrightarrow> distinct (lst # xs) \<and> linked l (lst # xs @ [lst])"

text \<open>A span that is on no list: its links may be written.\<close>

definition unlinked :: "links \<Rightarrow> addr \<Rightarrow> bool" where
  "unlinked l p \<longleftrightarrow> span_next l p = Some 0 \<and> span_prev l p = Some 0"

lemma linked_append: "linked l (as @ b # cs) \<longleftrightarrow> linked l (as @ [b]) \<and> linked l (b # cs)"
proof (induction as)
  case (Cons a as)
  then show ?case by (cases as) auto
qed simp

lemma linked_frame:
  assumes "linked l ys" "\<And>a. a \<in> set (butlast ys) \<Longrightarrow> span_next l' a = span_next l a"
    "\<And>a. a \<in> set (tl ys) \<Longrightarrow> span_prev l' a = span_prev l a"
  shows "linked l' ys"
  using assms by (induction l ys rule: linked.induct) auto

lemma dll_frame:
  assumes "dll l lst xs" "\<And>a. a \<in> set (lst # xs) \<Longrightarrow> span_next l' a = span_next l a \<and> span_prev l' a = span_prev l a"
  shows "dll l' lst xs"
  using assms(1) unfolding dll_def
  by (auto intro!: linked_frame [of l] simp: assms(2) butlast_append split: if_splits)

lemma dll_links:
  assumes "dll l lst (ys @ x # zs)"
  shows "span_next l x = Some (hd (zs @ [lst]))" "span_prev l x = Some (last (lst # ys))"
    "span_next l (last (lst # ys)) = Some x" "span_prev l (hd (zs @ [lst])) = Some x"
    "linked l (lst # ys)" "linked l (zs @ [lst])"
proof -
  have 1: "linked l (lst # ys @ [x])" "linked l (x # zs @ [lst])"
    using assms linked_append [of l "lst # ys" x "zs @ [lst]"] by (simp_all add: dll_def)
  show "span_next l x = Some (hd (zs @ [lst]))" "span_prev l (hd (zs @ [lst])) = Some x" "linked l (zs @ [lst])"
    using 1(2) by (cases zs; simp)+
  obtain as b where b: "lst # ys = as @ [b]" by (metis rev_exhaust list.distinct(1))
  have "linked l (as @ b # [x])" using 1(1) b by (metis append.assoc append_Cons append_Nil)
  with linked_append [of l as b "[x]"] b
  show "span_prev l x = Some (last (lst # ys))" "span_next l (last (lst # ys)) = Some x" "linked l (lst # ys)"
    by (simp_all del: last.simps)
qed

lemma DLL_Init_dll:
  assumes "span_next l lst \<noteq> None" "span_prev l lst \<noteq> None"
  shows "\<exists>l'. DLL_Init l lst = Some l' \<and> dll l' lst []"
  using assms by (auto simp: DLL_Init_def set_next_def set_prev_def dll_def)

lemma DLL_IsEmpty_dll: "dll l lst xs \<Longrightarrow> DLL_IsEmpty l lst = Some (xs = [])"
  by (cases xs) (auto simp: DLL_IsEmpty_def dll_def)

lemma DLL_Length_dll:
  assumes "dll l lst xs"
  shows "DLL_Length l lst = Some (length xs)"
proof -
  have loop: "dll_length_loop l lst c (hd (ys @ [lst])) = Some (c + length ys)"
    if "linked l (ys @ [lst])" "lst \<notin> set ys" for ys c
    using that
  proof (induction ys arbitrary: c)
    case Nil
    then show ?case by (subst dll_length_loop.simps) simp
  next
    case (Cons y ys)
    then have "span_next l y = Some (hd (ys @ [lst]))" "linked l (ys @ [lst])" by (cases ys; simp)+
    with Cons show ?case by (subst dll_length_loop.simps) simp
  qed
  have "span_next l lst = Some (hd (xs @ [lst]))" "linked l (xs @ [lst])" "lst \<notin> set xs"
    using assms by (cases xs; simp add: dll_def)+
  with loop show ?thesis by (simp add: DLL_Length_def)
qed

text \<open>Appending to the front: only the links of the head, of the first element and of the new span change.\<close>

lemma DLL_Prepend_dll:
  assumes d: "dll l lst xs" and x: "unlinked l x" "x \<noteq> lst" "x \<notin> set xs"
  shows "\<exists>l'. DLL_Prepend l lst x = Some l' \<and> dll l' lst (x # xs)
    \<and> (\<forall>a. a \<notin> insert x (set (lst # xs)) \<longrightarrow> span_next l' a = span_next l a \<and> span_prev l' a = span_prev l a)"
proof -
  let ?n = "hd (xs @ [lst])"
  have n: "span_next l lst = Some ?n" "span_prev l ?n = Some lst" "linked l (xs @ [lst])"
    using d by (cases xs; simp add: dll_def)+
  have nx: "?n \<noteq> x" "?n \<in> set (lst # xs)" using x(2,3) by (cases xs; auto)+
  let ?l = "\<lparr> span_next = (span_next l)(x \<mapsto> ?n, lst \<mapsto> x), span_prev = (span_prev l)(x \<mapsto> lst, ?n \<mapsto> x) \<rparr>"
  have eq: "DLL_Prepend l lst x = Some ?l"
    using n nx x by (simp add: DLL_Prepend_def set_next_def set_prev_def unlinked_def)
  have dist: "distinct (lst # xs)" using d by (simp add: dll_def)
  have "linked ?l (xs @ [lst])"
  proof (rule linked_frame [OF n(3)])
    fix a assume "a \<in> set (butlast (xs @ [lst]))"
    then have "a \<noteq> x" "a \<noteq> lst" using x(3) dist by auto
    then show "span_next ?l a = span_next l a" by simp
  next
    fix a assume a: "a \<in> set (tl (xs @ [lst]))"
    then have "a \<noteq> ?n" using dist by (cases xs) auto
    moreover have "a \<noteq> x" using a x(2,3) by (cases xs) auto
    ultimately show "span_prev ?l a = span_prev l a" by simp
  qed
  then have "dll ?l lst (x # xs)"
    using d x nx by (cases xs) (auto simp: dll_def)
  with eq nx show ?thesis by (intro exI [of _ ?l]) auto
qed

lemma DLL_Remove_dll:
  assumes d: "dll l lst (ys @ x # zs)"
  shows "\<exists>l'. DLL_Remove l x = Some l' \<and> dll l' lst (ys @ zs) \<and> unlinked l' x
    \<and> (\<forall>a. a \<notin> set (lst # ys @ x # zs) \<longrightarrow> span_next l' a = span_next l a \<and> span_prev l' a = span_prev l a)"
proof -
  let ?n = "hd (zs @ [lst])" and ?p = "last (lst # ys)"
  note k = dll_links [OF d]
  have dist: "distinct (lst # ys @ x # zs)" using d by (simp add: dll_def)
  have neq: "?n \<noteq> x" "?p \<noteq> x" "?n \<in> set (lst # zs)" "?p \<in> set (lst # ys)"
    using dist last_in_set [of "lst # ys"] by (cases zs; force)+
  let ?l = "\<lparr> span_next = (span_next l)(?p \<mapsto> ?n, x \<mapsto> 0), span_prev = (span_prev l)(?n \<mapsto> ?p, x \<mapsto> 0) \<rparr>"
  have eq: "DLL_Remove l x = Some ?l"
    using k(1-4) neq(1,2) by (auto simp: DLL_Remove_def set_next_def set_prev_def)
  have pre: "linked ?l (lst # ys)"
  proof (rule linked_frame [OF k(5)])
    fix a assume a: "a \<in> set (butlast (lst # ys))"
    have "distinct (butlast (lst # ys) @ [?p])" using dist by (subst append_butlast_last_id) auto
    with a have "a \<noteq> ?p" by auto
    moreover have "a \<noteq> x" using a dist by (auto dest: in_set_butlastD split: if_splits)
    ultimately show "span_next ?l a = span_next l a" by simp
  next
    fix a assume a: "a \<in> set (tl (lst # ys))"
    then have "a \<noteq> ?n" "a \<noteq> x" using dist neq(3) by auto
    then show "span_prev ?l a = span_prev l a" by simp
  qed
  have post: "linked ?l (zs @ [lst])"
  proof (rule linked_frame [OF k(6)])
    fix a assume a: "a \<in> set (butlast (zs @ [lst]))"
    then have "a \<noteq> ?p" "a \<noteq> x" using dist neq(4) by auto
    then show "span_next ?l a = span_next l a" by simp
  next
    fix a assume a: "a \<in> set (tl (zs @ [lst]))"
    have "distinct (zs @ [lst])" using dist by auto
    then have "a \<noteq> ?n" using a by (cases zs) auto
    moreover have "a \<noteq> x" using a dist by (cases zs) auto
    ultimately show "span_prev ?l a = span_prev l a" by simp
  qed
  have "linked ?l (?p # zs @ [lst])" using post neq by (cases zs) auto
  moreover have id: "butlast (lst # ys) @ [?p] = lst # ys" by (rule append_butlast_last_id) simp
  ultimately have "linked ?l (butlast (lst # ys) @ ?p # zs @ [lst])"
    using pre linked_append [of ?l "butlast (lst # ys)" ?p "zs @ [lst]"] by (simp only: simp_thms)
  moreover have "butlast (lst # ys) @ ?p # zs @ [lst] = (butlast (lst # ys) @ [?p]) @ zs @ [lst]" by simp
  ultimately have "linked ?l ((lst # ys) @ zs @ [lst])" by (simp only: id)
  then have "dll ?l lst (ys @ zs)" using dist by (simp add: dll_def)
  moreover have "unlinked ?l x" by (simp add: unlinked_def)
  ultimately show ?thesis using eq neq by (intro exI [of _ ?l]) auto
qed

section \<open>Properties\<close>

text \<open>The singly linked lists of objects refine lists: taking \<open>length xs\<close> objects off a list with
  \<open>SLL_PopRange\<close> and putting them on another with \<open>SLL_PushRange\<close> moves exactly these objects, in order, without
  reading or writing anything but their links; \<open>SLL_Size\<close> returns the length.\<close>

lemma SLL_move_range:
  assumes "sll m p (xs @ ys)" "sll m q us" "xs \<noteq> []" "set us \<inter> set (xs @ ys) = {}"
  shows "\<exists>p' m1 q' m2. SLL_PopRange m p (length xs) = Some (hd xs, last xs, p', m1)
    \<and> SLL_PushRange m1 q (hd xs) (last xs) = Some (q', m2)
    \<and> sll m2 p' ys \<and> sll m2 q' (xs @ us) \<and> SLL_Size m2 q' = Some (length xs + length us)
    \<and> (\<forall>a. a \<notin> set xs \<longrightarrow> m2 a = m a)"
proof -
  obtain zs z where xs: "xs = zs @ [z]" using assms(3) by (cases xs rule: rev_cases) auto
  have d: "distinct (xs @ ys)" by (rule sll_distinct [OF assms(1)])
  obtain n where n: "seg m p zs z" "z \<noteq> 0" "m z = Some n" "sll m n ys" using assms(1) xs by auto
  have p: "p = hd xs" "hd xs \<noteq> 0" using n(1,2) xs by (cases zs; auto)+
  have 1: "SLL_PopRange m p (length xs) = Some (hd xs, last xs, n, m(z \<mapsto> 0))"
    using skip_nodes_seg [OF n(1)] n(3) p by (simp add: SLL_PopRange_def xs SLL_Next_def SLL_SetNext_def)
  have 2: "SLL_PushRange (m(z \<mapsto> 0)) q (hd xs) (last xs) = Some (hd xs, m(z \<mapsto> q))"
    using p(2) by (simp add: SLL_PushRange_def SLL_SetNext_def xs)
  have "z \<notin> set us" "z \<notin> set ys" "z \<notin> set zs" using assms(4) d xs by auto
  then have 3: "sll (m(z \<mapsto> q)) n ys" "sll (m(z \<mapsto> q)) (hd xs) (xs @ us)"
    using n assms(2) p(1) by (auto simp: xs)
  with SLL_Size_sll [OF 3(2)] 1 2 show ?thesis
    by (intro exI [of _ n] exI [of _ "m(z \<mapsto> 0)"] exI [of _ "hd xs"] exI [of _ "m(z \<mapsto> q)"]) (auto simp: xs)
qed

text \<open>C35. The circular doubly linked lists of spans refine lists: \<open>DLL_Prepend\<close> of a span that is on no list
  puts it in front, \<open>DLL_Remove\<close> takes exactly this span out and clears its links so that it can be
  linked again, \<open>DLL_Length\<close> returns the length and \<open>DLL_IsEmpty\<close> tells whether it is zero; lists with other
  spans are untouched.\<close>

theorem DLL_refines_lists:
  assumes "dll l lst xs" "unlinked l x" "x \<noteq> lst" "x \<notin> set xs" "y \<in> set (x # xs)"
    "dll l other us" "set (other # us) \<inter> insert x (set (lst # xs)) = {}"
  shows "\<exists>l1 l2. DLL_Prepend l lst x = Some l1 \<and> dll l1 lst (x # xs)
    \<and> DLL_Remove l1 y = Some l2 \<and> dll l2 lst (remove1 y (x # xs)) \<and> unlinked l2 y
    \<and> DLL_Length l2 lst = Some (length xs) \<and> DLL_IsEmpty l2 lst = Some (xs = []) \<and> dll l2 other us"
proof -
  obtain l1 where 1: "DLL_Prepend l lst x = Some l1" "dll l1 lst (x # xs)"
      "\<forall>a. a \<notin> insert x (set (lst # xs)) \<longrightarrow> span_next l1 a = span_next l a \<and> span_prev l1 a = span_prev l a"
    using DLL_Prepend_dll [OF assms(1-4)] by blast
  obtain ys zs where yz: "x # xs = ys @ y # zs" using assms(5) by (meson split_list)
  have "distinct (x # xs)" using 1(2) by (simp add: dll_def)
  then have rm: "remove1 y (x # xs) = ys @ zs" unfolding yz by (simp add: remove1_append)
  obtain l2 where 2: "DLL_Remove l1 y = Some l2" "dll l2 lst (ys @ zs)" "unlinked l2 y"
      "\<forall>a. a \<notin> set (lst # ys @ y # zs) \<longrightarrow> span_next l2 a = span_next l1 a \<and> span_prev l2 a = span_prev l1 a"
    using DLL_Remove_dll [OF 1(2) [unfolded yz]] by blast
  have len: "length (ys @ zs) = length xs" using arg_cong [OF yz, of length] by simp
  have "dll l2 other us"
  proof (rule dll_frame [OF assms(6)])
    fix a assume "a \<in> set (other # us)"
    then have "a \<notin> insert x (set (lst # xs))" using assms(7) by blast
    moreover have "set (lst # ys @ y # zs) = insert x (set (lst # xs))" using arg_cong [OF yz, of set] by auto
    ultimately show "span_next l2 a = span_next l a \<and> span_prev l2 a = span_prev l a" using 1(3) 2(4) by metis
  qed
  moreover have "DLL_IsEmpty l2 lst = Some (xs = [])"
    using DLL_IsEmpty_dll [OF 2(2)] len by (simp only: length_0_conv [symmetric])
  ultimately show ?thesis
    using 1 2 DLL_Length_dll [OF 2(2)] unfolding rm len by blast
qed

definition demo_links :: links where
  "demo_links = \<lparr> span_next = [1 \<mapsto> 2, 2 \<mapsto> 1, 3 \<mapsto> 0, 4 \<mapsto> 4], span_prev = [1 \<mapsto> 2, 2 \<mapsto> 1, 3 \<mapsto> 0, 4 \<mapsto> 4] \<rparr>"

theorem DLL_refines_lists_witness:
  "\<exists>l1 l2. DLL_Prepend demo_links 1 3 = Some l1 \<and> DLL_Remove l1 2 = Some l2 \<and> dll l2 1 [3] \<and> DLL_Length l2 1 = Some 1"
  using DLL_refines_lists [of demo_links 1 "[2]" 3 2 4 "[]"]
  by (auto simp: demo_links_def dll_def unlinked_def)

end
