(* ===== verification/CentralFreeList.thy ===== *)
theory CentralFreeList
  imports PageHeap
begin

text \<open>
  The central free lists of \<^verbatim>\<open>src/central_freelist.h\<close> and \<^verbatim>\<open>src/central_freelist.cc\<close>: one list per
  size class, with a transfer cache of ready-made batches.  A chain of objects linked through their first words is
  a list of addresses; the circular lists of spans are lists of span addresses, first element first (theory
  \<open>LinkedList\<close> has both at the level of memory).  The operations act on the page heap and on all the central lists,
  because a list that needs a slot for a batch takes it from another class.  \<open>None\<close> is a crash: of the page heap, a read
  through a null pointer, or a loop that does not end.  The locks are not modelled: an operation runs to its end.
\<close>

section \<open>State\<close>

definition kMaxNumTransferEntries :: int where "kMaxNumTransferEntries = 64"

text \<open>\<open>tc_slots\<close> holds the used entries of \<open>tc_slots_\<close>, so that \<open>used_slots_\<close> is its length.\<close>

record CentralFreeList =
  size_class :: nat
  empty_spans :: "addr list"
  nonempty_spans :: "addr list"
  num_spans :: u64
  counter :: u64
  tc_slots :: "addr list list"
  cache_size :: int
  max_cache_size :: int

definition used_slots :: "CentralFreeList \<Rightarrow> int" where
  "used_slots c = int (length (tc_slots c))"

record central =
  pageheap :: PageHeap
  sizemap :: SizeMap
  central_cache :: "nat \<Rightarrow> CentralFreeList"
  race_counter :: nat

abbreviation upd_heap :: "(PageHeap \<Rightarrow> PageHeap) \<Rightarrow> central \<Rightarrow> central" where
  "upd_heap f st \<equiv> st\<lparr> pageheap := f (pageheap st) \<rparr>"

abbreviation upd_list :: "nat \<Rightarrow> (CentralFreeList \<Rightarrow> CentralFreeList) \<Rightarrow> central \<Rightarrow> central" where
  "upd_list cl f st \<equiv> st\<lparr> central_cache := (central_cache st)(cl := f (central_cache st cl)) \<rparr>"

text \<open>\<open>None\<close> is the division by zero when \<open>num_objects_to_move\<close> is 0.\<close>

definition CFL_Init :: "SizeMap \<Rightarrow> nat \<Rightarrow> CentralFreeList option" where
  "CFL_Init sm cl =
     (let c = \<lparr> size_class = cl, empty_spans = [], nonempty_spans = [], num_spans = 0, counter = 0,
               tc_slots = [], cache_size = 16, max_cache_size = kMaxNumTransferEntries \<rparr>
      in if cl > 0 then
           let bytes = int (ByteSizeForClass sm cl);
               objs_to_move = num_objects_to_move sm cl
           in if bytes * objs_to_move = 0 then None
              else let m = min (max_cache_size c) (max 1 ((1024 * 1024) sdiv (bytes * objs_to_move)))
                   in Some (c\<lparr> max_cache_size := m, cache_size := min (cache_size c) m \<rparr>)
         else Some c)"

section \<open>Objects back to their spans\<close>

text \<open>\<open>refcount\<close> is a bit field of 16 bits.  \<open>DLL_Remove\<close> takes a span out of the list it is on.\<close>

definition list_remove :: "addr \<Rightarrow> CentralFreeList \<Rightarrow> CentralFreeList" where
  "list_remove p c = c\<lparr> empty_spans := remove1 p (empty_spans c), nonempty_spans := remove1 p (nonempty_spans c) \<rparr>"

definition to_nonempty :: "addr \<Rightarrow> CentralFreeList \<Rightarrow> CentralFreeList" where
  "to_nonempty p c = (let c = list_remove p c in c\<lparr> nonempty_spans := p # nonempty_spans c \<rparr>)"

definition to_empty :: "addr \<Rightarrow> CentralFreeList \<Rightarrow> CentralFreeList" where
  "to_empty p c = (let c = list_remove p c in c\<lparr> empty_spans := p # empty_spans c \<rparr>)"

definition ReleaseToSpans :: "central \<Rightarrow> nat \<Rightarrow> addr \<Rightarrow> central option" where
  "ReleaseToSpans st cl obj =
     do { p \<leftarrow> GetDescriptor (pageheap st) (obj div kPageSize);
          s \<leftarrow> spans (pageheap st) p;
          let st = (if sp_objects s = [] then upd_list cl (to_nonempty p) st else st);
          let st = upd_list cl (\<lambda>c. c\<lparr> counter := counter c + 1 \<rparr>) st;
          let s = s\<lparr> sp_refcount := (sp_refcount s + (2 ^ 16 - 1)) mod 2 ^ 16 \<rparr>;
          if sp_refcount s = 0 then
            do { let n = sp_length s * kPageSize div ByteSizeForClass (sizemap st) (sp_sizeclass s);
                 let st = upd_list cl (\<lambda>c. (list_remove p c)\<lparr> counter := counter c - of_nat n, num_spans := num_spans c - 1 \<rparr>) st;
                 h \<leftarrow> PH_Delete (upd_span p s (pageheap st)) p;
                 Some (st\<lparr> pageheap := h \<rparr>) }
          else Some (upd_heap (upd_span p (s\<lparr> sp_objects := obj # sp_objects s \<rparr>)) st) }"

fun ReleaseListToSpans :: "central \<Rightarrow> nat \<Rightarrow> addr list \<Rightarrow> central option" where
  "ReleaseListToSpans st cl [] = Some st"
| "ReleaseListToSpans st cl (x # xs) = do { st \<leftarrow> ReleaseToSpans st cl x; ReleaseListToSpans st cl xs }"

section \<open>Room in the transfer cache\<close>

text \<open>The list of class \<open>t\<close> gives up a slot.\<close>

definition ShrinkCache :: "central \<Rightarrow> nat \<Rightarrow> bool \<Rightarrow> (bool \<times> central) option" where
  "ShrinkCache st t force =
     (let c = central_cache st t
      in if cache_size c = 0 then Some (False, st)
         else if \<not> force \<and> used_slots c = cache_size c then Some (False, st)
         else if used_slots c = cache_size c then
           do { st \<leftarrow> ReleaseListToSpans
                  (upd_list t (\<lambda>c. c\<lparr> cache_size := cache_size c - 1, tc_slots := butlast (tc_slots c) \<rparr>) st)
                  t (last (tc_slots c));
                Some (True, st) }
         else Some (True, upd_list t (\<lambda>c. c\<lparr> cache_size := cache_size c - 1 \<rparr>) st))"

text \<open>The loop \<open>while (t >= n) t -= n\<close>; it does not end when there are no classes.\<close>

partial_function (option) wrap_class :: "nat \<Rightarrow> nat \<Rightarrow> nat option" where
  "wrap_class n t = (if t \<ge> n then (if n = 0 then wrap_class n t else wrap_class n (t - n)) else Some t)"

definition EvictRandomSizeClass :: "central \<Rightarrow> nat \<Rightarrow> bool \<Rightarrow> (bool \<times> central) option" where
  "EvictRandomSizeClass st locked_size_class force =
     (let t = race_counter st;
          n = num_size_classes (sizemap st);
          st = st\<lparr> race_counter := race_counter st + 1 \<rparr>
      in do { (t, st) \<leftarrow> (if t \<ge> n then do { t \<leftarrow> wrap_class n t; Some (t, st\<lparr> race_counter := t \<rparr>) }
                           else Some (t, st));
              if t = locked_size_class then Some (False, st) else ShrinkCache st t force })"

definition MakeCacheSpace :: "central \<Rightarrow> nat \<Rightarrow> (bool \<times> central) option" where
  "MakeCacheSpace st cl =
     (let c = central_cache st cl
      in if used_slots c < cache_size c then Some (True, st)
         else if cache_size c = max_cache_size c then Some (False, st)
         else do {
           (ok, st) \<leftarrow> do { (ok, st) \<leftarrow> EvictRandomSizeClass st (size_class c) False;
                            if ok then Some (True, st) else EvictRandomSizeClass st (size_class c) True };
           if ok \<and> cache_size (central_cache st cl) < max_cache_size (central_cache st cl)
           then Some (True, upd_list cl (\<lambda>c. c\<lparr> cache_size := cache_size c + 1 \<rparr>) st)
           else Some (False, st) })"

section \<open>The operations of the thread caches\<close>

definition InsertRange :: "central \<Rightarrow> nat \<Rightarrow> addr list \<Rightarrow> int \<Rightarrow> central option" where
  "InsertRange st cl chain N =
     do { (room, st) \<leftarrow> (if N = num_objects_to_move (sizemap st) (size_class (central_cache st cl))
                          then MakeCacheSpace st cl else Some (False, st));
          if room then Some (upd_list cl (\<lambda>c. c\<lparr> tc_slots := tc_slots c @ [chain] \<rparr>) st)
          else ReleaseListToSpans st cl chain }"

text \<open>The \<open>do\<close> loop of \<open>FetchFromOneSpans\<close> takes at least one object.  The result is the chain; its length is the
  result of the function.\<close>

definition FetchFromOneSpans :: "central \<Rightarrow> nat \<Rightarrow> nat \<Rightarrow> (addr list \<times> central) option" where
  "FetchFromOneSpans st cl N =
     (case nonempty_spans (central_cache st cl) of
        [] \<Rightarrow> Some ([], st)
      | p # _ \<Rightarrow>
          do { s \<leftarrow> spans (pageheap st) p;
               if sp_objects s = [] then None
               else
                 do { let chain = take (max 1 N) (sp_objects s);
                      let curr = drop (max 1 N) (sp_objects s);
                      let st = (if curr = [] then upd_list cl (to_empty p) st else st);
                      let st = upd_heap (upd_span p (s\<lparr> sp_objects := curr,
                                 sp_refcount := (sp_refcount s + length chain) mod 2 ^ 16 \<rparr>)) st;
                      Some (chain, upd_list cl (\<lambda>c. c\<lparr> counter := counter c - of_nat (length chain) \<rparr>) st) } })"

text \<open>The loop of \<open>Populate\<close> that cuts the block into objects; it does not end for objects of size 0.\<close>

partial_function (option) carve_objects :: "nat \<Rightarrow> nat \<Rightarrow> nat \<Rightarrow> addr list option" where
  "carve_objects sz limit ptr =
     (let nextptr = (ptr + sz) mod 2 ^ 64
      in if nextptr < ptr \<or> nextptr > limit then Some []
         else do { rest \<leftarrow> carve_objects sz limit nextptr; Some (ptr # rest) })"

definition Populate :: "central \<Rightarrow> nat \<Rightarrow> central option" where
  "Populate st cl =
     (let sc = size_class (central_cache st cl);
          npages = class_to_pages (sizemap st) sc
      in do {
        (r, h) \<leftarrow> NewWithSizeClass (pageheap st) npages sc;
        (case r of
           None \<Rightarrow> Some (st\<lparr> pageheap := h \<rparr>)
         | Some p \<Rightarrow>
             do { s \<leftarrow> spans h p;
                  let h = foldl (\<lambda>h i. SetCachedSizeClass h (sp_start s + i) sc) h [0 ..< npages];
                  let ptr = sp_start s * kPageSize;
                  objs \<leftarrow> carve_objects (ByteSizeForClass (sizemap st) sc) (ptr + npages * kPageSize) ptr;
                  let st = st\<lparr> pageheap := upd_span p (s\<lparr> sp_objects := objs, sp_refcount := 0 \<rparr>) h \<rparr>;
                  Some (upd_list cl (\<lambda>c. c\<lparr> nonempty_spans := p # nonempty_spans c,
                    num_spans := num_spans c + 1, counter := counter c + of_nat (length objs) \<rparr>) st) }) })"

definition FetchFromOneSpansSafe :: "central \<Rightarrow> nat \<Rightarrow> nat \<Rightarrow> (addr list \<times> central) option" where
  "FetchFromOneSpansSafe st cl N =
     do { (chain, st) \<leftarrow> FetchFromOneSpans st cl N;
          if chain = [] then do { st \<leftarrow> Populate st cl; FetchFromOneSpans st cl N } else Some (chain, st) }"

text \<open>The loop that asks further spans: the chains are pushed in front of what there is.\<close>

function fetch_more :: "central \<Rightarrow> nat \<Rightarrow> nat \<Rightarrow> addr list \<Rightarrow> (addr list \<times> central) option" where
  "fetch_more st cl N chain =
     (if length chain < N then
        (case FetchFromOneSpans st cl (N - length chain) of
           None \<Rightarrow> None
         | Some (nxt, st) \<Rightarrow> if nxt = [] then Some (chain, st) else fetch_more st cl N (nxt @ chain))
      else Some (chain, st))"
  by pat_completeness auto
termination
  by (relation "measure (\<lambda>(st, cl, N, chain). N - length chain)") (auto simp: neq_Nil_conv)

declare fetch_more.simps [simp del]

text \<open>The result is the number of objects and the chain.\<close>

definition RemoveRange :: "central \<Rightarrow> nat \<Rightarrow> nat \<Rightarrow> (nat \<times> addr list \<times> central) option" where
  "RemoveRange st cl N =
     (let c = central_cache st cl
      in if int N = num_objects_to_move (sizemap st) (size_class c) \<and> used_slots c > 0 then
           Some (N, last (tc_slots c), upd_list cl (\<lambda>c. c\<lparr> tc_slots := butlast (tc_slots c) \<rparr>) st)
         else do {
           (chain, st) \<leftarrow> FetchFromOneSpansSafe st cl N;
           (chain, st) \<leftarrow> (if chain \<noteq> [] then fetch_more st cl N chain else Some (chain, st));
           Some (length chain, chain, st) })"

definition CFL_length :: "central \<Rightarrow> nat \<Rightarrow> int" where
  "CFL_length st cl = int32_of_nat (unat (counter (central_cache st cl)))"

definition tc_length :: "central \<Rightarrow> nat \<Rightarrow> int" where
  "tc_length st cl =
     used_slots (central_cache st cl) * num_objects_to_move (sizemap st) (size_class (central_cache st cl))"

definition OverheadBytes :: "central \<Rightarrow> nat \<Rightarrow> u64" where
  "OverheadBytes st cl =
     (let sc = size_class (central_cache st cl)
      in if sc = 0 then 0
         else let overhead_per_span = class_to_pages (sizemap st) sc * kPageSize mod class_to_size (sizemap st) sc
              in num_spans (central_cache st cl) * of_nat overhead_per_span)"

end
