(* ===== verification/Sampler.thy ===== *)
theory Sampler
  imports Prelude
begin

text \<open>
  The allocation sampler of \<^verbatim>\<open>src/sampler.h\<close> and \<^verbatim>\<open>src/sampler.cc\<close>: a countdown of bytes to the next
  sampled allocation, drawn anew with a linear congruential generator.  The floating-point expression
  \<open>(log2(q) - 26) * (-log(2.0) * FLAGS_tcmalloc_sample_parameter)\<close>, truncated to an integer, is the parameter
  \<open>interval\<close> of the model, a function of \<open>q\<close> and of the flag.  Sizes are naturals below \<open>2^64\<close>, \<open>ssize_t\<close> values
  integers between \<open>-2^63\<close> and \<open>2^63\<close>.
\<close>

definition ssize_t :: "int \<Rightarrow> int" where
  "ssize_t i = signed_take_bit 63 i"

record Sampler =
  bytes_until_sample :: int
  rnd :: u64
  initialized :: bool

record sample_env =
  sample_parameter :: int
  interval :: "nat \<Rightarrow> int \<Rightarrow> int"

definition GetSamplePeriod :: "sample_env \<Rightarrow> int" where
  "GetSamplePeriod e = signed_take_bit 31 (sample_parameter e)"

definition NextRandom :: "u64 \<Rightarrow> u64" where
  "NextRandom r =
     (let prng_mult = 0x5DEECE66D;
          prng_add = 0xB;
          prng_mod_mask = NOT (push_bit 48 (NOT 0))
      in (prng_mult * r + prng_add) AND prng_mod_mask)"

definition PickNextSamplingPoint :: "sample_env \<Rightarrow> Sampler \<Rightarrow> int \<times> Sampler" where
  "PickNextSamplingPoint e s =
     (if sample_parameter e \<le> 0 then (16 * 2 ^ 20, s)
      else let r = NextRandom (rnd s);
               q = unat (ucast (drop_bit (48 - 26) r) :: u32) + 1
           in (ssize_t (min (interval e q (sample_parameter e)) (2 ^ 63)), s\<lparr> rnd := r \<rparr>))"

definition Sampler_Init :: "sample_env \<Rightarrow> Sampler \<Rightarrow> u64 \<Rightarrow> Sampler" where
  "Sampler_Init e s seed =
     (let s = s\<lparr> rnd := (NextRandom ^^ 20) seed \<rparr>;
          (point, s) = PickNextSamplingPoint e s
      in s\<lparr> bytes_until_sample := point \<rparr>)"

text \<open>\<open>self\<close> is the address of the sampler, the seed of its first use.  The result is false when the allocation is
  to be sampled.\<close>

definition RecordAllocationSlow :: "sample_env \<Rightarrow> Sampler \<Rightarrow> u64 \<Rightarrow> nat \<Rightarrow> bool \<times> Sampler" where
  "RecordAllocationSlow e s self k =
     (let fresh = \<not> initialized s;
          s = (if fresh then Sampler_Init e (s\<lparr> initialized := True \<rparr>) self else s)
      in if fresh \<and> size_t_of_int (bytes_until_sample s) \<ge> k
         then (True, s\<lparr> bytes_until_sample := ssize_t (bytes_until_sample s - int k) \<rparr>)
         else let (point, s) = PickNextSamplingPoint e s
              in (sample_parameter e \<le> 0, s\<lparr> bytes_until_sample := point \<rparr>))"

definition RecordAllocation :: "sample_env \<Rightarrow> Sampler \<Rightarrow> u64 \<Rightarrow> nat \<Rightarrow> bool \<times> Sampler" where
  "RecordAllocation e s self k =
     (if size_t_of_int (bytes_until_sample s) < k then RecordAllocationSlow e s self k
      else (True, s\<lparr> bytes_until_sample := ssize_t (bytes_until_sample s - int k) \<rparr>))"

definition TryRecordAllocationFast :: "Sampler \<Rightarrow> nat \<Rightarrow> bool \<times> Sampler" where
  "TryRecordAllocationFast s k =
     (let s = s\<lparr> bytes_until_sample := ssize_t (bytes_until_sample s - ssize_t (int k)) \<rparr>
      in if bytes_until_sample s < 0
         then (False, s\<lparr> bytes_until_sample := ssize_t (bytes_until_sample s + int k) \<rparr>)
         else (True, s))"

section \<open>The countdown\<close>

text \<open>What the floating-point expression promises: \<open>q\<close> is between 1 and \<open>2^26\<close>, so the logarithm is at most
  26 and the interval is not negative; for the documented range of the flag it fits in 63 bits.\<close>

definition interval_ok :: "sample_env \<Rightarrow> bool" where
  "interval_ok e \<longleftrightarrow> (\<forall>q. 1 \<le> q \<and> q \<le> 2 ^ 26 \<longrightarrow> 0 \<le> interval e q (sample_parameter e) \<and> interval e q (sample_parameter e) < 2 ^ 63)"

definition sampler_inv :: "Sampler \<Rightarrow> bool" where
  "sampler_inv s \<longleftrightarrow> 0 \<le> bytes_until_sample s \<and> bytes_until_sample s < 2 ^ 63"

lemma ssize_t_id: "- (2 ^ 63) \<le> i \<Longrightarrow> i < 2 ^ 63 \<Longrightarrow> ssize_t i = i"
  unfolding ssize_t_def by (rule signed_take_bit_int_eq_self) simp_all

lemma size_t_countdown: "sampler_inv s \<Longrightarrow> size_t_of_int (bytes_until_sample s) = nat (bytes_until_sample s)"
  by (simp add: sampler_inv_def size_t_of_int_nonneg)

lemma NextRandom_bound: "unat (NextRandom r) < 2 ^ 48"
proof -
  have m: "NOT (push_bit 48 (NOT 0)) = (mask 48 :: u64)" by (rule bit_word_eqI) (auto simp: bit_simps)
  show ?thesis unfolding NextRandom_def Let_def m unat_and_mask by simp
qed

lemma sample_point_range: "1 \<le> unat (ucast (drop_bit (48 - 26) (NextRandom r)) :: u32) + 1"
  "unat (ucast (drop_bit (48 - 26) (NextRandom r)) :: u32) + 1 \<le> 2 ^ 26"
proof -
  have "unat (NextRandom r) div 2 ^ 22 < 2 ^ 26" using NextRandom_bound [of r] by (simp add: less_mult_imp_div_less)
  then have "unat (ucast (drop_bit 22 (NextRandom r)) :: u32) < 2 ^ 26"
    unfolding unsigned_ucast_eq unat_drop_bit by (simp add: take_bit_eq_mod)
  then show "unat (ucast (drop_bit (48 - 26) (NextRandom r)) :: u32) + 1 \<le> 2 ^ 26" by simp
qed simp

lemma PickNextSamplingPoint_range:
  assumes "interval_ok e" "PickNextSamplingPoint e s = (point, s')"
  shows "0 \<le> point \<and> point < 2 ^ 63"
proof (cases "sample_parameter e \<le> 0")
  case True
  then show ?thesis using assms(2) by (auto simp: PickNextSamplingPoint_def)
next
  case False
  let ?q = "unat (ucast (drop_bit (48 - 26) (NextRandom (rnd s))) :: u32) + 1"
  have "0 \<le> interval e ?q (sample_parameter e) \<and> interval e ?q (sample_parameter e) < 2 ^ 63"
    using assms(1) sample_point_range unfolding interval_ok_def by blast
  moreover have "point = ssize_t (min (interval e ?q (sample_parameter e)) (2 ^ 63))"
    using assms(2) False by (auto simp: PickNextSamplingPoint_def Let_def)
  ultimately show ?thesis by (simp add: ssize_t_id)
qed

lemma Sampler_Init_inv: "interval_ok e \<Longrightarrow> sampler_inv (Sampler_Init e s seed)"
  using PickNextSamplingPoint_range [of e "s\<lparr>rnd := (NextRandom ^^ 20) seed\<rparr>"]
  by (auto simp: Sampler_Init_def sampler_inv_def split: prod.split)

lemma countdown_inv:
  assumes "sampler_inv s" "k \<le> nat (bytes_until_sample s)"
  shows "sampler_inv (s\<lparr> bytes_until_sample := ssize_t (bytes_until_sample s - int k) \<rparr>)"
    "ssize_t (bytes_until_sample s - int k) = bytes_until_sample s - int k"
proof -
  show e: "ssize_t (bytes_until_sample s - int k) = bytes_until_sample s - int k"
    by (rule ssize_t_id) (use assms in \<open>auto simp: sampler_inv_def\<close>)
  show "sampler_inv (s\<lparr> bytes_until_sample := ssize_t (bytes_until_sample s - int k) \<rparr>)"
    unfolding e using assms by (auto simp: sampler_inv_def)
qed

lemma RecordAllocationSlow_inv:
  assumes e: "interval_ok e" and s: "sampler_inv s" and r: "RecordAllocationSlow e s self k = (b, s')"
  shows "sampler_inv s' \<and> (sample_parameter e \<le> 0 \<longrightarrow> b)"
proof -
  define t where "t = (if \<not> initialized s then Sampler_Init e (s\<lparr> initialized := True \<rparr>) self else s)"
  have i: "sampler_inv t" using s Sampler_Init_inv [OF e] by (simp add: t_def)
  have slow: "RecordAllocationSlow e s self k =
      (if \<not> initialized s \<and> size_t_of_int (bytes_until_sample t) \<ge> k
       then (True, t\<lparr> bytes_until_sample := ssize_t (bytes_until_sample t - int k) \<rparr>)
       else let (point, s) = PickNextSamplingPoint e t in (sample_parameter e \<le> 0, s\<lparr> bytes_until_sample := point \<rparr>))"
    by (simp only: RecordAllocationSlow_def Let_def t_def)
  show ?thesis
  proof (cases "\<not> initialized s \<and> size_t_of_int (bytes_until_sample t) \<ge> k")
    case True
    then have "b" "s' = t\<lparr> bytes_until_sample := ssize_t (bytes_until_sample t - int k) \<rparr>"
      using r by (simp_all add: slow)
    moreover have "k \<le> nat (bytes_until_sample t)" using True size_t_countdown [OF i] by simp
    ultimately show ?thesis using countdown_inv(1) [OF i] by simp
  next
    case False
    obtain point u where p: "PickNextSamplingPoint e t = (point, u)" by (cases "PickNextSamplingPoint e t")
    with False have "RecordAllocationSlow e s self k = (sample_parameter e \<le> 0, u\<lparr> bytes_until_sample := point \<rparr>)"
      by (auto simp: slow)
    then show ?thesis using r PickNextSamplingPoint_range [OF e p] by (auto simp: sampler_inv_def)
  qed
qed

section \<open>Properties\<close>

text \<open>The fast path and the full path of the sampler agree: on a countdown that is not negative and a
  request below \<open>2^63\<close> bytes, \<open>TryRecordAllocationFast\<close> either returns true, and then \<open>RecordAllocation\<close> returns
  true and leaves the same sampler, or it returns false with the sampler unchanged, exactly when the request
  exceeds the countdown and \<open>RecordAllocation\<close> takes its slow path.\<close>

lemma TryRecordAllocationFast_agrees:
  assumes "0 \<le> bytes_until_sample s" "bytes_until_sample s < 2 ^ 63" "k < 2 ^ 63"
  shows "TryRecordAllocationFast s k =
      (if int k \<le> bytes_until_sample s then RecordAllocation e s self k else (False, s))
    \<and> (int k \<le> bytes_until_sample s \<longrightarrow> fst (RecordAllocation e s self k))
    \<and> (\<not> int k \<le> bytes_until_sample s \<longrightarrow> RecordAllocation e s self k = RecordAllocationSlow e s self k)"
proof -
  have inv: "sampler_inv s" using assms by (simp add: sampler_inv_def)
  have k: "ssize_t (int k) = int k" "ssize_t (bytes_until_sample s - int k) = bytes_until_sample s - int k"
      "ssize_t (bytes_until_sample s) = bytes_until_sample s"
    using assms by (simp_all add: ssize_t_id)
  have less: "size_t_of_int (bytes_until_sample s) < k \<longleftrightarrow> \<not> int k \<le> bytes_until_sample s"
    using size_t_countdown [OF inv] assms(1) by (simp add: nat_less_iff not_le)
  show ?thesis
    using less by (simp add: TryRecordAllocationFast_def RecordAllocation_def Let_def k)
qed

text \<open>C40. The countdown of the sampler stays between 0 and \<open>2^63\<close>, so that its conversions to \<open>size_t\<close> are exact,
  after its initialisation and after any sequence of recorded allocations; a request that fits in the countdown is not
  sampled and costs exactly its size; and no allocation is sampled when the flag is not positive.\<close>

theorem sampler_countdown:
  assumes "interval_ok e" "sampler_inv s" "RecordAllocation e s self k = (b, s')"
  shows "sampler_inv s' \<and> sampler_inv (Sampler_Init e s self)
    \<and> (int k \<le> bytes_until_sample s \<longrightarrow> b \<and> bytes_until_sample s' = bytes_until_sample s - int k)
    \<and> (sample_parameter e \<le> 0 \<longrightarrow> b)"
proof (cases "int k \<le> bytes_until_sample s")
  case True
  then have k: "k \<le> nat (bytes_until_sample s)" by simp
  then have "b" "s' = s\<lparr> bytes_until_sample := ssize_t (bytes_until_sample s - int k) \<rparr>"
    using assms(3) size_t_countdown [OF assms(2)] by (simp_all add: RecordAllocation_def)
  with countdown_inv [OF assms(2) k] Sampler_Init_inv [OF assms(1)] show ?thesis by simp
next
  case False
  then have "RecordAllocationSlow e s self k = (b, s')"
    using assms size_t_countdown [OF assms(2)] by (simp add: RecordAllocation_def sampler_inv_def nat_less_iff)
  from RecordAllocationSlow_inv [OF assms(1,2) this] Sampler_Init_inv [OF assms(1)] False show ?thesis by simp
qed

theorem sampler_countdown_witness:
  "let e = \<lparr> sample_parameter = 2 ^ 19, interval = (\<lambda>q p. int (2 ^ 26 - q)) \<rparr>;
       s = \<lparr> bytes_until_sample = 100, rnd = 1, initialized = True \<rparr>
   in interval_ok e \<and> fst (RecordAllocation e s 8 40) \<and> bytes_until_sample (snd (RecordAllocation e s 8 40)) = 60"
proof -
  let ?e = "\<lparr> sample_parameter = 2 ^ 19, interval = (\<lambda>q p. int (2 ^ 26 - q)) \<rparr>"
  let ?s = "\<lparr> bytes_until_sample = 100, rnd = 1, initialized = True \<rparr>"
  have e: "interval_ok ?e" by (simp add: interval_ok_def)
  have s: "sampler_inv ?s" by (simp add: sampler_inv_def)
  obtain b s' where r: "RecordAllocation ?e ?s 8 40 = (b, s')" by (cases "RecordAllocation ?e ?s 8 40")
  from sampler_countdown [OF e s r] r e show ?thesis by (simp add: Let_def)
qed

end
