(* ===== verification/ThreadCache.thy ===== *)
theory ThreadCache
  imports CentralFreeList Sampler
begin

text \<open>
  The thread caches of \<^verbatim>\<open>src/thread_cache.h\<close> and \<^verbatim>\<open>src/thread_cache.cc\<close>: a free list of objects per
  thread and size class in front of the central lists, and the accounting of the space the threads may
  cache.  A free list is the list of its objects, first object first, with the fields the code keeps beside it; \<open>uint32_t\<close>
  fields are naturals below \<open>2^32\<close>, \<open>int32\<close> fields integers that wrap at 32 bits.  \<open>ThreadCache\<close> objects live in a store
  indexed by their address; \<open>thread_heaps\<close> holds the addresses in the order of the \<open>next_\<close> pointers.
  \<open>None\<close> is a crash (a null pointer, the end of the metadata, a failed assertion on a count) or
  a loop that does not end.  The build with thread-local storage is modelled; \<open>pthread_setspecific\<close> does not call \<open>malloc\<close> here.
\<close>

definition wrap32 :: "int \<Rightarrow> int" where
  "wrap32 i = signed_take_bit 31 i"

section \<open>Free lists\<close>

record FreeList =
  fl_list :: "addr list"
  fl_length :: nat
  lowater :: nat
  fl_max_length :: nat
  length_overages :: nat
  object_size :: int

definition FL_Init :: "nat \<Rightarrow> FreeList" where
  "FL_Init sz = \<lparr> fl_list = [], fl_length = 0, lowater = 0, fl_max_length = 1, length_overages = 0,
                  object_size = int32_of_nat sz \<rparr>"

definition set_max_length :: "FreeList \<Rightarrow> nat \<Rightarrow> FreeList" where
  "set_max_length l new_max = l\<lparr> fl_max_length := new_max mod 2 ^ 32 \<rparr>"

definition set_length_overages :: "FreeList \<Rightarrow> nat \<Rightarrow> FreeList" where
  "set_length_overages l new_count = l\<lparr> length_overages := new_count mod 2 ^ 32 \<rparr>"

definition lowwatermark :: "FreeList \<Rightarrow> int" where
  "lowwatermark l = int32_of_nat (lowater l)"

definition clear_lowwatermark :: "FreeList \<Rightarrow> FreeList" where
  "clear_lowwatermark l = l\<lparr> lowater := fl_length l \<rparr>"

definition FL_Push :: "FreeList \<Rightarrow> addr \<Rightarrow> nat \<times> FreeList" where
  "FL_Push l ptr =
     (let len = (fl_length l + 1) mod 2 ^ 32 in (len, l\<lparr> fl_list := ptr # fl_list l, fl_length := len \<rparr>))"

text \<open>\<open>length_ -= n\<close>, and the low-water mark that follows the length down.\<close>

definition shorten :: "int \<Rightarrow> FreeList \<Rightarrow> FreeList" where
  "shorten n l =
     (let len = nat ((int (fl_length l) - n) mod 2 ^ 32)
      in l\<lparr> fl_length := len, lowater := (if len < lowater l then len else lowater l) \<rparr>)"

definition FL_Pop :: "FreeList \<Rightarrow> (addr \<times> FreeList) option" where
  "FL_Pop l = (case fl_list l of [] \<Rightarrow> None | x # xs \<Rightarrow> Some (x, (shorten 1 l)\<lparr> fl_list := xs \<rparr>))"

definition FL_TryPop :: "FreeList \<Rightarrow> addr option \<times> FreeList" where
  "FL_TryPop l = (case fl_list l of [] \<Rightarrow> (None, l) | x # xs \<Rightarrow> (Some x, (shorten 1 l)\<lparr> fl_list := xs \<rparr>))"

definition FL_PushRange :: "FreeList \<Rightarrow> int \<Rightarrow> addr list \<Rightarrow> FreeList" where
  "FL_PushRange l N chain =
     l\<lparr> fl_list := chain @ fl_list l, fl_length := nat ((int (fl_length l) + N) mod 2 ^ 32) \<rparr>"

text \<open>\<open>SLL_PopRange\<close> takes nothing for 0, at least one object otherwise, and runs into the null
  pointer when the list is too short.\<close>

definition FL_PopRange :: "FreeList \<Rightarrow> int \<Rightarrow> (addr list \<times> FreeList) option" where
  "FL_PopRange l N =
     (if N = 0 then Some ([], l)
      else let n = nat (max 1 N)
           in if length (fl_list l) < n then None
              else Some (take n (fl_list l), (shorten N l)\<lparr> fl_list := drop n (fl_list l) \<rparr>))"

section \<open>State\<close>

record ThreadCache =
  tc_list :: "nat \<Rightarrow> FreeList"
  tc_size :: int
  tc_max_size :: int
  tc_sampler :: Sampler
  tc_tid :: nat
  in_setspecific :: bool

record ThreadLocalData =
  fast_path_heap :: addr
  tls_heap :: addr
  use_emergency_malloc :: bool

record threads =
  cc :: central
  heaps :: "addr \<rightharpoonup> ThreadCache"
  thread_heaps :: "addr list"
  thread_heap_count :: int
  next_memory_steal :: addr
  overall_thread_cache_size :: nat
  per_thread_cache_size :: nat
  unclaimed_cache_space :: int
  threadcache_allocator :: PageHeapAllocator
  tsd_inited :: bool
  threadlocal_data :: "nat \<Rightarrow> ThreadLocalData"   \<comment> \<open>by thread\<close>
  sampling :: sample_env

abbreviation set_list :: "nat \<Rightarrow> FreeList \<Rightarrow> ThreadCache \<Rightarrow> ThreadCache" where
  "set_list cl l h \<equiv> h\<lparr> tc_list := (tc_list h)(cl := l) \<rparr>"

abbreviation upd_cache :: "addr \<Rightarrow> (ThreadCache \<Rightarrow> ThreadCache) \<Rightarrow> threads \<Rightarrow> threads" where
  "upd_cache t f T \<equiv> T\<lparr> heaps := (heaps T)(t := map_option f (heaps T t)) \<rparr>"

abbreviation put_cache :: "addr \<Rightarrow> ThreadCache \<Rightarrow> central \<Rightarrow> threads \<Rightarrow> threads" where
  "put_cache t h st T \<equiv> T\<lparr> heaps := (heaps T)(t \<mapsto> h), cc := st \<rparr>"

definition SetMaxSize :: "int \<Rightarrow> ThreadCache \<Rightarrow> ThreadCache" where
  "SetMaxSize m h = h\<lparr> tc_max_size := wrap32 m \<rparr>"

section \<open>Between a thread cache and the central lists\<close>

partial_function (option) release_batches ::
    "FreeList \<Rightarrow> central \<Rightarrow> nat \<Rightarrow> int \<Rightarrow> int \<Rightarrow> (int \<times> FreeList \<times> central) option" where
  "release_batches src st cl batch_size N =
     (if N > batch_size then
        do { (chain, src) \<leftarrow> FL_PopRange src batch_size;
             st \<leftarrow> InsertRange st cl chain batch_size;
             release_batches src st cl batch_size (N - batch_size) }
      else Some (N, src, st))"

definition ReleaseToCentralCache :: "ThreadCache \<Rightarrow> central \<Rightarrow> nat \<Rightarrow> int \<Rightarrow> (ThreadCache \<times> central) option" where
  "ReleaseToCentralCache h st cl N =
     (let src = tc_list h cl;
          N = (if size_t_of_int N > fl_length src then int32_of_nat (fl_length src) else N);
          delta_bytes = N * int (ByteSizeForClass (sizemap st) cl);
          batch_size = num_objects_to_move (sizemap st) cl
      in do { (N, src, st) \<leftarrow> release_batches src st cl batch_size N;
              (chain, src) \<leftarrow> FL_PopRange src N;
              st \<leftarrow> InsertRange st cl chain N;
              Some ((set_list cl src h)\<lparr> tc_size := wrap32 (tc_size h - delta_bytes) \<rparr>, st) })"

text \<open>The growth of \<open>max_length\<close> after a fetch.\<close>

definition grow_max_length :: "int \<Rightarrow> FreeList \<Rightarrow> FreeList" where
  "grow_max_length batch_size l =
     (if fl_max_length l < size_t_of_int batch_size then set_max_length l (fl_max_length l + 1)
      else let new_length = min (int32_of_nat (fl_max_length l + size_t_of_int batch_size)) (int kMaxDynamicFreeListLength);
               new_length = new_length - new_length smod batch_size
           in set_max_length l (size_t_of_int new_length))"

text \<open>The first component is \<open>None\<close> when the central list has no object; then \<open>oom_handler\<close> is called.
  The central list takes positive counts only.\<close>

definition FetchFromCentralCache ::
    "ThreadCache \<Rightarrow> central \<Rightarrow> nat \<Rightarrow> int \<Rightarrow> (addr option \<times> ThreadCache \<times> central) option" where
  "FetchFromCentralCache h st cl byte_size =
     (let batch_size = num_objects_to_move (sizemap st) cl;
          num_to_move = min (int32_of_nat (fl_max_length (tc_list h cl))) batch_size
      in if num_to_move \<le> 0 then None
         else do {
           (fetch_count, chain, st) \<leftarrow> RemoveRange st cl (nat num_to_move);
           if fetch_count = 0 then Some (None, h, st)
           else (case chain of
              [] \<Rightarrow> None
            | start # rest \<Rightarrow>
                let fetch_count = int fetch_count - 1;
                    l = grow_max_length batch_size (FL_PushRange (tc_list h cl) fetch_count rest)
                in Some (Some start, (set_list cl l h)\<lparr> tc_size := wrap32 (tc_size h + byte_size * fetch_count) \<rparr>, st)) })"

section \<open>Scavenging and the cache limits\<close>

definition scavenge_class :: "ThreadCache \<Rightarrow> central \<Rightarrow> nat \<Rightarrow> (ThreadCache \<times> central) option" where
  "scavenge_class h st cl =
     (let lowmark = lowwatermark (tc_list h cl)
      in do {
        (h, st) \<leftarrow>
          (if lowmark > 0 then
             do { (h, st) \<leftarrow> ReleaseToCentralCache h st cl (if lowmark > 1 then lowmark sdiv 2 else 1);
                  let batch_size = num_objects_to_move (sizemap st) cl;
                  let l = tc_list h cl;
                  Some (if fl_max_length l > size_t_of_int batch_size
                        then set_list cl (set_max_length l (size_t_of_int
                               (max (int32_of_nat (fl_max_length l - size_t_of_int batch_size)) batch_size))) h
                        else h, st) }
           else Some (h, st));
        Some (set_list cl (clear_lowwatermark (tc_list h cl)) h, st) })"

fun scavenge_classes :: "nat list \<Rightarrow> ThreadCache \<Rightarrow> central \<Rightarrow> (ThreadCache \<times> central) option" where
  "scavenge_classes [] h st = Some (h, st)"
| "scavenge_classes (cl # cls) h st = do { (h, st) \<leftarrow> scavenge_class h st cl; scavenge_classes cls h st }"

text \<open>The \<open>next_\<close> pointer of a cache on the list.\<close>

fun next_heap :: "addr list \<Rightarrow> addr \<Rightarrow> addr" where
  "next_heap [] p = 0"
| "next_heap (x # xs) p = (if x = p then (case xs of [] \<Rightarrow> 0 | y # _ \<Rightarrow> y) else next_heap xs p)"

fun steal_loop :: "nat \<Rightarrow> threads \<Rightarrow> addr \<Rightarrow> threads option" where
  "steal_loop 0 T t = Some T"
| "steal_loop (Suc i) T t =
     (let T = (if next_memory_steal T = 0
               then T\<lparr> next_memory_steal := (case thread_heaps T of [] \<Rightarrow> 0 | p # _ \<Rightarrow> p) \<rparr> else T);
          v = next_memory_steal T;
          T' = T\<lparr> next_memory_steal := next_heap (thread_heaps T) v \<rparr>
      in do { hv \<leftarrow> heaps T v;
              if v = t \<or> size_t_of_int (tc_max_size hv) \<le> kMinThreadCacheSize then steal_loop i T' t
              else let T = upd_cache v (SetMaxSize (tc_max_size hv - int kStealAmount)) T'
                   in do { ht \<leftarrow> heaps T t;
                           Some (upd_cache t (SetMaxSize (tc_max_size ht + int kStealAmount)) T) } })"

definition IncreaseCacheLimitLocked :: "threads \<Rightarrow> addr \<Rightarrow> threads option" where
  "IncreaseCacheLimitLocked T t =
     (if unclaimed_cache_space T > 0 then
        do { h \<leftarrow> heaps T t;
             Some (upd_cache t (SetMaxSize (tc_max_size h + int kStealAmount))
                     (T\<lparr> unclaimed_cache_space := unclaimed_cache_space T - int kStealAmount \<rparr>)) }
      else steal_loop 10 T t)"

definition Scavenge :: "threads \<Rightarrow> addr \<Rightarrow> threads option" where
  "Scavenge T t =
     do { h \<leftarrow> heaps T t;
          (h, st) \<leftarrow> scavenge_classes [0 ..< num_size_classes (sizemap (cc T))] h (cc T);
          IncreaseCacheLimitLocked (put_cache t h st T) t }"

text \<open>The adaptation of \<open>max_length\<close> when a list is too long.\<close>

definition adapt_max_length :: "int \<Rightarrow> FreeList \<Rightarrow> FreeList" where
  "adapt_max_length batch_size l =
     (if fl_max_length l < size_t_of_int batch_size then set_max_length l (fl_max_length l + 1)
      else if fl_max_length l > size_t_of_int batch_size then
        let l = set_length_overages l (length_overages l + 1)
        in if length_overages l > kMaxOverages
           then set_length_overages (set_max_length l (fl_max_length l - size_t_of_int batch_size)) 0
           else l
      else l)"

definition ListTooLong :: "threads \<Rightarrow> addr \<Rightarrow> nat \<Rightarrow> threads option" where
  "ListTooLong T t cl =
     do { h \<leftarrow> heaps T t;
          let h = h\<lparr> tc_size := wrap32 (tc_size h + object_size (tc_list h cl)) \<rparr>;
          let batch_size = num_objects_to_move (sizemap (cc T)) cl;
          (h, st) \<leftarrow> ReleaseToCentralCache h (cc T) cl batch_size;
          let h = set_list cl (adapt_max_length batch_size (tc_list h cl)) h;
          let T = put_cache t h st T;
          if tc_size h > tc_max_size h then Scavenge T t else Some T }"

section \<open>Allocation and deallocation\<close>

definition Allocate :: "threads \<Rightarrow> addr \<Rightarrow> nat \<Rightarrow> nat \<Rightarrow> (addr option \<times> threads) option" where
  "Allocate T t sz cl =
     do { h \<leftarrow> heaps T t;
          (case FL_TryPop (tc_list h cl) of
             (Some rv, l) \<Rightarrow>
               Some (Some rv, put_cache t ((set_list cl l h)\<lparr> tc_size := wrap32 (tc_size h - int sz) \<rparr>) (cc T) T)
           | (None, l) \<Rightarrow>
               do { (r, h, st) \<leftarrow> FetchFromCentralCache h (cc T) cl (int32_of_nat sz);
                    Some (r, put_cache t h st T) }) }"

definition Deallocate :: "threads \<Rightarrow> addr \<Rightarrow> addr \<Rightarrow> nat \<Rightarrow> threads option" where
  "Deallocate T t ptr cl =
     do { h \<leftarrow> heaps T t;
          let (len, l) = FL_Push (tc_list h cl) ptr;
          let h = set_list cl l h;
          if len > fl_max_length l then ListTooLong (put_cache t h (cc T) T) t cl
          else do {
            let h = h\<lparr> tc_size := wrap32 (tc_size h + object_size l) \<rparr>;
            let T = put_cache t h (cc T) T;
            if tc_size h > tc_max_size h then Scavenge T t else Some T } }"

definition freelist_length :: "ThreadCache \<Rightarrow> nat \<Rightarrow> int" where
  "freelist_length h cl = int32_of_nat (fl_length (tc_list h cl))"

section \<open>Creation and destruction of caches\<close>

definition sizeof_ThreadCache :: nat where "sizeof_ThreadCache = 4160"

text \<open>\<open>TC_Init\<close> runs on a cache that is in the store and not yet on the list; \<open>seed\<close> is the value mixed
  from the thread id and the address of a local variable.\<close>

definition TC_Init :: "threads \<Rightarrow> addr \<Rightarrow> nat \<Rightarrow> u64 \<Rightarrow> threads option" where
  "TC_Init T t tid seed =
     do { T \<leftarrow> IncreaseCacheLimitLocked (upd_cache t (\<lambda>h. h\<lparr> tc_size := 0, tc_max_size := 0 \<rparr>) T) t;
          h \<leftarrow> heaps T t;
          let T = (if tc_max_size h = 0
                   then (upd_cache t (SetMaxSize (int kMinThreadCacheSize)) T)
                          \<lparr> unclaimed_cache_space := unclaimed_cache_space T - int kMinThreadCacheSize \<rparr>
                   else T);
          let sm = sizemap (cc T);
          Some (upd_cache t (\<lambda>h. h\<lparr> tc_tid := tid, in_setspecific := False,
                  tc_list := (\<lambda>cl. if cl < num_size_classes sm then FL_Init (class_to_size sm cl) else tc_list h cl),
                  tc_sampler := Sampler_Init (sampling T) (tc_sampler h) seed \<rparr>) T) }"

text \<open>The store of a new object: its fields are written before they are read.\<close>

definition raw_ThreadCache :: ThreadCache where
  "raw_ThreadCache = \<lparr> tc_list = (\<lambda>_. FL_Init 0), tc_size = 0, tc_max_size = 0,
     tc_sampler = \<lparr> bytes_until_sample = 0, rnd = 0, initialized = False \<rparr>, tc_tid = 0, in_setspecific = False \<rparr>"

definition NewHeap :: "threads \<Rightarrow> nat \<Rightarrow> u64 \<Rightarrow> (addr \<times> threads) option" where
  "NewHeap T tid seed =
     do { (p, s, a) \<leftarrow> PHA_New sizeof_ThreadCache (system (pageheap (cc T))) (threadcache_allocator T);
          let T = T\<lparr> threadcache_allocator := a, heaps := (heaps T)(p \<mapsto> raw_ThreadCache),
                    cc := upd_heap (\<lambda>h. h\<lparr> system := s \<rparr>) (cc T) \<rparr>;
          T \<leftarrow> TC_Init T p tid seed;
          let T = (if thread_heaps T = [] then T\<lparr> next_memory_steal := p \<rparr> else T);
          Some (p, T\<lparr> thread_heaps := p # thread_heaps T, thread_heap_count := thread_heap_count T + 1 \<rparr>) }"

fun cleanup_classes :: "nat list \<Rightarrow> ThreadCache \<Rightarrow> central \<Rightarrow> (ThreadCache \<times> central) option" where
  "cleanup_classes [] h st = Some (h, st)"
| "cleanup_classes (cl # cls) h st =
     do { (h, st) \<leftarrow> (if fl_length (tc_list h cl) > 0
                      then ReleaseToCentralCache h st cl (int32_of_nat (fl_length (tc_list h cl))) else Some (h, st));
          cleanup_classes cls h st }"

definition Cleanup :: "threads \<Rightarrow> addr \<Rightarrow> threads option" where
  "Cleanup T t =
     do { h \<leftarrow> heaps T t;
          (h, st) \<leftarrow> cleanup_classes [0 ..< num_size_classes (sizemap (cc T))] h (cc T);
          Some (put_cache t h st T) }"

definition DeleteCache :: "threads \<Rightarrow> addr \<Rightarrow> threads option" where
  "DeleteCache T t =
     do { T \<leftarrow> Cleanup T t;
          h \<leftarrow> heaps T t;
          let nxt = next_heap (thread_heaps T) t;
          let T = T\<lparr> thread_heaps := remove1 t (thread_heaps T), thread_heap_count := thread_heap_count T - 1 \<rparr>;
          let T = (if next_memory_steal T = t then T\<lparr> next_memory_steal := nxt \<rparr> else T);
          let T = (if next_memory_steal T = 0
                   then T\<lparr> next_memory_steal := (case thread_heaps T of [] \<Rightarrow> 0 | p # _ \<Rightarrow> p) \<rparr> else T);
          Some (T\<lparr> unclaimed_cache_space := unclaimed_cache_space T + tc_max_size h,
                  heaps := (heaps T)(t := None),
                  threadcache_allocator := PHA_Delete (threadcache_allocator T) t \<rparr>) }"

section \<open>The cache of a thread\<close>

definition GetThreadHeap :: "threads \<Rightarrow> nat \<Rightarrow> addr" where
  "GetThreadHeap T me = tls_heap (threadlocal_data T me)"

definition GetCacheIfPresent :: "threads \<Rightarrow> nat \<Rightarrow> addr" where
  "GetCacheIfPresent T me = GetThreadHeap T me"

definition GetFastPathCache :: "threads \<Rightarrow> nat \<Rightarrow> addr" where
  "GetFastPathCache T me = fast_path_heap (threadlocal_data T me)"

abbreviation upd_local :: "nat \<Rightarrow> (ThreadLocalData \<Rightarrow> ThreadLocalData) \<Rightarrow> threads \<Rightarrow> threads" where
  "upd_local me f T \<equiv> T\<lparr> threadlocal_data := (threadlocal_data T)(me := f (threadlocal_data T me)) \<rparr>"

definition SetUseEmergencyMalloc :: "threads \<Rightarrow> nat \<Rightarrow> threads" where
  "SetUseEmergencyMalloc T me = upd_local me (\<lambda>d. d\<lparr> fast_path_heap := 0, use_emergency_malloc := True \<rparr>) T"

definition ResetUseEmergencyMalloc :: "threads \<Rightarrow> nat \<Rightarrow> threads" where
  "ResetUseEmergencyMalloc T me =
     upd_local me (\<lambda>d. d\<lparr> fast_path_heap := tls_heap d, use_emergency_malloc := False \<rparr>) T"

definition IsUseEmergencyMalloc :: "threads \<Rightarrow> nat \<Rightarrow> bool" where
  "IsUseEmergencyMalloc T me = use_emergency_malloc (threadlocal_data T me)"

text \<open>Before \<open>tsd_inited_\<close> the list of all caches is searched for the thread.\<close>

definition CreateCacheIfNecessary :: "threads \<Rightarrow> nat \<Rightarrow> u64 \<Rightarrow> (addr \<times> threads) option" where
  "CreateCacheIfNecessary T me seed =
     (let seach_condition = \<not> tsd_inited T;
          found = (if seach_condition
                   then find (\<lambda>p. map_option tc_tid (heaps T p) = Some me) (thread_heaps T) else None)
      in do { (p, T) \<leftarrow> (case found of Some p \<Rightarrow> Some (p, T) | None \<Rightarrow> NewHeap T me seed);
              h \<leftarrow> heaps T p;
              Some (p, if \<not> in_setspecific h \<and> tsd_inited T
                       then upd_local me (\<lambda>d. d\<lparr> tls_heap := p, fast_path_heap := p \<rparr>) T else T) })"

definition GetCache :: "threads \<Rightarrow> nat \<Rightarrow> u64 \<Rightarrow> (addr \<times> threads) option" where
  "GetCache T me seed =
     (let ptr = GetThreadHeap T me in if ptr = 0 then CreateCacheIfNecessary T me seed else Some (ptr, T))"

definition BecomeIdle :: "threads \<Rightarrow> nat \<Rightarrow> threads option" where
  "BecomeIdle T me =
     (let p = GetThreadHeap T me
      in if \<not> tsd_inited T then Some T
         else if p = 0 then Some T
         else do { h \<leftarrow> heaps T p;
                   if in_setspecific h then Some T
                   else let T = upd_local me (\<lambda>d. d\<lparr> tls_heap := 0, fast_path_heap := 0 \<rparr>) T
                        in if GetThreadHeap T me = p then Some T else DeleteCache T p })"

definition DestroyThreadCache :: "threads \<Rightarrow> nat \<Rightarrow> addr \<Rightarrow> threads option" where
  "DestroyThreadCache T me p =
     (if p = 0 then Some T
      else DeleteCache (upd_local me (\<lambda>d. d\<lparr> tls_heap := 0, fast_path_heap := 0 \<rparr>) T) p)"

section \<open>The overall limit\<close>

text \<open>\<open>double\<close> arithmetic, as far as it is used: a positive quotient below \<open>2^53\<close> is rounded to 53 significant bits, to
  nearest and to even, and is represented as a pair \<open>(m, k)\<close> for \<open>m / 2^k\<close>.\<close>

definition round_half_even :: "nat \<Rightarrow> nat \<Rightarrow> nat" where
  "round_half_even a b =
     (let q = a div b; r = a mod b in if 2 * r > b \<or> 2 * r = b \<and> odd q then q + 1 else q)"

fun double_exp :: "nat \<Rightarrow> nat \<Rightarrow> nat \<Rightarrow> nat" where
  "double_exp 0 a b = 0"
| "double_exp (Suc k) a b = (if a * 2 ^ Suc k < 2 ^ 53 * b then Suc k else double_exp k a b)"

definition double_div :: "nat \<Rightarrow> nat \<Rightarrow> nat \<times> nat" where
  "double_div a b = (let k = double_exp 116 a b in (round_half_even (a * 2 ^ k) b, k))"

text \<open>\<open>h->max_size_ * ratio\<close>, rounded and then truncated; a negative size scales to a negative one.\<close>

definition scale_size :: "int \<Rightarrow> nat \<times> nat \<Rightarrow> int" where
  "scale_size m ratio =
     (let (p, k) = double_div (nat \<bar>m\<bar> * fst ratio) (2 ^ snd ratio) in sgn m * int (p div 2 ^ k))"

definition RecomputePerThreadCacheSize :: "threads \<Rightarrow> threads" where
  "RecomputePerThreadCacheSize T =
     (let n = (if thread_heap_count T > 0 then thread_heap_count T else 1);
          space = overall_thread_cache_size T div nat n;
          space = (if space < kMinThreadCacheSize then kMinThreadCacheSize else space);
          space = (if space > kMaxThreadCacheSize then kMaxThreadCacheSize else space);
          ratio = double_div space (max 1 (per_thread_cache_size T));
          T = (if fst ratio < 2 ^ snd ratio
               then foldl (\<lambda>T p. upd_cache p (\<lambda>h. SetMaxSize (scale_size (tc_max_size h) ratio) h) T) T (thread_heaps T)
               else T);
          claimed = sum_list (map (\<lambda>p. case heaps T p of None \<Rightarrow> 0 | Some h \<Rightarrow> tc_max_size h) (thread_heaps T))
      in T\<lparr> unclaimed_cache_space := int (overall_thread_cache_size T) - claimed, per_thread_cache_size := space \<rparr>)"

definition set_overall_thread_cache_size :: "threads \<Rightarrow> nat \<Rightarrow> threads" where
  "set_overall_thread_cache_size T new_size =
     (let new_size = (if new_size < kMinThreadCacheSize then kMinThreadCacheSize else new_size);
          new_size = (if new_size > 2 ^ 30 then 2 ^ 30 else new_size)
      in RecomputePerThreadCacheSize (T\<lparr> overall_thread_cache_size := new_size \<rparr>))"

text \<open>\<open>GetThreadStats\<close>: the bytes of all caches and, per class, their objects.\<close>

definition GetThreadStats :: "threads \<Rightarrow> u64 \<times> (nat \<Rightarrow> u64)" where
  "GetThreadStats T =
     foldl (\<lambda>(total, count) p. case heaps T p of None \<Rightarrow> (total, count) | Some h \<Rightarrow>
         (total + of_int (tc_size h),
          \<lambda>cl. if cl < num_size_classes (sizemap (cc T)) then count cl + of_int (freelist_length h cl) else count cl))
       (0, \<lambda>_. 0) (thread_heaps T)"

definition HeapsInUse :: "threads \<Rightarrow> int" where
  "HeapsInUse T = inuse (threadcache_allocator T)"

end
