(* ===== verification/TCMalloc.thy ===== *)
theory TCMalloc
  imports ThreadCache
begin

text \<open>
  The allocation functions of \<^verbatim>\<open>src/tcmalloc.cc\<close>: sizes and alignments, \<open>malloc\<close>, \<open>free\<close>, \<open>realloc\<close>,
  \<open>calloc\<close>, \<open>memalign\<close> and \<open>operator new\<close> on top of the thread caches and the page heap, with sampled allocations, the report of
  large allocations and the handling of an exhausted heap.  An operation runs on behalf of a thread \<open>me\<close>.
  \<open>None\<close> is a crash (a failed \<open>CHECK_CONDITION\<close>, \<open>InvalidFree\<close>, a null pointer) or a
  call that does not return.

  The build modelled has \<open>ENABLE_LARGE_ALLOC_REPORT\<close> and exceptions, is initialised, and has no
  malloc hooks registered; a thread that asks for the emergency allocator has no result here.
  What the code calls outside the allocator is part of the state: \<open>backtrace\<close> is what \<open>GetStackTrace\<close> returns,
  \<open>report_setting\<close> the value read from \<open>TCMALLOC_LARGE_ALLOC_REPORT_THRESHOLD\<close>, \<open>seed_of\<close> the seed of the
  sampler of a new cache.  The handler of \<open>std::set_new_handler\<close> is an argument.  \<open>memory\<close> is the contents of the memory as far
  as \<open>memset\<close> and \<open>memcpy\<close> write it; the links of the free lists are kept in the lists themselves.
\<close>

section \<open>Sizes\<close>

definition align_size_up :: "u64 \<Rightarrow> u64 \<Rightarrow> u64" where
  "align_size_up sz align =
     (let new_size = (sz + align - 1) AND NOT (align - 1)
      in if new_size = 0 then (if sz = 0 then align else sz) else new_size)"

definition size_class_with_alignment :: "SizeMap \<Rightarrow> u64 \<Rightarrow> u64 \<Rightarrow> nat option" where
  "size_class_with_alignment sm sz align =
     (if align > of_nat kPageSize then None else GetSizeClass sm (align_size_up sz align))"

text \<open>\<open>1ull << (flags & 0x3f)\<close>; the low six bits of a negative \<open>flags\<close> are those of its two's complement.\<close>

definition nallocx_slow :: "central \<Rightarrow> u64 \<Rightarrow> int \<Rightarrow> nat" where
  "nallocx_slow st sz flags =
     (let align = push_bit (nat (flags mod 64)) 1
      in case size_class_with_alignment (sizemap st) sz align of
           Some cl \<Rightarrow> ByteSizeForClass (sizemap st) cl
         | None \<Rightarrow> unat (page_bytes (RoundUpSize (pageheap st) (unat (pages sz)))))"

definition tc_nallocx :: "central \<Rightarrow> u64 \<Rightarrow> int \<Rightarrow> nat" where
  "tc_nallocx st sz flags =
     (if flags \<noteq> 0 then nallocx_slow st sz flags
      else case GetSizeClass (sizemap st) sz of
             Some cl \<Rightarrow> if cl \<noteq> 0 then ByteSizeForClass (sizemap st) cl else nallocx_slow st sz 0
           | None \<Rightarrow> nallocx_slow st sz 0)"

definition GetEstimatedAllocatedSize :: "central \<Rightarrow> u64 \<Rightarrow> nat" where
  "GetEstimatedAllocatedSize st sz = tc_nallocx st sz 0"

section \<open>State\<close>

record StackTrace =
  trace_size :: nat
  trace_stack :: "addr list"    \<comment> \<open>\<open>depth\<close> is its length\<close>

record tcmalloc =
  tm :: threads
  memory :: "addr \<Rightarrow> 8 word"
  stack_traces :: "addr \<rightharpoonup> StackTrace"
  sampled_objects :: "addr list"        \<comment> \<open>the spans, first one next to the list head\<close>
  large_alloc_threshold :: u64
  large_reports :: "(nat \<times> addr option) list"   \<comment> \<open>the calls of \<open>ReportLargeAlloc\<close>, last one first\<close>
  tc_new_mode :: int
  errno :: int
  handler_calls :: nat                  \<comment> \<open>how often the new handler was called\<close>
  extra_bytes_released :: nat
  backtrace :: "addr list"
  report_setting :: int
  seed_of :: "nat \<Rightarrow> u64"

abbreviation heap_of :: "tcmalloc \<Rightarrow> PageHeap" where
  "heap_of S \<equiv> pageheap (cc (tm S))"

abbreviation set_heap :: "PageHeap \<Rightarrow> tcmalloc \<Rightarrow> tcmalloc" where
  "set_heap h S \<equiv> S\<lparr> tm := (tm S)\<lparr> cc := (cc (tm S))\<lparr> pageheap := h \<rparr> \<rparr> \<rparr>"

definition ENOMEM :: int where "ENOMEM = 12"
definition EINVAL :: int where "EINVAL = 22"

definition CheckCachedSizeClass :: "PageHeap \<Rightarrow> addr \<Rightarrow> bool" where
  "CheckCachedSizeClass h ptr =
     (let p = ptr div kPageSize
      in case TryGetSizeClass h p of
           None \<Rightarrow> True
         | Some cached_value \<Rightarrow>
             (case GetDescriptor h p of
                None \<Rightarrow> False
              | Some q \<Rightarrow> (case spans h q of None \<Rightarrow> False | Some s \<Rightarrow> cached_value = sp_sizeclass s)))"

definition SpanToMallocResult :: "PageHeap \<Rightarrow> addr \<Rightarrow> addr option" where
  "SpanToMallocResult h p = map_option (\<lambda>s. sp_start s * kPageSize) (spans h p)"

section \<open>Sampling and reports\<close>

text \<open>The sampler of a cache starts at offset 4104 of the object.\<close>

definition SampleAllocation :: "threads \<Rightarrow> addr \<Rightarrow> nat \<Rightarrow> (bool \<times> threads) option" where
  "SampleAllocation T t k =
     do { h \<leftarrow> heaps T t;
          let (ok, s) = RecordAllocation (sampling T) (tc_sampler h) (of_nat (t + 4104)) k;
          Some (\<not> ok, upd_cache t (\<lambda>h. h\<lparr> tc_sampler := s \<rparr>) T) }"

definition TC_TryRecordAllocationFast :: "threads \<Rightarrow> addr \<Rightarrow> nat \<Rightarrow> (bool \<times> threads) option" where
  "TC_TryRecordAllocationFast T t k =
     do { h \<leftarrow> heaps T t;
          let (ok, s) = TryRecordAllocationFast (tc_sampler h) k;
          Some (ok, upd_cache t (\<lambda>h. h\<lparr> tc_sampler := s \<rparr>) T) }"

text \<open>The \<open>objects\<close> pointer of a sampled span is the address of its stack trace.\<close>

definition DoSampledAllocation :: "tcmalloc \<Rightarrow> u64 \<Rightarrow> (addr option \<times> tcmalloc) option" where
  "DoSampledAllocation S sz =
     do { (r, h) \<leftarrow> PH_New (heap_of S) (unat (pages (if sz = 0 then 1 else sz)));
          (case r of
             None \<Rightarrow> Some (None, set_heap h S)
           | Some p \<Rightarrow>
               do { (q, sy, a) \<leftarrow> PHA_New sizeof_StackTrace (system h) (stacktrace_allocator h);
                    s \<leftarrow> spans h p;
                    let h = upd_span p (s\<lparr> sp_sample := True, sp_objects := [q] \<rparr>) (h\<lparr> system := sy, stacktrace_allocator := a \<rparr>);
                    Some (SpanToMallocResult h p,
                      (set_heap h S)\<lparr>
                         stack_traces := (stack_traces S)(q \<mapsto> \<lparr> trace_size = unat sz, trace_stack = backtrace S \<rparr>),
                         sampled_objects := p # sampled_objects S \<rparr>) }) }"

text \<open>The test and the update of the threshold.  \<open>value\<close> has 64 bits, so the largest \<open>size_t\<close> becomes -1.  No other thread
  changes the threshold between its load and the exchange.\<close>

definition should_report_large :: "tcmalloc \<Rightarrow> nat \<Rightarrow> bool \<times> tcmalloc" where
  "should_report_large S num_pages =
     (let threshold =
            (if large_alloc_threshold S = 0
             then let v = report_setting S;
                      v = (if v < 0 then - 1 else v);
                      v = max (int kPageSize) v
                  in of_int v
             else large_alloc_threshold S);
          S = S\<lparr> large_alloc_threshold := threshold \<rparr>
      in if num_pages < unat (drop_bit kPageShift threshold) then (False, S)
         else let new_threshold = threshold + threshold div 8;
                  new_threshold = (if new_threshold < threshold then - 1 else new_threshold);
                  new_threshold = max new_threshold (page_bytes num_pages)
              in (True, S\<lparr> large_alloc_threshold := new_threshold \<rparr>))"

section \<open>Allocation\<close>

definition do_malloc_pages :: "tcmalloc \<Rightarrow> addr \<Rightarrow> u64 \<Rightarrow> (addr option \<times> tcmalloc) option" where
  "do_malloc_pages S t sz =
     (let num_pages = unat (pages sz)
      in do {
        (sampled, T) \<leftarrow> SampleAllocation (tm S) t (unat sz);
        let S = S\<lparr> tm := T \<rparr>;
        (result, S) \<leftarrow>
          (if sampled then DoSampledAllocation S sz
           else do { (r, h) \<leftarrow> PH_New (heap_of S) num_pages;
                     Some (case r of None \<Rightarrow> None | Some p \<Rightarrow> SpanToMallocResult h p, set_heap h S) });
        let (report, S) = should_report_large S num_pages;
        Some (result, if report then S\<lparr> large_reports := (num_pages, result) # large_reports S \<rparr> else S) })"

definition do_malloc :: "nat \<Rightarrow> tcmalloc \<Rightarrow> u64 \<Rightarrow> (addr option \<times> tcmalloc) option" where
  "do_malloc me S sz =
     (if IsUseEmergencyMalloc (tm S) me then None
      else do {
        (t, T) \<leftarrow> GetCache (tm S) me (seed_of S me);
        (case GetSizeClass (sizemap (cc T)) sz of
           None \<Rightarrow> do_malloc_pages (S\<lparr> tm := T \<rparr>) t sz
         | Some cl \<Rightarrow>
             do { let allocated_size = class_to_size (sizemap (cc T)) cl;
                  (sampled, T) \<leftarrow> SampleAllocation T t allocated_size;
                  if sampled then DoSampledAllocation (S\<lparr> tm := T \<rparr>) sz
                  else do { (r, T) \<leftarrow> Allocate T t allocated_size cl; Some (r, S\<lparr> tm := T \<rparr>) } }) })"

text \<open>A call returns, with a pointer or with the null pointer (\<open>None\<close>), or it throws: \<open>std::bad_alloc\<close>, or what the
  handler threw.\<close>

datatype outcome = Returned "addr option" | Bad_alloc | Thrown

datatype handler_end = Handler_returns | Handler_bad_alloc | Handler_throws

text \<open>The handler installed when it is called for the n-th time, if any.\<close>

type_synonym new_handler = "nat \<Rightarrow> tcmalloc \<Rightarrow> (handler_end \<times> tcmalloc) option"

partial_function (option) oom_loop ::
    "new_handler \<Rightarrow> (tcmalloc \<Rightarrow> (addr option \<times> tcmalloc) option) \<Rightarrow> bool \<Rightarrow> tcmalloc \<Rightarrow> (outcome \<times> tcmalloc) option" where
  "oom_loop nh retry_fn nothrow S =
     (case nh (handler_calls S) S of
        None \<Rightarrow> Some (if nothrow then Returned None else Bad_alloc, S)
      | Some (e, S) \<Rightarrow>
          let S = S\<lparr> handler_calls := handler_calls S + 1 \<rparr>
          in case e of
               Handler_bad_alloc \<Rightarrow> Some (if nothrow then Returned None else Bad_alloc, S)
             | Handler_throws \<Rightarrow> Some (Thrown, S)
             | Handler_returns \<Rightarrow>
                 (case retry_fn S of
                    None \<Rightarrow> None
                  | Some (rv, S) \<Rightarrow> if rv \<noteq> None then Some (Returned rv, S) else oom_loop nh retry_fn nothrow S))"

definition handle_oom ::
    "new_handler \<Rightarrow> (tcmalloc \<Rightarrow> (addr option \<times> tcmalloc) option) \<Rightarrow> bool \<Rightarrow> bool \<Rightarrow> tcmalloc \<Rightarrow> (outcome \<times> tcmalloc) option" where
  "handle_oom nh retry_fn from_operator nothrow S =
     (let S = S\<lparr> errno := ENOMEM \<rparr>
      in if \<not> from_operator \<and> tc_new_mode S = 0 then Some (Returned None, S)
         else oom_loop nh retry_fn nothrow S)"

definition retry_malloc :: "nat \<Rightarrow> u64 \<Rightarrow> tcmalloc \<Rightarrow> (addr option \<times> tcmalloc) option" where
  "retry_malloc me sz S = do_malloc me S sz"

definition do_malloc_or_cpp_alloc :: "new_handler \<Rightarrow> nat \<Rightarrow> tcmalloc \<Rightarrow> u64 \<Rightarrow> (outcome \<times> tcmalloc) option" where
  "do_malloc_or_cpp_alloc nh me S sz =
     do { (rv, S) \<leftarrow> do_malloc me S sz;
          if rv \<noteq> None then Some (Returned rv, S) else handle_oom nh (retry_malloc me sz) False True S }"

definition memset :: "addr \<Rightarrow> 8 word \<Rightarrow> nat \<Rightarrow> (addr \<Rightarrow> 8 word) \<Rightarrow> addr \<Rightarrow> 8 word" where
  "memset p v n m = (\<lambda>a. if p \<le> a \<and> a < p + n then v else m a)"

definition memcpy :: "addr \<Rightarrow> addr \<Rightarrow> nat \<Rightarrow> (addr \<Rightarrow> 8 word) \<Rightarrow> addr \<Rightarrow> 8 word" where
  "memcpy dst src n m = (\<lambda>a. if dst \<le> a \<and> a < dst + n then m (src + (a - dst)) else m a)"

definition do_calloc :: "new_handler \<Rightarrow> nat \<Rightarrow> tcmalloc \<Rightarrow> u64 \<Rightarrow> u64 \<Rightarrow> (outcome \<times> tcmalloc) option" where
  "do_calloc nh me S n elem_size =
     (let sz = n * elem_size
      in if elem_size \<noteq> 0 \<and> sz div elem_size \<noteq> n then Some (Returned None, S)
         else do {
           (r, S) \<leftarrow> do_malloc_or_cpp_alloc nh me S sz;
           Some (r, case r of
                      Returned (Some p) \<Rightarrow> S\<lparr> memory := memset p 0 (tc_nallocx (cc (tm S)) sz 0) (memory S) \<rparr>
                    | _ \<Rightarrow> S) })"

section \<open>Deallocation\<close>

definition PrepareAndDelete :: "(tcmalloc \<Rightarrow> tcmalloc option) \<Rightarrow> addr \<Rightarrow> tcmalloc \<Rightarrow> tcmalloc option" where
  "PrepareAndDelete body p S =
     do { S \<leftarrow> body S; h \<leftarrow> DeleteLocked (heap_of S) p; Some (set_heap h S) }"

text \<open>What \<open>do_free_pages\<close> does with a sampled span before it is deleted.\<close>

definition drop_sample :: "addr \<Rightarrow> tcmalloc \<Rightarrow> tcmalloc option" where
  "drop_sample p S =
     do { s \<leftarrow> spans (heap_of S) p;
          if sp_sample s then
            (case sp_objects s of
               q # _ \<Rightarrow>
                 let h = upd_span p (s\<lparr> sp_objects := [] \<rparr>) (heap_of S);
                     h = h\<lparr> stacktrace_allocator := PHA_Delete (stacktrace_allocator h) q \<rparr>
                 in Some ((set_heap h S)\<lparr> sampled_objects := remove1 p (sampled_objects S),
                                          stack_traces := (stack_traces S)(q := None) \<rparr>)
             | [] \<Rightarrow> None)
          else Some S }"

definition do_free_pages :: "tcmalloc \<Rightarrow> addr \<Rightarrow> addr \<Rightarrow> tcmalloc option" where
  "do_free_pages S p ptr =
     do { s \<leftarrow> spans (heap_of S) p;
          if sp_location s \<noteq> IN_USE then None
          else if sp_start s * kPageSize \<noteq> ptr then None
          else PrepareAndDelete (drop_sample p) p S }"

text \<open>\<open>InvalidFree\<close> ends the program.\<close>

definition free_null_or_invalid :: "tcmalloc \<Rightarrow> addr \<Rightarrow> tcmalloc option" where
  "free_null_or_invalid S ptr = (if ptr \<noteq> 0 then None else Some S)"

definition ValidateSizeHint :: "central \<Rightarrow> addr \<Rightarrow> u64 \<Rightarrow> bool option" where
  "ValidateSizeHint st ptr size_hint =
     do { q \<leftarrow> GetDescriptor (pageheap st) (ptr div kPageSize);
          s \<leftarrow> spans (pageheap st) q;
          Some (sp_sizeclass s = (case GetSizeClass (sizemap st) size_hint of None \<Rightarrow> 0 | Some cl \<Rightarrow> cl)) }"

text \<open>The object goes to the cache of the thread, or to the central list of its class when there is none.\<close>

definition free_object :: "nat \<Rightarrow> tcmalloc \<Rightarrow> addr \<Rightarrow> nat \<Rightarrow> tcmalloc option" where
  "free_object me S ptr cl =
     (let t = GetCacheIfPresent (tm S) me
      in if t \<noteq> 0 then do { T \<leftarrow> Deallocate (tm S) t ptr cl; Some (S\<lparr> tm := T \<rparr>) }
         else do { st \<leftarrow> InsertRange (cc (tm S)) cl [ptr] 1; Some (S\<lparr> tm := (tm S)\<lparr> cc := st \<rparr> \<rparr>) })"

definition do_free_with_callback :: "nat \<Rightarrow> tcmalloc \<Rightarrow> addr \<Rightarrow> u64 option \<Rightarrow> tcmalloc option" where
  "do_free_with_callback me S ptr size_hint =
     (let p = ptr div kPageSize;
          hinted = (case size_hint of None \<Rightarrow> None | Some n \<Rightarrow> GetSizeClass (sizemap (cc (tm S))) n)
      in case hinted of
           Some cl \<Rightarrow> free_object me S ptr cl
         | None \<Rightarrow>
             (case (if size_hint = None then TryGetSizeClass (heap_of S) p else None) of
                Some cl \<Rightarrow> free_object me S ptr cl
              | None \<Rightarrow>
                  (case GetDescriptor (heap_of S) p of
                     None \<Rightarrow> free_null_or_invalid S ptr
                   | Some q \<Rightarrow>
                       do { s \<leftarrow> spans (heap_of S) q;
                            let cl = sp_sizeclass s;
                            if cl = 0 then do_free_pages S q ptr
                            else let S = (if size_hint = None then set_heap (SetCachedSizeClass (heap_of S) p cl) S else S)
                                 in free_object me S ptr cl })))"

definition do_free :: "nat \<Rightarrow> tcmalloc \<Rightarrow> addr \<Rightarrow> tcmalloc option" where
  "do_free me S ptr = do_free_with_callback me S ptr None"

text \<open>\<open>None\<close> for a pointer that is not ours: \<open>invalid_getsize_fn\<close> ends the program.\<close>

definition GetSizeWithCallback :: "tcmalloc \<Rightarrow> addr \<Rightarrow> nat option" where
  "GetSizeWithCallback S ptr =
     (if ptr = 0 then Some 0
      else let p = ptr div kPageSize; sm = sizemap (cc (tm S))
           in case TryGetSizeClass (heap_of S) p of
                Some cl \<Rightarrow> Some (ByteSizeForClass sm cl)
              | None \<Rightarrow>
                  do { q \<leftarrow> GetDescriptor (heap_of S) p;
                       s \<leftarrow> spans (heap_of S) q;
                       if sp_sizeclass s \<noteq> 0 then Some (ByteSizeForClass sm (sp_sizeclass s))
                       else if sp_sample s then
                         (case sp_objects s of
                            [] \<Rightarrow> None
                          | a # _ \<Rightarrow> map_option (\<lambda>st. tc_nallocx (cc (tm S)) (of_nat (trace_size st)) 0) (stack_traces S a))
                       else Some (unat (page_bytes (sp_length s))) })"

section \<open>Reallocation\<close>

definition do_realloc_with_callback :: "new_handler \<Rightarrow> nat \<Rightarrow> tcmalloc \<Rightarrow> addr \<Rightarrow> u64 \<Rightarrow> (outcome \<times> tcmalloc) option" where
  "do_realloc_with_callback nh me S old_ptr new_size =
     do { sz \<leftarrow> GetSizeWithCallback S old_ptr;
          let old_size = (of_nat sz :: u64);
          let min_growth = min (old_size div 4) (- 1 - old_size);
          let lower_bound_to_grow = old_size + min_growth;
          let upper_bound_to_shrink = old_size div 2;
          if new_size > old_size \<or> new_size < upper_bound_to_shrink then
            do { (r, S) \<leftarrow> (if new_size > old_size \<and> new_size < lower_bound_to_grow
                            then do_malloc_or_cpp_alloc nh me S lower_bound_to_grow else Some (Returned None, S));
                 (r, S) \<leftarrow> (if r = Returned None then do_malloc_or_cpp_alloc nh me S new_size else Some (r, S));
                 (case r of
                    Returned (Some new_ptr) \<Rightarrow>
                      do { let S = S\<lparr> memory := memcpy new_ptr old_ptr (unat (if old_size < new_size then old_size else new_size)) (memory S) \<rparr>;
                           S \<leftarrow> do_free_with_callback me S old_ptr None;
                           Some (Returned (Some new_ptr), S) }
                  | _ \<Rightarrow> Some (r, S)) }
          else Some (Returned (Some old_ptr), S) }"

definition do_memalign_pages :: "tcmalloc \<Rightarrow> u64 \<Rightarrow> u64 \<Rightarrow> (addr option \<times> tcmalloc) option" where
  "do_memalign_pages S align sz =
     (if sz + align < sz then Some (None, S)
      else let sz = (if sz = 0 then 1 else sz)
           in do { (r, h) \<leftarrow> NewAligned (heap_of S) (unat (pages sz)) (unat (pages align));
                   Some (case r of None \<Rightarrow> None | Some p \<Rightarrow> SpanToMallocResult h p, set_heap h S) })"

section \<open>Exported functions\<close>

datatype oom_handler = cpp_throw_oom | cpp_nothrow_oom | malloc_oom

text \<open>The arguments \<open>from_operator\<close> and \<open>nothrow\<close> of \<open>handle_oom\<close>.\<close>

definition oom_args :: "oom_handler \<Rightarrow> bool \<times> bool" where
  "oom_args oom = (case oom of cpp_throw_oom \<Rightarrow> (True, False) | cpp_nothrow_oom \<Rightarrow> (True, True) | malloc_oom \<Rightarrow> (False, True))"

definition OOMHandler :: "new_handler \<Rightarrow> oom_handler \<Rightarrow> nat \<Rightarrow> tcmalloc \<Rightarrow> u64 \<Rightarrow> (outcome \<times> tcmalloc) option" where
  "OOMHandler nh oom me S sz =
     (let (from_operator, nothrow) = oom_args oom in handle_oom nh (retry_malloc me sz) from_operator nothrow S)"

definition do_allocate_full :: "new_handler \<Rightarrow> oom_handler \<Rightarrow> nat \<Rightarrow> tcmalloc \<Rightarrow> u64 \<Rightarrow> (outcome \<times> tcmalloc) option" where
  "do_allocate_full nh oom me S sz =
     do { (p, S) \<leftarrow> do_malloc me S sz;
          if p = None then OOMHandler nh oom me S sz else Some (Returned p, S) }"

text \<open>When the central list is empty, \<open>Allocate\<close> calls the handler with the size of the class.\<close>

definition malloc_fast_path :: "new_handler \<Rightarrow> oom_handler \<Rightarrow> nat \<Rightarrow> tcmalloc \<Rightarrow> u64 \<Rightarrow> (outcome \<times> tcmalloc) option" where
  "malloc_fast_path nh oom me S sz =
     (let t = GetFastPathCache (tm S) me
      in if t = 0 then do_allocate_full nh oom me S sz
         else case GetSizeClass (sizemap (cc (tm S))) sz of
                None \<Rightarrow> do_allocate_full nh oom me S sz
              | Some cl \<Rightarrow>
                  do { let allocated_size = ByteSizeForClass (sizemap (cc (tm S))) cl;
                       (ok, T) \<leftarrow> TC_TryRecordAllocationFast (tm S) t allocated_size;
                       let S = S\<lparr> tm := T \<rparr>;
                       if \<not> ok then do_allocate_full nh oom me S sz
                       else do { (r, T) \<leftarrow> Allocate T t allocated_size cl;
                                 let S = S\<lparr> tm := T \<rparr>;
                                 if r = None then OOMHandler nh oom me S (of_nat allocated_size)
                                 else Some (Returned r, S) } })"

definition memalign_pages :: "new_handler \<Rightarrow> u64 \<Rightarrow> u64 \<Rightarrow> bool \<Rightarrow> bool \<Rightarrow> tcmalloc \<Rightarrow> (outcome \<times> tcmalloc) option" where
  "memalign_pages nh align sz from_operator nothrow S =
     do { (rv, S) \<leftarrow> do_memalign_pages S align sz;
          if rv = None then handle_oom nh (\<lambda>S. do_memalign_pages S align sz) from_operator nothrow S
          else Some (Returned rv, S) }"

definition memalign_fast_path :: "new_handler \<Rightarrow> oom_handler \<Rightarrow> nat \<Rightarrow> tcmalloc \<Rightarrow> u64 \<Rightarrow> u64 \<Rightarrow> (outcome \<times> tcmalloc) option" where
  "memalign_fast_path nh oom me S align sz =
     (if align > of_nat kPageSize
      then (let (from_operator, nothrow) = oom_args oom in memalign_pages nh align sz from_operator nothrow S)
      else malloc_fast_path nh oom me S (align_size_up sz align))"

definition tc_malloc :: "new_handler \<Rightarrow> nat \<Rightarrow> tcmalloc \<Rightarrow> u64 \<Rightarrow> (outcome \<times> tcmalloc) option" where
  "tc_malloc nh me S sz = malloc_fast_path nh malloc_oom me S sz"

definition free_fast_path :: "nat \<Rightarrow> tcmalloc \<Rightarrow> addr \<Rightarrow> tcmalloc option" where
  "free_fast_path me S ptr = do_free me S ptr"

definition tc_free :: "nat \<Rightarrow> tcmalloc \<Rightarrow> addr \<Rightarrow> tcmalloc option" where
  "tc_free me S ptr = free_fast_path me S ptr"

definition tc_free_sized :: "nat \<Rightarrow> tcmalloc \<Rightarrow> addr \<Rightarrow> u64 \<Rightarrow> tcmalloc option" where
  "tc_free_sized me S ptr sz =
     (if (of_nat ptr :: u64) AND (of_nat kPageSize - 1) = 0 then tc_free me S ptr
      else do_free_with_callback me S ptr (Some sz))"

definition tc_calloc :: "new_handler \<Rightarrow> nat \<Rightarrow> tcmalloc \<Rightarrow> u64 \<Rightarrow> u64 \<Rightarrow> (outcome \<times> tcmalloc) option" where
  "tc_calloc nh me S n elem_size =
     (if IsUseEmergencyMalloc (tm S) me then None else do_calloc nh me S n elem_size)"

definition tc_realloc :: "new_handler \<Rightarrow> nat \<Rightarrow> tcmalloc \<Rightarrow> addr \<Rightarrow> u64 \<Rightarrow> (outcome \<times> tcmalloc) option" where
  "tc_realloc nh me S old_ptr new_size =
     (if old_ptr = 0 then do_malloc_or_cpp_alloc nh me S new_size
      else if new_size = 0 then do { S \<leftarrow> do_free me S old_ptr; Some (Returned None, S) }
      else do_realloc_with_callback nh me S old_ptr new_size)"

definition tc_new :: "new_handler \<Rightarrow> nat \<Rightarrow> tcmalloc \<Rightarrow> u64 \<Rightarrow> (outcome \<times> tcmalloc) option" where
  "tc_new nh me S sz = malloc_fast_path nh cpp_throw_oom me S sz"

definition tc_new_nothrow :: "new_handler \<Rightarrow> nat \<Rightarrow> tcmalloc \<Rightarrow> u64 \<Rightarrow> (outcome \<times> tcmalloc) option" where
  "tc_new_nothrow nh me S sz = malloc_fast_path nh cpp_nothrow_oom me S sz"

definition tc_delete_nothrow :: "nat \<Rightarrow> tcmalloc \<Rightarrow> addr \<Rightarrow> tcmalloc option" where
  "tc_delete_nothrow me S p = do_free me S p"

definition tc_memalign :: "new_handler \<Rightarrow> nat \<Rightarrow> tcmalloc \<Rightarrow> u64 \<Rightarrow> u64 \<Rightarrow> (outcome \<times> tcmalloc) option" where
  "tc_memalign nh me S align sz = memalign_fast_path nh malloc_oom me S align sz"

definition tc_new_aligned :: "new_handler \<Rightarrow> nat \<Rightarrow> tcmalloc \<Rightarrow> u64 \<Rightarrow> u64 \<Rightarrow> (outcome \<times> tcmalloc) option" where
  "tc_new_aligned nh me S sz align = memalign_fast_path nh cpp_throw_oom me S align sz"

definition tc_new_aligned_nothrow :: "new_handler \<Rightarrow> nat \<Rightarrow> tcmalloc \<Rightarrow> u64 \<Rightarrow> u64 \<Rightarrow> (outcome \<times> tcmalloc) option" where
  "tc_new_aligned_nothrow nh me S sz align = memalign_fast_path nh cpp_nothrow_oom me S align sz"

text \<open>The result is the error code; the pointer is stored only when it is 0.  A handler that throws leaves a function that
  must not throw, which ends the program.\<close>

definition tc_posix_memalign :: "new_handler \<Rightarrow> nat \<Rightarrow> tcmalloc \<Rightarrow> u64 \<Rightarrow> u64 \<Rightarrow> (int \<times> addr option \<times> tcmalloc) option" where
  "tc_posix_memalign nh me S align sz =
     (if align mod 8 \<noteq> 0 \<or> align AND (align - 1) \<noteq> 0 \<or> align = 0 then Some (EINVAL, None, S)
      else do { (r, S) \<leftarrow> tc_memalign nh me S align sz;
                (case r of
                   Returned None \<Rightarrow> Some (ENOMEM, None, S)
                 | Returned (Some p) \<Rightarrow> Some (0, Some p, S)
                 | _ \<Rightarrow> None) })"

text \<open>The static \<open>pagesize\<close> is set to \<open>getpagesize()\<close> on first use.\<close>

definition tc_valloc :: "new_handler \<Rightarrow> nat \<Rightarrow> tcmalloc \<Rightarrow> u64 \<Rightarrow> (outcome \<times> tcmalloc) option" where
  "tc_valloc nh me S sz = tc_memalign nh me S (of_nat (pagesize (system (heap_of S)))) sz"

definition tc_pvalloc :: "new_handler \<Rightarrow> nat \<Rightarrow> tcmalloc \<Rightarrow> u64 \<Rightarrow> (outcome \<times> tcmalloc) option" where
  "tc_pvalloc nh me S sz =
     (let page = of_nat (pagesize (system (heap_of S)));
          sz = (if sz = 0 then page else sz);
          sz = (sz + page - 1) AND NOT (page - 1)
      in tc_memalign nh me S page sz)"

definition tc_malloc_skip_new_handler :: "nat \<Rightarrow> tcmalloc \<Rightarrow> u64 \<Rightarrow> (addr option \<times> tcmalloc) option" where
  "tc_malloc_skip_new_handler me S sz = do_malloc me S sz"

definition tc_set_new_mode :: "int \<Rightarrow> tcmalloc \<Rightarrow> int \<times> tcmalloc" where
  "tc_set_new_mode flag S = (tc_new_mode S, S\<lparr> tc_new_mode := flag \<rparr>)"

definition MarkThreadBusy :: "nat \<Rightarrow> tcmalloc \<Rightarrow> tcmalloc option" where
  "MarkThreadBusy me S =
     do { (r, S) \<leftarrow> do_malloc me S 0; do_free me S (case r of None \<Rightarrow> 0 | Some p \<Rightarrow> p) }"

end
