(* ===== verification/PageHeap_Geom.thy ===== *)
theory PageHeap_Geom
  imports PageHeap
begin

text \<open>
  The first part of the invariant of the page heap, \<open>geom\<close>: spans do not overlap, the page map knows
  both ends of every span and nothing outside the spans, and the pages around every span can be
  looked up and set.  The lemmas show that splitting a span, joining two neighbours and adding new
  pages keep it.
\<close>

section \<open>Geometry\<close>

definition pages_of :: "Span \<Rightarrow> nat set" where
  "pages_of s = {sp_start s ..< sp_start s + sp_length s}"

definition bytes_of :: "Span \<Rightarrow> addr set" where
  "bytes_of s = {sp_start s * kPageSize ..< (sp_start s + sp_length s) * kPageSize}"

definition span_ok :: "addr \<Rightarrow> Span \<Rightarrow> (nat \<Rightarrow> addr option) \<Rightarrow> (nat \<Rightarrow> bool) \<Rightarrow> addr set \<Rightarrow> bool" where
  "span_ok p s g e T \<longleftrightarrow> 0 < sp_start s \<and> 0 < sp_length s
     \<and> g (sp_start s) = Some p \<and> g (sp_start s + sp_length s - 1) = Some p
     \<and> (\<forall>k. sp_start s - 1 \<le> k \<and> k \<le> sp_start s + sp_length s \<longrightarrow> e k)
     \<and> bytes_of s \<subseteq> T
     \<and> (sp_sizeclass s \<noteq> 0 \<longrightarrow> sp_location s = IN_USE \<and> (\<forall>k \<in> pages_of s. g k = Some p))
     \<and> (sp_sample s \<longrightarrow> sp_location s = IN_USE)"

text \<open>Neither of small objects nor sampled.\<close>

abbreviation plain :: "Span \<Rightarrow> bool" where
  "plain s \<equiv> sp_sizeclass s = 0 \<and> \<not> sp_sample s"

definition geom :: "span_store \<Rightarrow> (nat \<Rightarrow> addr option) \<Rightarrow> (nat \<Rightarrow> bool) \<Rightarrow> addr set \<Rightarrow> bool" where
  "geom sp g e T \<longleftrightarrow> finite (dom sp)
     \<and> (\<forall>p s. sp p = Some s \<longrightarrow> span_ok p s g e T)
     \<and> (\<forall>p q s t. sp p = Some s \<and> sp q = Some t \<and> p \<noteq> q \<longrightarrow> pages_of s \<inter> pages_of t = {})
     \<and> (\<forall>k p. g k = Some p \<longrightarrow> (\<exists>q s. sp q = Some s \<and> k \<in> pages_of s))"

lemma geom_finite: "geom sp g e T \<Longrightarrow> finite (dom sp)"
  by (simp add: geom_def)

lemma geom_span: "geom sp g e T \<Longrightarrow> sp p = Some s \<Longrightarrow> span_ok p s g e T"
  by (simp add: geom_def)

lemma geom_disjoint:
  "geom sp g e T \<Longrightarrow> sp p = Some s \<Longrightarrow> sp q = Some t \<Longrightarrow> p \<noteq> q \<Longrightarrow> pages_of s \<inter> pages_of t = {}"
  unfolding geom_def by blast

lemma geom_covered: "geom sp g e T \<Longrightarrow> g k = Some p \<Longrightarrow> \<exists>q s. sp q = Some s \<and> k \<in> pages_of s"
  unfolding geom_def by blast

lemma geom_order:
  assumes "geom sp g e T" "sp p = Some s" "sp q = Some t" "p \<noteq> q"
  shows "sp_start s + sp_length s \<le> sp_start t \<or> sp_start t + sp_length t \<le> sp_start s"
proof (rule ccontr)
  assume "\<not> ?thesis"
  then have "max (sp_start s) (sp_start t) \<in> pages_of s \<inter> pages_of t"
    using geom_span [OF assms(1,2)] geom_span [OF assms(1,3)] by (auto simp: pages_of_def span_ok_def)
  with geom_disjoint [OF assms] show False by simp
qed

lemma geom_next:
  assumes "geom sp g e T" "sp p = Some s" "g (sp_start s + sp_length s) = Some q"
  obtains t where "sp q = Some t" "sp_start t = sp_start s + sp_length s" "q \<noteq> p"
proof -
  obtain r t where r: "sp r = Some t" "sp_start s + sp_length s \<in> pages_of t"
    using geom_covered [OF assms(1,3)] by auto
  then have "r \<noteq> p" using assms(2) by (auto simp: pages_of_def)
  with geom_order [OF assms(1,2) r(1)] r(2) have "sp_start t = sp_start s + sp_length s"
    by (auto simp: pages_of_def)
  moreover have "g (sp_start t) = Some r"
    using geom_span [OF assms(1) r(1)] by (simp add: span_ok_def)
  ultimately show ?thesis using that assms(3) r(1) \<open>r \<noteq> p\<close> by simp
qed

lemma geom_prev:
  assumes "geom sp g e T" "sp p = Some s" "g (sp_start s - 1) = Some q"
  obtains t where "sp q = Some t" "sp_start t + sp_length t = sp_start s" "q \<noteq> p"
proof -
  obtain r t where r: "sp r = Some t" "sp_start s - 1 \<in> pages_of t"
    using geom_covered [OF assms(1,3)] by auto
  have pos: "0 < sp_start s" "0 < sp_length s" using geom_span [OF assms(1,2)] by (simp_all add: span_ok_def)
  with r assms(2) have "r \<noteq> p" by (auto simp: pages_of_def)
  with geom_order [OF assms(1,2) r(1)] r(2) pos have e: "sp_start t + sp_length t = sp_start s"
    by (auto simp: pages_of_def)
  moreover have "g (sp_start t + sp_length t - 1) = Some r"
    using geom_span [OF assms(1) r(1)] by (simp add: span_ok_def)
  ultimately show ?thesis using that assms(3) r(1) \<open>r \<noteq> p\<close> by simp
qed

text \<open>A change of a span that keeps its pages.\<close>

lemma geom_replace:
  assumes "geom sp g e T" "sp p = Some s" "pages_of s' = pages_of s" "span_ok p s' g e T"
  shows "geom (sp(p \<mapsto> s')) g e T"
proof -
  note s' = assms(3) refl assms(4)
  show ?thesis
    unfolding geom_def
  proof (intro conjI allI impI)
    show "finite (dom (sp(p \<mapsto> s')))" using geom_finite [OF assms(1)] by simp
    show "span_ok r u g e T" if "(sp(p \<mapsto> s')) r = Some u" for r u
      using that s'(3) geom_span [OF assms(1), of r u] by (auto split: if_splits)
    show "pages_of u \<inter> pages_of v = {}"
      if "(sp(p \<mapsto> s')) r = Some u \<and> (sp(p \<mapsto> s')) r' = Some v \<and> r \<noteq> r'" for r r' u v
      using that s'(1) assms(2) geom_disjoint [OF assms(1), of r _ r'] by (auto split: if_splits)
    show "\<exists>r u. (sp(p \<mapsto> s')) r = Some u \<and> k \<in> pages_of u" if gk: "g k = Some q" for k q
    proof -
      obtain r u where "sp r = Some u" "k \<in> pages_of u" using geom_covered [OF assms(1) gk] by auto
      then show ?thesis using s'(1) assms(2) by (cases "r = p") (auto intro!: exI [of _ r])
    qed
  qed
qed

lemma geom_same_pages:
  assumes "geom sp g e T" "sp p = Some s" "sp_start s' = sp_start s" "sp_length s' = sp_length s"
    "sp_sizeclass s' \<noteq> 0 \<Longrightarrow> sp_sizeclass s \<noteq> 0 \<and> sp_location s' = sp_location s"
    "sp_sample s' \<Longrightarrow> sp_location s' = IN_USE"
  shows "geom (sp(p \<mapsto> s')) g e T"
  by (rule geom_replace [OF assms(1,2)])
    (use geom_span [OF assms(1,2)] assms(3-6) in \<open>auto simp: pages_of_def bytes_of_def span_ok_def\<close>)

lemma geom_mono: "geom sp g e T \<Longrightarrow> T \<subseteq> T' \<Longrightarrow> geom sp g e T'"
  unfolding geom_def span_ok_def by blast

lemma geom_ensured: "geom sp g e T \<Longrightarrow> (\<And>k. e k \<Longrightarrow> e' k) \<Longrightarrow> geom sp g e' T"
  unfolding geom_def span_ok_def by blast

text \<open>Keys that belong to no other span may change.\<close>

lemma span_ok_upd:
  assumes "span_ok p s g e T" "\<And>k. k \<in> pages_of s \<Longrightarrow> g' k = g k"
  shows "span_ok p s g' e T"
  using assms by (auto simp: span_ok_def pages_of_def)

lemma geom_split:
  assumes "geom sp g e T" "sp p = Some s" "0 < n" "n < sp_length s" "sp q = None"
    and s': "sp_start s' = sp_start s" "sp_length s' = n" "plain s'"
    and t: "sp_start t = sp_start s + n" "sp_length t = sp_length s - n" "plain t"
    and g': "g' = g(sp_start s + n := Some q, sp_start s + sp_length s - 1 := Some q, sp_start s + n - 1 := Some p)"
  shows "geom (sp(p \<mapsto> s', q \<mapsto> t)) g' e T"
proof -
  note ok = geom_span [OF assms(1,2)]
  have neq: "p \<noteq> q" using assms(2,5) by auto
  have pages: "pages_of s = pages_of s' \<union> pages_of t" "pages_of s' \<inter> pages_of t = {}"
    using assms(3,4) s' t by (auto simp: pages_of_def)
  have b: "bytes_of s' \<subseteq> bytes_of s" "bytes_of t \<subseteq> bytes_of s"
    using assms(3,4) s' t by (auto simp: bytes_of_def)
  have 1: "span_ok p s' g' e T" "span_ok q t g' e T"
    using ok assms(3,4) s' t b unfolding g' by (auto simp: span_ok_def)
  have "g' k = g k" if "r \<noteq> p" "sp r = Some u" "k \<in> pages_of u" for r u k
    using geom_disjoint [OF assms(1) that(2) assms(2) that(1)] that(3) assms(3,4)
    unfolding g' by (auto simp: pages_of_def)
  then have 2: "span_ok r u g' e T" if "r \<noteq> p" "sp r = Some u" for r u
    using span_ok_upd [OF geom_span [OF assms(1) that(2)]] that by blast
  have 3: "pages_of u \<inter> pages_of s = {}" if "r \<noteq> p" "sp r = Some u" for r u
    using geom_disjoint [OF assms(1) that(2) assms(2) that(1)] .
  have 4: "\<exists>r u. (sp(p \<mapsto> s', q \<mapsto> t)) r = Some u \<and> k \<in> pages_of u" if "k \<in> pages_of s \<or> g k \<noteq> None" for k
  proof -
    have "\<exists>r u. sp r = Some u \<and> k \<in> pages_of u"
      using that
    proof
      assume "g k \<noteq> None"
      then show ?thesis using geom_covered [OF assms(1)] by blast
    qed (use assms(2) in blast)
    then obtain r u where "sp r = Some u" "k \<in> pages_of u" by blast
    then show ?thesis
      using pages(1) assms(2,5) neq by (cases "r = p") (fastforce intro: exI [of _ r])+
  qed
  have 5: "k \<in> pages_of s \<or> g k \<noteq> None" if "g' k \<noteq> None" for k
    using that assms(3,4) unfolding g' by (auto simp: pages_of_def split: if_splits)
  show ?thesis
    unfolding geom_def
  proof (intro conjI allI impI)
    show "finite (dom (sp(p \<mapsto> s', q \<mapsto> t)))" using geom_finite [OF assms(1)] by simp
    show "span_ok r u g' e T" if "(sp(p \<mapsto> s', q \<mapsto> t)) r = Some u" for r u
      using that 1 2 neq by (auto split: if_splits)
    show "pages_of u \<inter> pages_of v = {}"
      if "(sp(p \<mapsto> s', q \<mapsto> t)) r = Some u \<and> (sp(p \<mapsto> s', q \<mapsto> t)) r' = Some v \<and> r \<noteq> r'" for r r' u v
      using that 3 [of r u] 3 [of r' v] pages geom_disjoint [OF assms(1), of r u r' v]
      by (auto split: if_splits)
    show "\<exists>r u. (sp(p \<mapsto> s', q \<mapsto> t)) r = Some u \<and> k \<in> pages_of u" if "g' k = Some r" for k r
      using 4 [of k] 5 [of k] that by simp
  qed
qed

text \<open>Two neighbours become one span, described by \<open>p\<close>.\<close>

lemma geom_join:
  assumes "geom sp g e T" "sp p = Some s" "sp q = Some t" "p \<noteq> q"
    and join: "sp_start s' = min (sp_start s) (sp_start t)" "sp_length s' = sp_length s + sp_length t"
      "sp_start s + sp_length s = sp_start t \<or> sp_start t + sp_length t = sp_start s" "plain s'"
    and g': "g' = g(k0 := Some p)" "k0 = (if sp_start s < sp_start t then sp_start s' + sp_length s' - 1 else sp_start s')"
  shows "geom (sp(q := None, p \<mapsto> s')) g' e T"
proof -
  note ok = geom_span [OF assms(1,2)] geom_span [OF assms(1,3)]
  have pages: "pages_of s' = pages_of s \<union> pages_of t"
    using join by (auto simp: pages_of_def)
  have b: "bytes_of s' \<subseteq> bytes_of s \<union> bytes_of t"
    using join by (auto simp: bytes_of_def)
  have k0: "k0 \<in> pages_of t"
    using join ok g'(2) by (auto simp: pages_of_def span_ok_def)
  have b': "bytes_of s' \<subseteq> T" using b ok by (auto simp: span_ok_def)
  have 1: "span_ok p s' g' e T"
    using join(3)
  proof
    assume j: "sp_start s + sp_length s = sp_start t"
    then have lt: "sp_start s < sp_start t" using ok by (auto simp: span_ok_def)
    then have e: "sp_start s' = sp_start s" "k0 = sp_start s + (sp_length s + sp_length t) - 1"
      using join g'(2) by auto
    have "e k" if "sp_start s - 1 \<le> k" "k \<le> sp_start s + (sp_length s + sp_length t)" for k
      using ok j that unfolding span_ok_def by (cases "k \<le> sp_start t") auto
    then show ?thesis
      using ok j b' join(4) unfolding span_ok_def e join(2) g'(1) by auto
  next
    assume j: "sp_start t + sp_length t = sp_start s"
    then have lt: "sp_start t < sp_start s" using ok by (auto simp: span_ok_def)
    then have e: "sp_start s' = sp_start t" "k0 = sp_start t"
      using join g'(2) by auto
    have last: "sp_start t + (sp_length s + sp_length t) - 1 = sp_start s + sp_length s - 1"
      using j by linarith
    have "e k" if "sp_start t - 1 \<le> k" "k \<le> sp_start t + (sp_length s + sp_length t)" for k
      using ok j that unfolding span_ok_def by (cases "k \<le> sp_start s") auto
    then show ?thesis
      using ok j b' lt last join(4) unfolding span_ok_def e join(2) g'(1) by auto
  qed
  have 3: "pages_of u \<inter> pages_of s = {}" "pages_of u \<inter> pages_of t = {}"
    if "r \<noteq> p" "r \<noteq> q" "sp r = Some u" for r u
    using geom_disjoint [OF assms(1) that(3)] assms(2,3) that by auto
  have 2: "span_ok r u g' e T" if "r \<noteq> p" "r \<noteq> q" "sp r = Some u" for r u
    using 3 [OF that] k0 by (intro span_ok_upd [OF geom_span [OF assms(1) that(3)]]) (auto simp: g'(1))
  show ?thesis
    unfolding geom_def
  proof (intro conjI allI impI)
    show "finite (dom (sp(q := None, p \<mapsto> s')))" using geom_finite [OF assms(1)] by simp
    show "span_ok r u g' e T" if "(sp(q := None, p \<mapsto> s')) r = Some u" for r u
      using that 1 2 by (auto split: if_splits)
    show "pages_of u \<inter> pages_of v = {}"
      if "(sp(q := None, p \<mapsto> s')) r = Some u \<and> (sp(q := None, p \<mapsto> s')) r' = Some v \<and> r \<noteq> r'" for r r' u v
      using that 3 [of r u] 3 [of r' v] pages geom_disjoint [OF assms(1), of r u r' v]
      by (auto split: if_splits)
    show "\<exists>r u. (sp(q := None, p \<mapsto> s')) r = Some u \<and> k \<in> pages_of u" if gk: "g' k = Some r" for k r
    proof -
      have "k = k0 \<or> g k = Some r" using gk g'(1) by (auto split: if_splits)
      then have "\<exists>r' u. sp r' = Some u \<and> k \<in> pages_of u"
      proof
        assume "k = k0" with k0 assms(3) show ?thesis by blast
      qed (rule geom_covered [OF assms(1)])
      then obtain r' u where r': "sp r' = Some u" "k \<in> pages_of u" by blast
      show ?thesis
      proof (cases "r' = p \<or> r' = q")
        case True
        then have "u = s \<or> u = t" using r'(1) assms(2,3) by auto
        then have "k \<in> pages_of s'" using r'(2) pages by blast
        then show ?thesis by (intro exI [of _ p]) simp
      next
        case False
        with r' show ?thesis by (intro exI [of _ r']) auto
      qed
    qed
  qed
qed

text \<open>A span of new pages.\<close>

lemma geom_new:
  assumes "geom sp g e T" "sp q = None" "T \<subseteq> T'" "bytes_of t \<subseteq> T'" "bytes_of t \<inter> T = {}"
    and t: "0 < sp_start t" "0 < sp_length t" "plain t"
      "\<And>k. sp_start t - 1 \<le> k \<Longrightarrow> k \<le> sp_start t + sp_length t \<Longrightarrow> e k"
    and g': "g' = g(sp_start t := Some q, sp_start t + sp_length t - 1 := Some q)"
  shows "geom (sp(q \<mapsto> t)) g' e T'"
proof -
  have 3: "pages_of u \<inter> pages_of t = {}" if "sp r = Some u" for r u
  proof (rule ccontr)
    assume "pages_of u \<inter> pages_of t \<noteq> {}"
    then obtain k where k: "k \<in> pages_of u" "k \<in> pages_of t" by auto
    then have "k * kPageSize \<in> bytes_of u" "k * kPageSize \<in> bytes_of t"
      by (auto simp: pages_of_def bytes_of_def)
    with geom_span [OF assms(1) that] assms(5) show False by (auto simp: span_ok_def)
  qed
  have keys: "sp_start t \<in> pages_of t" "sp_start t + sp_length t - 1 \<in> pages_of t"
    using t(1,2) by (auto simp: pages_of_def)
  have 1: "span_ok q t g' e T'"
    using t assms(4) unfolding g' by (auto simp: span_ok_def)
  have 2: "span_ok r u g' e T'" if "sp r = Some u" for r u
  proof -
    have "span_ok r u g e T'" using geom_span [OF assms(1) that] assms(3) by (auto simp: span_ok_def)
    then show ?thesis
      by (rule span_ok_upd) (use 3 [OF that] keys in \<open>auto simp: g'\<close>)
  qed
  show ?thesis
    unfolding geom_def
  proof (intro conjI allI impI)
    show "finite (dom (sp(q \<mapsto> t)))" using geom_finite [OF assms(1)] by simp
    show "span_ok r u g' e T'" if "(sp(q \<mapsto> t)) r = Some u" for r u
      using that 1 2 by (auto split: if_splits)
    show "pages_of u \<inter> pages_of v = {}"
      if "(sp(q \<mapsto> t)) r = Some u \<and> (sp(q \<mapsto> t)) r' = Some v \<and> r \<noteq> r'" for r r' u v
      using that 3 geom_disjoint [OF assms(1), of r u r' v] by (auto split: if_splits)
    show "\<exists>r u. (sp(q \<mapsto> t)) r = Some u \<and> k \<in> pages_of u" if gk: "g' k = Some r" for k r
    proof (cases "k \<in> pages_of t")
      case False
      then have "g k = Some r" using gk keys g' by (auto split: if_splits)
      then obtain r' u where "sp r' = Some u" "k \<in> pages_of u"
        using geom_covered [OF assms(1), of k r] by blast
      then show ?thesis using assms(2) by (intro exI [of _ r']) auto
    qed auto
  qed
qed

end
