(* ===== verification/PageHeap_Lists.thy ===== *)
theory PageHeap_Lists
  imports PageHeap
begin

text \<open>
  The second part of the invariant of the page heap, \<open>lists_ok\<close>: the free lists and the sets of
  large spans hold exactly the free spans, and the statistics are their sizes.  \<open>X\<close> are the spans an
  operation has taken off their lists and still works on.
\<close>

section \<open>Pages by location\<close>

definition on_list :: "addr set \<Rightarrow> span_store \<Rightarrow> location \<Rightarrow> addr \<Rightarrow> Span \<Rightarrow> bool" where
  "on_list X sp loc p s \<longleftrightarrow> sp p = Some s \<and> sp_location s = loc \<and> p \<notin> X"

definition loc_pages :: "addr set \<Rightarrow> span_store \<Rightarrow> location \<Rightarrow> nat" where
  "loc_pages X sp loc = (\<Sum>p \<in> dom sp. if \<exists>s. on_list X sp loc p s then sp_length (the (sp p)) else 0)"

text \<open>What one span contributes.\<close>

definition contrib :: "addr set \<Rightarrow> location \<Rightarrow> addr \<Rightarrow> Span option \<Rightarrow> nat" where
  "contrib X loc p so = (case so of None \<Rightarrow> 0 | Some s \<Rightarrow> if sp_location s = loc \<and> p \<notin> X then sp_length s else 0)"

lemma loc_pages_contrib: "loc_pages X sp loc = (\<Sum>p \<in> dom sp. contrib X loc p (sp p))"
  unfolding loc_pages_def by (rule sum.cong) (auto simp: contrib_def on_list_def)

lemma loc_pages_split:
  assumes "finite (dom sp)"
  shows "loc_pages X sp loc = contrib X loc p (sp p) + (\<Sum>q \<in> dom sp - {p}. contrib X loc q (sp q))"
proof (cases "p \<in> dom sp")
  case True
  then show ?thesis unfolding loc_pages_contrib using assms by (simp add: sum.remove)
next
  case False
  then have "sp p = None" by auto
  with False show ?thesis unfolding loc_pages_contrib by (simp add: contrib_def)
qed

text \<open>The total after a change of one span, and after a change of \<open>X\<close> at one span.\<close>

lemma loc_pages_upd:
  assumes "finite (dom sp)" "X' - {p} = X - {p}"
  shows "loc_pages X' (sp(p := so)) loc + contrib X loc p (sp p) = loc_pages X sp loc + contrib X' loc p so"
proof -
  have "(\<Sum>q \<in> dom (sp(p := so)) - {p}. contrib X' loc q ((sp(p := so)) q)) = (\<Sum>q \<in> dom sp - {p}. contrib X loc q (sp q))"
    using assms(2) by (intro sum.cong) (fastforce simp: contrib_def split: option.splits if_splits)+
  then show ?thesis
    using loc_pages_split [of "sp(p := so)" X' loc p] loc_pages_split [OF assms(1), of X loc p] assms(1)
    by simp
qed

lemma loc_pages_X:
  assumes "finite (dom sp)" "X' - {p} = X - {p}"
  shows "loc_pages X' sp loc + contrib X loc p (sp p) = loc_pages X sp loc + contrib X' loc p (sp p)"
  using loc_pages_upd [OF assms, of "sp p" loc] by simp

lemma page_bytes_add: "page_bytes (a + b) = page_bytes a + page_bytes b"
  by (simp add: page_bytes_def distrib_right)

lemma page_bytes_0 [simp]: "page_bytes 0 = 0"
  by (simp add: page_bytes_def)

lemma page_bytes_eq: "a + b = c + d \<Longrightarrow> page_bytes a = page_bytes c + page_bytes d - page_bytes b"
  by (metis page_bytes_add add_diff_cancel)

section \<open>The invariant of the lists\<close>

definition stat_bytes :: "Stats \<Rightarrow> location \<Rightarrow> u64" where
  "stat_bytes st loc = (if loc = ON_NORMAL_FREELIST then free_bytes st else unmapped_bytes st)"

definition lists_ok ::
    "addr set \<Rightarrow> span_store \<Rightarrow> (location \<Rightarrow> nat \<Rightarrow> addr list) \<Rightarrow> (location \<Rightarrow> SpanPtrWithLength list) \<Rightarrow> Stats \<Rightarrow> bool" where
  "lists_ok X sp fr lg st \<longleftrightarrow> (\<forall>loc. loc \<noteq> IN_USE \<longrightarrow>
     (\<forall>i p. p \<in> set (fr loc i) \<longleftrightarrow> i < kMaxPages \<and> (\<exists>s. on_list X sp loc p s \<and> sp_length s = i + 1))
     \<and> (\<forall>i. distinct (fr loc i))
     \<and> (\<forall>l p. (l, p) \<in> set (lg loc) \<longleftrightarrow> kMaxPages < l \<and> (\<exists>s. on_list X sp loc p s \<and> sp_length s = l))
     \<and> sorted_wrt (SpanBestFitLess sp) (lg loc)
     \<and> stat_bytes st loc = page_bytes (loc_pages X sp loc))"

lemma lists_okD:
  assumes "lists_ok X sp fr lg st" "loc \<noteq> IN_USE"
  shows "p \<in> set (fr loc i) \<longleftrightarrow> i < kMaxPages \<and> (\<exists>s. on_list X sp loc p s \<and> sp_length s = i + 1)"
    and "distinct (fr loc i)"
    and "(l, p) \<in> set (lg loc) \<longleftrightarrow> kMaxPages < l \<and> (\<exists>s. on_list X sp loc p s \<and> sp_length s = l)"
    and "sorted_wrt (SpanBestFitLess sp) (lg loc)"
    and "stat_bytes st loc = page_bytes (loc_pages X sp loc)"
  using assms unfolding lists_ok_def by blast+

text \<open>Changes that do not concern a listed span.\<close>

lemma sorted_cong:
  assumes "sorted_wrt (SpanBestFitLess sp) xs" "\<And>l p. (l, p) \<in> set xs \<Longrightarrow> start_of sp' p = start_of sp p"
  shows "sorted_wrt (SpanBestFitLess sp') xs"
  using assms(1)
proof (rule sorted_wrt_mono_rel [rotated])
  fix a b assume "a \<in> set xs" "b \<in> set xs" "SpanBestFitLess sp a b"
  then show "SpanBestFitLess sp' a b"
    using assms(2) [of "fst a" "snd a"] assms(2) [of "fst b" "snd b"] by (simp add: SpanBestFitLess_def split: if_splits)
qed

lemma lists_ok_cong:
  assumes "lists_ok X sp fr lg st" "finite (dom sp)"
    and on: "\<And>loc q s. loc \<noteq> IN_USE \<Longrightarrow> on_list X' sp' loc q s \<longleftrightarrow> on_list X sp loc q s"
    and pages: "\<And>loc. loc \<noteq> IN_USE \<Longrightarrow> loc_pages X' sp' loc = loc_pages X sp loc"
  shows "lists_ok X' sp' fr lg st"
proof -
  have "start_of sp' p = start_of sp p" if l: "loc \<noteq> IN_USE" "(l, p) \<in> set (lg loc)" for loc l p
  proof -
    obtain s where "on_list X sp loc p s" using lists_okD(3) [OF assms(1) l(1)] l(2) by blast
    moreover from this have "on_list X' sp' loc p s" using on l(1) by blast
    ultimately show ?thesis by (simp add: on_list_def start_of_def)
  qed
  then have "sorted_wrt (SpanBestFitLess sp') (lg loc)" if "loc \<noteq> IN_USE" for loc
    using that lists_okD(4) [OF assms(1) that] sorted_cong by blast
  with assms(1) on pages show ?thesis
    unfolding lists_ok_def by simp
qed

text \<open>A span in \<open>X\<close>, or in use before and after, may change; a span may appear or disappear there.\<close>

lemma lists_ok_upd:
  assumes "lists_ok X sp fr lg st" "finite (dom sp)" "X' - {p} = X - {p}"
    and "p \<in> X \<or> sp p = None \<or> (\<exists>s. sp p = Some s \<and> sp_location s = IN_USE)"
    and "p \<in> X' \<or> so = None \<or> (\<exists>s. so = Some s \<and> sp_location s = IN_USE)"
  shows "lists_ok X' (sp(p := so)) fr lg st"
proof (rule lists_ok_cong [OF assms(1,2)])
  fix loc :: location assume loc: "loc \<noteq> IN_USE"
  show "on_list X' (sp(p := so)) loc q s \<longleftrightarrow> on_list X sp loc q s" for q s
    using loc assms(3-5) by (cases "q = p") (fastforce simp: on_list_def)+
  have "contrib X loc p (sp p) = 0" "contrib X' loc p so = 0"
    using assms(4,5) loc by (auto simp: contrib_def split: option.splits)
  with loc_pages_upd [OF assms(2,3), of so loc]
  show "loc_pages X' (sp(p := so)) loc = loc_pages X sp loc" by simp
qed

lemma lists_ok_X:
  assumes "lists_ok X sp fr lg st" "finite (dom sp)" "X' - {p} = X - {p}"
    and "sp p = None \<or> (\<exists>s. sp p = Some s \<and> sp_location s = IN_USE)"
  shows "lists_ok X' sp fr lg st"
  using lists_ok_upd [OF assms(1-3), of "sp p"] assms(4) by simp

section \<open>Taking a span off its list and putting it back\<close>

lemma stat_bytes_sub:
  "loc \<noteq> IN_USE \<Longrightarrow> loc' \<noteq> IN_USE \<Longrightarrow> stat_bytes (sub_free loc b st) loc' = (if loc' = loc then stat_bytes st loc' - b else stat_bytes st loc')"
  by (cases loc; cases loc') (auto simp: stat_bytes_def sub_free_def)

lemma stat_bytes_add:
  "loc \<noteq> IN_USE \<Longrightarrow> loc' \<noteq> IN_USE \<Longrightarrow> stat_bytes (add_free loc b st) loc' = (if loc' = loc then stat_bytes st loc' + b else stat_bytes st loc')"
  by (cases loc; cases loc') (auto simp: stat_bytes_def add_free_def)

lemma loc_pages_remove:
  assumes "finite (dom sp)" "sp p = Some s" "p \<notin> X"
  shows "loc_pages X sp loc = loc_pages (insert p X) sp loc + (if sp_location s = loc then sp_length s else 0)"
  using loc_pages_X [OF assms(1), of "insert p X" p X loc] assms(2,3) by (simp add: contrib_def)

lemma on_list_insert: "on_list (insert p X) sp loc q s \<longleftrightarrow> q \<noteq> p \<and> on_list X sp loc q s"
  by (auto simp: on_list_def)

lemma RemoveFromFreeList_eq:
  assumes "spans h p = Some s" "sp_location s \<noteq> IN_USE"
  shows "RemoveFromFreeList h p = Some (h\<lparr>
    stats := sub_free (sp_location s) (page_bytes (sp_length s)) (stats h),
    large := (if sp_length s > kMaxPages then (large h)(sp_location s := filter (\<lambda>e. snd e \<noteq> p) (large h (sp_location s))) else large h),
    free := (if sp_length s > kMaxPages then free h else (free h)(sp_location s := (free h (sp_location s))(sp_length s - 1 := remove1 p (free h (sp_location s) (sp_length s - 1))))) \<rparr>)"
  using assms by (cases "sp_location s") (simp_all add: RemoveFromFreeList_def)

lemma PrependToFreeList_eq:
  assumes "spans h p = Some s" "sp_location s \<noteq> IN_USE"
  shows "PrependToFreeList h p = Some (h\<lparr>
    stats := add_free (sp_location s) (page_bytes (sp_length s)) (stats h),
    large := (if sp_length s > kMaxPages then (large h)(sp_location s := SpanSet_insert (spans h) (sp_length s, p) (large h (sp_location s))) else large h),
    free := (if sp_length s > kMaxPages then free h else (free h)(sp_location s := (free h (sp_location s))(sp_length s - 1 := p # free h (sp_location s) (sp_length s - 1)))) \<rparr>)"
  using assms by (cases "sp_location s") (simp_all add: PrependToFreeList_def)

lemma lists_ok_remove:
  assumes ok: "lists_ok X sp fr lg st" "finite (dom sp)" "sp p = Some s" "sp_location s \<noteq> IN_USE" "p \<notin> X" "0 < sp_length s"
    and fr': "fr' = (if sp_length s > kMaxPages then fr else fr(sp_location s := (fr (sp_location s))(sp_length s - 1 := remove1 p (fr (sp_location s) (sp_length s - 1)))))"
    and lg': "lg' = (if sp_length s > kMaxPages then lg(sp_location s := filter (\<lambda>e. snd e \<noteq> p) (lg (sp_location s))) else lg)"
  shows "lists_ok (insert p X) sp fr' lg' (sub_free (sp_location s) (page_bytes (sp_length s)) st)"
  unfolding lists_ok_def
proof (intro allI impI conjI)
  fix loc :: location assume loc: "loc \<noteq> IN_USE"
  note d = lists_okD [OF ok(1) loc]
  have on: "on_list X sp loc p t \<longleftrightarrow> loc = sp_location s \<and> t = s" for t
    using ok(3,5) by (auto simp: on_list_def)
  show "q \<in> set (fr' loc i) \<longleftrightarrow> i < kMaxPages \<and> (\<exists>t. on_list (insert p X) sp loc q t \<and> sp_length t = i + 1)" for i q
    using d(1) [of q i] d(2) [of i] on ok(6) unfolding fr' on_list_insert
    by (cases "q = p") (auto simp del: kMaxPages_def)
  show "distinct (fr' loc i)" for i
    using d(2) [of i] unfolding fr' by auto
  show "(l, q) \<in> set (lg' loc) \<longleftrightarrow> kMaxPages < l \<and> (\<exists>t. on_list (insert p X) sp loc q t \<and> sp_length t = l)" for l q
    using d(3) [of l q] on unfolding lg' on_list_insert
    by (cases "q = p") (auto simp del: kMaxPages_def)
  show "sorted_wrt (SpanBestFitLess sp) (lg' loc)"
    using d(4) unfolding lg' by (auto intro: sorted_wrt_filter)
  show "stat_bytes (sub_free (sp_location s) (page_bytes (sp_length s)) st) loc = page_bytes (loc_pages (insert p X) sp loc)"
    using d(5) loc_pages_remove [OF ok(2,3,5), of loc] unfolding stat_bytes_sub [OF ok(4) loc]
    by (auto simp: page_bytes_add)
qed

text \<open>Insertion into the ordered set, for spans with distinct starts.\<close>

lemma SpanSet_insert_set:
  assumes "\<And>y. y \<in> set ys \<Longrightarrow> SpanBestFitLess sp x y \<or> SpanBestFitLess sp y x"
  shows "set (SpanSet_insert sp x ys) = insert x (set ys)"
  using assms by (induction ys) auto

lemma SpanBestFitLess_trans: "SpanBestFitLess sp a b \<Longrightarrow> SpanBestFitLess sp b c \<Longrightarrow> SpanBestFitLess sp a c"
  by (auto simp: SpanBestFitLess_def split: if_splits)

lemma SpanSet_insert_sorted:
  assumes "\<And>y. y \<in> set ys \<Longrightarrow> SpanBestFitLess sp x y \<or> SpanBestFitLess sp y x"
    and "sorted_wrt (SpanBestFitLess sp) ys"
  shows "sorted_wrt (SpanBestFitLess sp) (SpanSet_insert sp x ys)"
  using assms
proof (induction ys)
  case (Cons y ys)
  have s: "set (SpanSet_insert sp x ys) = insert x (set ys)"
    using Cons.prems(1) by (intro SpanSet_insert_set) auto
  show ?case
    using Cons s by (auto intro: SpanBestFitLess_trans)
qed simp

lemma lists_ok_prepend:
  assumes ok: "lists_ok (insert p X) sp fr lg st" "finite (dom sp)" "sp p = Some s" "sp_location s \<noteq> IN_USE" "p \<notin> X" "0 < sp_length s"
    and starts: "\<And>q t. sp q = Some t \<Longrightarrow> q \<noteq> p \<Longrightarrow> sp_start t \<noteq> sp_start s"
    and fr': "fr' = (if sp_length s > kMaxPages then fr else fr(sp_location s := (fr (sp_location s))(sp_length s - 1 := p # fr (sp_location s) (sp_length s - 1))))"
    and lg': "lg' = (if sp_length s > kMaxPages then lg(sp_location s := SpanSet_insert sp (sp_length s, p) (lg (sp_location s))) else lg)"
  shows "lists_ok X sp fr' lg' (add_free (sp_location s) (page_bytes (sp_length s)) st)"
proof -
  have cmp: "SpanBestFitLess sp (sp_length s, p) y \<or> SpanBestFitLess sp y (sp_length s, p)"
    if mem: "y \<in> set (lg (sp_location s))" for y
  proof -
    obtain l q where y: "y = (l, q)" by fastforce
    then obtain t where t: "sp q = Some t" "q \<noteq> p"
      using lists_okD(3) [OF ok(1,4), of l q] mem by (auto simp: on_list_def)
    with starts [OF t] ok(3) show ?thesis
      by (auto simp: y SpanBestFitLess_def start_of_def)
  qed
  show ?thesis
    unfolding lists_ok_def
  proof (intro allI impI conjI)
    fix loc :: location assume loc: "loc \<noteq> IN_USE"
    note d = lists_okD [OF ok(1) loc]
    have on: "on_list X sp loc p t \<longleftrightarrow> loc = sp_location s \<and> t = s" for t
      using ok(3,5) by (auto simp: on_list_def)
    show "q \<in> set (fr' loc i) \<longleftrightarrow> i < kMaxPages \<and> (\<exists>t. on_list X sp loc q t \<and> sp_length t = i + 1)" for i q
      using d(1) [of q i] on ok(6) unfolding fr' on_list_insert
      by (cases "q = p") (auto simp del: kMaxPages_def)
    show "distinct (fr' loc i)" for i
      using d(2) [of i] d(1) [of p i] unfolding fr' on_list_insert by (auto simp del: kMaxPages_def)
    show "(l, q) \<in> set (lg' loc) \<longleftrightarrow> kMaxPages < l \<and> (\<exists>t. on_list X sp loc q t \<and> sp_length t = l)" for l q
      using d(3) [of l q] on SpanSet_insert_set [OF cmp] unfolding lg' on_list_insert
      by (cases "q = p") (auto simp del: kMaxPages_def)
    show "sorted_wrt (SpanBestFitLess sp) (lg' loc)"
      using d(4) SpanSet_insert_sorted [OF cmp] unfolding lg' by auto
    show "stat_bytes (add_free (sp_location s) (page_bytes (sp_length s)) st) loc = page_bytes (loc_pages X sp loc)"
      using d(5) loc_pages_remove [OF ok(2,3,5), of loc] unfolding stat_bytes_add [OF ok(4) loc]
      by (auto simp: page_bytes_add)
  qed
qed

end
