(* ===== verification/Wpo.thy ===== *)
theory Wpo
  imports Main "HOL-Library.Monad_Syntax"
begin

text \<open>
  Specifications of computations in the option monad.  \<open>wpo b m Q\<close> says that the value of \<open>m\<close>
  satisfies \<open>Q\<close> if \<open>m\<close> returns, and that \<open>m\<close> does return if \<open>b\<close> holds: with \<open>b\<close> false it is partial
  correctness, with \<open>b\<close> true total correctness, and a lemma for every \<open>b\<close> is both.
\<close>

definition wpo :: "bool \<Rightarrow> 'a option \<Rightarrow> ('a \<Rightarrow> bool) \<Rightarrow> bool" where
  "wpo b m Q \<longleftrightarrow> (case m of None \<Rightarrow> \<not> b | Some x \<Rightarrow> Q x)"

lemma wpo_Some [simp]: "wpo b (Some x) Q \<longleftrightarrow> Q x"
  by (simp add: wpo_def)

lemma wpo_None [simp]: "wpo b None Q \<longleftrightarrow> \<not> b"
  by (simp add: wpo_def)

lemma wpo_bind [simp]: "wpo b (m \<bind> f) Q \<longleftrightarrow> wpo b m (\<lambda>x. wpo b (f x) Q)"
  by (cases m) simp_all

lemma wpo_mono: "wpo b m Q \<Longrightarrow> (\<And>x. Q x \<Longrightarrow> R x) \<Longrightarrow> wpo b m R"
  by (cases m) simp_all

lemma wpo_conj: "wpo b m Q \<Longrightarrow> wpo b m R \<Longrightarrow> wpo b m (\<lambda>x. Q x \<and> R x)"
  by (cases m) simp_all

lemma wpo_partial: "wpo b m Q \<Longrightarrow> m = Some x \<Longrightarrow> Q x"
  by simp

lemma wpo_total: "wpo True m Q \<Longrightarrow> \<exists>x. m = Some x \<and> Q x"
  by (cases m) simp_all

lemma wpo_weaken: "wpo True m Q \<Longrightarrow> wpo b m Q"
  by (cases m) simp_all

lemma wpo_if: "(c \<Longrightarrow> wpo b m Q) \<Longrightarrow> (\<not> c \<Longrightarrow> wpo b m' Q) \<Longrightarrow> wpo b (if c then m else m') Q"
  by simp

end
