(* ===== verification/PageHeap_Inv.thy ===== *)
theory PageHeap_Inv
  imports PageHeap_Geom PageHeap_Lists Wpo
begin

text \<open>
  The invariant of the page heap and the specifications of its elementary operations: what each
  does to the spans, the lists and the accounts, and that it returns when the metadata has room for
  the spans it needs and the system does not answer \<open>EAGAIN\<close> forever.
\<close>

section \<open>The invariant\<close>

abbreviation pm_ensured :: "PageHeap \<Rightarrow> nat \<Rightarrow> bool" where
  "pm_ensured h \<equiv> PageMap2_ensured kPageMapBits (pagemap h)"

definition ph_inv :: "addr set \<Rightarrow> PageHeap \<Rightarrow> bool" where
  "ph_inv X h \<longleftrightarrow> geom (spans h) (GetDescriptor h) (pm_ensured h) (sys_taken (system h))
     \<and> lists_ok X (spans h) (free h) (large h) (stats h)
     \<and> pha_ok sizeof_Span (dom (spans h)) (system h, span_allocator h)
     \<and> allocator2 (pagemap h) = pagemap_allocator"

text \<open>The spans the clients hold.\<close>

definition inuse_spans :: "PageHeap \<Rightarrow> addr \<rightharpoonup> Span" where
  "inuse_spans h p = (case spans h p of None \<Rightarrow> None | Some s \<Rightarrow> if sp_location s = IN_USE then Some s else None)"

text \<open>By how much the committed bytes differ from what the locations of the spans account for.\<close>

definition imbalance :: "PageHeap \<Rightarrow> u64" where
  "imbalance h = committed_bytes (stats h) + page_bytes (loc_pages {} (spans h) ON_RETURNED_FREELIST)
     - system_bytes (stats h)"

definition normal_pages :: "PageHeap \<Rightarrow> nat" where
  "normal_pages h = loc_pages {} (spans h) ON_NORMAL_FREELIST"

text \<open>There is a free span of at least \<open>m\<close> pages.\<close>

definition free_fit :: "span_store \<Rightarrow> nat \<Rightarrow> bool" where
  "free_fit sp m \<longleftrightarrow> (\<exists>p s. sp p = Some s \<and> sp_location s \<noteq> IN_USE \<and> m \<le> sp_length s)"

text \<open>The number of \<open>Span\<close> and \<open>StackTrace\<close> objects that can be allocated without asking for metadata, and the
  promise of the system to end a call.\<close>

definition objects_left :: "nat \<Rightarrow> PageHeapAllocator \<Rightarrow> nat" where
  "objects_left n a = length (free_list a) + free_avail a div n"

definition room :: "PageHeap \<Rightarrow> nat" where
  "room h = min (objects_left sizeof_Span (span_allocator h)) (objects_left sizeof_StackTrace (stacktrace_allocator h))"

definition release_fair :: "sys \<Rightarrow> bool" where
  "release_fair s \<longleftrightarrow> (\<forall>i a n. \<exists>j \<ge> i. fst (release_call s j a n) \<or> \<not> snd (release_call s j a n))"

definition lively :: "bool \<Rightarrow> nat \<Rightarrow> PageHeap \<Rightarrow> bool" where
  "lively b k h \<longleftrightarrow> (b \<longrightarrow> k \<le> room h \<and> release_fair (system h))"

text \<open>What no operation changes.\<close>

definition frame :: "PageHeap \<Rightarrow> PageHeap \<Rightarrow> bool" where
  "frame h h' \<longleftrightarrow> smallest_span_size h' = smallest_span_size h
     \<and> aggressive_decommit h' = aggressive_decommit h
     \<and> heap_limit_mb h' = heap_limit_mb h \<and> release_rate h' = release_rate h
     \<and> Alloc (system h') = Alloc (system h) \<and> release_call (system h') = release_call (system h)
     \<and> alloc_calls (system h) \<le> alloc_calls (system h')
     \<and> pagemap_cache h' = pagemap_cache h \<and> growth_stacks h' = growth_stacks h \<and> stacktrace_allocator h' = stacktrace_allocator h
     \<and> sys_step (system h) (system h')"

lemma frame_refl [simp]: "frame h h"
  by (simp add: frame_def)

lemma frame_trans: "frame h1 h2 \<Longrightarrow> frame h2 h3 \<Longrightarrow> frame h1 h3"
  by (auto simp: frame_def intro: sys_step_trans)

lemma room_frame: "frame h h' \<Longrightarrow> span_allocator h' = span_allocator h \<Longrightarrow> room h' = room h"
  by (simp add: frame_def room_def)

lemma lively_mono: "lively b k h \<Longrightarrow> frame h h' \<Longrightarrow> k' + room h \<le> k + room h' \<Longrightarrow> lively b k' h'"
  by (auto simp: lively_def frame_def release_fair_def)

lemma ph_invD:
  assumes "ph_inv X h"
  shows "geom (spans h) (GetDescriptor h) (pm_ensured h) (sys_taken (system h))"
    "lists_ok X (spans h) (free h) (large h) (stats h)"
    "pha_ok sizeof_Span (dom (spans h)) (system h, span_allocator h)"
    "allocator2 (pagemap h) = pagemap_allocator" "finite (dom (spans h))"
  using assms by (auto simp: ph_inv_def dest: geom_finite)

lemma ph_inv_span: "ph_inv X h \<Longrightarrow> spans h p = Some s \<Longrightarrow> 0 < sp_start s \<and> 0 < sp_length s"
  using geom_span [OF ph_invD(1)] by (auto simp: span_ok_def)

text \<open>Only spans in use have a size class or are sampled.\<close>

lemma free_unclassed: "ph_inv X h \<Longrightarrow> spans h p = Some s \<Longrightarrow> sp_location s \<noteq> IN_USE \<Longrightarrow> plain s"
  using geom_span [OF ph_invD(1)] by (auto simp: span_ok_def)

lemma ph_inv_starts:
  assumes "ph_inv X h" "spans h p = Some s" "spans h q = Some t" "q \<noteq> p"
  shows "sp_start t \<noteq> sp_start s"
  using geom_order [OF ph_invD(1) [OF assms(1)] assms(2,3)] assms(4) ph_inv_span [OF assms(1,2)]
    ph_inv_span [OF assms(1,3)] by auto

section \<open>System calls\<close>

lemma release_retry_frame:
  assumes "release_retry s a n = Some x"
  shows "snd x = s\<lparr> release_calls := release_calls (snd x) \<rparr>"
proof (rule release_retry.raw_induct [OF _ assms, of "\<lambda>s a n x. snd x = s\<lparr> release_calls := release_calls (snd x) \<rparr>"])
  fix rec and s :: sys and a n :: nat and x
  assume IH: "\<And>s a n x. rec s a n = Some x \<Longrightarrow> snd x = s\<lparr> release_calls := release_calls (snd x) \<rparr>"
    and body: "(let r = release_call s (release_calls s) a n; s' = s\<lparr> release_calls := release_calls s + 1 \<rparr>
      in if \<not> fst r \<and> snd r then rec s' a n else Some (fst r, s')) = Some x"
  show "snd x = s\<lparr> release_calls := release_calls (snd x) \<rparr>"
  proof (cases "\<not> fst (release_call s (release_calls s) a n) \<and> snd (release_call s (release_calls s) a n)")
    case True
    then have "rec (s\<lparr> release_calls := release_calls s + 1 \<rparr>) a n = Some x"
      using body by (simp add: Let_def)
    from IH [OF this] show ?thesis by simp
  next
    case False
    then have "x = (fst (release_call s (release_calls s) a n), s\<lparr> release_calls := release_calls s + 1 \<rparr>)"
      using body by (simp add: Let_def split: if_splits)
    then show ?thesis by simp
  qed
qed

lemma release_retry_returns:
  assumes "release_fair s"
  shows "release_retry s a n \<noteq> None"
proof -
  obtain j where j: "release_calls s \<le> j" "fst (release_call s j a n) \<or> \<not> snd (release_call s j a n)"
    using assms unfolding release_fair_def by blast
  then show ?thesis
  proof (induction "j - release_calls s" arbitrary: s)
    case 0
    then show ?case by (subst release_retry.simps) (auto simp: Let_def)
  next
    case (Suc d)
    have "release_retry (s\<lparr> release_calls := release_calls s + 1 \<rparr>) a n \<noteq> None"
      using Suc.hyps(2) Suc.prems by (intro Suc.hyps(1)) auto
    then show ?case by (subst release_retry.simps) (auto simp: Let_def)
  qed
qed

lemma SystemRelease_wpo:
  assumes "b \<longrightarrow> release_fair s"
  shows "wpo b (TCMalloc_SystemRelease s a n) (\<lambda>(r, s'). s' = s\<lparr> release_calls := release_calls s' \<rparr>)"
proof (cases "TCMalloc_SystemRelease s a n")
  case None
  then have "\<exists>x y. release_retry s x y = None"
    by (auto simp: TCMalloc_SystemRelease_def Let_def split: if_splits)
  with release_retry_returns [of s] have "\<not> release_fair s" by blast
  with assms None show ?thesis by simp
next
  case (Some x)
  then have "snd x = s\<lparr> release_calls := release_calls (snd x) \<rparr>"
    by (auto simp: TCMalloc_SystemRelease_def Let_def split: if_splits dest: release_retry_frame)
  with Some show ?thesis by (cases x) simp
qed


section \<open>Descriptors\<close>

definition new_span :: "nat \<Rightarrow> nat \<Rightarrow> Span" where
  "new_span p n = \<lparr> sp_start = p, sp_length = n, sp_objects = [], sp_refcount = 0, sp_sizeclass = 0,
     sp_location = IN_USE, sp_sample = False \<rparr>"

lemma new_span_simps [simp]:
  "sp_start (new_span p n) = p" "sp_length (new_span p n) = n" "sp_location (new_span p n) = IN_USE"
  "sp_sizeclass (new_span p n) = 0" "sp_sample (new_span p n) = False"
  by (simp_all add: new_span_def)

lemma objects_left_pos: "0 < n \<Longrightarrow> 1 \<le> objects_left n a \<Longrightarrow> PHA_New n s a \<noteq> None"
  by (auto simp: objects_left_def PHA_New_def split: list.splits)

lemma objects_left_New:
  assumes "0 < n" "PHA_New n s a = Some (q, s', a')"
  shows "objects_left n a \<le> objects_left n a' + 1"
proof (cases "free_list a")
  case (Cons x xs)
  then show ?thesis using assms by (auto simp: objects_left_def PHA_New_def)
next
  case Nil
  have "free_avail a div n \<le> (free_avail a - n) div n + 1"
    using assms(1) by (cases "free_avail a < n") (simp_all add: le_div_geq)
  with Nil assms show ?thesis
    by (auto simp: objects_left_def PHA_New_def split: if_splits prod.splits option.splits)
qed

lemma sizeof_pos [simp]: "0 < sizeof_Span" "0 < sizeof_StackTrace"
  by (simp_all add: sizeof_Span_def sizeof_StackTrace_def)

lemma NewSpan_wpo:
  assumes "ph_inv X h" "lively b 1 h"
  shows "wpo b (NewSpan h p n) (\<lambda>(q, h'). spans h q = None
    \<and> h' = h\<lparr> system := system h', span_allocator := span_allocator h', spans := (spans h)(q \<mapsto> new_span p n) \<rparr>
    \<and> pha_ok sizeof_Span (insert q (dom (spans h))) (system h', span_allocator h')
    \<and> frame h h' \<and> sys_taken (system h) \<subseteq> sys_taken (system h') \<and> room h \<le> room h' + 1)"
proof (cases "PHA_New sizeof_Span (system h) (span_allocator h)")
  case None
  with objects_left_pos [of sizeof_Span "span_allocator h" "system h"] assms(2) show ?thesis
    by (auto simp: NewSpan_def lively_def room_def)
next
  case (Some x)
  then obtain q s' a' where x: "PHA_New sizeof_Span (system h) (span_allocator h) = Some (q, s', a')"
    by (cases x) auto
  have "sizeof_Span \<le> kAllocIncrement" by (simp add: sizeof_Span_def kAllocIncrement_def)
  from pha_ok_New [OF ph_invD(3) [OF assms(1)] this x]
  have "spans h q = None" "pha_ok sizeof_Span (insert q (dom (spans h))) (s', a')" by auto
  then show ?thesis
    using PHA_New_frame [OF x] sys_taken_step [of s' "system h"] objects_left_New [OF sizeof_pos(1) x] sys_step_New [OF x]
    by (auto simp: NewSpan_def x frame_def room_def new_span_def)
qed

lemma pagemap_set_wpo:
  assumes "pm_ensured h k"
  shows "wpo b (pagemap_set h k p) (\<lambda>h'. h' = h\<lparr> pagemap := pagemap h' \<rparr>
    \<and> GetDescriptor h' = (GetDescriptor h)(k \<mapsto> p) \<and> pm_ensured h' = pm_ensured h
    \<and> allocator2 (pagemap h') = allocator2 (pagemap h))"
proof -
  have e: "PageMap2_ensured 35 (pagemap h) k" using assms by simp
  obtain pm where pm: "PageMap2_set 35 (pagemap h) k (Some p) = Some pm"
      "\<And>j. PageMap2_get 35 pm j = (if j = k then Some p else PageMap2_get 35 (pagemap h) j)"
      "\<And>j. PageMap2_ensured 35 pm j \<longleftrightarrow> PageMap2_ensured 35 (pagemap h) j"
    by (rule pm2.set_some [OF e, of "Some p"]) blast
  then have "allocator2 pm = allocator2 (pagemap h)"
    by (auto simp: PageMap2_set_def Let_def split: if_splits option.splits)
  with pm show ?thesis
    by (auto simp: pagemap_set_def GetDescriptor_def fun_eq_iff)
qed

lemma RecordSpan_wpo:
  assumes "spans h p = Some s" "0 < sp_length s" "pm_ensured h (sp_start s)" "pm_ensured h (sp_start s + sp_length s - 1)"
  shows "wpo b (RecordSpan h p) (\<lambda>h'. h' = h\<lparr> pagemap := pagemap h' \<rparr>
    \<and> GetDescriptor h' = (GetDescriptor h)(sp_start s \<mapsto> p, sp_start s + sp_length s - 1 \<mapsto> p)
    \<and> pm_ensured h' = pm_ensured h \<and> allocator2 (pagemap h') = allocator2 (pagemap h))"
proof -
  show ?thesis
    unfolding RecordSpan_def assms(1) bind.bind_lunit wpo_bind
  proof (rule wpo_mono [OF pagemap_set_wpo [OF assms(3)]], elim conjE)
    fix h1 assume h1: "h1 = h\<lparr> pagemap := pagemap h1 \<rparr>" "GetDescriptor h1 = (GetDescriptor h)(sp_start s \<mapsto> p)"
      "pm_ensured h1 = pm_ensured h" "allocator2 (pagemap h1) = allocator2 (pagemap h)"
    show "wpo b (if 1 < sp_length s then pagemap_set h1 (sp_start s + sp_length s - 1) p else Some h1)
      (\<lambda>h'. h' = h\<lparr> pagemap := pagemap h' \<rparr>
        \<and> GetDescriptor h' = (GetDescriptor h)(sp_start s \<mapsto> p, sp_start s + sp_length s - 1 \<mapsto> p)
        \<and> pm_ensured h' = pm_ensured h \<and> allocator2 (pagemap h') = allocator2 (pagemap h))"
    proof (cases "1 < sp_length s")
      case True
      have "pm_ensured h1 (sp_start s + sp_length s - 1)" using h1(3) assms(4) by simp
      from pagemap_set_wpo [OF this, of b p] True h1 show ?thesis
        by (auto elim!: wpo_mono) (metis PageHeap.surjective PageHeap.update_convs(2))
    next
      case False
      with assms(2) have "sp_length s = 1" by simp
      with h1 show ?thesis by simp
    qed
  qed
qed


section \<open>Lists and accounts\<close>

lemma sub_free_simps [simp]:
  "committed_bytes (sub_free loc b st) = committed_bytes st" "system_bytes (sub_free loc b st) = system_bytes st"
  "committed_bytes (add_free loc b st) = committed_bytes st" "system_bytes (add_free loc b st) = system_bytes st"
  by (simp_all add: sub_free_def add_free_def)

text \<open>Steps that touch neither spans nor page map nor the system.\<close>

definition same_spans :: "PageHeap \<Rightarrow> PageHeap \<Rightarrow> bool" where
  "same_spans h h' \<longleftrightarrow> spans h' = spans h \<and> pagemap h' = pagemap h
     \<and> span_allocator h' = span_allocator h \<and> frame h h' \<and> alloc_calls (system h') = alloc_calls (system h)
     \<and> metadata_chunk_alloc (system h') = metadata_chunk_alloc (system h)
     \<and> metadata_chunk_avail (system h') = metadata_chunk_avail (system h)"

lemma same_spansD:
  assumes "same_spans h h'"
  shows "spans h' = spans h" "pagemap h' = pagemap h" "GetDescriptor h' = GetDescriptor h" "frame h h'"
    "inuse_spans h' = inuse_spans h" "normal_pages h' = normal_pages h" "room h' = room h"
    "sys_taken (system h') = sys_taken (system h)"
  using assms unfolding same_spans_def frame_def
  by (auto simp: GetDescriptor_def [abs_def] inuse_spans_def [abs_def] normal_pages_def room_def
    sys_taken_def sys_region_def)

lemma same_spans_trans: "same_spans h1 h2 \<Longrightarrow> same_spans h2 h3 \<Longrightarrow> same_spans h1 h3"
  unfolding same_spans_def by (auto intro: frame_trans)

lemma ph_inv_same_spans:
  assumes "ph_inv X h" "same_spans h h'" "lists_ok X' (spans h) (free h') (large h') (stats h')"
  shows "ph_inv X' h'"
proof -
  note d = same_spansD [OF assms(2)]
  have "pha_ok sizeof_Span (dom (spans h)) (system h', span_allocator h)"
    by (rule pha_ok_cong [OF ph_invD(3) [OF assms(1)]]) (use assms(2) in \<open>auto simp: same_spans_def frame_def\<close>)
  moreover have "span_allocator h' = span_allocator h" using assms(2) by (simp add: same_spans_def)
  ultimately show ?thesis
    using assms(1,3) unfolding ph_inv_def d by simp
qed

lemma RemoveFromFreeList_wpo:
  assumes "ph_inv X h" "spans h p = Some s" "sp_location s \<noteq> IN_USE" "p \<notin> X"
  shows "wpo b (RemoveFromFreeList h p) (\<lambda>h'. ph_inv (insert p X) h' \<and> same_spans h h' \<and> imbalance h' = imbalance h
    \<and> aggressive_decommit h' = aggressive_decommit h)"
proof -
  note eq = RemoveFromFreeList_eq [OF assms(2,3)]
  have len: "0 < sp_length s" using ph_inv_span [OF assms(1,2)] by simp
  show ?thesis
    unfolding eq wpo_Some
  proof (intro conjI)
    let ?h = "h\<lparr> stats := sub_free (sp_location s) (page_bytes (sp_length s)) (stats h),
      large := (if sp_length s > kMaxPages then (large h)(sp_location s := filter (\<lambda>e. snd e \<noteq> p) (large h (sp_location s))) else large h),
      free := (if sp_length s > kMaxPages then free h else (free h)(sp_location s := (free h (sp_location s))(sp_length s - 1 := remove1 p (free h (sp_location s) (sp_length s - 1))))) \<rparr>"
    show s: "same_spans h ?h" by (simp add: same_spans_def frame_def)
    show "ph_inv (insert p X) ?h"
      using lists_ok_remove [OF ph_invD(2,5) [OF assms(1)] assms(2,3,4) len refl refl]
      by (intro ph_inv_same_spans [OF assms(1) s]) simp
  qed (simp_all add: imbalance_def)
qed

lemma PrependToFreeList_wpo:
  assumes "ph_inv (insert p X) h" "spans h p = Some s" "sp_location s \<noteq> IN_USE" "p \<notin> X"
  shows "wpo b (PrependToFreeList h p) (\<lambda>h'. ph_inv X h' \<and> same_spans h h' \<and> imbalance h' = imbalance h)"
proof -
  note eq = PrependToFreeList_eq [OF assms(2,3)]
  have len: "0 < sp_length s" using ph_inv_span [OF assms(1,2)] by simp
  show ?thesis
    unfolding eq wpo_Some
  proof (intro conjI)
    let ?h = "h\<lparr> stats := add_free (sp_location s) (page_bytes (sp_length s)) (stats h),
      large := (if sp_length s > kMaxPages then (large h)(sp_location s := SpanSet_insert (spans h) (sp_length s, p) (large h (sp_location s))) else large h),
      free := (if sp_length s > kMaxPages then free h else (free h)(sp_location s := (free h (sp_location s))(sp_length s - 1 := p # free h (sp_location s) (sp_length s - 1)))) \<rparr>"
    show s: "same_spans h ?h" by (simp add: same_spans_def frame_def)
    have "lists_ok X (spans h) (free ?h) (large ?h) (stats ?h)"
      using lists_ok_prepend [OF ph_invD(2,5) [OF assms(1)] assms(2,3,4) len _ refl refl]
        ph_inv_starts [OF assms(1,2)] by simp
    then show "ph_inv X ?h" by (rule ph_inv_same_spans [OF assms(1) s])
  qed (simp_all add: imbalance_def)
qed

lemma lists_ok_stats:
  "lists_ok X sp fr lg st \<Longrightarrow> free_bytes st' = free_bytes st \<Longrightarrow> unmapped_bytes st' = unmapped_bytes st
   \<Longrightarrow> lists_ok X sp fr lg st'"
proof -
  assume "free_bytes st' = free_bytes st" "unmapped_bytes st' = unmapped_bytes st"
  then have "stat_bytes st' loc = stat_bytes st loc" for loc by (simp add: stat_bytes_def)
  then show "lists_ok X sp fr lg st \<Longrightarrow> lists_ok X sp fr lg st'" unfolding lists_ok_def by simp
qed

lemma DecommitSpan_wpo:
  assumes "ph_inv X h" "spans h p = Some s" "lively b k h"
  shows "wpo b (DecommitSpan h p) (\<lambda>(rv, h'). ph_inv X h' \<and> same_spans h h'
    \<and> imbalance h' = imbalance h - (if rv then page_bytes (sp_length s) else 0))"
proof -
  let ?h1 = "upd_stats (\<lambda>st. st\<lparr> decommit_count := decommit_count st + 1 \<rparr>) h"
  have fair: "b \<longrightarrow> release_fair (system ?h1)" using assms(3) by (simp add: lively_def)
  show ?thesis
    unfolding DecommitSpan_def assms(2) bind.bind_lunit Let_def wpo_bind
  proof (rule wpo_mono [OF SystemRelease_wpo [OF fair]], clarsimp simp only: prod.case)
    fix rv s1 assume s1: "s1 = (system ?h1)\<lparr> release_calls := release_calls s1 \<rparr>"
    let ?h2 = "?h1\<lparr> system := s1 \<rparr>"
    let ?h3 = "if rv then upd_stats (\<lambda>st. st\<lparr> committed_bytes := committed_bytes st - page_bytes (sp_length s),
                   total_decommit_bytes := total_decommit_bytes st + page_bytes (sp_length s) \<rparr>) ?h2 else ?h2"
    have f: "Alloc s1 = Alloc (system h)" "release_call s1 = release_call (system h)"
      "alloc_calls s1 = alloc_calls (system h)" "metadata_chunk_alloc s1 = metadata_chunk_alloc (system h)"
      "metadata_chunk_avail s1 = metadata_chunk_avail (system h)"
      by (subst s1, simp)+
    have same: "same_spans h ?h3"
      using f sys_step_cong [of s1 "system h"] by (simp add: same_spans_def frame_def)
    have "lists_ok X (spans h) (free ?h3) (large ?h3) (stats ?h3)"
      using lists_ok_stats [OF ph_invD(2) [OF assms(1)], of "stats ?h3"] by (cases rv) simp_all
    then have "ph_inv X ?h3"
      by (rule ph_inv_same_spans [OF assms(1) same])
    with same show "wpo b (Some (rv, ?h3)) (\<lambda>(rv, h'). ph_inv X h' \<and> same_spans h h'
        \<and> imbalance h' = imbalance h - (if rv then page_bytes (sp_length s) else 0))"
      by (simp add: imbalance_def)
  qed
qed

lemma CommitSpan_wpo:
  assumes "ph_inv X h" "spans h p = Some s"
  shows "wpo b (CommitSpan h p) (\<lambda>h'. ph_inv X h' \<and> same_spans h h'
    \<and> imbalance h' = imbalance h + page_bytes (sp_length s))"
  unfolding CommitSpan_def assms(2) bind.bind_lunit Let_def wpo_Some
proof (intro conjI)
  let ?h = "upd_stats (\<lambda>st. st\<lparr> commit_count := commit_count st + 1,
      committed_bytes := committed_bytes st + page_bytes (sp_length s),
      total_commit_bytes := total_commit_bytes st + page_bytes (sp_length s) \<rparr>) h"
  show s: "same_spans h ?h" by (simp add: same_spans_def frame_def)
  show "ph_inv X ?h"
    using lists_ok_stats [OF ph_invD(2) [OF assms(1)], of "stats ?h"]
    by (intro ph_inv_same_spans [OF assms(1) s]) simp
qed (simp add: imbalance_def)

end
