(* ===== verification/PageHeap_Merge.thy ===== *)
theory PageHeap_Merge
  imports PageHeap_Inv
begin

text \<open>
  Merging a free span with its neighbours: \<open>CheckAndHandlePreMerge\<close> and \<open>MergeIntoFreeList\<close> keep the
  invariant, leave the spans in use alone and keep the accounts balanced.
\<close>

lemma CheckAndHandlePreMerge_wpo:
  assumes "ph_inv X h" "spans h p = Some s" "sp_location s \<noteq> IN_USE"
    and "spans h q = Some t" "q \<notin> X" "lively b k h"
  shows "wpo b (CheckAndHandlePreMerge h p (Some q)) (\<lambda>(r, h'). same_spans h h' \<and>
    (case r of
       None \<Rightarrow> ph_inv X h' \<and> imbalance h' = imbalance h
     | Some q' \<Rightarrow> q' = q \<and> ph_inv (insert q X) h' \<and> sp_location t \<noteq> IN_USE
         \<and> (sp_location t = sp_location s \<and> imbalance h' = imbalance h
            \<or> sp_location t = ON_NORMAL_FREELIST \<and> sp_location s = ON_RETURNED_FREELIST
              \<and> imbalance h' = imbalance h - page_bytes (sp_length t))))" (is "wpo b _ ?Q")
proof -
  have take: "wpo b (RemoveFromFreeList h1 q \<bind> (\<lambda>h. Some (Some q, h))) ?Q"
    if h1: "ph_inv X h1" "same_spans h h1" and loc: "sp_location t \<noteq> IN_USE"
      and im: "sp_location t = sp_location s \<and> imbalance h1 = imbalance h
            \<or> sp_location t = ON_NORMAL_FREELIST \<and> sp_location s = ON_RETURNED_FREELIST
              \<and> imbalance h1 = imbalance h - page_bytes (sp_length t)" for h1
  proof -
    have "spans h1 q = Some t" using same_spansD(1) [OF h1(2)] assms(4) by simp
    from RemoveFromFreeList_wpo [OF h1(1) this loc assms(5), of b] show ?thesis
      using im h1(2) loc by (auto elim!: wpo_mono intro: same_spans_trans)
  qed
  have refl: "same_spans h h" by (simp add: same_spans_def)
  show ?thesis
  proof (cases "aggressive_decommit h \<and> sp_location t = ON_NORMAL_FREELIST \<and> sp_location s = ON_RETURNED_FREELIST")
    case True
    have "wpo b (DecommitSpan h q) (\<lambda>x. wpo b (case x of (m, h) \<Rightarrow>
        if m then RemoveFromFreeList h q \<bind> (\<lambda>h. Some (Some q, h)) else Some (None, h)) ?Q)"
      by (rule wpo_mono [OF DecommitSpan_wpo [OF assms(1,4,6)]])
        (use True take in \<open>auto split: prod.splits\<close>)
    then show ?thesis
      using True assms(2,4) by (simp add: CheckAndHandlePreMerge_def case_prod_beta)
  next
    case False
    then show ?thesis
      using assms(1-4) take [OF assms(1) refl] refl
      by (cases "sp_location t = sp_location s") (auto simp: CheckAndHandlePreMerge_def)
  qed
qed

lemma loc_pages_join:
  assumes "finite (dom sp)" "sp p = Some s" "sp q = Some t" "p \<noteq> q"
    and "sp_location s' = sp_location s" "sp_length s' = sp_length s + sp_length t"
  shows "loc_pages {} (sp(q := None, p \<mapsto> s')) L + (if sp_location t = L then sp_length t else 0)
    = loc_pages {} sp L + (if sp_location s = L then sp_length t else 0)"
proof -
  have "loc_pages {} (sp(q := None)) L + contrib {} L q (sp q) = loc_pages {} sp L"
    using loc_pages_upd [OF assms(1), of "{}" q "{}" None L] by (simp add: contrib_def)
  moreover have "loc_pages {} (sp(q := None, p \<mapsto> s')) L + contrib {} L p ((sp(q := None)) p)
      = loc_pages {} (sp(q := None)) L + contrib {} L p (Some s')"
    using assms(1) by (intro loc_pages_upd) simp_all
  ultimately show ?thesis
    using assms(2-) by (simp add: contrib_def split: if_splits)
qed

text \<open>The state after a neighbour \<open>q\<close> was absorbed.\<close>

definition joined :: "addr set \<Rightarrow> PageHeap \<Rightarrow> addr \<Rightarrow> addr \<Rightarrow> Span \<Rightarrow> PageHeap \<Rightarrow> bool" where
  "joined X h p q s' h' \<longleftrightarrow> ph_inv X h' \<and> spans h' = (spans h)(q := None, p \<mapsto> s') \<and> frame h h'
     \<and> room h \<le> room h'
     \<and> imbalance h' = committed_bytes (stats h) - system_bytes (stats h)
          + page_bytes (loc_pages {} ((spans h)(q := None, p \<mapsto> s')) ON_RETURNED_FREELIST)"

lemma join_wpo:
  assumes inv: "ph_inv (insert q X) h" "p \<in> X" "q \<notin> X"
    and sp: "spans h p = Some s" "spans h q = Some t" "sp_location s \<noteq> IN_USE" "sp_location t \<noteq> IN_USE"
    and s': "sp_start s' = min (sp_start s) (sp_start t)" "sp_length s' = sp_length s + sp_length t"
      "sp_location s' = sp_location s"
      "sp_start s + sp_length s = sp_start t \<or> sp_start t + sp_length t = sp_start s" "sp_sizeclass s' = sp_sizeclass s \<and> sp_sample s' = sp_sample s"
    and k0: "k0 = (if sp_start s < sp_start t then sp_start s' + sp_length s' - 1 else sp_start s')"
  shows "wpo b (pagemap_set (upd_span p s' (DeleteSpan h q)) k0 p) (joined X h p q s')"
proof -
  let ?h1 = "upd_span p s' (DeleteSpan h q)"
  have neq: "p \<noteq> q" using inv(2,3) by auto
  note g = ph_invD(1) [OF inv(1)]
  have k0t: "sp_start t \<le> k0" "k0 < sp_start t + sp_length t"
    using k0 s' ph_inv_span [OF inv(1) sp(1)] ph_inv_span [OF inv(1) sp(2)] by (auto simp: min_def split: if_splits)
  then have "pm_ensured h k0"
    using geom_span [OF g sp(2)] by (auto simp: span_ok_def)
  then have "pm_ensured ?h1 k0" by (simp add: DeleteSpan_def)
  from pagemap_set_wpo [OF this, of b p] show ?thesis
  proof (rule wpo_mono, elim conjE)
    fix h2 assume h2: "h2 = ?h1\<lparr> pagemap := pagemap h2 \<rparr>" "GetDescriptor h2 = (GetDescriptor ?h1)(k0 \<mapsto> p)"
      "pm_ensured h2 = pm_ensured ?h1" "allocator2 (pagemap h2) = allocator2 (pagemap ?h1)"
    have f: "spans h2 = (spans h)(q := None, p \<mapsto> s')" "system h2 = system h" "stats h2 = stats h"
        "free h2 = free h" "large h2 = large h" "span_allocator h2 = PHA_Delete (span_allocator h) q"
      by (subst h2(1), simp add: DeleteSpan_def)+
    have gd: "GetDescriptor ?h1 = GetDescriptor h" "pm_ensured ?h1 = pm_ensured h"
      by (simp_all add: GetDescriptor_def [abs_def] DeleteSpan_def)
    have "geom (spans h2) (GetDescriptor h2) (pm_ensured h2) (sys_taken (system h2))"
      unfolding f h2(2,3) gd by (rule geom_join [OF g sp(1,2) neq s'(1,2,4) _ refl k0])
        (simp add: s'(5) free_unclassed [OF inv(1) sp(1,3)])
    moreover have "lists_ok X (spans h2) (free h2) (large h2) (stats h2)"
    proof -
      have "lists_ok X ((spans h)(q := None)) (free h) (large h) (stats h)"
        using inv(3) by (intro lists_ok_upd [OF ph_invD(2,5) [OF inv(1)]]) auto
      moreover have "finite (dom ((spans h)(q := None)))" using ph_invD(5) [OF inv(1)] by simp
      ultimately have "lists_ok X ((spans h)(q := None, p := Some s')) (free h) (large h) (stats h)"
        using inv(2) by (intro lists_ok_upd [where p = p and X = X and X' = X]) simp_all
      then show ?thesis unfolding f .
    qed
    moreover have "pha_ok sizeof_Span (dom (spans h2)) (system h2, span_allocator h2)"
    proof -
      have "dom (spans h2) = dom (spans h) - {q}"
        using sp(1) neq by (auto simp: f)
      then show ?thesis
        using pha_ok_Delete [OF ph_invD(3) [OF inv(1)], of q] sp(2) unfolding f(2,6) by (simp add: domI)
    qed
    ultimately have "ph_inv X h2"
      using h2(4) ph_invD(4) [OF inv(1)] by (simp add: ph_inv_def DeleteSpan_def)
    moreover have fr: "frame h h2"
      unfolding frame_def f(2) by (intro conjI; (subst h2(1))?) (simp_all add: DeleteSpan_def)
    moreover have "room h \<le> room h2"
      using fr by (auto simp: room_def frame_def f PHA_Delete_def objects_left_def)
    ultimately show "joined X h p q s' h2"
      by (simp add: joined_def f PHA_Delete_def imbalance_def)
  qed
qed

lemma free_fit_join:
  assumes "sp p = Some s" "sp q = Some t" "p \<noteq> q" "sp_length s' = sp_length s + sp_length t"
    "sp_location s' = sp_location s" "sp_location s \<noteq> IN_USE" "free_fit sp m"
  shows "free_fit (sp(q := None, p \<mapsto> s')) m"
proof -
  obtain r u where u: "sp r = Some u" "sp_location u \<noteq> IN_USE" "m \<le> sp_length u"
    using assms(7) by (auto simp: free_fit_def)
  show ?thesis
  proof (cases "r = p \<or> r = q")
    case True
    then have "u = s \<or> u = t" using u(1) assms(1,2) by auto
    then have "m \<le> sp_length s'" using u(3) assms(4) by auto
    then show ?thesis unfolding free_fit_def using assms(5,6) by (intro exI [of _ p]) simp
  next
    case False
    then show ?thesis unfolding free_fit_def using u by (intro exI [of _ r]) simp
  qed
qed

text \<open>What a merge leaves of the span \<open>p\<close>.\<close>

definition merged :: "addr set \<Rightarrow> PageHeap \<Rightarrow> addr \<Rightarrow> Span \<Rightarrow> (Span \<Rightarrow> bool) \<Rightarrow> PageHeap \<Rightarrow> bool" where
  "merged X h p s P h' \<longleftrightarrow> ph_inv X h' \<and> (\<exists>s'. spans h' p = Some s' \<and> sp_location s' = sp_location s \<and> P s')
     \<and> inuse_spans h' = inuse_spans h \<and> imbalance h' = imbalance h
     \<and> normal_pages h' \<le> normal_pages h \<and> frame h h' \<and> room h \<le> room h'
     \<and> free_fit (spans h) \<le> free_fit (spans h')"

lemma joined_merged:
  assumes "same_spans h h1" "joined X h1 p q s' h'" "finite (dom (spans h))"
    and sp: "spans h p = Some s" "spans h q = Some t" "p \<noteq> q" "sp_location s \<noteq> IN_USE" "sp_location t \<noteq> IN_USE"
    and s': "sp_length s' = sp_length s + sp_length t" "sp_location s' = sp_location s" "P s'"
    and im: "sp_location t = sp_location s \<and> imbalance h1 = imbalance h
            \<or> sp_location t = ON_NORMAL_FREELIST \<and> sp_location s = ON_RETURNED_FREELIST
              \<and> imbalance h1 = imbalance h - page_bytes (sp_length t)"
  shows "merged X h p s P h'"
proof -
  note same = same_spansD [OF assms(1)]
  have spans: "spans h' = (spans h)(q := None, p \<mapsto> s')" and j: "ph_inv X h'" "frame h1 h'" "room h1 \<le> room h'"
      "imbalance h' = committed_bytes (stats h1) - system_bytes (stats h1)
          + page_bytes (loc_pages {} ((spans h)(q := None, p \<mapsto> s')) ON_RETURNED_FREELIST)"
    using assms(2) same(1) by (simp_all add: joined_def)
  note lp = loc_pages_join [OF assms(3) sp(1-3) s'(2,1)]
  have "inuse_spans h' = inuse_spans h"
    using sp s'(2) by (auto simp: inuse_spans_def spans fun_eq_iff)
  moreover have "normal_pages h' \<le> normal_pages h"
    using lp [of ON_NORMAL_FREELIST] im by (auto simp: normal_pages_def spans split: if_splits)
  moreover have "imbalance h' = imbalance h"
  proof -
    have "page_bytes (loc_pages {} ((spans h)(q := None, p \<mapsto> s')) ON_RETURNED_FREELIST)
        = page_bytes (loc_pages {} (spans h) ON_RETURNED_FREELIST) + (imbalance h - imbalance h1)"
      using lp [of ON_RETURNED_FREELIST] im sp(4,5) by (auto simp: page_bytes_add)
    then show ?thesis
      unfolding j(4) by (simp add: imbalance_def same(1))
  qed
  moreover have "free_fit (spans h) \<le> free_fit (spans h')"
    using free_fit_join [OF sp(1,2,3) s'(1,2) sp(4)] by (simp add: spans le_fun_def)
  ultimately show ?thesis
    using j same s' sp(1) by (auto simp: merged_def spans intro: frame_trans)
qed

lemma merged_refl:
  assumes "same_spans h h'" "ph_inv X h'" "imbalance h' = imbalance h" "spans h p = Some s" "P s"
  shows "merged X h p s P h'"
  using assms same_spansD [OF assms(1)] by (auto simp: merged_def)


lemma MergeWithPrev_wpo:
  assumes inv: "ph_inv {p} h" "spans h p = Some s" "sp_location s \<noteq> IN_USE" "lively b k h"
  shows "wpo b (MergeWithPrev h p (sp_start s))
    (merged {p} h p s (\<lambda>s'. sp_start s' + sp_length s' = sp_start s + sp_length s))"
proof (cases "GetDescriptor h (sp_start s - 1)")
  case None
  have "same_spans h h" by (simp add: same_spans_def)
  with None show ?thesis
    using inv by (simp add: MergeWithPrev_def CheckAndHandlePreMerge_def merged_refl)
next
  case (Some q)
  obtain t where t: "spans h q = Some t" "sp_start t + sp_length t = sp_start s" "q \<noteq> p"
    by (rule geom_prev [OF ph_invD(1) [OF inv(1)] inv(2) Some])
  have q: "q \<notin> {p}" using t(3) by simp
  show ?thesis
    unfolding MergeWithPrev_def Some wpo_bind
  proof (rule wpo_mono [OF CheckAndHandlePreMerge_wpo [OF inv(1-3) t(1) q inv(4)]], goal_cases)
    case (1 x)
    obtain r h1 where x: "x = (r, h1)" by (cases x)
    with 1 have same: "same_spans h h1" and r: "case r of
       None \<Rightarrow> ph_inv {p} h1 \<and> imbalance h1 = imbalance h
     | Some q' \<Rightarrow> q' = q \<and> ph_inv (insert q {p}) h1 \<and> sp_location t \<noteq> IN_USE
         \<and> (sp_location t = sp_location s \<and> imbalance h1 = imbalance h
            \<or> sp_location t = ON_NORMAL_FREELIST \<and> sp_location s = ON_RETURNED_FREELIST
              \<and> imbalance h1 = imbalance h - page_bytes (sp_length t))" by auto
    let ?s' = "s\<lparr> sp_start := sp_start s - sp_length t, sp_length := sp_length s + sp_length t \<rparr>"
    note sp1 = same_spansD(1) [OF same]
    show ?case
    proof (cases r)
      case None
      with r x same inv(2) show ?thesis by (simp add: merged_refl)
    next
      case (Some q')
      with r have qq: "q' = q" "ph_inv (insert q {p}) h1" "sp_location t \<noteq> IN_USE"
        and im: "sp_location t = sp_location s \<and> imbalance h1 = imbalance h
            \<or> sp_location t = ON_NORMAL_FREELIST \<and> sp_location s = ON_RETURNED_FREELIST
              \<and> imbalance h1 = imbalance h - page_bytes (sp_length t)" by auto
      have pos: "0 < sp_length s" "0 < sp_length t" using ph_inv_span [OF inv(1)] inv(2) t(1) by blast+
      have sum: "sp_start ?s' + sp_length ?s' = sp_start s + sp_length s" using t(2) by simp
      have "wpo b (pagemap_set (upd_span p ?s' (DeleteSpan h1 q)) (sp_start ?s') p) (joined {p} h1 p q ?s')"
        by (rule join_wpo [OF qq(2) _ q]) (use sp1 inv(2,3) t qq(3) pos in \<open>auto simp: min_def\<close>)
      then have "wpo b (pagemap_set (upd_span p ?s' (DeleteSpan h1 q)) (sp_start ?s') p)
          (merged {p} h p s (\<lambda>s'. sp_start s' + sp_length s' = sp_start s + sp_length s))"
      proof (rule wpo_mono)
        fix x assume "joined {p} h1 p q ?s' x"
        from joined_merged [OF same this ph_invD(5) [OF inv(1)] inv(2) t(1) t(3) [symmetric] inv(3) qq(3) _ _ _ im]
        show "merged {p} h p s (\<lambda>s'. sp_start s' + sp_length s' = sp_start s + sp_length s) x" using sum by simp
      qed
      then show ?thesis
        using Some x qq(1) sp1 inv(2) t(1,3) by (simp add: DeleteSpan_def)
    qed
  qed
qed

lemma MergeWithNext_wpo:
  assumes inv: "ph_inv {p} h" "spans h p = Some s" "sp_location s \<noteq> IN_USE" "lively b k h"
  shows "wpo b (MergeWithNext h p (sp_start s + sp_length s)) (merged {p} h p s (\<lambda>_. True))"
proof (cases "GetDescriptor h (sp_start s + sp_length s)")
  case None
  have "same_spans h h" by (simp add: same_spans_def)
  with None show ?thesis
    using inv by (simp add: MergeWithNext_def CheckAndHandlePreMerge_def merged_refl)
next
  case (Some q)
  obtain t where t: "spans h q = Some t" "sp_start t = sp_start s + sp_length s" "q \<noteq> p"
    by (rule geom_next [OF ph_invD(1) [OF inv(1)] inv(2) Some])
  have q: "q \<notin> {p}" using t(3) by simp
  show ?thesis
    unfolding MergeWithNext_def Some wpo_bind
  proof (rule wpo_mono [OF CheckAndHandlePreMerge_wpo [OF inv(1-3) t(1) q inv(4)]], goal_cases)
    case (1 x)
    obtain r h1 where x: "x = (r, h1)" by (cases x)
    with 1 have same: "same_spans h h1" and r: "case r of
       None \<Rightarrow> ph_inv {p} h1 \<and> imbalance h1 = imbalance h
     | Some q' \<Rightarrow> q' = q \<and> ph_inv (insert q {p}) h1 \<and> sp_location t \<noteq> IN_USE
         \<and> (sp_location t = sp_location s \<and> imbalance h1 = imbalance h
            \<or> sp_location t = ON_NORMAL_FREELIST \<and> sp_location s = ON_RETURNED_FREELIST
              \<and> imbalance h1 = imbalance h - page_bytes (sp_length t))" by auto
    let ?s' = "s\<lparr> sp_length := sp_length s + sp_length t \<rparr>"
    note sp1 = same_spansD(1) [OF same]
    show ?case
    proof (cases r)
      case None
      with r x same inv(2) show ?thesis by (simp add: merged_refl)
    next
      case (Some q')
      with r have qq: "q' = q" "ph_inv (insert q {p}) h1" "sp_location t \<noteq> IN_USE"
        and im: "sp_location t = sp_location s \<and> imbalance h1 = imbalance h
            \<or> sp_location t = ON_NORMAL_FREELIST \<and> sp_location s = ON_RETURNED_FREELIST
              \<and> imbalance h1 = imbalance h - page_bytes (sp_length t)" by auto
      have pos: "0 < sp_length s" "0 < sp_length t" using ph_inv_span [OF inv(1)] inv(2) t(1) by blast+
      have "wpo b (pagemap_set (upd_span p ?s' (DeleteSpan h1 q)) (sp_start ?s' + sp_length ?s' - 1) p) (joined {p} h1 p q ?s')"
        by (rule join_wpo [OF qq(2) _ q]) (use sp1 inv(2,3) t qq(3) pos in \<open>auto simp: min_def\<close>)
      then have "wpo b (pagemap_set (upd_span p ?s' (DeleteSpan h1 q)) (sp_start ?s' + sp_length ?s' - 1) p)
          (merged {p} h p s (\<lambda>_. True))"
      proof (rule wpo_mono)
        fix x assume "joined {p} h1 p q ?s' x"
        from joined_merged [OF same this ph_invD(5) [OF inv(1)] inv(2) t(1) t(3) [symmetric] inv(3) qq(3) _ _ _ im]
        show "merged {p} h p s (\<lambda>_. True) x" by simp
      qed
      then show ?thesis
        using Some x qq(1) sp1 inv(2) t(1,3) by (simp add: DeleteSpan_def)
    qed
  qed
qed

end
