(* ===== verification/PageHeap_Release.thy ===== *)
theory PageHeap_Release
  imports PageHeap_Merge
begin

text \<open>
  Freeing and releasing: \<open>MergeIntoFreeList\<close> as a whole, \<open>ReleaseSpan\<close>, \<open>ReleaseAtLeastNPages\<close> with its
  termination, \<open>IncrementalScavenge\<close>, \<open>EnsureLimit\<close> and \<open>DeleteLocked\<close>.
\<close>

section \<open>What an operation keeps\<close>

definition kept :: "PageHeap \<Rightarrow> PageHeap \<Rightarrow> bool" where
  "kept h h' \<longleftrightarrow> ph_inv {} h' \<and> inuse_spans h' = inuse_spans h \<and> imbalance h' = imbalance h
     \<and> normal_pages h' \<le> normal_pages h \<and> frame h h' \<and> room h \<le> room h'
     \<and> free_fit (spans h) \<le> free_fit (spans h')"

lemma keptD:
  assumes "kept h h'"
  shows "ph_inv {} h'" "inuse_spans h' = inuse_spans h" "imbalance h' = imbalance h"
    "normal_pages h' \<le> normal_pages h" "frame h h'" "room h \<le> room h'"
    "free_fit (spans h) \<le> free_fit (spans h')"
  using assms by (simp_all add: kept_def)

lemma kept_trans: "kept h1 h2 \<Longrightarrow> kept h2 h3 \<Longrightarrow> kept h1 h3"
  unfolding kept_def by (auto intro: frame_trans)

lemma kept_refl: "ph_inv {} h \<Longrightarrow> kept h h"
  by (simp add: kept_def)

lemma kept_same: "same_spans h h' \<Longrightarrow> ph_inv {} h' \<Longrightarrow> imbalance h' = imbalance h \<Longrightarrow> kept h h'"
  using same_spansD [of h h'] by (simp add: kept_def)

lemma kept_lively: "kept h h' \<Longrightarrow> lively b k h \<Longrightarrow> lively b k h'"
  by (rule lively_mono [where h = h and k = k]) (auto simp: kept_def)

text \<open>Counters of the heap that no invariant mentions.\<close>

lemma kept_counters:
  assumes "ph_inv {} h"
  shows "kept h (h\<lparr> release_index := i \<rparr>)" "kept h (h\<lparr> scavenge_counter := c \<rparr>)"
    "kept h (upd_stats (\<lambda>st. st\<lparr> scavenge_count := scavenge_count st + 1 \<rparr>) h)"
proof -
  have "lists_ok {} (spans h) (free h) (large h) (stats h)" using ph_invD(2) [OF assms] .
  note * = this lists_ok_stats [OF this]
  show "kept h (h\<lparr> release_index := i \<rparr>)" "kept h (h\<lparr> scavenge_counter := c \<rparr>)"
    "kept h (upd_stats (\<lambda>st. st\<lparr> scavenge_count := scavenge_count st + 1 \<rparr>) h)"
    by (rule kept_same, simp add: same_spans_def frame_def,
        rule ph_inv_same_spans [OF assms], simp add: same_spans_def frame_def,
        use * in simp, simp add: imbalance_def)+
qed

text \<open>A span that stays where it is changes its location or its other fields.\<close>

lemma relocate:
  assumes "ph_inv X h" "spans h p = Some s" "sp_start s' = sp_start s" "sp_length s' = sp_length s"
    and "X' - {p} = X - {p}" "p \<in> X \<or> sp_location s = IN_USE" "p \<in> X' \<or> sp_location s' = IN_USE"
    "sp_sizeclass s' \<noteq> 0 \<Longrightarrow> sp_sizeclass s \<noteq> 0 \<and> sp_location s' = sp_location s"
    "sp_sample s' \<Longrightarrow> sp_location s' = IN_USE"
  shows "ph_inv X' (upd_span p s' h)"
    "imbalance (upd_span p s' h) + (if sp_location s = ON_RETURNED_FREELIST then page_bytes (sp_length s) else 0)
       = imbalance h + (if sp_location s' = ON_RETURNED_FREELIST then page_bytes (sp_length s) else 0)"
    "normal_pages (upd_span p s' h) + (if sp_location s = ON_NORMAL_FREELIST then sp_length s else 0)
       = normal_pages h + (if sp_location s' = ON_NORMAL_FREELIST then sp_length s else 0)"
    "frame h (upd_span p s' h)" "room (upd_span p s' h) = room h"
    "inuse_spans (upd_span p s' h) = (inuse_spans h)(p := if sp_location s' = IN_USE then Some s' else None)"
    "sp_location s' \<noteq> IN_USE \<Longrightarrow> free_fit (spans h) \<le> free_fit ((spans h)(p \<mapsto> s'))"
proof -
  note d = ph_invD [OF assms(1)]
  have gd: "GetDescriptor (upd_span p s' h) = GetDescriptor h" by (simp add: GetDescriptor_def [abs_def])
  have "lists_ok X' ((spans h)(p \<mapsto> s')) (free h) (large h) (stats h)"
    using assms by (intro lists_ok_upd [OF d(2,5)]) auto
  moreover have "dom ((spans h)(p \<mapsto> s')) = dom (spans h)" using assms(2) by auto
  ultimately show "ph_inv X' (upd_span p s' h)"
    using d geom_same_pages [OF d(1) assms(2-4,8,9)] unfolding ph_inv_def gd by simp
  have lp: "loc_pages {} ((spans h)(p \<mapsto> s')) L + (if sp_location s = L then sp_length s else 0)
      = loc_pages {} (spans h) L + (if sp_location s' = L then sp_length s else 0)" for L
    using loc_pages_upd [OF d(5), of "{}" p "{}" "Some s'" L] assms(2,4) by (simp add: contrib_def)
  show "normal_pages (upd_span p s' h) + (if sp_location s = ON_NORMAL_FREELIST then sp_length s else 0)
       = normal_pages h + (if sp_location s' = ON_NORMAL_FREELIST then sp_length s else 0)"
    using lp [of ON_NORMAL_FREELIST] by (simp add: normal_pages_def)
  show "imbalance (upd_span p s' h) + (if sp_location s = ON_RETURNED_FREELIST then page_bytes (sp_length s) else 0)
       = imbalance h + (if sp_location s' = ON_RETURNED_FREELIST then page_bytes (sp_length s) else 0)"
    using page_bytes_eq [OF lp [of ON_RETURNED_FREELIST]] by (simp add: imbalance_def)
  show "inuse_spans (upd_span p s' h) = (inuse_spans h)(p := if sp_location s' = IN_USE then Some s' else None)"
    by (auto simp: inuse_spans_def fun_eq_iff)
  show "sp_location s' \<noteq> IN_USE \<Longrightarrow> free_fit (spans h) \<le> free_fit ((spans h)(p \<mapsto> s'))"
    using assms(2,4) by (auto simp: free_fit_def le_fun_def) (metis option.inject)
qed (simp_all add: frame_def room_def)

section \<open>\<open>MergeIntoFreeList\<close>\<close>

lemma merge_both_wpo:
  assumes "ph_inv {p} h" "spans h p = Some s" "sp_location s \<noteq> IN_USE" "lively b k h"
  shows "wpo b (do { h \<leftarrow> MergeWithPrev h p (sp_start s);
          h \<leftarrow> MergeWithNext h p (sp_start s + sp_length s);
          PrependToFreeList h p }) (kept h)"
  unfolding wpo_bind
proof (rule wpo_mono [OF MergeWithPrev_wpo [OF assms]], goal_cases)
  case (1 h1)
  then obtain s1 where m1: "ph_inv {p} h1" "spans h1 p = Some s1" "sp_location s1 = sp_location s"
      "sp_start s1 + sp_length s1 = sp_start s + sp_length s" "frame h h1" "room h \<le> room h1"
    and k1: "inuse_spans h1 = inuse_spans h" "imbalance h1 = imbalance h" "normal_pages h1 \<le> normal_pages h"
      "free_fit (spans h) \<le> free_fit (spans h1)"
    by (auto simp: merged_def)
  have l1: "lively b k h1" using lively_mono [OF assms(4) m1(5)] m1(6) by simp
  have loc1: "sp_location s1 \<noteq> IN_USE" using m1(3) assms(3) by simp
  show ?case
    unfolding m1(4) [symmetric]
  proof (rule wpo_mono [OF MergeWithNext_wpo [OF m1(1,2) loc1 l1]], goal_cases)
    case (1 h2)
    then obtain s2 where m2: "ph_inv {p} h2" "spans h2 p = Some s2" "sp_location s2 = sp_location s1"
        "frame h1 h2" "room h1 \<le> room h2"
      and k2: "inuse_spans h2 = inuse_spans h1" "imbalance h2 = imbalance h1" "normal_pages h2 \<le> normal_pages h1"
        "free_fit (spans h1) \<le> free_fit (spans h2)"
      by (auto simp: merged_def)
    have "ph_inv (insert p {}) h2" "sp_location s2 \<noteq> IN_USE" using m2 loc1 by simp_all
    note prepend = PrependToFreeList_wpo [OF this(1) m2(2) this(2)]
    show ?case
    proof (rule wpo_mono [OF prepend], goal_cases)
      case (2 h3)
      then show ?case
        using same_spansD [of h2 h3] k1 k2 m1(5,6) m2(4,5) order_trans [OF k1(4) k2(4)]
        by (auto simp: kept_def intro: frame_trans)
    qed simp
  qed
qed

lemma MergeIntoFreeList_wpo:
  assumes inv: "ph_inv {p} h" "spans h p = Some s" "sp_location s \<noteq> IN_USE" "lively b k h"
  shows "wpo b (MergeIntoFreeList h p) (kept h)"
proof (cases "aggressive_decommit h \<and> sp_location s = ON_NORMAL_FREELIST")
  case False
  then show ?thesis
    using merge_both_wpo [OF assms] inv(2) by (auto simp: MergeIntoFreeList_def)
next
  case True
  let ?s = "s\<lparr> sp_location := ON_RETURNED_FREELIST \<rparr>"
  have "wpo b (DecommitSpan h p) (\<lambda>x. wpo b (do { h \<leftarrow> MergeWithPrev
            (if fst x then upd_span p ?s (snd x) else snd x) p (sp_start s);
          h \<leftarrow> MergeWithNext h p (sp_start s + sp_length s);
          PrependToFreeList h p }) (kept h))"
  proof (rule wpo_mono [OF DecommitSpan_wpo [OF inv(1,2,4)]], goal_cases)
    case (1 x)
    obtain ok h1 where x: "x = (ok, h1)" by (cases x)
    with 1 have h1: "ph_inv {p} h1" "same_spans h h1"
      "imbalance h1 = imbalance h - (if ok then page_bytes (sp_length s) else 0)" by auto
    note same = same_spansD [OF h1(2)]
    have sp1: "spans h1 p = Some s" using same(1) inv(2) by simp
    have l1: "lively b k h1" using lively_mono [OF inv(4) same(4)] same(7) by simp
    show ?case
    proof (cases ok)
      case True
      let ?h = "upd_span p ?s h1"
      have r: "ph_inv {p} ?h" "imbalance ?h = imbalance h1 + page_bytes (sp_length s)"
          "normal_pages ?h \<le> normal_pages h1" "frame h1 ?h" "room ?h = room h1"
          "inuse_spans ?h = (inuse_spans h1)(p := None)" "free_fit (spans h1) \<le> free_fit (spans ?h)"
        using relocate [OF h1(1) sp1, of ?s "{p}"] free_unclassed [OF inv(1-3)] \<open>aggressive_decommit h \<and> _\<close> by simp_all
      have same_use: "(inuse_spans h)(p := None) = inuse_spans h"
        using inv(2,3) by (auto simp: inuse_spans_def fun_eq_iff)
      have "lively b k ?h" using lively_mono [OF l1 r(4)] r(5) by simp
      from merge_both_wpo [OF r(1) _ _ this, of ?s]
      have "wpo b (do { h \<leftarrow> MergeWithPrev ?h p (sp_start s);
          h \<leftarrow> MergeWithNext h p (sp_start s + sp_length s);
          PrependToFreeList h p }) (kept ?h)" by simp
      then show ?thesis
        unfolding x fst_conv snd_conv if_P [OF True]
      proof (rule wpo_mono)
        fix h2 assume "kept ?h h2"
        then show "kept h h2"
          using r same h1(3) True same_use frame_trans [OF frame_trans [OF same(4) r(4)]] order_trans [OF r(7)]
          by (simp add: kept_def)
      qed
    next
      case False
      from merge_both_wpo [OF h1(1) sp1 inv(3) l1] show ?thesis
        unfolding x fst_conv snd_conv if_not_P [OF False]
      proof (rule wpo_mono)
        fix h2 assume "kept h1 h2"
        then show "kept h h2"
          using same h1(3) False frame_trans [OF same(4)] by (simp add: kept_def)
      qed
    qed
  qed
  then show ?thesis
    using True inv(2) by (simp add: MergeIntoFreeList_def case_prod_beta)
qed

section \<open>\<open>ReleaseSpan\<close>\<close>

lemma ReleaseSpan_wpo:
  assumes inv: "ph_inv {} h" "spans h p = Some s" "sp_location s = ON_NORMAL_FREELIST" "lively b k h"
  shows "wpo b (ReleaseSpan h p) (\<lambda>(n, h'). kept h h' \<and> (n = 0 \<or> n = sp_length s)
    \<and> n + normal_pages h' \<le> normal_pages h)"
  unfolding ReleaseSpan_def wpo_bind
proof (rule wpo_mono [OF DecommitSpan_wpo [OF inv(1,2,4)]], goal_cases)
  case (1 x)
  obtain ok h1 where x: "x = (ok, h1)" by (cases x)
  with 1 have h1: "ph_inv {} h1" "same_spans h h1"
    "imbalance h1 = imbalance h - (if ok then page_bytes (sp_length s) else 0)" by auto
  note same = same_spansD [OF h1(2)]
  show ?case
  proof (cases ok)
    case False
    then show ?thesis
      using kept_same [OF h1(2,1)] h1(3) same(6) x by simp
  next
    case ok: True
    have sp1: "spans h1 p = Some s" using same(1) inv(2) by simp
    have loc: "sp_location s \<noteq> IN_USE" using inv(3) by simp
    note rm = RemoveFromFreeList_wpo [OF h1(1) sp1 loc]
    let ?s = "s\<lparr> sp_location := ON_RETURNED_FREELIST \<rparr>"
    have "wpo b (RemoveFromFreeList h1 p) (\<lambda>h2. wpo b (do { s \<leftarrow> spans h2 p;
        h \<leftarrow> MergeIntoFreeList (upd_span p (s\<lparr> sp_location := ON_RETURNED_FREELIST \<rparr>) h2) p;
        Some (sp_length s, h) }) (\<lambda>(n, h'). kept h h' \<and> (n = 0 \<or> n = sp_length s)
          \<and> n + normal_pages h' \<le> normal_pages h))"
    proof (rule wpo_mono [OF rm], goal_cases)
      case (2 h2)
      then have h2: "ph_inv {p} h2" "same_spans h1 h2" "imbalance h2 = imbalance h1" by simp_all
      note same2 = same_spansD [OF h2(2)]
      have sp2: "spans h2 p = Some s" using same2(1) sp1 by simp
      let ?h = "upd_span p ?s h2"
      have r: "ph_inv {p} ?h" "imbalance ?h = imbalance h2 + page_bytes (sp_length s)"
          "normal_pages ?h + sp_length s = normal_pages h2" "frame h2 ?h" "room ?h = room h2"
          "inuse_spans ?h = (inuse_spans h2)(p := None)" "free_fit (spans h2) \<le> free_fit (spans ?h)"
        using relocate [OF h2(1) sp2, of ?s "{p}"] free_unclassed [OF inv(1,2) loc] inv(3) by simp_all
      have use: "(inuse_spans h)(p := None) = inuse_spans h"
        using inv(2) loc by (auto simp: inuse_spans_def fun_eq_iff)
      have fr: "frame h ?h" using same(4) same2(4) r(4) by (blast intro: frame_trans)
      have "lively b k ?h" using lively_mono [OF inv(4) fr] r(5) same(7) same2(7) by simp
      from MergeIntoFreeList_wpo [OF r(1) _ _ this, of ?s]
      have "wpo b (MergeIntoFreeList ?h p) (kept ?h)" by simp
      then have "wpo b (MergeIntoFreeList ?h p) (\<lambda>h'. kept h h' \<and> sp_length s + normal_pages h' \<le> normal_pages h)"
      proof (rule wpo_mono)
        fix h3 assume "kept ?h h3"
        then show "kept h h3 \<and> sp_length s + normal_pages h3 \<le> normal_pages h"
          using r same same2 h1(3) h2(3) ok use frame_trans [OF fr] order_trans [OF r(7)] by (simp add: kept_def)
      qed
      then show ?case using sp2 by (auto elim!: wpo_mono)
    qed simp
    then show ?thesis using x ok by simp
  qed
qed

section \<open>\<open>ReleaseAtLeastNPages\<close>\<close>

lemma release_candidate_normal:
  assumes "ph_inv {} h" "release_candidate h i = Some p"
  obtains s where "spans h p = Some s" "sp_location s = ON_NORMAL_FREELIST"
proof -
  note l = lists_okD [OF ph_invD(2) [OF assms(1)], of ON_NORMAL_FREELIST, simplified]
  have "\<exists>s. on_list {} (spans h) ON_NORMAL_FREELIST p s"
  proof (cases "i = kMaxPages")
    case True
    then obtain e es where "large h ON_NORMAL_FREELIST = e # es" "snd e = p"
      using assms(2) by (auto simp: release_candidate_def split: list.splits)
    then have "(fst e, p) \<in> set (large h ON_NORMAL_FREELIST)" by auto
    then show ?thesis using l(3) by blast
  next
    case False
    then have "p \<in> set (free h ON_NORMAL_FREELIST i)"
      using assms(2) by (auto simp: release_candidate_def split: if_splits)
    then show ?thesis using l(1) by blast
  qed
  then show ?thesis using that by (auto simp: on_list_def)
qed

lemma release_candidate_exists:
  assumes "ph_inv {} h" "0 < free_bytes (stats h)"
  shows "\<exists>c \<le> kMaxPages. release_candidate h c \<noteq> None"
proof -
  note l = lists_okD [OF ph_invD(2) [OF assms(1)], of ON_NORMAL_FREELIST, simplified]
  have "page_bytes (loc_pages {} (spans h) ON_NORMAL_FREELIST) \<noteq> 0"
    using l(5) assms(2) by (simp add: stat_bytes_def word_neq_0_conv)
  then have "loc_pages {} (spans h) ON_NORMAL_FREELIST \<noteq> 0" by (intro notI) simp
  then obtain p where "p \<in> dom (spans h)"
      "(if \<exists>s. on_list {} (spans h) ON_NORMAL_FREELIST p s then sp_length (the (spans h p)) else 0) \<noteq> 0"
    unfolding loc_pages_def by (rule sum.not_neutral_contains_not_neutral)
  then have "\<exists>s. on_list {} (spans h) ON_NORMAL_FREELIST p s" by (auto split: if_splits)
  then obtain s where s: "on_list {} (spans h) ON_NORMAL_FREELIST p s" by blast
  then have len: "0 < sp_length s" using ph_inv_span [OF assms(1)] by (auto simp: on_list_def)
  show ?thesis
  proof (cases "kMaxPages < sp_length s")
    case True
    with s have "(sp_length s, p) \<in> set (large h ON_NORMAL_FREELIST)" unfolding l(3) by auto
    then have "large h ON_NORMAL_FREELIST \<noteq> []" by auto
    then have "release_candidate h kMaxPages \<noteq> None"
      by (cases "large h ON_NORMAL_FREELIST") (simp_all add: release_candidate_def)
    then show ?thesis by blast
  next
    case False
    with s len have "p \<in> set (free h ON_NORMAL_FREELIST (sp_length s - 1))" unfolding l(1) by auto
    then have "free h ON_NORMAL_FREELIST (sp_length s - 1) \<noteq> []" by auto
    moreover have "sp_length s - 1 < kMaxPages" using False len by simp
    ultimately have "release_candidate h (sp_length s - 1) \<noteq> None" by (simp add: release_candidate_def)
    then show ?thesis using \<open>sp_length s - 1 < kMaxPages\<close> less_imp_le by blast
  qed
qed

text \<open>How many steps the round robin needs from list \<open>r\<close> to list \<open>c\<close>.\<close>

definition robin_distance :: "nat \<Rightarrow> nat \<Rightarrow> nat" where
  "robin_distance r c = (let r = (if r > kMaxPages then 0 else r) in if r \<le> c then c - r else kMaxPages + 1 - r + c)"

lemma release_candidate_index [simp]: "release_candidate (h\<lparr> release_index := i \<rparr>) = release_candidate h"
  by (simp add: release_candidate_def fun_eq_iff)

lemma release_pass_wpo:
  assumes "ph_inv {} h" "lively b k h"
  shows "wpo b (release_pass i num_pages released h) (\<lambda>(go, r, h'). kept h h' \<and> released \<le> r
    \<and> r + normal_pages h' \<le> released + normal_pages h
    \<and> ((\<exists>c \<le> kMaxPages. release_candidate h c \<noteq> None \<and> robin_distance (release_index h) c < i)
         \<and> released < num_pages \<and> go \<longrightarrow> released < r))"
  using assms
proof (induction i arbitrary: released h)
  case 0
  then show ?case by (simp add: kept_refl)
next
  case (Suc i)
  let ?h = "if release_index h > kMaxPages then h\<lparr> release_index := 0 \<rparr> else h"
  let ?i = "release_index ?h"
  let ?h1 = "?h\<lparr> release_index := ?i + 1 \<rparr>"
  have kh: "kept h ?h" using kept_refl kept_counters Suc.prems(1) by simp
  have cand: "release_candidate ?h = release_candidate h" by simp
  have le: "?i \<le> kMaxPages" by simp
  show ?case
  proof (cases "released < num_pages")
    case False
    then show ?thesis using kept_refl [OF Suc.prems(1)] by simp
  next
    case lt: True
    show ?thesis
    proof (cases "release_candidate h ?i")
      case None
      have k1: "kept h ?h1" using kept_trans [OF kh kept_counters(1) [OF keptD(1) [OF kh]]] .
      have np: "normal_pages ?h1 = normal_pages h" by (simp add: normal_pages_def)
      have dist: "robin_distance (release_index ?h1) c < i"
        if "c \<le> kMaxPages" "release_candidate h c \<noteq> None" "robin_distance (release_index h) c < Suc i" for c
      proof -
        have "c \<noteq> ?i" using that(2) None by metis
        then show ?thesis using that(1,3) by (auto simp: robin_distance_def Let_def intro!: gr0I split: if_splits)
      qed
      have "wpo b (release_pass i num_pages released ?h1) (\<lambda>(go, r, h'). kept h h' \<and> released \<le> r
        \<and> r + normal_pages h' \<le> released + normal_pages h
        \<and> ((\<exists>c \<le> kMaxPages. release_candidate h c \<noteq> None \<and> robin_distance (release_index h) c < Suc i)
             \<and> released < num_pages \<and> go \<longrightarrow> released < r))"
      proof (rule wpo_mono [OF Suc.IH [OF keptD(1) [OF k1] kept_lively [OF k1 Suc.prems(2)], of released]], goal_cases)
        case (1 x)
        then show ?case
          using kept_trans [OF k1] dist np by auto
      qed
      then show ?thesis unfolding release_pass.simps Let_def if_P [OF lt] cand None option.case .
    next
      case (Some p)
      then have "release_candidate ?h ?i = Some p" unfolding cand .
      then obtain s where s: "spans ?h p = Some s" "sp_location s = ON_NORMAL_FREELIST"
        by (rule release_candidate_normal [OF keptD(1) [OF kh]])
      have "wpo b (ReleaseSpan ?h p) (\<lambda>x. wpo b (case x of (n, h) \<Rightarrow>
          if n = 0 then Some (False, released, h)
          else release_pass i num_pages (released + n) (h\<lparr> release_index := release_index h + 1 \<rparr>))
        (\<lambda>(go, r, h'). kept h h' \<and> released \<le> r \<and> r + normal_pages h' \<le> released + normal_pages h
          \<and> ((\<exists>c \<le> kMaxPages. release_candidate h c \<noteq> None \<and> robin_distance (release_index h) c < Suc i)
             \<and> released < num_pages \<and> go \<longrightarrow> released < r)))"
      proof (rule wpo_mono [OF ReleaseSpan_wpo [OF keptD(1) [OF kh] s kept_lively [OF kh Suc.prems(2)]]], goal_cases)
        case (1 x)
        obtain n h2 where x: "x = (n, h2)" by (cases x)
        with 1 have h2: "kept ?h h2" "n + normal_pages h2 \<le> normal_pages ?h" by auto
        have np: "normal_pages ?h = normal_pages h" by (simp add: normal_pages_def)
        have k2: "kept h h2" using kept_trans [OF kh h2(1)] .
        let ?h3 = "h2\<lparr> release_index := release_index h2 + 1 \<rparr>"
        have k3: "kept h ?h3" using kept_trans [OF k2 kept_counters(1) [OF keptD(1) [OF k2]]] .
        have np3: "normal_pages ?h3 = normal_pages h2" by (simp add: normal_pages_def)
        show ?case
        proof (cases "n = 0")
          case True
          then show ?thesis using x k2 h2(2) np by simp
        next
          case False
          have "wpo b (release_pass i num_pages (released + n) ?h3)
            (\<lambda>(go, r, h'). kept h h' \<and> released \<le> r \<and> r + normal_pages h' \<le> released + normal_pages h
              \<and> ((\<exists>c \<le> kMaxPages. release_candidate h c \<noteq> None \<and> robin_distance (release_index h) c < Suc i)
                 \<and> released < num_pages \<and> go \<longrightarrow> released < r))"
          proof (rule wpo_mono [OF Suc.IH [OF keptD(1) [OF k3] kept_lively [OF k3 Suc.prems(2)]]], goal_cases)
            case (1 x)
            then show ?case
              using kept_trans [OF k3] np np3 h2(2) False by auto
          qed
          then show ?thesis using x False by simp
        qed
      qed
      then show ?thesis unfolding release_pass.simps Let_def if_P [OF lt] cand Some option.case wpo_bind .
    qed
  qed
qed

text \<open>The loop ends because every further round releases a page that is mapped.\<close>

lemma release_loop_wpo:
  assumes "ph_inv {} h" "lively b k h"
  shows "wpo b (release_loop num_pages released h) (\<lambda>(r, h'). kept h h' \<and> released \<le> r
    \<and> r + normal_pages h' \<le> released + normal_pages h)"
  using assms
proof (induction "normal_pages h" arbitrary: released h rule: less_induct)
  case less
  show ?case
  proof (cases "released < num_pages \<and> 0 < free_bytes (stats h)")
    case False
    then show ?thesis
      using kept_refl [OF less.prems(1)] by (subst release_loop.simps) auto
  next
    case True
    obtain c where c: "c \<le> kMaxPages" "release_candidate h c \<noteq> None"
      using release_candidate_exists [OF less.prems(1)] True by blast
    have d: "robin_distance (release_index h) c < kMaxPages + 1"
      using c(1) by (auto simp: robin_distance_def Let_def)
    have "wpo b (release_pass (kMaxPages + 1) num_pages released h) (\<lambda>x. wpo b (case x of (go, released, h) \<Rightarrow>
        if go then release_loop num_pages released h else Some (released, h))
      (\<lambda>(r, h'). kept h h' \<and> released \<le> r \<and> r + normal_pages h' \<le> released + normal_pages h))"
    proof (rule wpo_mono [OF release_pass_wpo [OF less.prems]], goal_cases)
      case (1 x)
      obtain go r h1 where x: "x = (go, r, h1)" by (cases x)
      with 1 have h1: "kept h h1" "released \<le> r" "r + normal_pages h1 \<le> released + normal_pages h"
          "go \<longrightarrow> released < r"
        using c d True by auto
      show ?case
      proof (cases go)
        case True
        with h1 have "normal_pages h1 < normal_pages h" by simp
        from less.hyps [OF this keptD(1) [OF h1(1)] kept_lively [OF h1(1) less.prems(2)], of r]
        have "wpo b (release_loop num_pages r h1)
          (\<lambda>(r, h'). kept h h' \<and> released \<le> r \<and> r + normal_pages h' \<le> released + normal_pages h)"
          by (rule wpo_mono) (use h1 kept_trans [OF h1(1)] in auto)
        with True show ?thesis by (simp add: x)
      qed (use x h1 in simp)
    qed
    with True show ?thesis
      by (subst release_loop.simps) simp
  qed
qed

lemma ReleaseAtLeastNPages_wpo:
  assumes "ph_inv {} h" "lively b k h"
  shows "wpo b (ReleaseAtLeastNPages h num_pages) (\<lambda>(r, h'). kept h h' \<and> r + normal_pages h' \<le> normal_pages h)"
  unfolding ReleaseAtLeastNPages_def
  by (rule wpo_mono [OF release_loop_wpo [OF assms]]) auto

lemma IncrementalScavenge_wpo:
  assumes "ph_inv {} h" "lively b k h"
  shows "wpo b (IncrementalScavenge h n) (kept h)"
proof -
  let ?h1 = "h\<lparr> scavenge_counter := scavenge_counter h - int n \<rparr>"
  let ?h2 = "upd_stats (\<lambda>st. st\<lparr> scavenge_count := scavenge_count st + 1 \<rparr>) ?h1"
  have k1: "kept h ?h1" using kept_counters(2) [OF assms(1)] .
  note i1 = keptD(1) [OF k1]
  have k2: "kept h ?h2" using kept_trans [OF k1 kept_counters(3) [OF i1]] .
  have k3: "kept h (?h1\<lparr> scavenge_counter := c \<rparr>)" for c
    using kept_trans [OF k1 kept_counters(2) [OF i1]] .
  have "wpo b (ReleaseAtLeastNPages ?h2 1) (\<lambda>(r, h'). \<forall>c. kept h (h'\<lparr> scavenge_counter := c \<rparr>))"
  proof (rule wpo_mono [OF ReleaseAtLeastNPages_wpo [OF keptD(1) [OF k2] kept_lively [OF k2 assms(2)]]], clarify)
    fix r h' c assume "kept ?h2 h'"
    then have "kept h h'" by (rule kept_trans [OF k2])
    then show "kept h (h'\<lparr> scavenge_counter := c \<rparr>)"
      using kept_trans kept_counters(2) [OF keptD(1)] by blast
  qed
  then show ?thesis
    unfolding IncrementalScavenge_def Let_def using k1 k3 by (auto elim!: wpo_mono)
qed

lemma EnsureLimit_wpo:
  assumes "ph_inv {} h" "lively b k h"
  shows "wpo b (EnsureLimit h n withRelease) (\<lambda>(ok, h'). kept h h' \<and> (\<not> withRelease \<longrightarrow> h' = h)
    \<and> (heap_limit_mb h = 0 \<longrightarrow> ok))"
proof -
  have "wpo b (ReleaseAtLeastNPages h m) (\<lambda>x. wpo b (case x of (r, h') \<Rightarrow> Some (f r, h'))
      (\<lambda>(ok, h'). kept h h'))" for m and f :: "nat \<Rightarrow> bool"
    by (rule wpo_mono [OF ReleaseAtLeastNPages_wpo [OF assms]]) auto
  then show ?thesis
    unfolding EnsureLimit_def Let_def using kept_refl [OF assms(1)]
    by (cases "heap_limit_mb h = 0") simp_all
qed

text \<open>Freeing: the span leaves the clients' spans, everything else is kept.\<close>

lemma DeleteLocked_wpo:
  assumes inv: "ph_inv {} h" "spans h p = Some s" "sp_location s = IN_USE" "lively b k h"
  shows "wpo b (DeleteLocked h p) (\<lambda>h'. ph_inv {} h' \<and> inuse_spans h' = (inuse_spans h)(p := None)
    \<and> imbalance h' = imbalance h \<and> normal_pages h' \<le> normal_pages h + sp_length s
    \<and> frame h h' \<and> room h \<le> room h' \<and> free_fit (spans h') (sp_length s))"
proof -
  let ?s = "s\<lparr> sp_sizeclass := 0, sp_sample := False, sp_location := ON_NORMAL_FREELIST \<rparr>"
  let ?h = "upd_span p ?s h"
  have r: "ph_inv {p} ?h" "imbalance ?h = imbalance h" "normal_pages ?h = normal_pages h + sp_length s"
      "frame h ?h" "room ?h = room h" "inuse_spans ?h = (inuse_spans h)(p := None)"
    using relocate [OF inv(1,2), of ?s "{p}"] inv(3) by simp_all
  have l: "lively b k ?h" using lively_mono [OF inv(4) r(4)] r(5) by simp
  have "wpo b (MergeIntoFreeList ?h p) (\<lambda>h1. wpo b (IncrementalScavenge h1 (sp_length s)) (kept ?h))"
  proof (rule wpo_mono [OF MergeIntoFreeList_wpo [where s = ?s, OF r(1) _ _ l]])
    fix h1 assume h1: "kept ?h h1"
    show "wpo b (IncrementalScavenge h1 (sp_length s)) (kept ?h)"
      by (rule wpo_mono [OF IncrementalScavenge_wpo [OF keptD(1) [OF h1] kept_lively [OF h1 l]]])
        (rule kept_trans [OF h1])
  qed simp_all
  then have "wpo b (DeleteLocked h p) (kept ?h)" using inv(2) by (simp add: DeleteLocked_def)
  moreover have "free_fit (spans ?h) (sp_length s)"
    unfolding free_fit_def by (intro exI [of _ p] exI [of _ ?s]) simp
  ultimately show ?thesis
    by (elim wpo_mono) (use r frame_trans [OF r(4)] in \<open>auto simp: kept_def le_fun_def\<close>)
qed

end
