(* ===== verification/PageHeap_Alloc.thy ===== *)
theory PageHeap_Alloc
  imports PageHeap_Release
begin

text \<open>
  Allocation from the free spans: \<open>Carve\<close> and \<open>Split\<close>, the best-fit search of \<open>AllocLarge\<close> and the
  search of the free lists.
\<close>

section \<open>Splitting a span\<close>

text \<open>The order of the last steps of \<open>Carve\<close> does not matter.\<close>

lemma SpanSet_insert_cong: "start_of sp' = start_of sp \<Longrightarrow> SpanSet_insert sp' x xs = SpanSet_insert sp x xs"
  by (induction xs) (simp_all add: SpanBestFitLess_def)

lemma Prepend_commute:
  assumes "spans h q = Some t" "spans h p = Some s" "p \<noteq> q" "sp_start s' = sp_start s"
  shows "do { h \<leftarrow> PrependToFreeList h q; pagemap_set (upd_span p s' h) k p }
    = do { h \<leftarrow> pagemap_set (upd_span p s' h) k p; PrependToFreeList h q }"
proof -
  have "start_of ((spans h)(p \<mapsto> s')) = start_of (spans h)"
    using assms(2,4) by (auto simp: start_of_def fun_eq_iff)
  note ins = SpanSet_insert_cong [OF this]
  show ?thesis
    using assms(1,3) by (cases "PageMap2_set kPageMapBits (pagemap h) k (Some p)")
      (simp_all add: PrependToFreeList_def pagemap_set_def Let_def ins)
qed

definition split_result :: "location \<Rightarrow> PageHeap \<Rightarrow> addr \<Rightarrow> Span \<Rightarrow> nat \<Rightarrow> addr \<Rightarrow> PageHeap \<Rightarrow> bool" where
  "split_result loc h p s n q h' \<longleftrightarrow> q \<noteq> p \<and> spans h q = None
     \<and> ph_inv (if loc = IN_USE then {} else {q}) h'
     \<and> spans h' = (spans h)(p \<mapsto> s\<lparr> sp_length := n \<rparr>,
           q \<mapsto> (new_span (sp_start s + n) (sp_length s - n))\<lparr> sp_location := loc \<rparr>)
     \<and> frame h h' \<and> room h \<le> room h' + 1 \<and> stats h' = stats h"

lemma split_wpo:
  assumes inv: "ph_inv {} h" "spans h p = Some s" "sp_location s = IN_USE" "0 < n" "n < sp_length s" "lively b 1 h" "plain s"
    and t: "\<And>q. t q = (new_span (sp_start s + n) (sp_length s - n))\<lparr> sp_location := loc \<rparr>"
  shows "wpo b (do { (q, h) \<leftarrow> NewSpan h (sp_start s + n) (sp_length s - n);
      h \<leftarrow> RecordSpan (upd_span q (t q) h) q;
      h \<leftarrow> pagemap_set (upd_span p (s\<lparr> sp_length := n \<rparr>) h) (sp_start s + n - 1) p; Some (q, h) })
    (\<lambda>(q, h'). split_result loc h p s n q h')"
  unfolding wpo_bind
proof (rule wpo_mono [OF NewSpan_wpo [OF inv(1,6)]], goal_cases)
  case (1 x)
  obtain q h1 where x: "x = (q, h1)" by (cases x)
  let ?sp = "(spans h)(q \<mapsto> new_span (sp_start s + n) (sp_length s - n))"
  from 1 x have q: "spans h q = None" and h1: "h1 = h\<lparr> system := system h1, span_allocator := span_allocator h1, spans := ?sp \<rparr>"
    and pha: "pha_ok sizeof_Span (insert q (dom (spans h))) (system h1, span_allocator h1)"
    and fr: "frame h h1" "sys_taken (system h) \<subseteq> sys_taken (system h1)" "room h \<le> room h1 + 1" by auto
  have f: "spans h1 = ?sp" "pagemap h1 = pagemap h" "free h1 = free h" "large h1 = large h" "stats h1 = stats h"
    by (subst h1, simp)+
  have neq: "q \<noteq> p" using q inv(2) by auto
  note g = ph_invD(1) [OF inv(1)]
  have ens: "pm_ensured h k" if "sp_start s - 1 \<le> k" "k \<le> sp_start s + sp_length s" for k
    using geom_span [OF g inv(2)] that by (simp add: span_ok_def)
  let ?t = "(new_span (sp_start s + n) (sp_length s - n))\<lparr> sp_location := loc \<rparr>"
  let ?h2 = "upd_span q ?t h1"
  have rec: "wpo b (RecordSpan ?h2 q) (\<lambda>h3. h3 = ?h2\<lparr> pagemap := pagemap h3 \<rparr>
    \<and> GetDescriptor h3 = (GetDescriptor h)(sp_start s + n \<mapsto> q, sp_start s + sp_length s - 1 \<mapsto> q)
    \<and> pm_ensured h3 = pm_ensured h \<and> allocator2 (pagemap h3) = allocator2 (pagemap h))"
    using RecordSpan_wpo [of ?h2 q ?t b] ens [of "sp_start s + n"] ens [of "sp_start s + sp_length s - 1"] inv(5) f(2)
    by (simp add: GetDescriptor_def [abs_def])
  have "wpo b (RecordSpan ?h2 q) (\<lambda>h3. wpo b (do {
      h \<leftarrow> pagemap_set (upd_span p (s\<lparr> sp_length := n \<rparr>) h3) (sp_start s + n - 1) p; Some (q, h) })
    (\<lambda>(q, h'). split_result loc h p s n q h'))"
  proof (rule wpo_mono [OF rec], elim conjE, goal_cases)
    case (1 h3)
    note h3 = 1
    have f3: "spans h3 = ?sp(q \<mapsto> ?t)" "free h3 = free h" "large h3 = large h" "stats h3 = stats h"
        "system h3 = system h1" "span_allocator h3 = span_allocator h1"
      by (subst h3(1), simp add: f)+
    let ?h4 = "upd_span p (s\<lparr> sp_length := n \<rparr>) h3"
    have e4: "pm_ensured ?h4 (sp_start s + n - 1)" using ens [of "sp_start s + n - 1"] inv(4,5) h3(3) by simp
    show ?case
      unfolding wpo_bind
    proof (rule wpo_mono [OF pagemap_set_wpo [OF e4]], elim conjE, goal_cases)
      case (1 h5)
      have g5: "GetDescriptor h5 = (GetDescriptor h)(sp_start s + n \<mapsto> q, sp_start s + sp_length s - 1 \<mapsto> q,
          sp_start s + n - 1 \<mapsto> p)"
        using 1(2) h3(2) by (simp add: GetDescriptor_def [abs_def])
      have f5: "spans h5 = (spans h)(p \<mapsto> s\<lparr> sp_length := n \<rparr>, q \<mapsto> ?t)" "free h5 = free h" "large h5 = large h" "stats h5 = stats h"
          "system h5 = system h1" "span_allocator h5 = span_allocator h1"
        using neq by (subst 1(1), simp add: f3 fun_upd_twist)+
      have e5: "pm_ensured h5 = pm_ensured h" "allocator2 (pagemap h5) = allocator2 (pagemap h)"
        using 1(3,4) h3(3,4) by simp_all
      have geo: "geom (spans h5) (GetDescriptor h5) (pm_ensured h5) (sys_taken (system h5))"
        unfolding f5 g5 e5 by (rule geom_mono [OF geom_split [OF g inv(2,4,5) q _ _ _ _ _ _ refl] fr(2)]) (simp_all add: inv(7))
      let ?X = "if loc = IN_USE then {} else {q}"
      have "lists_ok {} ((spans h)(p \<mapsto> s\<lparr> sp_length := n \<rparr>)) (free h) (large h) (stats h)"
        using inv(2,3) by (intro lists_ok_upd [OF ph_invD(2,5) [OF inv(1)]]) auto
      from lists_ok_upd [OF this, of ?X q "Some ?t"]
      have lst: "lists_ok ?X (spans h5) (free h5) (large h5) (stats h5)"
        using q neq ph_invD(5) [OF inv(1)] unfolding f5 by simp
      have "dom (spans h5) = insert q (dom (spans h))" using inv(2) by (auto simp: f5)
      with pha have "pha_ok sizeof_Span (dom (spans h5)) (system h5, span_allocator h5)" by (simp add: f5)
      with geo lst have inv5: "ph_inv ?X h5"
        using e5 ph_invD(4) [OF inv(1)] by (simp add: ph_inv_def)
      have fr15: "frame h1 h5"
        unfolding frame_def f5(5) by (intro conjI; (subst 1(1), subst h3(1))?) simp_all
      then have "frame h h5" using fr(1) frame_trans by blast
      moreover have "room h5 = room h1" by (rule room_frame [OF fr15 f5(6)])
      ultimately show ?case
        using neq q f5 fr(3) inv5 by (simp add: split_result_def)
    qed
  qed
  then show ?case by (simp add: x t)
qed

text \<open>The system never hands out \<open>2^44\<close> contiguous bytes, so that the length of a span fits an \<open>int\<close>.\<close>

definition os_bounded :: "sys \<Rightarrow> bool" where
  "os_bounded s \<longleftrightarrow> (\<forall>a. \<not> {a ..< a + 2 ^ 44} \<subseteq> (\<Union>i. sys_region s i))"

lemma os_bounded_frame: "frame h h' \<Longrightarrow> os_bounded (system h') = os_bounded (system h)"
  by (simp add: os_bounded_def frame_def sys_region_def)

lemma span_short:
  assumes "ph_inv X h" "os_bounded (system h)" "spans h p = Some s"
  shows "sp_length s < 2 ^ 31"
proof (rule ccontr)
  assume "\<not> ?thesis"
  then have "{sp_start s * kPageSize ..< sp_start s * kPageSize + 2 ^ 44} \<subseteq> bytes_of s"
    by (auto simp: bytes_of_def)
  also have "\<dots> \<subseteq> (\<Union>i. sys_region (system h) i)"
    using geom_span [OF ph_invD(1) [OF assms(1)] assms(3)] unfolding span_ok_def sys_taken_def by blast
  finally show False using assms(2) by (auto simp: os_bounded_def)
qed

lemma extra_pages_eq:
  assumes "n \<le> sp_length s" "sp_length s < 2 ^ 31"
  shows "extra_pages s n = int (sp_length s - n)"
proof -
  have "sp_length s + 2 ^ 64 - n = sp_length s - n + 2 ^ 64" using assms by simp
  then have "(sp_length s + 2 ^ 64 - n) mod 2 ^ 64 = sp_length s - n"
    using assms by (simp only: mod_add_self2) simp
  then show ?thesis
    using assms unfolding extra_pages_def by (simp only: int32_of_nat_small)
qed

lemma split_pages:
  assumes "split_result loc h p s n q h'" "finite (dom (spans h))" "spans h p = Some s" "sp_location s = IN_USE" "L \<noteq> IN_USE"
  shows "loc_pages {} (spans h') L = loc_pages {} (spans h) L + (if loc = L then sp_length s - n else 0)"
proof -
  let ?s = "s\<lparr> sp_length := n \<rparr>" and ?t = "(new_span (sp_start s + n) (sp_length s - n))\<lparr> sp_location := loc \<rparr>"
  have 1: "loc_pages {} ((spans h)(p \<mapsto> ?s)) L = loc_pages {} (spans h) L"
    using loc_pages_upd [OF assms(2), of "{}" p "{}" "Some ?s" L] assms(3-5) by (simp add: contrib_def)
  have "((spans h)(p \<mapsto> ?s)) q = None" using assms(1) by (simp add: split_result_def)
  then have "loc_pages {} ((spans h)(p \<mapsto> ?s, q \<mapsto> ?t)) L = loc_pages {} ((spans h)(p \<mapsto> ?s)) L + (if loc = L then sp_length s - n else 0)"
    using loc_pages_upd [of "(spans h)(p \<mapsto> ?s)" "{}" q "{}" "Some ?t" L] assms(2) by (simp add: contrib_def)
  with 1 assms(1) show ?thesis by (simp add: split_result_def)
qed

lemma pagemap_set_upd: "pagemap_set (upd_span p s h) k v = do { h \<leftarrow> pagemap_set h k v; Some (upd_span p s h) }"
  by (cases "PageMap2_set kPageMapBits (pagemap h) k (Some v)") (simp_all add: pagemap_set_def)

lemma NewSpan_span: "NewSpan h k n = Some (q, h') \<Longrightarrow> spans h' q = Some (new_span k n)"
  by (cases "PHA_New sizeof_Span (system h) (span_allocator h)") (auto simp: NewSpan_def new_span_def)

lemma Split_wpo:
  assumes inv: "ph_inv {} h" "spans h p = Some s" "sp_location s = IN_USE" "0 < n" "n < sp_length s" "lively b 1 h"
    "plain s"
    and bnd: "os_bounded (system h)"
  shows "wpo b (Split h p n) (\<lambda>(q, h'). split_result IN_USE h p s n q h')"
proof -
  let ?t = "new_span (sp_start s + n) (sp_length s - n)"
  have t: "?t = ?t\<lparr> sp_location := IN_USE \<rparr>" by (simp add: new_span_def)
  have ex: "size_t_of_int (extra_pages s n) = sp_length s - n"
    using extra_pages_eq [of n s] span_short [OF inv(1) bnd inv(2)] inv(5) by (simp add: size_t_of_int_def nat_mod_as_int)
  have "Split h p n = do { (q, h) \<leftarrow> NewSpan h (sp_start s + n) (sp_length s - n);
      h \<leftarrow> RecordSpan (upd_span q ?t h) q;
      h \<leftarrow> pagemap_set (upd_span p (s\<lparr> sp_length := n \<rparr>) h) (sp_start s + n - 1) p; Some (q, h) }"
  proof (cases "NewSpan h (sp_start s + n) (sp_length s - n)")
    case (Some x)
    obtain q h1 where x: "x = (q, h1)" by (cases x)
    have "spans h1 q = Some ?t" using NewSpan_span Some x by blast
    then have "upd_span q ?t h1 = h1" by (simp add: fun_upd_idem)
    then show ?thesis
      using inv(2) Some x ex unfolding Split_def pagemap_set_upd by simp
  qed (use inv(2) ex in \<open>simp add: Split_def\<close>)
  with split_wpo [OF inv t] show ?thesis by simp
qed

section \<open>\<open>Carve\<close>\<close>

text \<open>A span of \<open>n\<close> pages was given to the client.\<close>

definition allocd :: "nat \<Rightarrow> PageHeap \<Rightarrow> addr \<Rightarrow> PageHeap \<Rightarrow> bool" where
  "allocd n h p h' \<longleftrightarrow> ph_inv {} h' \<and> inuse_spans h p = None
     \<and> (\<exists>s. inuse_spans h' = (inuse_spans h)(p \<mapsto> s) \<and> sp_length s = n \<and> plain s)
     \<and> imbalance h' = imbalance h \<and> frame h h' \<and> room h \<le> room h' + 1"

lemma allocd_kept: "kept h h1 \<Longrightarrow> allocd n h1 p h' \<Longrightarrow> allocd n h p h'"
  by (auto simp: allocd_def kept_def intro: frame_trans)

lemma RecordSpan_spans: "RecordSpan h p = Some h' \<Longrightarrow> spans h' = spans h"
  unfolding RecordSpan_def pagemap_set_def by (auto split: if_splits bind_splits)

lemma Carve_split:
  assumes "p \<noteq> q" "spans h p = Some s1" "sp_start s' = sp_start s1"
  shows "do { h \<leftarrow> RecordSpan (upd_span q t h) q; h \<leftarrow> PrependToFreeList h q; pagemap_set (upd_span p s' h) k p }
    = do { h \<leftarrow> RecordSpan (upd_span q t h) q; h \<leftarrow> pagemap_set (upd_span p s' h) k p; PrependToFreeList h q }"
proof (cases "RecordSpan (upd_span q t h) q")
  case (Some h3)
  then have "spans h3 = (spans h)(q \<mapsto> t)" using RecordSpan_spans by fastforce
  with assms have "spans h3 q = Some t" "spans h3 p = Some s1" by simp_all
  from Prepend_commute [OF this assms(1,3)] Some show ?thesis by simp
qed simp

lemma carve_rest_wpo:
  assumes inv: "ph_inv {} h" "spans h p = Some s" "sp_location s = IN_USE" "0 < n" "n < sp_length s" "lively b 1 h"
    "plain s" and loc: "loc \<noteq> IN_USE"
  shows "wpo b (do { (q, h) \<leftarrow> NewSpan h (sp_start s + n) (sp_length s - n);
      t \<leftarrow> spans h q;
      h \<leftarrow> RecordSpan (upd_span q (t\<lparr> sp_location := loc \<rparr>) h) q;
      h \<leftarrow> PrependToFreeList h q;
      pagemap_set (upd_span p (s\<lparr> sp_length := n \<rparr>) h) (sp_start s + n - 1) p })
    (\<lambda>h'. ph_inv {} h' \<and> spans h' p = Some (s\<lparr> sp_length := n \<rparr>)
      \<and> inuse_spans h' = (inuse_spans h)(p \<mapsto> s\<lparr> sp_length := n \<rparr>)
      \<and> imbalance h' = imbalance h + (if loc = ON_RETURNED_FREELIST then page_bytes (sp_length s - n) else 0)
      \<and> frame h h' \<and> room h \<le> room h' + 1)" (is "wpo b ?m ?Q")
proof -
  let ?t = "(new_span (sp_start s + n) (sp_length s - n))\<lparr> sp_location := loc \<rparr>"
  let ?split = "do { (q, h) \<leftarrow> NewSpan h (sp_start s + n) (sp_length s - n);
      h \<leftarrow> RecordSpan (upd_span q ?t h) q;
      h \<leftarrow> pagemap_set (upd_span p (s\<lparr> sp_length := n \<rparr>) h) (sp_start s + n - 1) p; Some (q, h) }"
  have eq: "?m = do { (q, h) \<leftarrow> ?split; PrependToFreeList h q }"
  proof (cases "NewSpan h (sp_start s + n) (sp_length s - n)")
    case (Some x)
    obtain q h1 where x: "x = (q, h1)" by (cases x)
    let ?sp = "(spans h)(q \<mapsto> new_span (sp_start s + n) (sp_length s - n))"
    have q0: "spans h q = None" "h1 = h\<lparr> system := system h1, span_allocator := span_allocator h1, spans := ?sp \<rparr>"
      using wpo_partial [OF NewSpan_wpo [OF inv(1,6)] Some] x by auto
    have q: "spans h q = None" "spans h1 = ?sp" using q0(1) by (simp, subst q0(2), simp)
    then have "p \<noteq> q" "spans h1 p = Some s" using inv(2) by auto
    with Carve_split [OF this, of "s\<lparr> sp_length := n \<rparr>" ?t] Some x q(2) show ?thesis by simp
  qed simp
  have "wpo b ?split (\<lambda>x. wpo b (case x of (q, h) \<Rightarrow> PrependToFreeList h q) ?Q)"
  proof (rule wpo_mono [OF split_wpo [OF inv refl, of loc]], goal_cases)
    case (1 x)
    obtain q h1 where x: "x = (q, h1)" by (cases x)
    with 1 have r: "split_result loc h p s n q h1" by simp
    then have r': "ph_inv (insert q {}) h1" "spans h1 = (spans h)(p \<mapsto> s\<lparr> sp_length := n \<rparr>, q \<mapsto> ?t)" "q \<noteq> p" "spans h q = None"
        "frame h h1" "room h \<le> room h1 + 1" "stats h1 = stats h"
      using loc by (simp_all add: split_result_def)
    note pages = split_pages [OF r ph_invD(5) [OF inv(1)] inv(2,3)]
    have q: "spans h1 q = Some ?t" "sp_location ?t \<noteq> IN_USE" "q \<notin> {}" using r'(2) loc by simp_all
    have "wpo b (PrependToFreeList h1 q) ?Q"
    proof (rule wpo_mono [OF PrependToFreeList_wpo [OF r'(1) q]], elim conjE, goal_cases)
      case (1 h2)
      note same = same_spansD [OF 1(2)]
      have "inuse_spans h1 = (inuse_spans h)(p \<mapsto> s\<lparr> sp_length := n \<rparr>)"
        using r'(2-4) inv(3) loc by (auto simp: inuse_spans_def fun_eq_iff)
      moreover have "imbalance h1 = imbalance h + (if loc = ON_RETURNED_FREELIST then page_bytes (sp_length s - n) else 0)"
        using pages [of ON_RETURNED_FREELIST] by (simp add: imbalance_def r'(7) page_bytes_add)
      ultimately show ?case
        using 1 same r' frame_trans by auto
    qed
    then show ?case by (simp add: x)
  qed
  then show ?thesis unfolding eq wpo_bind .
qed

lemma Carve_wpo:
  assumes inv: "ph_inv {} h" "spans h p = Some s" "sp_location s \<noteq> IN_USE" "lively b 1 h"
    and n: "0 < n" "n \<le> sp_length s" and bnd: "os_bounded (system h)"
  shows "wpo b (Carve h p n) (allocd n h p)"
proof -
  note short = span_short [OF inv(1) bnd inv(2)]
  note ex = extra_pages_eq [OF n(2) short]
  let ?s = "s\<lparr> sp_location := IN_USE \<rparr>"
  let ?mid = "\<lambda>h. if 0 < int (sp_length s - n) then
      do { (q, h) \<leftarrow> NewSpan h (sp_start s + n) (sp_length s - n);
           t \<leftarrow> spans h q;
           h \<leftarrow> RecordSpan (upd_span q (t\<lparr> sp_location := sp_location s \<rparr>) h) q;
           h \<leftarrow> PrependToFreeList h q;
           pagemap_set (upd_span p (s\<lparr> sp_location := IN_USE, sp_length := n \<rparr>) h) (sp_start s + n - 1) p }
    else Some h"
  have carve: "Carve h p n = do { h \<leftarrow> RemoveFromFreeList h p; h \<leftarrow> ?mid (upd_span p ?s h);
      if sp_location s = ON_RETURNED_FREELIST then CommitSpan h p else Some h }"
    unfolding Carve_def inv(2) ex Let_def bind.bind_lunit nat_int ..
  have use: "inuse_spans h p = None" using inv(2,3) by (simp add: inuse_spans_def)
  have cls: "plain s" by (rule free_unclassed [OF inv(1-3)])
  show ?thesis
    unfolding carve wpo_bind
  proof (rule wpo_mono [OF RemoveFromFreeList_wpo [OF inv(1-3)]], simp, elim conjE, goal_cases)
    case (1 h1)
    note same = same_spansD [OF 1(2)]
    have sp1: "spans h1 p = Some s" using same(1) inv(2) by simp
    let ?h2 = "upd_span p ?s h1"
    have r: "ph_inv {} ?h2" "frame h1 ?h2" "room ?h2 = room h1" "inuse_spans ?h2 = (inuse_spans h1)(p \<mapsto> ?s)"
        "imbalance ?h2 + (if sp_location s = ON_RETURNED_FREELIST then page_bytes (sp_length s) else 0) = imbalance h1"
      using relocate [OF 1(1) sp1, of ?s "{}"] cls by simp_all
    have fr: "frame h ?h2" using same(4) r(2) frame_trans by blast
    have l2: "lively b 1 ?h2" using lively_mono [OF inv(4) fr] r(3) same(7) by simp
    have "wpo b (?mid ?h2) (\<lambda>h'. ph_inv {} h' \<and> spans h' p = Some (?s\<lparr> sp_length := n \<rparr>)
      \<and> inuse_spans h' = (inuse_spans h)(p \<mapsto> ?s\<lparr> sp_length := n \<rparr>)
      \<and> imbalance h' + (if sp_location s = ON_RETURNED_FREELIST then page_bytes n else 0) = imbalance h
      \<and> frame h h' \<and> room h \<le> room h' + 1)" (is "wpo b _ ?R")
    proof (cases "n < sp_length s")
      case True
      have sp2: "spans ?h2 p = Some ?s" "sp_location ?s = IN_USE" "n < sp_length ?s" "plain ?s" using True cls by simp_all
      have pb: "page_bytes (sp_length s) = page_bytes n + page_bytes (sp_length s - n)"
        using n(2) by (simp flip: page_bytes_add)
      have "wpo b (do { (q, h) \<leftarrow> NewSpan ?h2 (sp_start ?s + n) (sp_length ?s - n);
           t \<leftarrow> spans h q;
           h \<leftarrow> RecordSpan (upd_span q (t\<lparr> sp_location := sp_location s \<rparr>) h) q;
           h \<leftarrow> PrependToFreeList h q;
           pagemap_set (upd_span p (?s\<lparr> sp_length := n \<rparr>) h) (sp_start ?s + n - 1) p }) ?R"
      proof (rule wpo_mono [OF carve_rest_wpo [OF r(1) sp2(1,2) n(1) sp2(3) l2 sp2(4) inv(3)]], elim conjE, goal_cases)
        case (1 h3)
        have "frame h h3" using fr 1(5) frame_trans by blast
        moreover have "inuse_spans h3 = (inuse_spans h)(p \<mapsto> ?s\<lparr> sp_length := n \<rparr>)"
          using 1(3) r(4) same(5) by simp
        moreover have "imbalance h3 + (if sp_location s = ON_RETURNED_FREELIST then page_bytes n else 0) = imbalance h"
          using 1(4) r(5) \<open>imbalance h1 = imbalance h\<close> pb by (auto simp: algebra_simps split: if_splits)
        ultimately show ?case using 1 r(3) same(7) by simp
      qed
      with True show ?thesis by simp
    next
      case False
      with n(2) have len: "sp_length s = n" by simp
      then have "s\<lparr> sp_location := IN_USE, sp_length := n \<rparr> = ?s" by (cases s) simp
      with False len show ?thesis using r same fr \<open>imbalance h1 = imbalance h\<close> by (auto split: if_splits)
    qed
    then have "wpo b (?mid ?h2) (\<lambda>h3. wpo b (if sp_location s = ON_RETURNED_FREELIST then CommitSpan h3 p else Some h3) (allocd n h p))"
    proof (rule wpo_mono, goal_cases)
      case (1 h3)
      then have h3: "ph_inv {} h3" "spans h3 p = Some (?s\<lparr> sp_length := n \<rparr>)"
        "inuse_spans h3 = (inuse_spans h)(p \<mapsto> ?s\<lparr> sp_length := n \<rparr>)" "frame h h3" "room h \<le> room h3 + 1"
        "imbalance h3 + (if sp_location s = ON_RETURNED_FREELIST then page_bytes n else 0) = imbalance h" by auto
      show ?case
      proof (cases "sp_location s = ON_RETURNED_FREELIST")
        case True
        have "wpo b (CommitSpan h3 p) (allocd n h p)"
        proof (rule wpo_mono [OF CommitSpan_wpo [OF h3(1,2)]], elim conjE, goal_cases)
          case (1 h4)
          with same_spansD [OF 1(2)] h3 use cls True show ?case
            by (auto simp: allocd_def intro: frame_trans)
        qed
        with True show ?thesis by simp
      next
        case False
        with h3 use cls show ?thesis by (auto simp: allocd_def)
      qed
    qed
    then show ?case by simp
  qed
qed

section \<open>The search for a free span\<close>

definition alloc_post :: "nat \<Rightarrow> PageHeap \<Rightarrow> addr option \<times> PageHeap \<Rightarrow> bool" where
  "alloc_post n h x \<longleftrightarrow> (case fst x of None \<Rightarrow> kept h (snd x) | Some p \<Rightarrow> allocd n h p (snd x))"

lemma alloc_post_kept: "kept h h1 \<Longrightarrow> alloc_post n h1 x \<Longrightarrow> alloc_post n h x"
  by (auto simp: alloc_post_def intro: kept_trans allocd_kept split: option.splits)

text \<open>What the proofs about allocation assume of the heap.\<close>

definition alloc_pre :: "bool \<Rightarrow> nat \<Rightarrow> PageHeap \<Rightarrow> bool" where
  "alloc_pre b k h \<longleftrightarrow> ph_inv {} h \<and> os_bounded (system h) \<and> lively b k h"

lemma alloc_pre_kept: "alloc_pre b k h \<Longrightarrow> kept h h' \<Longrightarrow> alloc_pre b k h'"
  using kept_lively keptD(1) os_bounded_frame [OF keptD(5)] unfolding alloc_pre_def by blast

lemma carve_post:
  assumes "alloc_pre b 1 h" "spans h p = Some s" "sp_location s \<noteq> IN_USE" "0 < n" "n \<le> sp_length s"
  shows "wpo b (do { h \<leftarrow> Carve h p n; Some (Some p, h) }) (alloc_post n h)"
  using Carve_wpo [of h p s b n] assms by (auto simp: alloc_pre_def alloc_post_def elim!: wpo_mono)

lemma upper_bound_span:
  assumes "ph_inv {} h" "loc \<noteq> IN_USE" "SpanSet_upper_bound (spans h) n (large h loc) = Some p"
  obtains s where "spans h p = Some s" "sp_location s = loc" "n \<le> sp_length s"
proof -
  obtain l where "find (\<lambda>(l, p). n < l \<or> n = l \<and> 0 < start_of (spans h) p) (large h loc) = Some (l, p)"
    using assms(3) by (auto simp: SpanSet_upper_bound_def)
  then have "(l, p) \<in> set (large h loc)" "n \<le> l"
    by (auto simp: find_Some_iff in_set_conv_nth)
  then show ?thesis
    using lists_okD(3) [OF ph_invD(2) [OF assms(1)] assms(2)] that by (auto simp: on_list_def)
qed

lemma EnsureLimit_progress:
  assumes "ph_inv {} h" "lively b k h" "EnsureLimit h n False = Some (False, h)"
  shows "wpo b (EnsureLimit h n True) (\<lambda>(ok, h'). kept h h' \<and> (ok \<longrightarrow> normal_pages h' < normal_pages h))"
proof -
  let ?limit = "of_int (heap_limit_mb h * 1024 * 1024 div 2 ^ kPageShift) :: u64"
  let ?taken = "drop_bit kPageShift (SystemTaken (system h)) - drop_bit kPageShift (unmapped_bytes (stats h))"
  have no: "?limit \<noteq> 0" "\<not> ?taken + of_nat n \<le> ?limit"
    using assms(3) by (simp_all only: EnsureLimit_def Let_def simp_thms if_False option.inject prod.inject split: if_splits)
  have eq: "EnsureLimit h n True = do { (r, h) \<leftarrow> ReleaseAtLeastNPages h (unat (?taken + of_nat n - ?limit));
      Some (?taken - of_nat r + of_nat n \<le> ?limit, h) }"
    using no by (simp only: EnsureLimit_def Let_def if_False simp_thms not_le if_True)
  show ?thesis
    unfolding eq wpo_bind
  proof (rule wpo_mono [OF ReleaseAtLeastNPages_wpo [OF assms(1,2)]], clarify)
    fix r h' assume r: "kept h h'" "r + normal_pages h' \<le> normal_pages h"
    have "r \<noteq> 0" if "?taken - of_nat r + of_nat n \<le> ?limit"
      using that no(2) by (intro notI) simp
    then have "normal_pages h' < normal_pages h" if "?taken - of_nat r + of_nat n \<le> ?limit"
      using that r(2) by (cases r) auto
    with r show "wpo b (Some (?taken - of_nat r + of_nat n \<le> ?limit, h'))
        (\<lambda>(ok, h'). kept h h' \<and> (ok \<longrightarrow> normal_pages h' < normal_pages h))"
      unfolding wpo_Some prod.case by blast
  qed
qed

lemma EnsureLimit_check: "\<exists>ok. EnsureLimit h n False = Some (ok, h)"
  by (auto simp: EnsureLimit_def Let_def)

lemma AllocLarge_wpo:
  assumes "alloc_pre b 1 h" "0 < n"
  shows "wpo b (AllocLarge h n) (alloc_post n h)"
  using assms
proof (induction "normal_pages h" arbitrary: h rule: less_induct)
  case less
  note pre = less.prems(1)
  have inv: "ph_inv {} h" "lively b 1 h" using pre by (auto simp: alloc_pre_def)
  define bn where "bn = SpanSet_upper_bound (spans h) n (large h ON_NORMAL_FREELIST)"
  define place where "place = SpanSet_upper_bound (spans h) n (large h ON_RETURNED_FREELIST)"
  have carve: "wpo b (do { h \<leftarrow> Carve h p n; Some (Some p, h) }) (alloc_post n h)" if "bn = Some p \<or> place = Some p" for p
    using that
  proof
    assume "bn = Some p"
    then obtain s where "spans h p = Some s" "sp_location s = ON_NORMAL_FREELIST" "n \<le> sp_length s"
      unfolding bn_def by (rule upper_bound_span [OF inv(1) location.distinct(2)])
    then show ?thesis using carve_post [OF pre, of p s n] less.prems(2) by simp
  next
    assume "place = Some p"
    then obtain s where "spans h p = Some s" "sp_location s = ON_RETURNED_FREELIST" "n \<le> sp_length s"
      unfolding place_def by (rule upper_bound_span [OF inv(1) location.distinct(4)])
    then show ?thesis using carve_post [OF pre, of p s n] less.prems(2) by simp
  qed
  define best where "best = (case place of None \<Rightarrow> bn
     | Some c \<Rightarrow> (case bn of None \<Rightarrow> Some c | Some b \<Rightarrow> (case (spans h c, spans h b) of
            (Some sc, Some sb) \<Rightarrow> if sp_length sc < sp_length sb \<or> sp_length sc = sp_length sb \<and> sp_start sc < sp_start sb
                then Some c else Some b
          | _ \<Rightarrow> Some b)))"
  have best: "best = bn \<or> best = place \<and> place \<noteq> None"
    by (auto simp: best_def split: option.splits)
  have unfold: "AllocLarge h n = (if best = bn then
           (case best of None \<Rightarrow> Some (None, h) | Some b \<Rightarrow> do { h \<leftarrow> Carve h b n; Some (Some b, h) })
         else do { (ok, h) \<leftarrow> EnsureLimit h n False;
                if ok then do { b \<leftarrow> best; h \<leftarrow> Carve h b n; Some (Some b, h) }
                else do { (ok, h) \<leftarrow> EnsureLimit h n True;
                          if ok then AllocLarge h n else Some (None, h) } })"
    by (subst AllocLarge.simps) (simp only: Let_def best_def bn_def place_def)
  show ?case
  proof (cases "best = bn")
    case True
    have "alloc_post n h (None, h)" using kept_refl [OF inv(1)] by (simp add: alloc_post_def)
    with True carve show ?thesis unfolding unfold by (simp split: option.splits)
  next
    case False
    with best obtain p where p: "best = Some p" "place = Some p" by auto
    obtain ok where ok: "EnsureLimit h n False = Some (ok, h)" using EnsureLimit_check by blast
    show ?thesis
    proof (cases ok)
      case True
      with False ok p carve [of p] show ?thesis unfolding unfold by simp
    next
      case not_ok: False
      have "wpo b (EnsureLimit h n True) (\<lambda>x. wpo b (case x of (ok, h) \<Rightarrow> if ok then AllocLarge h n else Some (None, h))
          (alloc_post n h))"
      proof (rule wpo_mono [OF EnsureLimit_progress [OF inv]], goal_cases)
        case 1
        then show ?case using ok not_ok by simp
      next
        case (2 x)
        obtain ok' h1 where x: "x = (ok', h1)" by (cases x)
        with 2 have h1: "kept h h1" "ok' \<longrightarrow> normal_pages h1 < normal_pages h" by auto
        have "wpo b (AllocLarge h1 n) (alloc_post n h)" if ok'
          using less.hyps [OF _ alloc_pre_kept [OF pre h1(1)] less.prems(2)] h1(2) that
            alloc_post_kept [OF h1(1)] wpo_mono by blast
        with h1(1) show ?case by (simp add: x alloc_post_def)
      qed
      with False ok not_ok show ?thesis unfolding unfold by simp
    qed
  qed
qed

lemma search_lists_wpo:
  assumes "alloc_pre b 1 h" "0 < n" "n \<le> i"
  shows "wpo b (search_lists i h n) (alloc_post n h)"
  using assms
proof (induction "kMaxPages + 1 - i" arbitrary: i h rule: less_induct)
  case less
  note pre = less.prems
  have inv: "ph_inv {} h" "lively b 1 h" using pre(1) by (auto simp: alloc_pre_def)
  show ?case
  proof (cases "i \<le> kMaxPages")
    case False
    then show ?thesis using AllocLarge_wpo [OF pre(1,2)] by (subst search_lists.simps) simp
  next
    case le: True
    have carve: "wpo b (do { h \<leftarrow> Carve h1 p n; Some (Some p, h) }) (alloc_post n h1)"
      if "alloc_pre b 1 h1" "loc \<noteq> IN_USE" "p \<in> set (free h1 loc (i - 1))" for h1 p loc
    proof -
      have "ph_inv {} h1" using that(1) by (simp add: alloc_pre_def)
      from lists_okD(1) [OF ph_invD(2) [OF this] that(2)] that(3)
      obtain s where "on_list {} (spans h1) loc p s" "sp_length s = i - 1 + 1" by blast
      then show ?thesis using carve_post [OF that(1)] pre(2,3) that(2) by (auto simp: on_list_def)
    qed
    show ?thesis
    proof (cases "free h ON_NORMAL_FREELIST (i - 1)")
      case (Cons p ps)
      then have "wpo b (do { h \<leftarrow> Carve h p n; Some (Some p, h) }) (alloc_post n h)"
        by (intro carve [OF pre(1), of ON_NORMAL_FREELIST]) simp_all
      with Cons le show ?thesis by (subst search_lists.simps) simp
    next
      case nil: Nil
      show ?thesis
      proof (cases "free h ON_RETURNED_FREELIST (i - 1) = []")
        case True
        have "wpo b (search_lists (i + 1) h n) (alloc_post n h)" using le pre by (intro less.hyps) simp_all
        with True nil le show ?thesis by (subst search_lists.simps) simp
      next
        case False
        have "wpo b (EnsureLimit h n True) (\<lambda>x. wpo b (case x of (ok, h) \<Rightarrow>
            (case (ok, free h ON_RETURNED_FREELIST (i - 1)) of
               (True, p # _) \<Rightarrow> do { h \<leftarrow> Carve h p n; Some (Some p, h) }
             | _ \<Rightarrow> search_lists (i + 1) h n)) (alloc_post n h))"
        proof (rule wpo_mono [OF EnsureLimit_wpo [OF inv]], goal_cases)
          case (1 x)
          obtain ok h1 where x: "x = (ok, h1)" by (cases x)
          with 1 have h1: "kept h h1" by auto
          note pre1 = alloc_pre_kept [OF pre(1) h1]
          have rec: "wpo b (search_lists (i + 1) h1 n) (alloc_post n h1)"
            using le pre pre1 by (intro less.hyps) simp_all
          show ?case
          proof (cases "ok \<and> free h1 ON_RETURNED_FREELIST (i - 1) \<noteq> []")
            case True
            then obtain p ps where p: "ok" "free h1 ON_RETURNED_FREELIST (i - 1) = p # ps" by (cases "free h1 ON_RETURNED_FREELIST (i - 1)") auto
            then have "wpo b (do { h \<leftarrow> Carve h1 p n; Some (Some p, h) }) (alloc_post n h1)"
              by (intro carve [OF pre1, of ON_RETURNED_FREELIST]) simp_all
            then show ?thesis using p x wpo_mono [OF _ alloc_post_kept [OF h1]] by (simp del: wpo_bind)
          next
            case False
            then show ?thesis
              using x wpo_mono [OF rec alloc_post_kept [OF h1]] by (auto split: list.splits bool.splits)
          qed
        qed
        with False nil le show ?thesis by (subst search_lists.simps) simp
      qed
    qed
  qed
qed

section \<open>The search finds every span that fits\<close>

lemma EnsureLimit_unlimited: "heap_limit_mb h = 0 \<Longrightarrow> EnsureLimit h n w = Some (True, h)"
  by (simp add: EnsureLimit_def)

lemma upper_bound_exists:
  assumes "ph_inv {} h" "spans h p = Some s" "sp_location s \<noteq> IN_USE" "kMaxPages < sp_length s" "n \<le> sp_length s"
  shows "SpanSet_upper_bound (spans h) n (large h (sp_location s)) \<noteq> None"
proof
  assume "SpanSet_upper_bound (spans h) n (large h (sp_location s)) = None"
  moreover have "(sp_length s, p) \<in> set (large h (sp_location s))"
    using lists_okD(3) [OF ph_invD(2) [OF assms(1)] assms(3)] assms(2,4) by (auto simp: on_list_def)
  moreover have "0 < start_of (spans h) p"
    using ph_inv_span [OF assms(1,2)] assms(2) by (simp add: start_of_def)
  ultimately show False
    using assms(5) by (simp add: SpanSet_upper_bound_def find_None_iff) (metis le_neq_implies_less less_numeral_extra(3))
qed

lemma AllocLarge_finds:
  assumes "ph_inv {} h" "heap_limit_mb h = 0" "spans h p = Some s" "sp_location s \<noteq> IN_USE" "kMaxPages < sp_length s"
    "n \<le> sp_length s" "AllocLarge h n = Some (r, h')"
  shows "r \<noteq> None"
proof
  assume r: "r = None"
  have "SpanSet_upper_bound (spans h) n (large h ON_NORMAL_FREELIST) \<noteq> None
      \<or> SpanSet_upper_bound (spans h) n (large h ON_RETURNED_FREELIST) \<noteq> None"
    using upper_bound_exists [OF assms(1,3-6)] assms(4) by (cases "sp_location s") simp_all
  with assms(7) r show False
    by (subst (asm) AllocLarge.simps)
      (auto simp: Let_def EnsureLimit_unlimited [OF assms(2)] split: option.splits if_splits bind_splits)
qed

lemma search_lists_finds:
  assumes "ph_inv {} h" "heap_limit_mb h = 0" "spans h p = Some s" "sp_location s \<noteq> IN_USE"
    "0 < i" "i \<le> sp_length s" "n \<le> sp_length s" "search_lists i h n = Some (r, h')"
  shows "r \<noteq> None"
  using assms(5-8)
proof (induction "kMaxPages + 1 - i" arbitrary: i rule: less_induct)
  case less
  show ?case
  proof (cases "i \<le> kMaxPages")
    case False
    with less.prems have "AllocLarge h n = Some (r, h')" "kMaxPages < sp_length s"
      by (subst (asm) search_lists.simps, simp)+
    from AllocLarge_finds [OF assms(1-4) this(2) less.prems(3) this(1)] show ?thesis .
  next
    case le: True
    show ?thesis
    proof (cases "free h ON_NORMAL_FREELIST (i - 1) = [] \<and> free h ON_RETURNED_FREELIST (i - 1) = []")
      case False
      with le less.prems(4) show ?thesis
        by (subst (asm) search_lists.simps)
          (auto simp: EnsureLimit_unlimited [OF assms(2)] split: list.splits bind_splits if_splits)
    next
      case True
      then have "p \<notin> set (free h (sp_location s) (i - 1))"
        using assms(4) by (cases "sp_location s") auto
      then have "sp_length s \<noteq> i"
        using lists_okD(1) [OF ph_invD(2) [OF assms(1)] assms(4)] assms(3) le less.prems(1) by (auto simp: on_list_def)
      moreover have "search_lists (i + 1) h n = Some (r, h')"
        using True le less.prems(4) by (subst (asm) search_lists.simps) simp
      ultimately show ?thesis
        using le less.prems by (intro less.hyps) simp_all
    qed
  qed
qed

end
