(* ===== verification/PageHeap_New.thy ===== *)
theory PageHeap_New
  imports PageHeap_Alloc
begin

text \<open>
  Growing the heap with memory of the system, and the allocation of spans as a whole:
  \<open>GrowHeap\<close>, \<open>NewLocked\<close>, \<open>NewWithSizeClass\<close>.
\<close>

section \<open>Steps of the system\<close>

lemma ph_inv_sys_step:
  assumes "ph_inv X h" "Alloc s = Alloc (system h)" "alloc_calls (system h) \<le> alloc_calls s"
    "metadata_chunk_alloc s = metadata_chunk_alloc (system h)" "metadata_chunk_avail s = metadata_chunk_avail (system h)"
  shows "ph_inv X (h\<lparr> system := s \<rparr>)"
proof -
  have "GetDescriptor (h\<lparr> system := s \<rparr>) = GetDescriptor h" by (simp add: GetDescriptor_def [abs_def])
  moreover have "pha_ok sizeof_Span (dom (spans h)) (s, span_allocator h)"
    by (rule pha_ok_cong [OF ph_invD(3) [OF assms(1)] assms(2-5)])
  ultimately show ?thesis
    using ph_invD [OF assms(1)] geom_mono [OF _ sys_taken_step [OF assms(2,3)]] by (simp add: ph_inv_def)
qed

text \<open>What the allocator of page map leaves does to the system.\<close>

lemma pagemap_allocator_step:
  assumes "pagemap_allocator s = (ok, s')" "pha_ok n L (s, a)"
  shows "pha_ok n L (s', a)" "Alloc s' = Alloc s" "release_call s' = release_call s" "alloc_calls s \<le> alloc_calls s'"
    "sys_step s s'"
proof -
  obtain r where r: "MetaDataAlloc s (8 * 2 ^ 18) = (r, s')"
    using assms(1) by (auto simp: pagemap_allocator_def split: prod.splits)
  show "pha_ok n L (s', a)" by (rule pha_ok_MetaDataAlloc [OF assms(2) r])
  show "Alloc s' = Alloc s" "release_call s' = release_call s" "alloc_calls s \<le> alloc_calls s'"
    using MetaDataAlloc_frame [OF r] by simp_all
  show "sys_step s s'" by (rule sys_step_MetaDataAlloc [OF r])
qed

definition ensure_frame :: "nat \<Rightarrow> addr set \<Rightarrow> PageHeapAllocator \<Rightarrow> sys \<Rightarrow> (sys, addr) PageMap2 \<Rightarrow> bool" where
  "ensure_frame n L a s pm \<longleftrightarrow> allocator2 pm = pagemap_allocator \<and> pha_ok n L (astate2 pm, a)
     \<and> Alloc (astate2 pm) = Alloc s \<and> release_call (astate2 pm) = release_call s
     \<and> alloc_calls s \<le> alloc_calls (astate2 pm) \<and> sys_step s (astate2 pm)"

lemma make_leaf_frame:
  assumes "ensure_frame n L a s pm"
  shows "ensure_frame n L a s (snd (PageMap2_make_leaf pm i))"
proof (cases "root2 pm i")
  case None
  obtain ok s' where al: "pagemap_allocator (astate2 pm) = (ok, s')" by (cases "pagemap_allocator (astate2 pm)")
  have f: "allocator2 pm = pagemap_allocator" "pha_ok n L (astate2 pm, a)" using assms by (simp_all add: ensure_frame_def)
  from pagemap_allocator_step [OF al f(2)] show ?thesis
    using None f(1) al assms by (cases ok) (auto simp: PageMap2_make_leaf_def PageMap2_allocate_def ensure_frame_def intro: sys_step_trans)
qed (use assms in \<open>simp add: PageMap2_make_leaf_def\<close>)

lemma Ensure_frame:
  assumes "ensure_frame n L a s pm"
  shows "ensure_frame n L a s (snd (PageMap2_Ensure B pm x m))"
  unfolding PageMap2_Ensure_def
  by (rule PageMap2_Ensure_loop_inv [where P = "ensure_frame n L a s"]) (use assms make_leaf_frame in auto)

section \<open>\<open>GrowHeap\<close>\<close>

definition grown :: "PageHeap \<Rightarrow> PageHeap \<Rightarrow> bool" where
  "grown h h' \<longleftrightarrow> ph_inv {} h' \<and> inuse_spans h' = inuse_spans h \<and> imbalance h' = imbalance h
     \<and> frame h h' \<and> room h \<le> room h' + 1"

lemma kept_grown: "kept h h' \<Longrightarrow> grown h h'"
  by (simp add: kept_def grown_def)

lemma kept_grown_trans: "kept h h1 \<Longrightarrow> grown h1 h2 \<Longrightarrow> grown h h2"
  by (auto simp: kept_def grown_def intro: frame_trans)

text \<open>The two attempts to get memory.\<close>

definition got_memory :: "PageHeap \<Rightarrow> nat \<Rightarrow> (addr \<times> nat) option \<times> PageHeap \<Rightarrow> bool" where
  "got_memory h n x \<longleftrightarrow> (case fst x of
     None \<Rightarrow> kept h (snd x)
   | Some (ptr, act) \<Rightarrow> \<exists>h1 ask sy. kept h h1 \<and> n \<le> ask \<and> snd x = h1\<lparr> system := sy \<rparr>
       \<and> TCMalloc_SystemAlloc (system h1) (ask * kPageSize) kPageSize = (Some (ptr, act), sy))"

lemma kept_sys_step:
  assumes "ph_inv {} h" "Alloc s = Alloc (system h)" "alloc_calls (system h) \<le> alloc_calls s"
    "release_call s = release_call (system h)"
    "metadata_chunk_alloc s = metadata_chunk_alloc (system h)" "metadata_chunk_avail s = metadata_chunk_avail (system h)"
  shows "kept h (h\<lparr> system := s \<rparr>)"
  using ph_inv_sys_step [OF assms(1-3,5,6)] sys_step_cong [OF assms(2,3,5,6)] assms
  by (auto simp: kept_def frame_def room_def imbalance_def inuse_spans_def [abs_def] normal_pages_def)

lemma grow_try_wpo:
  assumes "ph_inv {} h" "lively b k h" "n \<le> ask"
  shows "wpo b (grow_try h ask) (got_memory h n)"
  unfolding grow_try_def wpo_bind
proof (rule wpo_mono [OF EnsureLimit_wpo [OF assms(1,2)]], goal_cases)
  case (1 x)
  obtain ok h1 where x: "x = (ok, h1)" by (cases x)
  with 1 have h1: "kept h h1" by auto
  obtain r sy where a: "TCMalloc_SystemAlloc (system h1) (ask * kPageSize) kPageSize = (r, sy)" by force
  have "kept h (h1\<lparr> system := sy \<rparr>)"
    using kept_trans [OF h1 kept_sys_step [OF keptD(1) [OF h1]]] SystemAlloc_frame [OF a] by simp
  with h1 a assms(3) x show ?case
    by (auto simp: got_memory_def split: option.splits)
qed

lemma got_memory_kept: "kept h h1 \<Longrightarrow> got_memory h1 n x \<Longrightarrow> got_memory h n x"
  unfolding got_memory_def by (cases "fst x") (auto 0 4 intro: kept_trans)

lemma grow_tries_wpo:
  assumes "ph_inv {} h" "lively b k h" "n \<le> ask"
  shows "wpo b (do { (r, h) \<leftarrow> grow_try h ask; if r = None \<and> n < ask then grow_try h n else Some (r, h) })
    (got_memory h n)"
  unfolding wpo_bind
proof (rule wpo_mono [OF grow_try_wpo [OF assms]], goal_cases)
  case (1 x)
  obtain r h1 where x: "x = (r, h1)" by (cases x)
  show ?case
  proof (cases "r = None \<and> n < ask")
    case True
    then have k: "kept h h1" using 1 x by (simp add: got_memory_def)
    have "wpo b (grow_try h1 n) (got_memory h n)"
      by (rule wpo_mono [OF grow_try_wpo [OF keptD(1) [OF k] kept_lively [OF k assms(2)] order_refl]])
        (rule got_memory_kept [OF k])
    with True x show ?thesis by simp
  next
    case False
    then show ?thesis using 1 x by auto
  qed
qed

lemma Ensure_35:
  assumes "PageMap2_Ensure kPageMapBits pm x n = (ok, pm')"
  shows "PageMap2_get 35 pm' k = PageMap2_get 35 pm k" "PageMap2_ensured 35 pm k \<Longrightarrow> PageMap2_ensured 35 pm' k"
    "ok \<Longrightarrow> x < 2 ^ 35 \<Longrightarrow> x + n \<le> 2 ^ 64 \<Longrightarrow> x \<le> k \<Longrightarrow> k < x + n \<Longrightarrow> PageMap2_ensured 35 pm' k"
  using pm2.Ensure_get [of pm x n k] pm2.Ensure_mono [of pm k x n] pm2.Ensure_ok [of pm x n k] assms by simp_all

lemma pha_ok_os: "pha_ok n L (s, a) \<Longrightarrow> os_ok s"
  by (auto simp: pha_ok_def meta_inv_def)

text \<open>A new region as a span in use.\<close>

lemma ph_inv_new_span:
  assumes inv: "ph_inv {} h" and q: "spans h q = None" "0 < p" "0 < n"
    and reg: "{p * kPageSize ..< (p + n) * kPageSize} \<subseteq> R" "R \<inter> T = {}" "R \<subseteq> sys_taken (system h')" "T \<subseteq> sys_taken (system h')"
    and old: "geom (spans h) (GetDescriptor h) (pm_ensured h) T"
    and ens: "\<forall>k. p - 1 \<le> k \<and> k \<le> p + n \<longrightarrow> pm_ensured h k"
    and h': "spans h' = (spans h)(q \<mapsto> new_span p n)" "free h' = free h" "large h' = large h" "stats h' = stats h"
      "GetDescriptor h' = (GetDescriptor h)(p \<mapsto> q, p + n - 1 \<mapsto> q)" "pm_ensured h' = pm_ensured h"
      "allocator2 (pagemap h') = allocator2 (pagemap h)"
      "pha_ok sizeof_Span (insert q (dom (spans h))) (system h', span_allocator h')"
  shows "ph_inv {} h'" "imbalance h' = imbalance h" "inuse_spans h' = (inuse_spans h)(q \<mapsto> new_span p n)"
proof -
  have b: "bytes_of (new_span p n) = {p * kPageSize ..< (p + n) * kPageSize}" by (simp add: bytes_of_def)
  have "geom (spans h') (GetDescriptor h') (pm_ensured h') (sys_taken (system h'))"
    unfolding h'(1,5,6)
    by (rule geom_new [OF old q(1) reg(4)]) (use q(2,3) reg b ens in auto)
  moreover have "lists_ok {} (spans h') (free h') (large h') (stats h')"
    unfolding h'(1-4) using q(1) by (intro lists_ok_upd [OF ph_invD(2,5) [OF inv]]) auto
  moreover have "dom (spans h') = insert q (dom (spans h))" by (simp add: h'(1))
  ultimately show "ph_inv {} h'"
    using h'(7,8) ph_invD(4) [OF inv] by (simp add: ph_inv_def)
  have "loc_pages {} (spans h') ON_RETURNED_FREELIST = loc_pages {} (spans h) ON_RETURNED_FREELIST"
    using loc_pages_upd [OF ph_invD(5) [OF inv], of "{}" q "{}" "Some (new_span p n)" ON_RETURNED_FREELIST] q(1)
    by (simp add: h'(1) contrib_def)
  then show "imbalance h' = imbalance h" by (simp add: imbalance_def h'(4))
  show "inuse_spans h' = (inuse_spans h)(q \<mapsto> new_span p n)"
    by (auto simp: inuse_spans_def h'(1) fun_eq_iff)
qed

text \<open>The state before the new span is made.\<close>

lemma grow_ensure:
  assumes inv: "ph_inv {} h1" "TCMalloc_SystemAlloc (system h1) sz al = (r, sy)"
    and ens: "PageMap2_Ensure kPageMapBits ((pagemap h1)\<lparr> astate2 := sy \<rparr>) x n = (ok, pm)"
    and h: "h = h1\<lparr> stats := st, pagemap := pm, system := astate2 pm \<rparr>"
    and st: "free_bytes st = free_bytes (stats h1)" "unmapped_bytes st = unmapped_bytes (stats h1)"
      "system_bytes st = system_bytes (stats h1) + c" "committed_bytes st = committed_bytes (stats h1) + c"
  shows "ph_inv {} h" "kept h1 h" "GetDescriptor h = GetDescriptor h1" "\<And>k. pm_ensured h1 k \<Longrightarrow> pm_ensured h k"
    "sys_taken sy \<subseteq> sys_taken (system h)"
proof -
  let ?pm = "(pagemap h1)\<lparr> astate2 := sy \<rparr>"
  note f = SystemAlloc_frame [OF inv(2)]
  have "pha_ok sizeof_Span (dom (spans h1)) (sy, span_allocator h1)"
    by (rule pha_ok_cong [OF ph_invD(3) [OF inv(1)] f(1,3-5)])
  then have "ensure_frame sizeof_Span (dom (spans h1)) (span_allocator h1) sy ?pm"
    using ph_invD(4) [OF inv(1)] by (simp add: ensure_frame_def)
  from Ensure_frame [OF this, of kPageMapBits x n]
  have fr: "allocator2 pm = pagemap_allocator" "pha_ok sizeof_Span (dom (spans h1)) (astate2 pm, span_allocator h1)"
      "Alloc (astate2 pm) = Alloc sy" "release_call (astate2 pm) = release_call sy" "alloc_calls sy \<le> alloc_calls (astate2 pm)" "sys_step sy (astate2 pm)"
    unfolding ens snd_conv by (simp_all add: ensure_frame_def)
  show taken: "sys_taken sy \<subseteq> sys_taken (system h)"
    using sys_taken_step [OF fr(3,5)] by (simp add: h)
  have t1: "sys_taken (system h1) \<subseteq> sys_taken sy" by (rule sys_taken_step [OF f(1,3)])
  show gd: "GetDescriptor h = GetDescriptor h1"
  proof (rule ext)
    have "PageMap2_get 35 ((pagemap h1)\<lparr> astate2 := sy \<rparr>) k = PageMap2_get 35 (pagemap h1) k" for k
      by (simp add: PageMap2_get_def)
    then show "GetDescriptor h k = GetDescriptor h1 k" for k
      using Ensure_35(1) [OF ens, of k] by (simp add: h GetDescriptor_def)
  qed
  show mono: "pm_ensured h k" if "pm_ensured h1 k" for k
    using Ensure_35(2) [OF ens, of k] that by (simp add: h PageMap2_ensured_def)
  have "geom (spans h) (GetDescriptor h) (pm_ensured h) (sys_taken (system h))"
    unfolding gd using geom_mono [OF geom_ensured [OF ph_invD(1) [OF inv(1)] mono] order_trans [OF t1 taken]] by (simp add: h)
  moreover have "lists_ok {} (spans h) (free h) (large h) (stats h)"
    using lists_ok_stats [OF ph_invD(2) [OF inv(1)] st(1,2)] by (simp add: h)
  ultimately show *: "ph_inv {} h"
    using fr(1,2) by (simp add: ph_inv_def h)
  have "frame h1 h" using f fr sys_step_trans [OF sys_step_cong [OF f(1,3-5)] fr(6)] by (simp add: frame_def h)
  then show "kept h1 h"
    using * st by (simp add: kept_def h room_def imbalance_def inuse_spans_def [abs_def] normal_pages_def)
qed

lemma grow_rest_wpo:
  assumes inv: "ph_inv {} h1" "lively b 1 h1" "0 < ask"
    and mem: "TCMalloc_SystemAlloc (system h1) (ask * kPageSize) kPageSize = (Some (ptr, act), sy)"
  shows "wpo b (grow_rest (h1\<lparr> system := sy \<rparr>) ptr act) (\<lambda>(ok, by, h'). grown h1 h' \<and> (ok \<longrightarrow> free_fit (spans h') ask))"
proof -
  define p where "p = ptr div kPageSize"
  define n where "n = act div kPageSize"
  note r = SystemAlloc_region [OF pha_ok_os [OF ph_invD(3) [OF inv(1)]] mem]
  have dv: "kPageSize dvd ptr" using r(4) by (simp add: kPageSize_def)
  have p: "p * kPageSize = ptr" "0 < p" using dv r(5) by (auto simp: p_def)
  have n: "ask \<le> n" "n * kPageSize \<le> act" using r(3) by (simp_all add: n_def less_eq_div_iff_mult_less_eq)
  obtain ok pm where e: "PageMap2_Ensure kPageMapBits ((pagemap h1)\<lparr> astate2 := sy \<rparr>) (p - 1) (n + 2) = (ok, pm)" by force
  define st where "st = (stats h1)\<lparr> reserve_count := reserve_count (stats h1) + 1,
      commit_count := commit_count (stats h1) + 1, system_bytes := system_bytes (stats h1) + page_bytes n,
      committed_bytes := committed_bytes (stats h1) + page_bytes n,
      total_commit_bytes := total_commit_bytes (stats h1) + page_bytes n,
      total_reserve_bytes := total_reserve_bytes (stats h1) + page_bytes n \<rparr>"
  define h2 where "h2 = h1\<lparr> stats := st, pagemap := pm, system := astate2 pm \<rparr>"
  have rest: "grow_rest (h1\<lparr> system := sy \<rparr>) ptr act = (if ok then
      do { (q, h) \<leftarrow> NewSpan h2 p n; h \<leftarrow> RecordSpan h q; h \<leftarrow> DeleteLocked h q; Some (True, n * kPageSize, h) }
    else Some (False, n * kPageSize, h2))"
    unfolding grow_rest_def Let_def h2_def st_def using e
    by (simp add: p_def n_def PageMap2_PreallocateMoreMemory_def)
  note g = grow_ensure [OF inv(1) mem e h2_def, of "page_bytes n"]
  have st: "free_bytes st = free_bytes (stats h1)" "unmapped_bytes st = unmapped_bytes (stats h1)"
      "system_bytes st = system_bytes (stats h1) + page_bytes n" "committed_bytes st = committed_bytes (stats h1) + page_bytes n"
    by (simp_all add: st_def)
  note h2 = g [OF st]
  note l2 = kept_lively [OF h2(2) inv(2)]
  show ?thesis
  proof (cases ok)
    case False
    then show ?thesis unfolding rest using kept_grown [OF h2(2)] by simp
  next
    case True
    have "p + n \<le> 2 ^ 35"
    proof -
      have "(p + n) * kPageSize \<le> 2 ^ 35 * kPageSize" using p(1) n(2) r(6) by (simp add: add_mult_distrib)
      then show ?thesis by simp
    qed
    then have ens: "\<forall>k. p - 1 \<le> k \<and> k \<le> p + n \<longrightarrow> pm_ensured h2 k"
      using Ensure_35(3) [OF e True] p(2) n(1) inv(3) by (simp add: h2_def)
    have reg: "{p * kPageSize ..< (p + n) * kPageSize} \<subseteq> sys_region (system h1) (alloc_calls (system h1))"
      using r(1) n(2) p(1) by (auto simp: add_mult_distrib)
    have fresh: "sys_region (system h1) (alloc_calls (system h1)) \<inter> sys_taken (system h1) = {}"
      by (rule sys_region_fresh [OF pha_ok_os [OF ph_invD(3) [OF inv(1)]]])
    have ty: "sys_taken sy = sys_taken (system h1) \<union> sys_region (system h1) (alloc_calls (system h1))"
      by (rule sys_taken_Suc [OF SystemAlloc_frame(1) [OF mem] r(2)])
    have "wpo b (NewSpan h2 p n) (\<lambda>x. wpo b (case x of (q, h) \<Rightarrow>
        do { h \<leftarrow> RecordSpan h q; h \<leftarrow> DeleteLocked h q; Some (True, n * kPageSize, h) })
      (\<lambda>(ok, by, h'). grown h1 h' \<and> (ok \<longrightarrow> free_fit (spans h') ask)))"
    proof (rule wpo_mono [OF NewSpan_wpo [OF h2(1) l2]], goal_cases)
      case (1 x)
      obtain q h3 where x: "x = (q, h3)" by (cases x)
      from 1 x have q: "spans h2 q = None"
          "h3 = h2\<lparr> system := system h3, span_allocator := span_allocator h3, spans := (spans h2)(q \<mapsto> new_span p n) \<rparr>"
          "pha_ok sizeof_Span (insert q (dom (spans h2))) (system h3, span_allocator h3)"
          "frame h2 h3" "sys_taken (system h2) \<subseteq> sys_taken (system h3)" "room h2 \<le> room h3 + 1" by auto
      have f3: "spans h3 = (spans h2)(q \<mapsto> new_span p n)" "pagemap h3 = pagemap h2" "free h3 = free h2"
          "large h3 = large h2" "stats h3 = stats h2"
        by (subst q(2), simp)+
      have "wpo b (RecordSpan h3 q) (\<lambda>h4. wpo b (do { h \<leftarrow> DeleteLocked h4 q; Some (True, n * kPageSize, h) })
        (\<lambda>(ok, by, h'). grown h1 h' \<and> (ok \<longrightarrow> free_fit (spans h') ask)))"
      proof (rule wpo_mono [OF RecordSpan_wpo [of h3 q "new_span p n"]], goal_cases)
        case (5 h4)
        then have h4: "h4 = h3\<lparr> pagemap := pagemap h4 \<rparr>"
          "GetDescriptor h4 = (GetDescriptor h3)(p \<mapsto> q, p + n - 1 \<mapsto> q)" "pm_ensured h4 = pm_ensured h3"
          "allocator2 (pagemap h4) = allocator2 (pagemap h3)" by simp_all
        have f4: "spans h4 = (spans h2)(q \<mapsto> new_span p n)" "free h4 = free h2" "large h4 = large h2" "stats h4 = stats h2"
            "system h4 = system h3" "span_allocator h4 = span_allocator h3"
          by (subst h4(1), simp add: f3)+
        have gd: "GetDescriptor h4 = (GetDescriptor h2)(p \<mapsto> q, p + n - 1 \<mapsto> q)"
          using h4(2) f3(2) by (simp add: GetDescriptor_def [abs_def])
        have old: "geom (spans h2) (GetDescriptor h2) (pm_ensured h2) (sys_taken (system h1))"
          using geom_ensured [OF ph_invD(1) [OF inv(1)] h2(4)] unfolding h2(3) by (simp add: h2_def)
        have t4: "sys_region (system h1) (alloc_calls (system h1)) \<subseteq> sys_taken (system h4)"
            "sys_taken (system h1) \<subseteq> sys_taken (system h4)"
          using h2(5) q(5) ty by (auto simp: f4)
        have pha4: "pha_ok sizeof_Span (insert q (dom (spans h2))) (system h4, span_allocator h4)"
          using q(3) by (simp add: f4)
        have n0: "0 < n" using n(1) inv(3) by simp
        have e4: "pm_ensured h4 = pm_ensured h2" "allocator2 (pagemap h4) = allocator2 (pagemap h2)"
          using h4(3,4) f3(2) by simp_all
        note new = ph_inv_new_span [OF h2(1) q(1) p(2) n0 reg fresh t4 old ens f4(1-4) gd e4 pha4]
        have fr4: "frame h3 h4" unfolding frame_def f4(5) by (intro conjI; (subst h4(1))?) simp_all
        have fr: "frame h1 h4" using keptD(5) [OF h2(2)] q(4) fr4 by (blast intro: frame_trans)
        have room4: "room h4 = room h3" by (rule room_frame [OF fr4 f4(6)])
        have l4: "lively b 0 h4" using lively_mono [OF inv(2) fr, of 0] keptD(6) [OF h2(2)] q(6) room4 by simp
        have sp4: "spans h4 q = Some (new_span p n)" by (simp add: f4)
        have use: "inuse_spans h1 q = None" using q(1) by (simp add: inuse_spans_def h2_def)
        show ?case
          unfolding wpo_bind
        proof (rule wpo_mono [OF DeleteLocked_wpo [OF new(1) sp4 _ l4]], goal_cases)
          case (2 h5)
          then have "grown h1 h5"
            using new(2,3) keptD [OF h2(2)] fr room4 q(6) use
            by (auto simp: grown_def fun_upd_idem intro: frame_trans)
          moreover have "free_fit (spans h5) ask"
            using 2 n(1) by (auto simp: free_fit_def intro: order_trans)
          ultimately show ?case by simp
        qed simp
      qed (use f3 n(1) inv(3) ens in simp_all)
      then show ?case by (simp add: x)
    qed
    with True show ?thesis unfolding rest by simp
  qed
qed

lemma GrowHeap_wpo:
  assumes inv: "ph_inv {} h" "lively b 1 h" "0 < n"
  shows "wpo b (GrowHeap h n) (\<lambda>(ok, by, h'). grown h h' \<and> (ok \<longrightarrow> free_fit (spans h') n))"
proof (cases "n > kMaxValidPages")
  case True
  then show ?thesis using kept_grown [OF kept_refl [OF inv(1)]] by (simp add: GrowHeap_def)
next
  case False
  let ?ask = "if n > kMinSystemAlloc then n else kMinSystemAlloc"
  let ?tries = "do { (r, h) \<leftarrow> grow_try h ?ask; if r = None \<and> n < ?ask then grow_try h n else Some (r, h) }"
  have "wpo b ?tries (\<lambda>x. wpo b (case x of (r, h) \<Rightarrow> (case r of
             None \<Rightarrow> Some (False, 0, h) | Some (ptr, actual_size) \<Rightarrow> grow_rest h ptr actual_size))
      (\<lambda>(ok, by, h'). grown h h' \<and> (ok \<longrightarrow> free_fit (spans h') n)))"
  proof (rule wpo_mono [OF grow_tries_wpo [OF inv(1,2)]], goal_cases)
    case (2 x)
    obtain r h1 where x: "x = (r, h1)" by (cases x)
    show ?case
    proof (cases r)
      case None
      then show ?thesis using 2 x kept_grown by (simp add: got_memory_def)
    next
      case (Some m)
      obtain ptr act where m: "m = (ptr, act)" by (cases m)
      from 2 x Some m obtain h2 ask sy where h2: "kept h h2" "n \<le> ask" "h1 = h2\<lparr> system := sy \<rparr>"
          "TCMalloc_SystemAlloc (system h2) (ask * kPageSize) kPageSize = (Some (ptr, act), sy)"
        by (auto simp: got_memory_def)
      have "0 < ask" using h2(2) inv(3) by simp
      from grow_rest_wpo [OF keptD(1) [OF h2(1)] kept_lively [OF h2(1) inv(2)] this h2(4)]
      have "wpo b (grow_rest h1 ptr act) (\<lambda>(ok, by, h'). grown h h' \<and> (ok \<longrightarrow> free_fit (spans h') n))"
        unfolding h2(3) by (rule wpo_mono) (use h2(2) kept_grown_trans [OF h2(1)] in \<open>auto simp: free_fit_def intro: order_trans\<close>)
      then show ?thesis by (simp add: x Some m)
    qed
  qed simp
  with False show ?thesis unfolding GrowHeap_def Let_def by simp
qed

section \<open>\<open>NewLocked\<close>\<close>

definition new_post :: "nat \<Rightarrow> PageHeap \<Rightarrow> addr option \<Rightarrow> PageHeap \<Rightarrow> bool" where
  "new_post n h r h' \<longleftrightarrow> ph_inv {} h' \<and> imbalance h' = imbalance h \<and> frame h h' \<and> room h \<le> room h' + 2
     \<and> (case r of
          None \<Rightarrow> inuse_spans h' = inuse_spans h
        | Some p \<Rightarrow> inuse_spans h p = None \<and> (\<exists>s. inuse_spans h' = (inuse_spans h)(p \<mapsto> s) \<and> sp_length s = n
            \<and> plain s))"

lemma alloc_new_post: "alloc_post n h (r, h') \<Longrightarrow> new_post n h r h'"
  by (cases r) (auto simp: alloc_post_def new_post_def kept_def allocd_def)

lemma new_post_grown: "grown h h1 \<Longrightarrow> alloc_post n h1 (r, h') \<Longrightarrow> new_post n h r h'"
  by (cases r) (auto simp: alloc_post_def new_post_def kept_def allocd_def grown_def intro: frame_trans)

lemma alloc_pre_grown:
  assumes "alloc_pre b 2 h" "grown h h'"
  shows "alloc_pre b 1 h'"
proof -
  have "lively b 1 h'" by (rule lively_mono [of b 2 h]) (use assms in \<open>auto simp: alloc_pre_def grown_def\<close>)
  with assms os_bounded_frame show ?thesis by (auto simp: alloc_pre_def grown_def)
qed

lemma alloc_pre_less: "alloc_pre b k h \<Longrightarrow> j \<le> k \<Longrightarrow> alloc_pre b j h"
  by (auto simp: alloc_pre_def lively_def)

lemma Search_wpo:
  assumes "alloc_pre b 1 h" "0 < n"
  shows "wpo b (SearchFreeAndLargeLists h n) (\<lambda>(r, h'). alloc_post n h (r, h')
    \<and> (heap_limit_mb h = 0 \<and> r = None \<longrightarrow> \<not> free_fit (spans h) n))"
proof -
  have "wpo b (SearchFreeAndLargeLists h n) (\<lambda>(r, h'). heap_limit_mb h = 0 \<and> r = None \<longrightarrow> \<not> free_fit (spans h) n)
      \<or> SearchFreeAndLargeLists h n = None"
    using search_lists_finds [of h _ _ n n] assms
    by (cases "SearchFreeAndLargeLists h n") (auto simp: SearchFreeAndLargeLists_def alloc_pre_def free_fit_def)
  with search_lists_wpo [OF assms order_refl] show ?thesis
    by (cases "search_lists n h n") (auto simp: SearchFreeAndLargeLists_def)
qed

lemma NewLocked_wpo:
  assumes pre: "alloc_pre b 2 h" "0 < n" "n = RoundUpSize h n0"
  shows "wpo b (NewLocked h n0) (\<lambda>(r, by, h'). new_post n h r h'
    \<and> (heap_limit_mb h = 0 \<and> r = None \<longrightarrow> \<not> free_fit (spans h) n))"
proof -
  let ?Q = "\<lambda>(r, by :: nat, h'). new_post n h r h' \<and> (heap_limit_mb h = 0 \<and> r = None \<longrightarrow> \<not> free_fit (spans h) n)"
  have grow: "wpo b (do { (grown, by, h) \<leftarrow> GrowHeap h2 n;
      if grown then do { (r, h) \<leftarrow> SearchFreeAndLargeLists h n; Some (r, by, h) } else Some (None, by, h) }) ?Q"
    if k: "kept h h2" and nf: "heap_limit_mb h = 0 \<longrightarrow> \<not> free_fit (spans h) n" for h2
    unfolding wpo_bind
  proof (rule wpo_mono [OF GrowHeap_wpo [of h2]], goal_cases)
    case 1 show ?case using keptD(1) [OF k] .
  next
    case 2 show ?case using alloc_pre_less [OF alloc_pre_kept [OF pre(1) k], of 1] by (simp add: alloc_pre_def)
  next
    case 3 show ?case using pre(2) .
  next
    case (4 x)
    obtain ok bytes h3 where x: "x = (ok, bytes, h3)" by (cases x)
    with 4 have g: "grown h h3" using kept_grown_trans [OF k] by simp
    have "wpo b (do { (r, h) \<leftarrow> SearchFreeAndLargeLists h3 n; Some (r, bytes, h) }) ?Q"
      unfolding wpo_bind
      by (rule wpo_mono [OF Search_wpo [OF alloc_pre_grown [OF pre(1) g] pre(2)]]) (use new_post_grown [OF g] nf in auto)
    moreover have "new_post n h None h3"
      using g by (simp add: new_post_def grown_def)
    ultimately show ?case using x nf by simp
  qed
  have pre1: "alloc_pre b 1 h" using alloc_pre_less [OF pre(1), of 1] by simp
  show ?thesis
    unfolding NewLocked_def Let_def pre(3) [symmetric] wpo_bind
  proof (rule wpo_mono [OF Search_wpo [OF pre1 pre(2)]], goal_cases)
    case (1 x)
    obtain r h1 where x: "x = (r, h1)" by (cases x)
    with 1 have s1: "alloc_post n h (r, h1)" "heap_limit_mb h = 0 \<and> r = None \<longrightarrow> \<not> free_fit (spans h) n" by auto
    show ?case
    proof (cases "r = None")
      case False
      then show ?thesis using x alloc_new_post [OF s1(1)] by auto
    next
      case True
      then have k1: "kept h h1" and nf: "heap_limit_mb h = 0 \<longrightarrow> \<not> free_fit (spans h) n"
        using s1 by (auto simp: alloc_post_def)
      note p1 = alloc_pre_kept [OF pre1 k1]
      have i1: "ph_inv {} h1" "lively b 1 h1" using p1 by (auto simp: alloc_pre_def)
      have again: "wpo b (do { (_, h) \<leftarrow> ReleaseAtLeastNPages h1 (2 ^ 31 - 1); SearchFreeAndLargeLists h n })
          (\<lambda>x. wpo b (case x of (r, h) \<Rightarrow> if r \<noteq> None then Some (r, 0, h)
             else do { (grown, by, h) \<leftarrow> GrowHeap h n;
                if grown then do { (r, h) \<leftarrow> SearchFreeAndLargeLists h n; Some (r, by, h) } else Some (None, by, h) }) ?Q)"
        unfolding wpo_bind
      proof (rule wpo_mono [OF ReleaseAtLeastNPages_wpo [OF i1]], goal_cases)
        case (1 y)
        obtain m h2 where y: "y = (m, h2)" by (cases y)
        with 1 have k2: "kept h h2" using kept_trans [OF k1] by auto
        have "wpo b (SearchFreeAndLargeLists h2 n) (\<lambda>x. wpo b (case x of (r, h) \<Rightarrow> if r \<noteq> None then Some (r, 0, h)
             else do { (grown, by, h) \<leftarrow> GrowHeap h n;
                if grown then do { (r, h) \<leftarrow> SearchFreeAndLargeLists h n; Some (r, by, h) } else Some (None, by, h) }) ?Q)"
        proof (rule wpo_mono [OF Search_wpo [OF alloc_pre_kept [OF pre1 k2] pre(2)]], goal_cases)
          case (1 z)
          obtain r h3 where z: "z = (r, h3)" by (cases z)
          with 1 have p3: "alloc_post n h (r, h3)" using alloc_post_kept [OF k2] by auto
          show ?case
          proof (cases "r = None")
            case True
            then have "kept h h3" using p3 by (simp add: alloc_post_def)
            from grow [OF this nf] True z show ?thesis by simp
          qed (use z alloc_new_post [OF p3] in auto)
        qed
        then show ?case by (simp add: y)
      qed
      from again grow [OF k1 nf] True x show ?thesis
        unfolding x prod.case wpo_bind by (simp only: wpo_bind wpo_Some simp_thms if_False if_True prod.case split: if_split)
    qed
  qed
qed

section \<open>\<open>NewWithSizeClass\<close>\<close>

text \<open>Any page of a span may be mapped to it.\<close>

lemma geom_interior:
  assumes "geom sp g e T" "sp p = Some s" "k \<in> pages_of s"
  shows "geom sp (g(k \<mapsto> p)) e T"
proof -
  have "span_ok r u (g(k \<mapsto> p)) e T" if "sp r = Some u" for r u
  proof (cases "r = p")
    case True
    with that assms(2) have "u = s" by simp
    with True geom_span [OF assms(1,2)] show ?thesis by (auto simp: span_ok_def)
  next
    case False
    from geom_disjoint [OF assms(1) that assms(2) False] assms(3)
    show ?thesis by (intro span_ok_upd [OF geom_span [OF assms(1) that]]) auto
  qed
  moreover have "\<exists>q s. sp q = Some s \<and> j \<in> pages_of s" if j: "(g(k \<mapsto> p)) j = Some r" for j r
    using assms(2,3) geom_covered [OF assms(1), of j r] j by (auto split: if_splits)
  ultimately show ?thesis
    using assms(1) unfolding geom_def by blast
qed

lemma register_loop_wpo:
  assumes "ph_inv X h" "spans h p = Some s" "set is \<subseteq> {..<sp_length s}"
  shows "wpo b (foldl (\<lambda>r i. do { h \<leftarrow> r; pagemap_set h (sp_start s + i) p }) (Some h) is)
    (\<lambda>h'. ph_inv X h' \<and> h' = h\<lparr> pagemap := pagemap h' \<rparr>
      \<and> (\<forall>k. GetDescriptor h' k = (if k \<in> (\<lambda>i. sp_start s + i) ` set is then Some p else GetDescriptor h k)))"
  using assms(3)
proof (induction "is" rule: rev_induct)
  case Nil
  then show ?case using assms(1) by simp
next
  case (snoc i js)
  then have IH: "wpo b (foldl (\<lambda>r i. do { h \<leftarrow> r; pagemap_set h (sp_start s + i) p }) (Some h) js)
    (\<lambda>h'. ph_inv X h' \<and> h' = h\<lparr> pagemap := pagemap h' \<rparr>
      \<and> (\<forall>k. GetDescriptor h' k = (if k \<in> (\<lambda>i. sp_start s + i) ` set js then Some p else GetDescriptor h k)))"
    and i: "i < sp_length s" by auto
  show ?case
    unfolding foldl_append foldl_Cons foldl_Nil wpo_bind
  proof (rule wpo_mono [OF IH], elim conjE, goal_cases)
    case (1 h1)
    have f1: "spans h1 = spans h" by (subst 1(2)) simp
    then have sp1: "spans h1 p = Some s" using assms(2) by simp
    note g1 = ph_invD(1) [OF 1(1)]
    have k: "sp_start s + i \<in> pages_of s" using i by (simp add: pages_of_def)
    have "pm_ensured h1 (sp_start s + i)"
      using geom_span [OF g1 sp1] i by (simp add: span_ok_def)
    note step = pagemap_set_wpo [OF this]
    show ?case
    proof (rule wpo_mono [OF step], elim conjE, goal_cases)
      case (1 h2)
      have f2: "spans h2 = spans h1" "system h2 = system h1" "free h2 = free h1" "large h2 = large h1" "stats h2 = stats h1"
          "span_allocator h2 = span_allocator h1" by (subst 1(1), simp)+
      have "ph_inv X h2"
        using geom_interior [OF g1 sp1 k] ph_invD [OF \<open>ph_inv X h1\<close>] unfolding ph_inv_def f2 1(2-4) by simp
      moreover have "h2 = h\<lparr> pagemap := pagemap h2 \<rparr>"
        using 1(1) \<open>h1 = _\<close> by (metis PageHeap.surjective PageHeap.update_convs(2))
      ultimately show ?case using 1(2) \<open>\<forall>k. GetDescriptor h1 k = _\<close> by simp
    qed
  qed
qed

text \<open>The size class of a span may be set before its pages are mapped to it.\<close>

lemma register_loop_upd:
  "foldl (\<lambda>r i. do { h \<leftarrow> r; pagemap_set h (j + i) p }) (Some (upd_span q u h)) is
   = do { h \<leftarrow> foldl (\<lambda>r i. do { h \<leftarrow> r; pagemap_set h (j + i) p }) (Some h) is; Some (upd_span q u h) }"
proof (induction "is" rule: rev_induct)
  case (snoc i js)
  show ?case
    unfolding foldl_append foldl_Cons foldl_Nil snoc
    by (cases "foldl (\<lambda>r i. do { h \<leftarrow> r; pagemap_set h (j + i) p }) (Some h) js")
      (simp_all only: bind.bind_lunit bind.bind_lzero pagemap_set_upd)
qed (simp only: foldl_Nil bind.bind_lunit)

lemma classed_span:
  assumes "ph_inv X h" "spans h p = Some s" "sp_location s = IN_USE" "\<forall>k \<in> pages_of s. GetDescriptor h k = Some p"
  shows "ph_inv X (upd_span p (s\<lparr> sp_sizeclass := c \<rparr>) h)"
    "imbalance (upd_span p (s\<lparr> sp_sizeclass := c \<rparr>) h) = imbalance h"
    "inuse_spans (upd_span p (s\<lparr> sp_sizeclass := c \<rparr>) h) = (inuse_spans h)(p \<mapsto> s\<lparr> sp_sizeclass := c \<rparr>)"
proof -
  let ?s = "s\<lparr> sp_sizeclass := c \<rparr>"
  note d = ph_invD [OF assms(1)]
  have gd: "GetDescriptor (upd_span p ?s h) = GetDescriptor h" by (simp add: GetDescriptor_def [abs_def])
  have pg: "pages_of ?s = pages_of s" "bytes_of ?s = bytes_of s" by (simp_all add: pages_of_def bytes_of_def)
  have ok: "span_ok p ?s (GetDescriptor h) (pm_ensured h) (sys_taken (system h))"
    using geom_span [OF d(1) assms(2)] assms(3,4) unfolding span_ok_def pg by simp
  have "geom ((spans h)(p \<mapsto> ?s)) (GetDescriptor h) (pm_ensured h) (sys_taken (system h))"
    by (rule geom_replace [OF d(1) assms(2) pg(1) ok])
  moreover have "lists_ok X ((spans h)(p \<mapsto> ?s)) (free h) (large h) (stats h)"
    using assms by (intro lists_ok_upd [OF d(2,5)]) auto
  moreover have "dom ((spans h)(p \<mapsto> ?s)) = dom (spans h)" using assms(2) by auto
  ultimately show "ph_inv X (upd_span p ?s h)" using d unfolding ph_inv_def gd by simp
  show "imbalance (upd_span p ?s h) = imbalance h"
    using loc_pages_upd [OF d(5), of "{}" p "{}" "Some ?s" ON_RETURNED_FREELIST] assms(2,3)
    by (simp add: contrib_def imbalance_def)
  show "inuse_spans (upd_span p ?s h) = (inuse_spans h)(p \<mapsto> ?s)"
    using assms(3) by (auto simp: inuse_spans_def fun_eq_iff)
qed

text \<open>The part of \<open>frame\<close> that the whole allocation keeps.\<close>

definition settings :: "PageHeap \<Rightarrow> PageHeap \<Rightarrow> bool" where
  "settings h h' \<longleftrightarrow> smallest_span_size h' = smallest_span_size h \<and> aggressive_decommit h' = aggressive_decommit h
     \<and> heap_limit_mb h' = heap_limit_mb h \<and> release_rate h' = release_rate h
     \<and> Alloc (system h') = Alloc (system h) \<and> release_call (system h') = release_call (system h)
     \<and> sys_step (system h) (system h')"

lemma frame_settings: "frame h h' \<Longrightarrow> settings h h'"
  by (simp add: frame_def settings_def)

lemma frame_cache: "frame h h' \<Longrightarrow> pagemap_cache h' = pagemap_cache h"
  by (simp add: frame_def)

text \<open>The result of an allocation for the clients of the page heap.\<close>

definition span_given :: "nat \<Rightarrow> nat \<Rightarrow> PageHeap \<Rightarrow> addr \<Rightarrow> PageHeap \<Rightarrow> bool" where
  "span_given n sc h p h' \<longleftrightarrow> inuse_spans h p = None
     \<and> (\<exists>s. inuse_spans h' = (inuse_spans h)(p \<mapsto> s) \<and> sp_length s = n
          \<and> sp_sizeclass s = sc mod 256 \<and> \<not> sp_sample s \<and> pagemap_cache h' = Invalidate (pagemap_cache h) (of_nat (sp_start s))
          \<and> (sc \<noteq> 0 \<longrightarrow> (\<forall>k \<in> pages_of s. GetDescriptor h' k = Some p))
          \<and> GetDescriptor h' (sp_start s) = Some p
          \<and> TryGetSizeClass h' (sp_start s) = None)"

text \<open>Changes outside the invariant.\<close>

lemma ph_inv_cache: "ph_inv X (h\<lparr> pagemap_cache := c \<rparr>) = ph_inv X h"
  by (simp add: ph_inv_def GetDescriptor_def [abs_def])

lemma client_view_simps [simp]:
  "inuse_spans (h\<lparr> pagemap_cache := c \<rparr>) = inuse_spans h" "imbalance (h\<lparr> pagemap_cache := c \<rparr>) = imbalance h"
  "settings g (h\<lparr> pagemap_cache := c \<rparr>) = settings g h" "GetDescriptor (h\<lparr> pagemap_cache := c \<rparr>) = GetDescriptor h"
  "room (h\<lparr> pagemap_cache := c \<rparr>) = room h"
  by (simp_all add: inuse_spans_def [abs_def] GetDescriptor_def [abs_def] imbalance_def settings_def room_def)

lemma settings_trans: "settings h1 h2 \<Longrightarrow> settings h2 h3 \<Longrightarrow> settings h1 h3"
  by (auto simp: settings_def intro: sys_step_trans)

lemma lively_settings: "lively b k h \<Longrightarrow> settings h h' \<Longrightarrow> k' + room h \<le> k + room h' \<Longrightarrow> lively b k' h'"
  by (auto simp: lively_def settings_def release_fair_def)

text \<open>Another allocator takes metadata.\<close>

lemma ph_inv_meta:
  assumes "ph_inv X h" "PHA_New m (system h) b = Some (p, s, b')"
  shows "ph_inv X (h\<lparr> system := s \<rparr>)" "settings h (h\<lparr> system := s \<rparr>)"
proof -
  note f = PHA_New_frame [OF assms(2)]
  have "GetDescriptor (h\<lparr> system := s \<rparr>) = GetDescriptor h" by (simp add: GetDescriptor_def [abs_def])
  then show "ph_inv X (h\<lparr> system := s \<rparr>)"
    using ph_invD [OF assms(1)] geom_mono [OF _ sys_taken_step [OF f(1,3)]] pha_ok_other [OF _ assms(2)]
    by (simp add: ph_inv_def)
  show "settings h (h\<lparr> system := s \<rparr>)" using f sys_step_New [OF assms(2)] by (simp add: settings_def)
qed

text \<open>The end of an operation, when the lock is given back.\<close>

definition unlocked :: "PageHeap \<Rightarrow> PageHeap \<Rightarrow> bool" where
  "unlocked h h' \<longleftrightarrow> h' = h\<lparr> system := system h', stacktrace_allocator := stacktrace_allocator h', growth_stacks := growth_stacks h' \<rparr>"

lemma unlockedD:
  assumes "unlocked h h'"
  shows "inuse_spans h' = inuse_spans h" "GetDescriptor h' = GetDescriptor h" "TryGetSizeClass h' = TryGetSizeClass h"
    "imbalance h' = imbalance h" "pagemap_cache h' = pagemap_cache h" "span_given n sc g p h' = span_given n sc g p h"
proof -
  have f: "spans h' = spans h" "pagemap h' = pagemap h" "pagemap_cache h' = pagemap_cache h" "stats h' = stats h"
    by (subst assms [unfolded unlocked_def], simp)+
  show v: "inuse_spans h' = inuse_spans h" "GetDescriptor h' = GetDescriptor h" "TryGetSizeClass h' = TryGetSizeClass h"
      "imbalance h' = imbalance h" "pagemap_cache h' = pagemap_cache h"
    by (simp_all add: inuse_spans_def [abs_def] GetDescriptor_def [abs_def] TryGetSizeClass_def [abs_def] imbalance_def f)
  show "span_given n sc g p h' = span_given n sc g p h" by (simp only: span_given_def v)
qed

lemma HandleUnlock_wpo:
  assumes "ph_inv X h" "lively b 1 h"
  shows "wpo b (HandleUnlock h n) (\<lambda>h'. ph_inv X h' \<and> unlocked h h' \<and> settings h h' \<and> room h \<le> room h' + 1)"
proof (cases "n = 0")
  case True
  then show ?thesis using assms by (simp add: HandleUnlock_def unlocked_def settings_def)
next
  case False
  show ?thesis
  proof (cases "PHA_New sizeof_StackTrace (system h) (stacktrace_allocator h)")
    case None
    with objects_left_pos [of sizeof_StackTrace "stacktrace_allocator h" "system h"] assms(2) False show ?thesis
      by (auto simp: HandleUnlock_def lively_def room_def)
  next
    case (Some x)
    then obtain t s a where N: "PHA_New sizeof_StackTrace (system h) (stacktrace_allocator h) = Some (t, s, a)"
      by (cases x) auto
    let ?h = "h\<lparr> system := s \<rparr>" and ?h' = "h\<lparr> system := s, stacktrace_allocator := a, growth_stacks := (t, n) # growth_stacks h \<rparr>"
    note m = ph_inv_meta [OF assms(1) N]
    have "GetDescriptor ?h' = GetDescriptor ?h" by (simp add: GetDescriptor_def [abs_def])
    then have "ph_inv X ?h'" using m(1) by (simp add: ph_inv_def)
    moreover have "settings h ?h'" using m(2) by (simp add: settings_def)
    moreover have "room h \<le> room ?h' + 1" using objects_left_New [OF sizeof_pos(2) N] by (auto simp: room_def)
    ultimately show ?thesis using False N by (simp add: HandleUnlock_def unlocked_def)
  qed
qed

lemma unlock_wpo:
  assumes h: "ph_inv {} h1" "settings h h1" "room h \<le> room h1 + k" "imbalance h1 = imbalance h" "lively b (k + 1) h"
  shows "wpo b (do { h' \<leftarrow> HandleUnlock h1 n; Some (r, h') }) (\<lambda>(r', h'). r' = r \<and> ph_inv {} h' \<and> imbalance h' = imbalance h
    \<and> settings h h' \<and> room h \<le> room h' + (k + 1) \<and> unlocked h1 h')"
proof -
  have "lively b 1 h1" using lively_settings [OF h(5,2), of 1] h(3) by simp
  from HandleUnlock_wpo [OF h(1) this, of n] show ?thesis
    unfolding wpo_bind by (rule wpo_mono) (use h in \<open>auto simp: unlockedD(4) intro: settings_trans\<close>)
qed

lemma start_bound:
  assumes "ph_inv X h" "spans h p = Some s"
  shows "sp_start s + sp_length s < 2 ^ 35"
  using geom_span [OF ph_invD(1) [OF assms(1)] assms(2)] pm2.ensured_bound [of "pagemap h" "sp_start s + sp_length s"]
  by (simp add: span_ok_def)

lemma NewWithSizeClass_wpo:
  assumes pre: "alloc_pre b 3 h" "0 < n" "n = RoundUpSize h n0"
  shows "wpo b (NewWithSizeClass h n0 sc) (\<lambda>(r, h'). ph_inv {} h' \<and> imbalance h' = imbalance h \<and> settings h h'
    \<and> room h \<le> room h' + 3
    \<and> (case r of None \<Rightarrow> inuse_spans h' = inuse_spans h \<and> pagemap_cache h' = pagemap_cache h \<and> (heap_limit_mb h = 0 \<longrightarrow> \<not> free_fit (spans h) n)
       | Some p \<Rightarrow> span_given n sc h p h'))"
  unfolding NewWithSizeClass_def wpo_bind
proof (rule wpo_mono [OF NewLocked_wpo [OF alloc_pre_less [OF pre(1)] pre(2,3)]], goal_cases)
  case 1
  then show ?case by simp
next
  case (2 x)
  obtain r bytes h1 where x: "x = (r, bytes, h1)" by (cases x)
  with 2 have post: "new_post n h r h1" "heap_limit_mb h = 0 \<and> r = None \<longrightarrow> \<not> free_fit (spans h) n" by auto
  then have p1: "ph_inv {} h1" "imbalance h1 = imbalance h" "settings h h1" "room h \<le> room h1 + 2" "pagemap_cache h1 = pagemap_cache h"
    by (auto simp: new_post_def frame_settings frame_cache)
  have lv: "lively b (2 + 1) h" using pre(1) by (simp add: alloc_pre_def)
  note unlock = unlock_wpo [where k = 2, OF _ _ _ _ lv]
  show ?case
  proof (cases r)
    case None
    have "wpo b (do { h' \<leftarrow> HandleUnlock h1 bytes; Some (None, h') }) (\<lambda>(r, h'). ph_inv {} h' \<and> imbalance h' = imbalance h
        \<and> settings h h' \<and> room h \<le> room h' + 3 \<and> r = None \<and> inuse_spans h' = inuse_spans h \<and> pagemap_cache h' = pagemap_cache h)"
      by (rule wpo_mono [OF unlock [OF p1(1,3,4,2)]]) (use None post p1(5) in \<open>auto simp: new_post_def unlockedD\<close>)
    with None post(2) x show ?thesis by (auto elim!: wpo_mono)
  next
    case (Some p)
    then obtain s where s: "inuse_spans h p = None" "inuse_spans h1 = (inuse_spans h)(p \<mapsto> s)" "sp_length s = n" "plain s"
      using post(1) by (auto simp: new_post_def)
    then have sp1: "spans h1 p = Some s" "sp_location s = IN_USE"
      by (auto simp: inuse_spans_def fun_eq_iff split: option.splits if_splits dest!: spec [of _ p])
    let ?h2 = "InvalidateCachedSizeClass h1 (sp_start s)"
    have h2: "ph_inv {} ?h2" "imbalance ?h2 = imbalance h" "settings h ?h2" "room ?h2 = room h1" "inuse_spans ?h2 = inuse_spans h1"
        "spans ?h2 p = Some s" "GetDescriptor ?h2 = GetDescriptor h1" "pagemap_cache ?h2 = Invalidate (pagemap_cache h) (of_nat (sp_start s))"
      using p1 sp1 by (simp_all add: InvalidateCachedSizeClass_def ph_inv_cache)
    have miss: "TryGetSizeClass ?h2 (sp_start s) = None"
      by (simp add: TryGetSizeClass_def InvalidateCachedSizeClass_def TryGet_Invalidate)
    show ?thesis
    proof (cases "sc = 0")
      case True
      have "GetDescriptor h1 (sp_start s) = Some p"
        using geom_span [OF ph_invD(1) [OF p1(1)] sp1(1)] by (simp add: span_ok_def)
      then have "span_given n sc h p ?h2" using True h2 s miss by (auto simp: span_given_def)
      moreover have "room h \<le> room ?h2 + 2" using p1(4) h2(4) by simp
      ultimately have "wpo b (do { h' \<leftarrow> HandleUnlock ?h2 bytes; Some (Some p, h') }) (\<lambda>(r, h'). ph_inv {} h' \<and> imbalance h' = imbalance h
          \<and> settings h h' \<and> room h \<le> room h' + 3 \<and> r = Some p \<and> span_given n sc h p h')"
        by (intro wpo_mono [OF unlock [OF h2(1,3) _ h2(2)]]) (auto simp: unlockedD)
      with True Some x sp1 show ?thesis by (auto elim!: wpo_mono)
    next
      case False
      let ?s = "s\<lparr> sp_sizeclass := sc mod 256 \<rparr>"
      have sub: "set [1 ..< sp_length s - 1] \<subseteq> {..<sp_length s}" by auto
      note loop = register_loop_wpo [OF h2(1,6) sub, of b]
      have reg: "RegisterSizeClass ?h2 p sc = do { h \<leftarrow> foldl (\<lambda>r i. do { h \<leftarrow> r; pagemap_set h (sp_start s + i) p }) (Some ?h2) [1 ..< sp_length s - 1];
          Some (upd_span p ?s h) }"
        using h2(6) register_loop_upd [where j = "sp_start s" and p = p and q = p and u = ?s and h = ?h2] by (simp add: RegisterSizeClass_def)
      have "wpo b (RegisterSizeClass ?h2 p sc) (\<lambda>h4. ph_inv {} h4 \<and> imbalance h4 = imbalance h \<and> settings h h4
          \<and> room h \<le> room h4 + 2 \<and> span_given n sc h p h4)"
        unfolding reg wpo_bind
      proof (rule wpo_mono [OF loop], elim conjE, goal_cases)
        case (1 h4)
        let ?h5 = "upd_span p ?s h4"
        have f4: "spans h4 = spans ?h2" "stats h4 = stats ?h2" "pagemap_cache h4 = pagemap_cache ?h2" "span_allocator h4 = span_allocator ?h2"
          "smallest_span_size h4 = smallest_span_size ?h2" "aggressive_decommit h4 = aggressive_decommit ?h2"
          "heap_limit_mb h4 = heap_limit_mb ?h2" "release_rate h4 = release_rate ?h2" "system h4 = system ?h2"
          "stacktrace_allocator h4 = stacktrace_allocator ?h2"
          by (subst 1(2), simp)+
        have sp4: "spans h4 p = Some s" using h2(6) by (simp add: f4)
        note ends = geom_span [OF ph_invD(1) [OF 1(1)] sp4]
        have all: "GetDescriptor h4 k = Some p" if "k \<in> pages_of s" for k
        proof (cases "k = sp_start s \<or> k = sp_start s + sp_length s - 1")
          case True
          then show ?thesis using ends by (auto simp: span_ok_def)
        next
          case False
          with that have "k \<in> (\<lambda>i. sp_start s + i) ` set [1 ..< sp_length s - 1]"
            by (intro image_eqI [of _ _ "k - sp_start s"]) (auto simp: pages_of_def)
          with 1(3) show ?thesis by simp
        qed
        note c5 = classed_span [OF 1(1) sp4 sp1(2), of "sc mod 256"]
        have use: "inuse_spans ?h5 = (inuse_spans h)(p \<mapsto> ?s)"
          using c5(3) all h2(5) s(2) by (simp add: inuse_spans_def [abs_def] f4)
        have g5: "GetDescriptor ?h5 = GetDescriptor h4" by (simp add: GetDescriptor_def [abs_def])
        have all5: "\<forall>k \<in> pages_of ?s. GetDescriptor ?h5 k = Some p" using all unfolding g5 by (simp add: pages_of_def)
        have "sp_start s \<in> pages_of s" using ph_inv_span [OF 1(1) sp4] by (simp add: pages_of_def)
        then have first: "GetDescriptor ?h5 (sp_start s) = Some p" using all unfolding g5 by simp
        have "TryGetSizeClass ?h5 (sp_start s) = None" using miss by (simp add: TryGetSizeClass_def f4)
        then have given: "span_given n sc h p ?h5"
          unfolding span_given_def using s(1,3,4) use all5 first h2(8) f4(3) by (intro conjI exI [of _ ?s]) simp_all
        have "settings h ?h5" using h2(3) by (simp add: settings_def f4)
        moreover have "imbalance ?h5 = imbalance h" using c5(2) all h2(2) by (simp add: imbalance_def f4)
        moreover have "room ?h5 = room h1" using h2(4) by (simp add: room_def f4)
        ultimately show ?case using c5(1) all given p1(4) by simp
      qed
      then have "wpo b (RegisterSizeClass ?h2 p sc) (\<lambda>h4. wpo b (do { h' \<leftarrow> HandleUnlock h4 bytes; Some (Some p, h') })
         (\<lambda>(r, h'). ph_inv {} h' \<and> imbalance h' = imbalance h \<and> settings h h' \<and> room h \<le> room h' + 3
          \<and> (case r of None \<Rightarrow> inuse_spans h' = inuse_spans h \<and> pagemap_cache h' = pagemap_cache h \<and> (heap_limit_mb h = 0 \<longrightarrow> \<not> free_fit (spans h) n)
             | Some p \<Rightarrow> span_given n sc h p h')))"
      proof (rule wpo_mono, goal_cases)
        case (1 h4)
        then have r4: "ph_inv {} h4" "settings h h4" "room h \<le> room h4 + 2" "imbalance h4 = imbalance h" "span_given n sc h p h4" by simp_all
        show ?case by (rule wpo_mono [OF unlock [OF r4(1-4)]]) (use r4(5) in \<open>auto simp: unlockedD\<close>)
      qed
      with False Some x sp1 show ?thesis by simp
    qed
  qed
qed

end
