(* ===== verification/PageHeap_Aligned.thy ===== *)
theory PageHeap_Aligned
  imports PageHeap_New
begin

text \<open>
  Rounding of span sizes and the aligned allocation: \<open>RoundUpSize\<close> rounds up to the smallest span
  size, the skip loop of \<open>NewAligned\<close> ends at the next aligned page, and the parts of the span before
  and behind the aligned pages are given back.
\<close>

section \<open>\<open>RoundUpSize\<close>\<close>

lemma u64_of_nat: "n < 2 ^ 64 \<Longrightarrow> unat (of_nat n :: u64) = n"
  by (simp add: unsigned_of_nat take_bit_nat_eq_self)

lemma RoundUpSize_eq:
  assumes "smallest_span_size h = 2 ^ k" "k < 64" "n + 2 ^ k \<le> 2 ^ 64"
  shows "RoundUpSize h n = (n + 2 ^ k - 1) div 2 ^ k * 2 ^ k"
proof -
  have lt: "n + 2 ^ k - 1 < 2 ^ 64" "n < 2 ^ 64"
    using assms(3) zero_less_power [of "2::nat" k] by linarith+
  have s: "(of_nat (2 ^ k) :: u64) - 1 = mask k" by (simp add: mask_eq_exp_minus_1)
  have sum: "(of_nat n + of_nat (2 ^ k) - 1 :: u64) = of_nat (n + 2 ^ k - 1)"
  proof -
    have "of_nat (n + 2 ^ k) = (of_nat (n + 2 ^ k - 1) + 1 :: u64)"
      using of_nat_Suc [of "n + 2 ^ k - 1"] by (simp add: add.commute)
    then show ?thesis by (simp only: of_nat_add add_diff_cancel)
  qed
  have u: "unat (of_nat (n + 2 ^ k - 1) :: u64) = n + 2 ^ k - 1"
    by (rule u64_of_nat [OF lt(1)])
  have r: "unat ((of_nat n + of_nat (2 ^ k) - 1 :: u64) AND NOT (mask k)) = (n + 2 ^ k - 1) div 2 ^ k * 2 ^ k"
    unfolding sum unat_and_not_mask u ..
  have "unat (of_nat n :: u64) = n" by (rule u64_of_nat [OF lt(2)])
  then have "\<not> (of_nat n + of_nat (2 ^ k) - 1 :: u64) AND NOT (mask k) < of_nat n"
    unfolding word_less_nat_alt r using round_up_nat(1) [of "2 ^ k" n] by simp
  then show ?thesis
    unfolding RoundUpSize_def assms(1) s Let_def using r by simp
qed

lemma RoundUpSize_ge:
  assumes "smallest_span_size h = 2 ^ k" "k < 64" "n + 2 ^ k \<le> 2 ^ 64"
  shows "n \<le> RoundUpSize h n" "2 ^ k dvd RoundUpSize h n" "RoundUpSize h n < n + 2 ^ k"
  using round_up_nat [of "2 ^ k" n] unfolding RoundUpSize_eq [OF assms] by simp_all

lemma RoundUpSize_frame: "smallest_span_size h' = smallest_span_size h \<Longrightarrow> RoundUpSize h' n = RoundUpSize h n"
  by (simp add: RoundUpSize_def)

section \<open>The skip loop\<close>

lemma page_aligned_iff:
  assumes "a + kPageShift \<le> 64" "x < 2 ^ 51"
  shows "page_bytes x AND (page_bytes (2 ^ a) - 1) = 0 \<longleftrightarrow> 2 ^ a dvd x"
proof -
  have "page_bytes (2 ^ a) = 2 ^ (a + kPageShift)" by (simp add: page_bytes_def power_add)
  then have m: "page_bytes (2 ^ a) - 1 = mask (a + kPageShift)" by (simp add: mask_eq_exp_minus_1)
  have pb: "page_bytes x = of_nat (x * 2 ^ kPageShift)" by (simp add: page_bytes_def)
  have u: "unat (page_bytes x) = x * 2 ^ kPageShift"
    unfolding pb by (rule u64_of_nat) (use assms(2) in simp)
  have "page_bytes x AND mask (a + kPageShift) = 0 \<longleftrightarrow> unat (page_bytes x AND mask (a + kPageShift)) = 0"
    by (simp add: unat_eq_0)
  also have "\<dots> \<longleftrightarrow> 2 ^ (a + kPageShift) dvd x * 2 ^ kPageShift"
    unfolding unat_and_mask u by (simp add: mod_eq_0_iff_dvd)
  also have "\<dots> \<longleftrightarrow> 2 ^ a dvd x" by (simp add: power_add)
  finally show ?thesis unfolding m .
qed

lemma skip_loop_returns:
  assumes "a + kPageShift \<le> 64" "st + skip + d < 2 ^ 51" "2 ^ a dvd st + skip + d" "\<And>e. e < d \<Longrightarrow> \<not> 2 ^ a dvd st + skip + e"
  shows "skip_loop (page_bytes (2 ^ a) - 1) st skip = Some (skip + d)"
  using assms(2-)
proof (induction d arbitrary: skip)
  case 0
  then show ?case
    using page_aligned_iff [OF assms(1), of "st + skip"] by (subst skip_loop.simps) simp
next
  case (Suc d)
  have "\<not> 2 ^ a dvd st + skip" using Suc.prems(3) [of 0] by simp
  then have "page_bytes (st + skip) AND (page_bytes (2 ^ a) - 1) \<noteq> 0"
    using page_aligned_iff [OF assms(1), of "st + skip"] Suc.prems(1) by simp
  moreover have "skip_loop (page_bytes (2 ^ a) - 1) st (skip + 1) = Some (skip + 1 + d)"
    using Suc.prems by (intro Suc.IH) (simp_all, metis Suc_less_eq add_Suc_right)
  ultimately show ?case by (subst skip_loop.simps) simp
qed

lemma skip_loop_aligned:
  assumes "a + kPageShift \<le> 64" "st < 2 ^ 35" "a \<le> 48"
  obtains skip where "skip_loop (page_bytes (2 ^ a) - 1) st 0 = Some skip" "skip < 2 ^ a" "2 ^ a dvd st + skip"
proof -
  let ?P = "\<lambda>e. 2 ^ a dvd st + e"
  have ex: "?P (2 ^ a - st mod 2 ^ a)"
  proof -
    have "st + (2 ^ a - st mod 2 ^ a) = (st - st mod 2 ^ a) + 2 ^ a"
      using mod_less_divisor [of "2 ^ a" st] mod_less_eq_dividend [of st "2 ^ a"] by simp
    then show ?thesis using dvd_minus_mod [of "2 ^ a" st] by (simp only: dvd_add_left_iff dvd_refl)
  qed
  define d where "d = (LEAST e. ?P e)"
  have d: "?P d" "\<And>e. e < d \<Longrightarrow> \<not> ?P e"
    unfolding d_def using LeastI [of ?P, OF ex] not_less_Least [of _ ?P] by blast+
  have "d < 2 ^ a"
  proof (cases "st mod 2 ^ a = 0")
    case True
    then have "?P 0" by (simp add: mod_eq_0_iff_dvd)
    then have "d = 0" using d(2) [of 0] by (cases "0 < d") auto
    then show ?thesis by simp
  next
    case False
    have "d \<le> 2 ^ a - st mod 2 ^ a" unfolding d_def by (rule Least_le [of ?P, OF ex])
    also have "\<dots> < 2 ^ a" using False by simp
    finally show ?thesis .
  qed
  moreover have "(2::nat) ^ a \<le> 2 ^ 48" using assms(3) by (rule power_increasing) simp
  then have "st + 0 + d < 2 ^ 51" using assms(2) \<open>d < 2 ^ a\<close> by simp
  then have "skip_loop (page_bytes (2 ^ a) - 1) st 0 = Some (0 + d)"
    using d assms(1) by (intro skip_loop_returns) simp_all
  ultimately show ?thesis using that d(1) by simp
qed

section \<open>\<open>NewAligned\<close>\<close>

definition aligned_post :: "nat \<Rightarrow> nat \<Rightarrow> PageHeap \<Rightarrow> addr option \<Rightarrow> PageHeap \<Rightarrow> bool" where
  "aligned_post n align h r h' \<longleftrightarrow> ph_inv {} h' \<and> imbalance h' = imbalance h \<and> settings h h'
     \<and> (case r of
          None \<Rightarrow> inuse_spans h' = inuse_spans h \<and> pagemap_cache h' = pagemap_cache h
        | Some p \<Rightarrow> inuse_spans h p = None
            \<and> (\<exists>s. inuse_spans h' = (inuse_spans h)(p \<mapsto> s) \<and> sp_length s = n \<and> plain s \<and> pagemap_cache h' = Invalidate (pagemap_cache h) (of_nat (sp_start s)) \<and> align dvd sp_start s
                 \<and> TryGetSizeClass h' (sp_start s) = None))"

text \<open>A span in use is cut at \<open>n\<close> pages and one of the parts is freed.\<close>

lemma split_result_use:
  assumes "split_result IN_USE h p s n q h'" "spans h p = Some s" "sp_location s = IN_USE"
  shows "ph_inv {} h'" "inuse_spans h' = (inuse_spans h)(p \<mapsto> s\<lparr> sp_length := n \<rparr>,
           q \<mapsto> new_span (sp_start s + n) (sp_length s - n))"
    "frame h h'" "room h \<le> room h' + 1" "inuse_spans h q = None" "q \<noteq> p"
    "spans h' p = Some (s\<lparr> sp_length := n \<rparr>)" "spans h' q = Some (new_span (sp_start s + n) (sp_length s - n))"
    "finite (dom (spans h)) \<Longrightarrow> imbalance h' = imbalance h"
proof -
  have t: "(new_span k m)\<lparr> sp_location := IN_USE \<rparr> = new_span k m" for k m by (simp add: new_span_def)
  note r = assms(1) [unfolded split_result_def t]
  show "ph_inv {} h'" "frame h h'" "room h \<le> room h' + 1" "inuse_spans h q = None" "q \<noteq> p"
    "spans h' p = Some (s\<lparr> sp_length := n \<rparr>)" "spans h' q = Some (new_span (sp_start s + n) (sp_length s - n))"
    using r by (simp_all add: inuse_spans_def)
  show "inuse_spans h' = (inuse_spans h)(p \<mapsto> s\<lparr> sp_length := n \<rparr>, q \<mapsto> new_span (sp_start s + n) (sp_length s - n))"
    using r assms(3) by (auto simp: inuse_spans_def fun_eq_iff)
  show "imbalance h' = imbalance h" if "finite (dom (spans h))"
    using split_pages [OF assms(1) that assms(2,3), of ON_RETURNED_FREELIST] r by (simp add: imbalance_def)
qed

definition cut_state :: "PageHeap \<Rightarrow> PageHeap \<Rightarrow> (addr \<rightharpoonup> Span) \<Rightarrow> bool" where
  "cut_state h h' U \<longleftrightarrow> ph_inv {} h' \<and> inuse_spans h' = U \<and> imbalance h' = imbalance h \<and> frame h h' \<and> room h \<le> room h' + 1"

lemma cut_head_wpo:
  assumes inv: "ph_inv {} h" "spans h p = Some s" "sp_location s = IN_USE" "0 < n" "n < sp_length s" "lively b 1 h"
    "plain s" and bnd: "os_bounded (system h)" and U: "inuse_spans h = U(p \<mapsto> s)" "U p = None"
  shows "wpo b (do { (rest, h) \<leftarrow> Split h p n; h \<leftarrow> DeleteLocked h p; Some (rest, h) })
    (\<lambda>(q, h'). U q = None \<and> cut_state h h' (U(q \<mapsto> new_span (sp_start s + n) (sp_length s - n))))"
  unfolding wpo_bind
proof (rule wpo_mono [OF Split_wpo [OF inv bnd]], goal_cases)
  case (1 x)
  obtain q h1 where x: "x = (q, h1)" by (cases x)
  with 1 have "split_result IN_USE h p s n q h1" by simp
  note r = split_result_use [OF this inv(2,3)]
  have l1: "lively b 0 h1" using lively_mono [OF inv(6) r(3)] r(4) by simp
  have loc: "sp_location (s\<lparr> sp_length := n \<rparr>) = IN_USE" using inv(3) by simp
  have "wpo b (DeleteLocked h1 p) (\<lambda>h'. U q = None \<and> cut_state h h' (U(q \<mapsto> new_span (sp_start s + n) (sp_length s - n))))"
  proof (rule wpo_mono [OF DeleteLocked_wpo [OF r(1,7) loc l1]], elim conjE, goal_cases)
    case (1 h2)
    have q: "U q = None" using r(5,6) U by (auto split: if_splits)
    moreover have "inuse_spans h2 = U(q \<mapsto> new_span (sp_start s + n) (sp_length s - n))"
      using 1(2) r(2,6) U by (auto simp: fun_eq_iff)
    moreover have "frame h h2" using r(3) 1(5) frame_trans by blast
    ultimately show ?case using 1 r(4) r(9) ph_invD(5) [OF inv(1)] by (simp add: cut_state_def)
  qed
  then show ?case by (simp add: x)
qed

lemma cut_tail_wpo:
  assumes inv: "ph_inv {} h" "spans h p = Some s" "sp_location s = IN_USE" "0 < n" "n < sp_length s" "lively b 1 h"
    "plain s" and bnd: "os_bounded (system h)" and U: "inuse_spans h = U(p \<mapsto> s)" "U p = None"
  shows "wpo b (do { (trailer, h) \<leftarrow> Split h p n; DeleteLocked h trailer })
    (\<lambda>h'. cut_state h h' (U(p \<mapsto> s\<lparr> sp_length := n \<rparr>)))"
  unfolding wpo_bind
proof (rule wpo_mono [OF Split_wpo [OF inv bnd]], goal_cases)
  case (1 x)
  obtain q h1 where x: "x = (q, h1)" by (cases x)
  with 1 have "split_result IN_USE h p s n q h1" by simp
  note r = split_result_use [OF this inv(2,3)]
  have l1: "lively b 0 h1" using lively_mono [OF inv(6) r(3)] r(4) by simp
  have "wpo b (DeleteLocked h1 q) (\<lambda>h'. cut_state h h' (U(p \<mapsto> s\<lparr> sp_length := n \<rparr>)))"
  proof (rule wpo_mono [OF DeleteLocked_wpo [OF r(1,8) _ l1]], goal_cases)
    case (2 h2)
    then have "inuse_spans h2 = U(p \<mapsto> s\<lparr> sp_length := n \<rparr>)"
      using r(2,5,6) U by (auto simp: fun_eq_iff split: if_splits)
    moreover have "frame h h2" using r(3) 2 frame_trans by blast
    ultimately show ?case using 2 r(4) r(9) ph_invD(5) [OF inv(1)] by (simp add: cut_state_def)
  qed simp
  then show ?case by (simp add: x)
qed

lemma RoundUpSize_2_pow:
  assumes "smallest_span_size h = 2 ^ k" "k \<le> 31" "n \<le> 2 ^ 52"
  shows "n \<le> RoundUpSize h n" "RoundUpSize h n < n + 2 ^ k"
proof -
  have "(2::nat) ^ k \<le> 2 ^ 31" using assms(2) by (rule power_increasing) simp
  with assms(3) have "n + 2 ^ k \<le> 2 ^ 64" by simp
  from RoundUpSize_ge [OF assms(1) _ this] assms(2)
  show "n \<le> RoundUpSize h n" "RoundUpSize h n < n + 2 ^ k" by simp_all
qed

lemma NewAligned_wpo:
  assumes pre: "alloc_pre b 5 h" and sm: "smallest_span_size h = 2 ^ k" "k \<le> 31"
    and n: "0 < n0" "n0 \<le> 2 ^ 50" "a \<le> 48"
  shows "wpo b (NewAligned h n0 (2 ^ a)) (\<lambda>(r, h'). aligned_post (RoundUpSize h n0) (2 ^ a) h r h')"
proof -
  define n where "n = RoundUpSize h n0"
  let ?alloc = "n + 2 ^ a"
  define m where "m = RoundUpSize h ?alloc"
  have pk: "(2::nat) ^ k \<le> 2 ^ 31" using sm(2) by (rule power_increasing) simp
  have pa: "(2::nat) ^ a \<le> 2 ^ 48" using n(3) by (rule power_increasing) simp
  have n': "n0 \<le> n" "n < n0 + 2 ^ k" using RoundUpSize_2_pow [OF sm, of n0] n(2) by (simp_all add: n_def)
  have al: "?alloc \<le> 2 ^ 52" using n' pk pa n(2) by simp
  have m: "?alloc \<le> m" using RoundUpSize_2_pow(1) [OF sm al] by (simp add: m_def)
  have mod: "?alloc mod 2 ^ 64 = ?alloc" using al by simp
  have pre2: "alloc_pre b 2 h" using alloc_pre_less [OF pre] by simp
  have m0: "0 < m" using m n(1) n'(1) by simp
  have body: "NewAligned h n0 (2 ^ a) = do {
           (r, by, h) \<leftarrow> NewLocked h ?alloc;
           (case r of
              None \<Rightarrow> do { h \<leftarrow> HandleUnlock h by; Some (None, h) }
            | Some p \<Rightarrow>
                do { s \<leftarrow> spans h p;
                     skip \<leftarrow> skip_loop (page_bytes (2 ^ a) - 1) (sp_start s) 0;
                     (p, h) \<leftarrow> (if skip > 0 then
                                do { (rest, h) \<leftarrow> Split h p skip; h \<leftarrow> DeleteLocked h p; Some (rest, h) }
                              else Some (p, h));
                     s \<leftarrow> spans h p;
                     h \<leftarrow> (if sp_length s > n then
                            do { (trailer, h) \<leftarrow> Split h p n; DeleteLocked h trailer }
                          else Some h);
                     h \<leftarrow> HandleUnlock (InvalidateCachedSizeClass h (sp_start s)) by; Some (Some p, h) }) }"
    unfolding NewAligned_def Let_def n_def [symmetric] mod by simp
  show ?thesis
    unfolding body wpo_bind n_def [symmetric]
  proof (rule wpo_mono [OF NewLocked_wpo [OF pre2 m0 m_def]], goal_cases)
    case (1 x)
    obtain r bytes h1 where x: "x = (r, bytes, h1)" by (cases x)
    with 1 have post: "new_post m h r h1" by auto
    then have p1: "ph_inv {} h1" "imbalance h1 = imbalance h" "frame h h1" "room h \<le> room h1 + 2"
      by (auto simp: new_post_def)
    have l1: "lively b 3 h1" using lively_mono [OF _ p1(3), of b 5 3] pre p1(4) by (simp add: alloc_pre_def)
    have bnd1: "os_bounded (system h1)" using os_bounded_frame [OF p1(3)] pre by (simp add: alloc_pre_def)
    show ?case
    proof (cases r)
      case None
      have l: "lively b (2 + 1) h" using pre by (auto simp: alloc_pre_def lively_def)
      have "wpo b (do { h' \<leftarrow> HandleUnlock h1 bytes; Some (None, h') }) (\<lambda>(r, h'). aligned_post n (2 ^ a) h r h')"
        by (rule wpo_mono [OF unlock_wpo [OF p1(1) frame_settings [OF p1(3)] p1(4,2) l]])
          (use None post frame_cache [OF p1(3)] in \<open>auto simp: new_post_def aligned_post_def unlockedD\<close>)
      with None x show ?thesis by simp
    next
      case (Some p)
      then obtain s where s: "inuse_spans h p = None" "inuse_spans h1 = (inuse_spans h)(p \<mapsto> s)" "sp_length s = m" "plain s"
        using post(1) by (auto simp: new_post_def)
      then have sp1: "spans h1 p = Some s" "sp_location s = IN_USE"
        by (auto simp: inuse_spans_def fun_eq_iff split: option.splits if_splits dest!: spec [of _ p])
      have st: "sp_start s < 2 ^ 35" using start_bound [OF p1(1) sp1(1)] by simp
      have "a + kPageShift \<le> 64" using n(3) by simp
      then obtain skip where skip: "skip_loop (page_bytes (2 ^ a) - 1) (sp_start s) 0 = Some skip" "skip < 2 ^ a"
          "2 ^ a dvd sp_start s + skip" by (rule skip_loop_aligned [OF _ st n(3)])
      have len: "n < sp_length s - skip" "skip < sp_length s" using m skip(2) s(3) by simp_all
      let ?U = "inuse_spans h"
      let ?head = "if skip > 0 then do { (rest, h) \<leftarrow> Split h1 p skip; h \<leftarrow> DeleteLocked h p; Some (rest, h) } else Some (p, h1)"
      have head: "wpo b ?head (\<lambda>(q, h2). ?U q = None \<and> (\<exists>t. cut_state h1 h2 (?U(q \<mapsto> t)) \<and> sp_start t = sp_start s + skip
          \<and> sp_length t = sp_length s - skip \<and> plain t))"
      proof (cases "skip > 0")
        case True
        have l: "lively b 1 h1" using l1 by (auto simp: lively_def)
        from cut_head_wpo [OF p1(1) sp1 True len(2) l s(4) bnd1 s(2,1)] True show ?thesis
          by (auto elim!: wpo_mono)
      next
        case False
        then show ?thesis using s p1(1) by (auto simp: cut_state_def)
      qed
      have "wpo b ?head (\<lambda>x. wpo b (case x of (p, h) \<Rightarrow> do { s \<leftarrow> spans h p;
                     h \<leftarrow> (if sp_length s > n then do { (trailer, h) \<leftarrow> Split h p n; DeleteLocked h trailer } else Some h);
                     h \<leftarrow> HandleUnlock (InvalidateCachedSizeClass h (sp_start s)) bytes; Some (Some p, h) })
          (\<lambda>(r, h'). aligned_post n (2 ^ a) h r h'))"
      proof (rule wpo_mono [OF head], goal_cases)
        case (1 y)
        obtain q h2 where y: "y = (q, h2)" by (cases y)
        with 1 obtain t where t: "?U q = None" "cut_state h1 h2 (?U(q \<mapsto> t))" "sp_start t = sp_start s + skip"
            "sp_length t = sp_length s - skip" "plain t" by auto
        then have h2: "ph_inv {} h2" "inuse_spans h2 = ?U(q \<mapsto> t)" "imbalance h2 = imbalance h" "frame h h2" "room h1 \<le> room h2 + 1"
          using p1 frame_trans by (auto simp: cut_state_def)
        then have sp2: "spans h2 q = Some t" "sp_location t = IN_USE"
          by (auto simp: inuse_spans_def fun_eq_iff split: option.splits if_splits dest!: spec [of _ q])
        have bnd2: "os_bounded (system h2)" using os_bounded_frame [OF h2(4)] pre by (simp add: alloc_pre_def)
        have fr12: "frame h1 h2" using t(2) by (simp add: cut_state_def)
        have l2: "lively b 1 h2" using lively_mono [OF l1 fr12, of 1] h2(5) by simp
        have n0: "0 < n" using n'(1) n(1) by simp
        have lt: "n < sp_length t" using len(1) t(4) by simp
        have lv: "lively b (4 + 1) h" using pre by (simp add: alloc_pre_def)
        have "wpo b (do { (trailer, h) \<leftarrow> Split h2 q n; DeleteLocked h trailer })
          (\<lambda>h3. wpo b (do { h' \<leftarrow> HandleUnlock (InvalidateCachedSizeClass h3 (sp_start t)) bytes; Some (Some q, h') })
             (\<lambda>(r, h'). aligned_post n (2 ^ a) h r h'))"
        proof (rule wpo_mono [OF cut_tail_wpo [OF h2(1) sp2 n0 lt l2 t(5) bnd2 h2(2) t(1)]], goal_cases)
          case (1 h3)
          then have h3: "ph_inv {} h3" "inuse_spans h3 = ?U(q \<mapsto> t\<lparr> sp_length := n \<rparr>)" "imbalance h3 = imbalance h" "frame h h3"
              "room h \<le> room h3 + 4"
            using h2 p1(4) frame_trans by (auto simp: cut_state_def)
          let ?h3 = "InvalidateCachedSizeClass h3 (sp_start t)"
          have v: "ph_inv {} ?h3" "settings h ?h3" "room h \<le> room ?h3 + 4" "imbalance ?h3 = imbalance h"
            using h3 frame_settings [OF h3(4)] by (simp_all add: ph_inv_cache InvalidateCachedSizeClass_def)
          show ?case
            by (rule wpo_mono [OF unlock_wpo [OF v lv]])
              (use t(1,3,5) skip(3) h3(2) frame_cache [OF h3(4)] in \<open>auto simp: aligned_post_def unlockedD InvalidateCachedSizeClass_def
                TryGetSizeClass_def TryGet_Invalidate intro!: exI [of _ "t\<lparr> sp_length := n \<rparr>"]\<close>)
        qed
        then show ?case using y sp2 lt by simp
      qed
      then show ?thesis using x Some sp1 skip(1) by simp
    qed
  qed
qed

end
