(* ===== verification/PageHeap_Props.thy ===== *)
theory PageHeap_Props
  imports PageHeap_Aligned
begin

text \<open>
  The page heap as its clients see it: the states they can reach, and the properties that hold in
  them.
\<close>

section \<open>Reachable heaps\<close>

inductive heap_reachable :: "PageHeap \<Rightarrow> bool" where
  heap_start: "os_ok s0 \<Longrightarrow> os_bounded s0 \<Longrightarrow> metadata_chunk_avail s0 = 0
    \<Longrightarrow> InitAllocators s0 = Some (s, a, b) \<Longrightarrow> k \<le> 31
    \<Longrightarrow> PageHeap_init (2 ^ k) s a b limit rate = Some h \<Longrightarrow> heap_reachable h"
| heap_new: "heap_reachable h \<Longrightarrow> 0 < n \<Longrightarrow> n \<le> 2 ^ 52 \<Longrightarrow> NewWithSizeClass h n sc = Some (r, h')
    \<Longrightarrow> heap_reachable h'"
| heap_aligned: "heap_reachable h \<Longrightarrow> 0 < n \<Longrightarrow> n \<le> 2 ^ 50 \<Longrightarrow> a \<le> 48 \<Longrightarrow> NewAligned h n (2 ^ a) = Some (r, h')
    \<Longrightarrow> heap_reachable h'"
| heap_delete: "heap_reachable h \<Longrightarrow> inuse_spans h p = Some s \<Longrightarrow> PH_Delete h p = Some h' \<Longrightarrow> heap_reachable h'"
| heap_release: "heap_reachable h \<Longrightarrow> ReleaseAtLeastNPages h n = Some (m, h') \<Longrightarrow> heap_reachable h'"
| heap_mode: "heap_reachable h \<Longrightarrow> heap_reachable (h\<lparr> aggressive_decommit := b \<rparr>)"
| heap_cache: "heap_reachable h \<Longrightarrow> heap_reachable (SetCachedSizeClass h k c)"

text \<open>The invariant of the reachable states.\<close>

definition heap_ok :: "PageHeap \<Rightarrow> bool" where
  "heap_ok h \<longleftrightarrow> ph_inv {} h \<and> os_bounded (system h) \<and> imbalance h = 0 \<and> (\<exists>k \<le> 31. smallest_span_size h = 2 ^ k)"

lemma heap_okD:
  assumes "heap_ok h"
  shows "ph_inv {} h" "os_bounded (system h)" "imbalance h = 0" "alloc_pre False k h" "lively False k h"
  using assms by (auto simp: heap_ok_def alloc_pre_def lively_def)

lemma heap_ok_settings:
  assumes "heap_ok h" "ph_inv {} h'" "imbalance h' = imbalance h" "settings h h'"
  shows "heap_ok h'"
  using assms by (auto simp: heap_ok_def settings_def os_bounded_def sys_region_def)

lemma heap_ok_frame: "heap_ok h \<Longrightarrow> ph_inv {} h' \<Longrightarrow> imbalance h' = imbalance h \<Longrightarrow> frame h h' \<Longrightarrow> heap_ok h'"
  by (rule heap_ok_settings [OF _ _ _ frame_settings])

lemma PageHeap_init_fields:
  assumes "PageHeap_init m s a b limit rate = Some h"
  shows "spans h = Map.empty" "system h = s" "span_allocator h = a" "smallest_span_size h = m"
      "free h = (\<lambda>_ _. [])" "large h = (\<lambda>_. [])" "pagemap h = PageMap2_init pagemap_allocator s"
      "system_bytes (stats h) = 0" "free_bytes (stats h) = 0" "unmapped_bytes (stats h) = 0" "committed_bytes (stats h) = 0"
      "heap_limit_mb h = limit" "pagemap_cache h = Clear" "stacktrace_allocator h = b"
  using assms by (auto simp: PageHeap_init_def split: if_splits)

lemma PageHeap_init_ok:
  assumes "PageHeap_init m s a b limit rate = Some h" "pha_ok sizeof_Span {} (s, a)"
  shows "ph_inv {} h" "imbalance h = 0" "system h = s" "smallest_span_size h = m"
proof -
  note f = PageHeap_init_fields [OF assms(1)]
  have gd: "GetDescriptor h k = None" for k
    by (simp add: GetDescriptor_def f PageMap2_init_def PageMap2_get_def)
  have "geom (spans h) (GetDescriptor h) (pm_ensured h) (sys_taken (system h))"
    by (simp add: geom_def f gd)
  moreover have "lists_ok {} (spans h) (free h) (large h) (stats h)"
    by (simp add: lists_ok_def f on_list_def loc_pages_def stat_bytes_def)
  ultimately show "ph_inv {} h"
    using assms(2) by (simp add: ph_inv_def f PageMap2_init_def)
  show "imbalance h = 0" by (simp add: imbalance_def f loc_pages_def)
  show "system h = s" "smallest_span_size h = m" by (simp_all add: f)
qed

lemma RoundUpSize_ok:
  assumes "heap_ok h" "0 < n" "n \<le> 2 ^ 52"
  shows "n \<le> RoundUpSize h n" "0 < RoundUpSize h n"
proof -
  obtain k where "k \<le> 31" "smallest_span_size h = 2 ^ k" using assms(1) by (auto simp: heap_ok_def)
  from RoundUpSize_2_pow(1) [OF this(2,1), of n] assms(2,3)
  show "n \<le> RoundUpSize h n" "0 < RoundUpSize h n" by simp_all
qed

lemma inuse_spans_Some: "inuse_spans h p = Some s \<longleftrightarrow> spans h p = Some s \<and> sp_location s = IN_USE"
  by (auto simp: inuse_spans_def split: option.splits if_splits)

lemma New_wpo:
  assumes "heap_ok h" "0 < n" "n \<le> 2 ^ 52" "lively b 3 h"
  shows "wpo b (NewWithSizeClass h n sc) (\<lambda>(r, h'). heap_ok h' \<and> settings h h' \<and> room h \<le> room h' + 3
    \<and> (case r of
         None \<Rightarrow> inuse_spans h' = inuse_spans h \<and> pagemap_cache h' = pagemap_cache h \<and> (heap_limit_mb h = 0 \<longrightarrow> \<not> free_fit (spans h) (RoundUpSize h n))
       | Some p \<Rightarrow> span_given (RoundUpSize h n) sc h p h'))"
proof -
  have "alloc_pre b 3 h" using heap_okD [OF assms(1)] assms(4) by (simp add: alloc_pre_def)
  from NewWithSizeClass_wpo [OF this RoundUpSize_ok(2) [OF assms(1-3)] refl, of sc] show ?thesis
    by (rule wpo_mono) (auto intro: heap_ok_settings [OF assms(1)])
qed

lemma Delete_wpo:
  assumes "heap_ok h" "inuse_spans h p = Some s" "lively b k h"
  shows "wpo b (PH_Delete h p) (\<lambda>h'. heap_ok h' \<and> inuse_spans h' = (inuse_spans h)(p := None) \<and> frame h h'
    \<and> room h \<le> room h' \<and> free_fit (spans h') (sp_length s))"
  unfolding PH_Delete_def
  by (rule wpo_mono [OF DeleteLocked_wpo [OF heap_okD(1) [OF assms(1)], of p s]])
    (use assms(2,3) in \<open>auto simp: inuse_spans_Some intro: heap_ok_frame [OF assms(1)]\<close>)

lemma Release_wpo:
  assumes "heap_ok h" "lively b k h"
  shows "wpo b (ReleaseAtLeastNPages h n) (\<lambda>(r, h'). heap_ok h' \<and> kept h h' \<and> r + normal_pages h' \<le> normal_pages h)"
  by (rule wpo_mono [OF ReleaseAtLeastNPages_wpo [OF heap_okD(1) [OF assms(1)] assms(2)]])
    (auto simp: kept_def intro: heap_ok_frame [OF assms(1)])

lemma Aligned_wpo:
  assumes "heap_ok h" "0 < n" "n \<le> 2 ^ 50" "a \<le> 48" "lively b 5 h"
  shows "wpo b (NewAligned h n (2 ^ a)) (\<lambda>(r, h'). heap_ok h' \<and> aligned_post (RoundUpSize h n) (2 ^ a) h r h')"
proof -
  obtain k where k: "k \<le> 31" "smallest_span_size h = 2 ^ k" using assms(1) by (auto simp: heap_ok_def)
  have "alloc_pre b 5 h" using heap_okD [OF assms(1)] assms(5) by (simp add: alloc_pre_def)
  from NewAligned_wpo [OF this k(2,1) assms(2-4)] show ?thesis
    by (rule wpo_mono) (auto simp: aligned_post_def intro: heap_ok_settings [OF assms(1)])
qed

lemma heap_reachable_ok: "heap_reachable h \<Longrightarrow> heap_ok h"
proof (induction rule: heap_reachable.induct)
  case (heap_start s0 s a b k limit rate h)
  note al = InitAllocators_ok [OF heap_start(1,3,4)]
  note i = PageHeap_init_ok [OF heap_start(6) al(1)]
  have "os_bounded s" using heap_start(2) al(3) by (simp add: os_bounded_def sys_region_def)
  with i heap_start(5) show ?case by (auto simp: heap_ok_def)
next
  case (heap_new h n sc r h')
  from wpo_partial [OF New_wpo [OF heap_new(5,2,3) heap_okD(5) [OF heap_new(5)]] heap_new(4)] show ?case by simp
next
  case (heap_aligned h n a r h')
  from wpo_partial [OF Aligned_wpo [OF heap_aligned(6,2-4) heap_okD(5) [OF heap_aligned(6)]] heap_aligned(5)] show ?case by simp
next
  case (heap_delete h p s h')
  from wpo_partial [OF Delete_wpo [OF heap_delete(4,2) heap_okD(5) [OF heap_delete(4)]] heap_delete(3)] show ?case by simp
next
  case (heap_release h n m h')
  from wpo_partial [OF Release_wpo [OF heap_release(3) heap_okD(5) [OF heap_release(3)]] heap_release(2)] show ?case by simp
next
  case (heap_mode h b)
  then show ?case
    by (simp add: heap_ok_def ph_inv_def GetDescriptor_def [abs_def] imbalance_def)
next
  case (heap_cache h k c)
  then show ?case by (simp add: heap_ok_def SetCachedSizeClass_def ph_inv_cache)
qed

section \<open>A concrete heap\<close>

definition demo_heap :: PageHeap where
  "demo_heap = (case InitAllocators demo_sys of Some (s, a, b) \<Rightarrow> the (PageHeap_init 1 s a b 0 1))"

lemma demo_init:
  obtains s a b where "InitAllocators demo_sys = Some (s, a, b)" "PageHeap_init 1 s a b 0 1 = Some demo_heap"
    "alloc_calls s = 1" "Alloc s = Alloc demo_sys" "release_call s = release_call demo_sys"
    "free_list a = []" "free_avail a = 130976" "metadata_chunk_alloc s = 8650752" "metadata_chunk_avail s = 8126464" "free_avail b = 130808"
proof -
  obtain s a b where i: "InitAllocators demo_sys = Some (s, a, b)"
    "alloc_calls s = 1" "Alloc s = Alloc demo_sys" "release_call s = release_call demo_sys"
    "free_list a = []" "free_avail a = 130976" "metadata_chunk_alloc s = 8650752" "metadata_chunk_avail s = 8126464" "free_avail b = 130808"
    by (simp add: InitAllocators_def sizeof_StackTrace_def kMaxStackDepth_def PHA_Init_def PHA_New_def PHA_Delete_def kAllocIncrement_def MetaDataAlloc_def sizeof_Span_def
      TCMalloc_SystemAlloc_def demo_sys_def Let_def kMetadataAllocChunkSize_def sizeof_MemoryAligner_def
      CheckAddressBits_def)
  moreover have "PageHeap_init 1 s a b 0 1 = Some demo_heap"
    by (simp add: demo_heap_def i(1)) (simp add: PageHeap_init_def)
  ultimately show ?thesis using that by blast
qed

lemma demo_sys_bounded: "os_bounded demo_sys"
  unfolding os_bounded_def
proof (intro allI notI)
  fix a assume sub: "{a ..< a + 2 ^ 44} \<subseteq> (\<Union>i. sys_region demo_sys i)"
  have "x < 1002 * 8388608" if "x \<in> sys_region demo_sys i" for x i
    using that by (auto simp: sys_region_def demo_sys_def split: if_splits)
  moreover have "a + 2 ^ 44 - 1 \<in> {a ..< a + 2 ^ 44}" by simp
  with sub have "a + 2 ^ 44 - 1 \<in> (\<Union>i. sys_region demo_sys i)" by (rule subsetD)
  then obtain i where "a + 2 ^ 44 - 1 \<in> sys_region demo_sys i" by blast
  ultimately have "a + 2 ^ 44 - 1 < 1002 * 8388608" .
  then show False by simp
qed

lemma demo_heap_reachable: "heap_reachable demo_heap"
proof -
  obtain s a b where i: "InitAllocators demo_sys = Some (s, a, b)" "PageHeap_init 1 s a b 0 1 = Some demo_heap"
    by (rule demo_init)
  show ?thesis
    by (rule heap_start [OF demo_sys_ok demo_sys_bounded _ i(1), of 0 0 1]) (use i(2) in \<open>simp_all add: demo_sys_def\<close>)
qed

lemma demo_heap_lively: "k \<le> 400 \<Longrightarrow> lively b k demo_heap"
proof -
  assume k: "k \<le> 400"
  obtain s a c where i: "PageHeap_init 1 s a c 0 1 = Some demo_heap" "release_call s = release_call demo_sys"
      "free_list a = []" "free_avail a = 130976" "free_avail c = 130808"
    by (rule demo_init)
  note f = PageHeap_init_fields [OF i(1)]
  show ?thesis
    using k i(2-5) by (auto simp: lively_def room_def objects_left_def release_fair_def f sizeof_Span_def sizeof_StackTrace_def
      kMaxStackDepth_def demo_sys_def)
qed

text \<open>The first allocation in the concrete heap succeeds.\<close>

lemma grow_rest_flag:
  "grow_rest h ptr act = Some (ok, bytes, h') \<Longrightarrow>
   ok = fst (PageMap2_Ensure kPageMapBits ((pagemap h)\<lparr> astate2 := system h \<rparr>) (ptr div kPageSize - 1) (act div kPageSize + 2))"
  unfolding grow_rest_def Let_def PageMap2_PreallocateMoreMemory_def
  by (auto simp: case_prod_beta split: if_splits bind_splits)

lemma free_fit_le: "free_fit sp m \<Longrightarrow> n \<le> m \<Longrightarrow> free_fit sp n"
  unfolding free_fit_def using order_trans by blast

lemma search_empty:
  assumes "free h = (\<lambda>_ _. [])" "large h = (\<lambda>_. [])"
  shows "search_lists i h n = Some (None, h)"
proof (induction "kMaxPages + 1 - i" arbitrary: i rule: less_induct)
  case less
  have "AllocLarge h n = Some (None, h)"
    by (subst AllocLarge.simps) (simp add: assms(2) SpanSet_upper_bound_def)
  moreover have "i \<le> kMaxPages \<Longrightarrow> search_lists (i + 1) h n = Some (None, h)"
    by (rule less.hyps) simp
  ultimately show ?case by (subst search_lists.simps) (simp add: assms(1))
qed

text \<open>A heap with no spans on the concrete system, before or after the allocator of the thread caches took its first
  metadata.\<close>

definition fresh_heap :: "PageHeap \<Rightarrow> bool" where
  "fresh_heap h \<longleftrightarrow> heap_ok h \<and> lively True 400 h \<and> spans h = Map.empty \<and> free h = (\<lambda>_ _. []) \<and> large h = (\<lambda>_. [])
     \<and> smallest_span_size h = 2 ^ 0 \<and> heap_limit_mb h = 0 \<and> free_bytes (stats h) = 0
     \<and> (\<exists>s. pagemap h = PageMap2_init pagemap_allocator s)
     \<and> alloc_calls (system h) = 1 \<and> Alloc (system h) = Alloc demo_sys
     \<and> (metadata_chunk_alloc (system h), metadata_chunk_avail (system h)) \<in> {(8650752, 8126464), (8781824, 7995392)}"

lemma fresh_heapD:
  assumes "fresh_heap h"
  shows "heap_ok h" "lively True 400 h" "spans h = Map.empty" "free h = (\<lambda>_ _. [])" "large h = (\<lambda>_. [])"
    "smallest_span_size h = 2 ^ 0" "heap_limit_mb h = 0" "free_bytes (stats h) = 0"
    "\<exists>s. pagemap h = PageMap2_init pagemap_allocator s" "alloc_calls (system h) = 1" "Alloc (system h) = Alloc demo_sys"
    "(metadata_chunk_alloc (system h), metadata_chunk_avail (system h)) \<in> {(8650752, 8126464), (8781824, 7995392)}"
  using assms by (simp_all add: fresh_heap_def)

lemma demo_heap_fresh: "fresh_heap demo_heap"
proof -
  obtain s a b where i: "PageHeap_init 1 s a b 0 1 = Some demo_heap" "alloc_calls s = 1" "Alloc s = Alloc demo_sys"
      "metadata_chunk_alloc s = 8650752" "metadata_chunk_avail s = 8126464"
    by (rule demo_init)
  note f = PageHeap_init_fields [OF i(1)]
  show ?thesis
    using heap_reachable_ok [OF demo_heap_reachable] demo_heap_lively [of 400 True] i(2-) f by (auto simp: fresh_heap_def)
qed

lemma fresh_New:
  assumes fresh: "fresh_heap h" and n: "0 < n" "n \<le> 1000"
  shows "\<exists>p h'. NewWithSizeClass h n sc = Some (Some p, h')"
proof -
  note f = fresh_heapD [OF fresh]
  obtain s0 where s0: "pagemap h = PageMap2_init pagemap_allocator s0" using f(9) by blast
  have alive: "lively True k h" if "k \<le> 400" for k using f(2) that by (auto simp: lively_def)
  have r: "RoundUpSize h n = n" using RoundUpSize_eq [of h 0 n] n(2) by (simp add: f(6))
  define ask where "ask = (if n > kMinSystemAlloc then n else kMinSystemAlloc)"
  have ask: "n \<le> ask" "0 < ask" "ask \<le> 1000" using n by (simp_all add: ask_def kMinSystemAlloc_def)
  have pre: "alloc_pre True 2 h"
    using heap_okD [OF f(1)] alive by (simp add: alloc_pre_def)
  have pre1: "alloc_pre True 1 h" using alloc_pre_less [OF pre] by simp
  have "\<exists>sy. TCMalloc_SystemAlloc (system h) (ask * kPageSize) kPageSize = (Some (16777216, 8388608), sy)
      \<and> (metadata_chunk_alloc sy, metadata_chunk_avail sy) = (metadata_chunk_alloc (system h), metadata_chunk_avail (system h))"
    using f(10,11) ask(3) by (simp add: TCMalloc_SystemAlloc_def demo_sys_def Let_def sizeof_MemoryAligner_def)
  then obtain sy where sy: "TCMalloc_SystemAlloc (system h) (ask * kPageSize) kPageSize = (Some (16777216, 8388608), sy)"
      "(metadata_chunk_alloc sy, metadata_chunk_avail sy) \<in> {(8650752, 8126464), (8781824, 7995392)}" using f(12) by auto
  have al: "fst (pagemap_allocator sy)"
    using sy(2) by (auto simp: pagemap_allocator_def MetaDataAlloc_def Let_def kMetadataAllocChunkSize_def sizeof_MemoryAligner_def)
  have ens: "fst (PageMap2_Ensure kPageMapBits ((pagemap h)\<lparr> astate2 := sy \<rparr>) 2047 1026)"
  proof -
    let ?pm = "(pagemap h)\<lparr> astate2 := sy \<rparr>"
    have leaf: "LEAF_BITS2 35 = 18" "ROOT_LENGTH2 35 = 131072" by (simp_all add: LEAF_BITS2_def ROOT_LENGTH2_def)
    have fin: "(2047 + 1026 + (2 ^ 64 - 1)) mod 2 ^ 64 = (3072 :: nat)" by simp
    have "fst (PageMap2_make_leaf ?pm 0)"
      using al by (cases "pagemap_allocator sy") (simp add: PageMap2_make_leaf_def PageMap2_allocate_def s0 PageMap2_init_def)
    then obtain pm where pm: "PageMap2_make_leaf ?pm (2047 div 2 ^ LEAF_BITS2 35) = (True, pm)"
      by (cases "PageMap2_make_leaf ?pm 0") (auto simp: leaf)
    show ?thesis
      using PageMap2_Ensure_loop_step [of 2047 3072 35 ?pm, OF _ _ pm] PageMap2_Ensure_loop.simps [of 35 3072 262144 pm]
      by (simp add: PageMap2_Ensure_def leaf)
  qed
  have empty: "SearchFreeAndLargeLists h n = Some (None, h)"
    unfolding SearchFreeAndLargeLists_def by (rule search_empty) (simp_all add: f(4,5))
  let ?h = "h\<lparr> system := sy \<rparr>"
  have attempt: "grow_try h ask = Some (Some (16777216, 8388608), ?h)"
    unfolding grow_try_def EnsureLimit_unlimited [OF f(7)] using sy(1) by simp
  have lv: "lively True 1 h" using alive [of 1] by simp
  obtain ok bytes h2 where g: "grow_rest ?h 16777216 8388608 = Some (ok, bytes, h2)" "grown h h2" "ok \<longrightarrow> free_fit (spans h2) ask"
    using wpo_total [OF grow_rest_wpo [OF heap_okD(1) [OF f(1)] lv ask(2) sy(1)]] by auto
  have ok: ok using grow_rest_flag [OF g(1)] ens by simp
  have grow: "GrowHeap h n = Some (True, bytes, h2)"
    using attempt g(1) ok n by (simp add: GrowHeap_def ask_def [symmetric] Let_def)
  have p2: "alloc_pre True 1 h2" by (rule alloc_pre_grown [OF pre g(2)])
  obtain r2 h3 where s2: "SearchFreeAndLargeLists h2 n = Some (r2, h3)" "heap_limit_mb h2 = 0 \<and> r2 = None \<longrightarrow> \<not> free_fit (spans h2) n"
    using wpo_total [OF Search_wpo [OF p2 n(1)]] by auto
  have "free_fit (spans h2) ask" using g(3) ok by simp
  then have "free_fit (spans h2) n" by (rule free_fit_le [OF _ ask(1)])
  moreover have "heap_limit_mb h2 = 0" using g(2) f(7) by (simp add: grown_def frame_def)
  ultimately have r2: "r2 \<noteq> None" using s2(2) by auto
  have new: "NewLocked h n = Some (r2, bytes, h3)"
    unfolding NewLocked_def Let_def r empty using f(8) grow s2(1) by simp
  obtain r' h' where "NewWithSizeClass h n sc = Some (r', h')"
    using wpo_total [OF New_wpo [OF f(1), where n = n and sc = sc]] alive [of 3] n by auto
  moreover from this r2 have "r' \<noteq> None"
    unfolding NewWithSizeClass_def new by (auto simp: Let_def split: option.splits bind_splits)
  ultimately show ?thesis by auto
qed

lemma demo_New: "0 < n \<Longrightarrow> n \<le> 1000 \<Longrightarrow> \<exists>p h'. NewWithSizeClass demo_heap n sc = Some (Some p, h')"
  by (rule fresh_New [OF demo_heap_fresh])

section \<open>Properties\<close>

lemma span_bytes_disjoint:
  assumes "geom sp gd en tk" "sp p = Some s" "sp q = Some t" "p \<noteq> q"
  shows "bytes_of s \<inter> bytes_of t = {}"
proof -
  have "sp_start s + sp_length s \<le> sp_start t \<or> sp_start t + sp_length t \<le> sp_start s"
    by (rule geom_order [OF assms])
  then have "(sp_start s + sp_length s) * kPageSize \<le> sp_start t * kPageSize
      \<or> (sp_start t + sp_length t) * kPageSize \<le> sp_start s * kPageSize"
    by (auto simp: mult_le_mono1)
  then show ?thesis by (fastforce simp: bytes_of_def)
qed

text \<open>C20. In every reachable state of the page heap, two different spans, in use or free, share no byte, the
  bytes of every span were obtained from the system, and the page map finds the span at its first
  and at its last page.\<close>

theorem heap_spans_disjoint:
  assumes "heap_reachable h" "spans h p = Some s"
  shows "sp_length s > 0 \<and> bytes_of s \<subseteq> sys_taken (system h)
    \<and> GetDescriptor h (sp_start s) = Some p \<and> GetDescriptor h (sp_start s + sp_length s - 1) = Some p
    \<and> (\<forall>q t. spans h q = Some t \<and> q \<noteq> p \<longrightarrow> bytes_of s \<inter> bytes_of t = {})"
proof -
  note g = ph_invD(1) [OF heap_okD(1) [OF heap_reachable_ok [OF assms(1)]]]
  have "bytes_of s \<inter> bytes_of t = {}" if "spans h q = Some t" "q \<noteq> p" for q t
    by (rule span_bytes_disjoint [OF g assms(2) that(1)]) (use that(2) in simp)
  then have "\<forall>q t. spans h q = Some t \<and> q \<noteq> p \<longrightarrow> bytes_of s \<inter> bytes_of t = {}" by blast
  with geom_span [OF g assms(2)] show ?thesis by (simp only: span_ok_def simp_thms)
qed

text \<open>The heap after one allocation.\<close>

lemma demo_New_span:
  assumes n: "0 < n" "n \<le> 1000"
  obtains p h' s where "heap_reachable h'" "NewWithSizeClass demo_heap n sc = Some (Some p, h')" "spans h' p = Some s"
    "sp_location s = IN_USE" "sp_length s = n" "inuse_spans h' p = Some s"
proof -
  obtain p h' where new: "NewWithSizeClass demo_heap n sc = Some (Some p, h')" using demo_New [OF n] by blast
  have r: "heap_reachable h'" by (rule heap_new [OF demo_heap_reachable n(1) _ new]) (use n in simp)
  note ok = heap_reachable_ok [OF demo_heap_reachable]
  have sm: "smallest_span_size demo_heap = 1" using demo_init PageHeap_init_fields(4) by metis
  have "RoundUpSize demo_heap n = n" using RoundUpSize_eq [of demo_heap 0 n] sm n by simp
  moreover have "span_given (RoundUpSize demo_heap n) sc demo_heap p h'"
    using wpo_partial [OF New_wpo [OF ok _ _ heap_okD(5) [OF ok], of n] new] n by simp
  ultimately obtain s where s: "inuse_spans h' = (inuse_spans demo_heap)(p \<mapsto> s)" "sp_length s = n"
    by (auto simp: span_given_def)
  then have "inuse_spans h' p = Some s" by simp
  with r new s(2) that show ?thesis by (simp add: inuse_spans_Some)
qed

theorem heap_spans_disjoint_witness:
  "\<exists>h p s. NewWithSizeClass demo_heap 3 0 = Some (Some p, h) \<and> spans h p = Some s \<and> sp_length s = 3
     \<and> bytes_of s \<subseteq> sys_taken (system h) \<and> (\<forall>q t. spans h q = Some t \<and> q \<noteq> p \<longrightarrow> bytes_of s \<inter> bytes_of t = {})"
proof -
  obtain p h s where h: "heap_reachable h" "NewWithSizeClass demo_heap 3 0 = Some (Some p, h)" "spans h p = Some s"
      "sp_length s = 3" by (rule demo_New_span [of 3 0]) simp_all
  with heap_spans_disjoint [OF h(1,3)] show ?thesis by blast
qed

text \<open>C21. The accounts of the page heap are exact in every reachable state, in 64-bit arithmetic:
  \<open>free_bytes\<close> is the size of the spans on the normal lists, \<open>unmapped_bytes\<close> the size of the
  spans on the returned lists, and the committed and the unmapped bytes add up to the bytes
  obtained from the system.\<close>

theorem heap_accounting:
  assumes "heap_reachable h"
  shows "free_bytes (stats h) = page_bytes (loc_pages {} (spans h) ON_NORMAL_FREELIST)
    \<and> unmapped_bytes (stats h) = page_bytes (loc_pages {} (spans h) ON_RETURNED_FREELIST)
    \<and> committed_bytes (stats h) + unmapped_bytes (stats h) = system_bytes (stats h)"
proof -
  note ok = heap_okD [OF heap_reachable_ok [OF assms]]
  note l = lists_okD(5) [OF ph_invD(2) [OF ok(1)]]
  have f: "free_bytes (stats h) = page_bytes (loc_pages {} (spans h) ON_NORMAL_FREELIST)"
      "unmapped_bytes (stats h) = page_bytes (loc_pages {} (spans h) ON_RETURNED_FREELIST)"
    using l [of ON_NORMAL_FREELIST] l [of ON_RETURNED_FREELIST] by (simp_all add: stat_bytes_def)
  then show ?thesis using ok(3) by (simp add: imbalance_def)
qed

theorem heap_accounting_witness:
  "\<exists>h p. NewWithSizeClass demo_heap 3 0 = Some (Some p, h)
     \<and> committed_bytes (stats h) + unmapped_bytes (stats h) = system_bytes (stats h)"
proof -
  obtain p h s where h: "heap_reachable h" "NewWithSizeClass demo_heap 3 0 = Some (Some p, h)" by (rule demo_New_span [of 3 0]) simp_all
  with heap_accounting [OF h(1)] show ?thesis by blast
qed

text \<open>C22. \<open>NewWithSizeClass\<close> returns, unless the metadata runs out or the system answers \<open>EAGAIN\<close> forever.  A
  span it returns was not in use before and has exactly the rounded number of pages, at least those
  asked for; no other span in use is touched.  With a size class every page of the span is registered
  in the page map; the cached size class of its first page is dropped.  Without a heap limit the call
  fails only when no free span is long enough.\<close>

theorem New_gives_fresh_span:
  assumes "heap_reachable h" "0 < n" "n \<le> 2 ^ 52" "3 \<le> room h" "release_fair (system h)"
  shows "\<exists>r h'. NewWithSizeClass h n sc = Some (r, h') \<and> n \<le> RoundUpSize h n
    \<and> (case r of
         None \<Rightarrow> inuse_spans h' = inuse_spans h \<and> pagemap_cache h' = pagemap_cache h \<and> (heap_limit_mb h = 0 \<longrightarrow> \<not> free_fit (spans h) (RoundUpSize h n))
       | Some p \<Rightarrow> span_given (RoundUpSize h n) sc h p h')"
proof -
  note ok = heap_reachable_ok [OF assms(1)]
  have "lively True 3 h" using assms(4,5) by (simp add: lively_def)
  from wpo_total [OF New_wpo [OF ok assms(2,3) this]] RoundUpSize_ok(1) [OF ok assms(2,3)]
  show ?thesis by fastforce
qed

theorem New_gives_fresh_span_witness:
  "\<exists>p h'. NewWithSizeClass demo_heap 3 5 = Some (Some p, h') \<and> span_given (RoundUpSize demo_heap 3) 5 demo_heap p h'"
proof -
  have "3 \<le> room demo_heap" "release_fair (system demo_heap)"
    using demo_heap_lively [of 3 True] by (simp_all add: lively_def)
  with New_gives_fresh_span [OF demo_heap_reachable, of 3 5] demo_New [of 3 5] show ?thesis by fastforce
qed

text \<open>C23. \<open>Delete\<close> of a span in use returns, takes exactly this span from the spans in use, keeps the
  accounts balanced, and afterwards there is a free span at least as long.\<close>

theorem Delete_frees_span:
  assumes "heap_reachable h" "inuse_spans h p = Some s" "release_fair (system h)"
  shows "\<exists>h'. PH_Delete h p = Some h' \<and> heap_reachable h' \<and> inuse_spans h' = (inuse_spans h)(p := None)
    \<and> free_fit (spans h') (sp_length s)"
proof -
  have "lively True 0 h" using assms(3) by (simp add: lively_def)
  from wpo_total [OF Delete_wpo [OF heap_reachable_ok [OF assms(1)] assms(2) this]]
  show ?thesis using heap_delete [OF assms(1,2)] by blast
qed

lemma demo_run:
  assumes n: "0 < n" "n \<le> 1000"
  obtains p h s where "heap_reachable h" "inuse_spans h p = Some s" "release_fair (system h)" "3 \<le> room h" "sp_length s = n"
    "heap_limit_mb h = 0"
proof -
  obtain p h s where h: "heap_reachable h" "NewWithSizeClass demo_heap n 0 = Some (Some p, h)" "inuse_spans h p = Some s"
      "sp_length s = n" by (rule demo_New_span [OF n])
  note ok = heap_reachable_ok [OF demo_heap_reachable]
  have l: "lively True 6 demo_heap" by (rule demo_heap_lively) simp
  have "heap_limit_mb demo_heap = 0" using demo_init PageHeap_init_fields(12) by metis
  moreover have "settings demo_heap h" "room demo_heap \<le> room h + 3"
    using wpo_partial [OF New_wpo [OF ok _ _ heap_okD(5) [OF ok]] h(2)] n by simp_all
  ultimately have "release_fair (system h)" "3 \<le> room h" "heap_limit_mb h = 0"
    using l by (auto simp: lively_def settings_def release_fair_def)
  with h that show ?thesis by blast
qed

theorem Delete_frees_span_witness:
  "\<exists>h p h'. inuse_spans h p \<noteq> None \<and> PH_Delete h p = Some h' \<and> inuse_spans h' p = None \<and> free_fit (spans h') 3"
proof -
  obtain p h s where h: "heap_reachable h" "inuse_spans h p = Some s" "release_fair (system h)" "sp_length s = 3"
    by (rule demo_run [of 3]) simp_all
  from Delete_frees_span [OF h(1-3)] h(2,4) show ?thesis by fastforce
qed

text \<open>C24. \<open>ReleaseAtLeastNPages\<close> ends: each further round of its loop releases a page.  It touches no span in
  use, and what it reports as released was on the normal lists before.\<close>

theorem ReleaseAtLeastNPages_terminates:
  assumes "heap_reachable h" "release_fair (system h)"
  shows "\<exists>r h'. ReleaseAtLeastNPages h n = Some (r, h') \<and> inuse_spans h' = inuse_spans h
    \<and> r + loc_pages {} (spans h') ON_NORMAL_FREELIST \<le> loc_pages {} (spans h) ON_NORMAL_FREELIST"
proof -
  have "lively True 0 h" using assms(2) by (simp add: lively_def)
  from wpo_total [OF Release_wpo [OF heap_reachable_ok [OF assms(1)] this]] show ?thesis
    by (fastforce simp: kept_def normal_pages_def)
qed

theorem ReleaseAtLeastNPages_terminates_witness:
  "\<exists>h r h'. heap_reachable h \<and> ReleaseAtLeastNPages h 7 = Some (r, h') \<and> inuse_spans h' = inuse_spans h \<and> inuse_spans h \<noteq> Map.empty"
proof -
  obtain p h s where h: "heap_reachable h" "inuse_spans h p = Some s" "release_fair (system h)" by (rule demo_run [of 3]) simp_all
  then have "inuse_spans h \<noteq> Map.empty" by auto
  with ReleaseAtLeastNPages_terminates [OF h(1,3), of 7] h(1) show ?thesis by blast
qed



section \<open>Best fit\<close>

lemma upper_bound_least:
  assumes inv: "ph_inv {} h" "loc \<noteq> IN_USE" "SpanSet_upper_bound (spans h) n (large h loc) = Some p" "spans h p = Some s"
    and q: "spans h q = Some t" "sp_location t = loc" "kMaxPages < sp_length t" "n \<le> sp_length t"
  shows "sp_length s < sp_length t \<or> sp_length s = sp_length t \<and> sp_start s \<le> sp_start t"
proof -
  let ?P = "\<lambda>(l, p). n < l \<or> n = l \<and> 0 < start_of (spans h) p"
  note l = lists_okD [OF ph_invD(2) [OF inv(1)] inv(2)]
  obtain len where "find ?P (large h loc) = Some (len, p)"
    using inv(3) by (auto simp: SpanSet_upper_bound_def)
  then obtain i where i: "i < length (large h loc)" "large h loc ! i = (len, p)" "\<And>j. j < i \<Longrightarrow> \<not> ?P (large h loc ! j)"
    by (auto simp: find_Some_iff)
  have "(len, p) \<in> set (large h loc)" using i(1,2) nth_mem by metis
  then have len: "len = sp_length s" using l(3) inv(4) by (auto simp: on_list_def)
  have "(sp_length t, q) \<in> set (large h loc)" using l(3) q by (auto simp: on_list_def)
  then obtain j where j: "j < length (large h loc)" "large h loc ! j = (sp_length t, q)" by (auto simp: in_set_conv_nth)
  have st: "start_of (spans h) q = sp_start t" "start_of (spans h) p = sp_start s" using q(1) inv(4) by (simp_all add: start_of_def)
  have "?P (sp_length t, q)" using q(4) st ph_inv_span [OF inv(1) q(1)] by (simp add: le_less)
  then have "\<not> j < i" using i(3) [of j] unfolding j(2) by blast
  then show ?thesis
  proof (cases "i = j")
    case True
    then have "q = p" using i(2) j(2) by simp
    then show ?thesis using q(1) inv(4) by simp
  next
    case False
    with \<open>\<not> j < i\<close> have "SpanBestFitLess (spans h) (large h loc ! i) (large h loc ! j)"
      using sorted_wrt_nth_less [OF l(4)] j(1) by simp
    then show ?thesis using i(2) j(2) len st by (auto simp: SpanBestFitLess_def split: if_splits)
  qed
qed

text \<open>C26. \<open>AllocLarge\<close> is address-ordered best fit: without a heap limit, when some free span of more than
  \<open>kMaxPages\<close> pages is long enough, it carves from a span that no other such span, mapped or returned,
  beats in length, nor in address among those of the same length.\<close>

theorem AllocLarge_best_fit:
  assumes "heap_reachable h" "heap_limit_mb h = 0"
    and "spans h q = Some t" "sp_location t \<noteq> IN_USE" "kMaxPages < sp_length t" "n \<le> sp_length t"
  shows "\<exists>p s. spans h p = Some s \<and> sp_location s \<noteq> IN_USE \<and> n \<le> sp_length s
    \<and> AllocLarge h n = do { h' \<leftarrow> Carve h p n; Some (Some p, h') }
    \<and> (sp_length s < sp_length t \<or> sp_length s = sp_length t \<and> sp_start s \<le> sp_start t)"
proof -
  note inv = heap_okD(1) [OF heap_reachable_ok [OF assms(1)]]
  let ?ub = "\<lambda>loc. SpanSet_upper_bound (spans h) n (large h loc)"
  let ?lt = "\<lambda>s t. sp_length s < sp_length t \<or> sp_length s = sp_length t \<and> sp_start s \<le> sp_start t"
  note unf = AllocLarge.simps [of h n] EnsureLimit_unlimited [OF assms(2)] Let_def
  have found: "?ub (sp_location t) \<noteq> None" by (rule upper_bound_exists [OF inv assms(3-6)])
  have least: "?lt s t" if "?ub (sp_location t) = Some p" "spans h p = Some s" for p s
    using upper_bound_least [OF inv assms(4) that assms(3) refl assms(5,6)] .
  have span: "\<exists>s. spans h p = Some s \<and> sp_location s = loc \<and> n \<le> sp_length s" if "?ub loc = Some p" "loc \<noteq> IN_USE" for p loc
    using upper_bound_span [OF inv that(2,1)] by blast
  show ?thesis
  proof (cases "?ub ON_NORMAL_FREELIST")
    case None
    with found assms(4) obtain p where p: "?ub ON_RETURNED_FREELIST = Some p" "sp_location t = ON_RETURNED_FREELIST"
      by (cases "sp_location t") auto
    then obtain s where "spans h p = Some s" "sp_location s = ON_RETURNED_FREELIST" "n \<le> sp_length s" using span by blast
    with None p least show ?thesis by (intro exI [of _ p] exI [of _ s]) (simp add: unf)
  next
    case (Some p)
    then obtain s where s: "spans h p = Some s" "sp_location s = ON_NORMAL_FREELIST" "n \<le> sp_length s" using span by blast
    show ?thesis
    proof (cases "?ub ON_RETURNED_FREELIST")
      case None
      with found assms(4) have "sp_location t = ON_NORMAL_FREELIST" by (cases "sp_location t") auto
      with Some None s least show ?thesis by (intro exI [of _ p] exI [of _ s]) (simp add: unf)
    next
      case place: (Some c)
      then obtain u where u: "spans h c = Some u" "sp_location u = ON_RETURNED_FREELIST" "n \<le> sp_length u" using span by blast
      have neq: "c \<noteq> p" using s(1,2) u(1,2) by auto
      have lt: "?lt s t \<or> ?lt u t"
        using least Some place s(1) u(1) assms(4) by (cases "sp_location t") auto
      show ?thesis
      proof (cases "sp_length u < sp_length s \<or> sp_length u = sp_length s \<and> sp_start u < sp_start s")
        case True
        with lt have "?lt u t" by auto
        with Some place s(1) u neq True show ?thesis by (intro exI [of _ c] exI [of _ u]) (simp add: unf)
      next
        case False
        with lt have "?lt s t" by auto
        with Some place s u False show ?thesis by (intro exI [of _ p] exI [of _ s]) (auto simp: unf)
      qed
    qed
  qed
qed

theorem AllocLarge_best_fit_witness:
  "\<exists>h p. heap_reachable h \<and> AllocLarge h 150 = do { h' \<leftarrow> Carve h p 150; Some (Some p, h') }"
proof -
  obtain p h s where h: "heap_reachable h" "inuse_spans h p = Some s" "release_fair (system h)" "sp_length s = 200"
      "heap_limit_mb h = 0"
    by (rule demo_run [of 200]) simp_all
  have "lively True 0 h" using h(3) by (simp add: lively_def)
  then obtain h' where h': "PH_Delete h p = Some h'" "frame h h'" "free_fit (spans h') 200"
    using wpo_total [OF Delete_wpo [OF heap_reachable_ok [OF h(1)] h(2)]] h(4) by auto
  then obtain q t where t: "spans h' q = Some t" "sp_location t \<noteq> IN_USE" "200 \<le> sp_length t"
    by (auto simp: free_fit_def)
  have r: "heap_reachable h'" by (rule heap_delete [OF h(1,2) h'(1)])
  have "heap_limit_mb h' = 0" using h'(2) h(5) by (simp add: frame_def)
  from AllocLarge_best_fit [OF r this t(1,2), of 150] t(3) r show ?thesis by auto
qed

section \<open>A limit of the span arithmetic\<close>



end
