(* ===== verification/PageHeap_Cache.thy ===== *)
theory PageHeap_Cache
  imports PageHeap_Aligned
begin

text \<open>
  The cache of size classes in front of the page map.  Entries are not removed when a span is deleted; what keeps the answers right is
  that an allocation invalidates the entry of its first page, and that the pages of a span of small
  objects are all entered.
\<close>

definition cached_class :: "packed_cache \<Rightarrow> nat \<Rightarrow> nat option" where
  "cached_class c k = map_option unat (TryGet c (of_nat k))"

lemma TryGetSizeClass_cached: "TryGetSizeClass h k = cached_class (pagemap_cache h) k"
  by (simp add: TryGetSizeClass_def cached_class_def)

text \<open>The answers for a span in use: none for the first page of a span without class, no wrong class for the pages of the others.\<close>

definition span_cached :: "packed_cache \<Rightarrow> Span \<Rightarrow> bool" where
  "span_cached c s \<longleftrightarrow>
     (if sp_sizeclass s = 0 then cached_class c (sp_start s) = None
      else \<forall>k \<in> pages_of s. cached_class c k \<in> {None, Some (sp_sizeclass s)})"

definition coherent :: "packed_cache \<Rightarrow> (addr \<rightharpoonup> Span) \<Rightarrow> bool" where
  "coherent c U \<longleftrightarrow> (\<forall>p s. U p = Some s \<longrightarrow> span_cached c s)"

text \<open>A cache that forgets entries stays coherent.\<close>

definition forgets :: "packed_cache \<Rightarrow> packed_cache \<Rightarrow> bool" where
  "forgets c c' \<longleftrightarrow> (\<forall>k. cached_class c' k = None \<or> cached_class c' k = cached_class c k)"

lemma forgets_Invalidate: "forgets c (Invalidate c k)"
  by (simp add: forgets_def cached_class_def TryGet_Invalidate)

lemma Invalidate_miss [simp]: "cached_class (Invalidate c (of_nat k)) k = None"
  by (simp add: cached_class_def TryGet_Invalidate)

lemma span_cached_forgets: "span_cached c s \<Longrightarrow> forgets c c' \<Longrightarrow> span_cached c' s"
  by (fastforce simp: span_cached_def forgets_def split: if_splits)

lemma coherent_forgets: "coherent c U \<Longrightarrow> forgets c c' \<Longrightarrow> coherent c' U"
  unfolding coherent_def using span_cached_forgets [of c _ c'] by blast

lemma coherent_classD: "coherent c U \<Longrightarrow> U p = Some s \<Longrightarrow> span_cached c s"
  by (simp add: coherent_def)

text \<open>Only the place and the class of the spans matter.\<close>

definition same_place :: "Span \<Rightarrow> Span \<Rightarrow> bool" where
  "same_place s t \<longleftrightarrow> sp_start t = sp_start s \<and> sp_length t = sp_length s \<and> sp_sizeclass t = sp_sizeclass s"

lemma span_cached_same: "same_place s t \<Longrightarrow> span_cached c t = span_cached c s"
  by (simp add: same_place_def span_cached_def pages_of_def)

lemma coherent_upd: "coherent c U \<Longrightarrow> span_cached c s \<Longrightarrow> coherent c (U(p \<mapsto> s))"
  by (simp add: coherent_def)

lemma coherent_drop: "coherent c U \<Longrightarrow> coherent c (U(p := None))"
  by (simp add: coherent_def)

lemma coherent_same: "coherent c U \<Longrightarrow> U p = Some s \<Longrightarrow> same_place s t \<Longrightarrow> coherent c (U(p \<mapsto> t))"
  by (rule coherent_upd) (auto simp: span_cached_same dest: coherent_classD)

text \<open>A new span without class.\<close>

lemma coherent_new:
  assumes "coherent c U" "sp_sizeclass s = 0"
  shows "coherent (Invalidate c (of_nat (sp_start s))) (U(p \<mapsto> s))"
  by (rule coherent_upd [OF coherent_forgets [OF assms(1) forgets_Invalidate]]) (simp add: span_cached_def assms(2))

text \<open>A page and its class are entered.\<close>

definition put_class :: "packed_cache \<Rightarrow> nat \<Rightarrow> nat \<Rightarrow> packed_cache" where
  "put_class c k v = Put c (of_nat k) (of_nat v)"

lemma SetCachedSizeClass_put: "SetCachedSizeClass h k v = h\<lparr> pagemap_cache := put_class (pagemap_cache h) k v \<rparr>"
  by (simp add: SetCachedSizeClass_def put_class_def)

lemma cached_class_put:
  assumes "v < 128" "k < 2 ^ 64" "j < 2 ^ 64"
  shows "cached_class (put_class c k v) j \<in> (if j = k then {Some v} else {None, cached_class c j})"
proof -
  have v: "(of_nat v :: u64) < 2 ^ kValuebits" "unat (of_nat v :: u64) = v"
    using assms(1) by (simp_all add: word_less_nat_alt unat_of_nat kValuebits_def)
  have "(of_nat j :: u64) = of_nat k \<longleftrightarrow> j = k"
    using assms(2,3) by (auto dest!: arg_cong [of _ _ unat] simp: unat_of_nat)
  with v show ?thesis by (auto simp: cached_class_def put_class_def TryGet_Put)
qed

lemma coherent_put_class:
  assumes "coherent c U" "U p = Some s" "k \<in> pages_of s" "sp_sizeclass s \<noteq> 0" "sp_sizeclass s < 128"
    and bnd: "\<And>q t j. U q = Some t \<Longrightarrow> j \<in> pages_of t \<Longrightarrow> j < 2 ^ 64"
    and dis: "\<And>q t. U q = Some t \<Longrightarrow> q \<noteq> p \<Longrightarrow> pages_of t \<inter> pages_of s = {}"
    and ne: "\<And>q t. U q = Some t \<Longrightarrow> sp_start t \<in> pages_of t"
  shows "coherent (put_class c k (sp_sizeclass s)) U"
proof -
  let ?c = "put_class c k (sp_sizeclass s)"
  note put = cached_class_put [OF assms(5) bnd [OF assms(2,3)], of _ c]
  have "span_cached ?c t" if t: "U q = Some t" for q t
  proof (cases "q = p")
    case True
    with t assms(2) have "t = s" by simp
    moreover have "cached_class ?c j \<in> {None, Some (sp_sizeclass s)}" if "j \<in> pages_of s" for j
      using put [OF bnd [OF assms(2) that]] coherent_classD [OF assms(1,2)] that assms(4)
      by (auto simp: span_cached_def split: if_splits)
    ultimately show ?thesis using assms(4) by (simp add: span_cached_def)
  next
    case False
    have "cached_class ?c j \<in> {None, cached_class c j}" if "j \<in> pages_of t" for j
      using put [OF bnd [OF t that]] dis [OF t False] that assms(3) by (auto split: if_splits)
    then show ?thesis
      using coherent_classD [OF assms(1) t] ne [OF t] by (fastforce simp: span_cached_def split: if_splits)
  qed
  then show ?thesis by (simp add: coherent_def)
qed

text \<open>A new span with a class, whose pages are all entered.\<close>

lemma cached_class_puts:
  assumes "v < 128" "\<forall>i < n. k + i < 2 ^ 64" "j < 2 ^ 64"
  shows "cached_class (foldl (\<lambda>c i. put_class c (k + i) v) c [0 ..< n]) j
    \<in> (if k \<le> j \<and> j < k + n then {None, Some v} else {None, cached_class c j})"
  using assms(2)
proof (induction n)
  case (Suc n)
  let ?c = "foldl (\<lambda>c i. put_class c (k + i) v) c [0 ..< n]"
  have "cached_class (put_class ?c (k + n) v) j \<in> (if j = k + n then {Some v} else {None, cached_class ?c j})"
    by (rule cached_class_put [OF assms(1) _ assms(3)]) (use Suc.prems in simp)
  moreover have "cached_class ?c j \<in> (if k \<le> j \<and> j < k + n then {None, Some v} else {None, cached_class c j})"
    using Suc by simp
  moreover have "foldl (\<lambda>c i. put_class c (k + i) v) c [0 ..< Suc n] = put_class ?c (k + n) v" by simp
  ultimately show ?case by (auto simp: less_Suc_eq split: if_splits)
qed auto

lemma coherent_puts:
  assumes "coherent c U" "sp_sizeclass s \<noteq> 0" "sp_sizeclass s < 128" "sp_start s + sp_length s < 2 ^ 64"
    and bnd: "\<And>q t j. U q = Some t \<Longrightarrow> j \<in> pages_of t \<Longrightarrow> j < 2 ^ 64"
    and dis: "\<And>q t. U q = Some t \<Longrightarrow> q \<noteq> p \<Longrightarrow> pages_of t \<inter> pages_of s = {}"
    and ne: "\<And>q t. U q = Some t \<Longrightarrow> sp_start t \<in> pages_of t"
  shows "coherent (foldl (\<lambda>c i. put_class c (sp_start s + i) (sp_sizeclass s)) c [0 ..< sp_length s]) (U(p \<mapsto> s))"
proof -
  let ?c = "foldl (\<lambda>c i. put_class c (sp_start s + i) (sp_sizeclass s)) c [0 ..< sp_length s]"
  have puts: "cached_class ?c j \<in> (if j \<in> pages_of s then {None, Some (sp_sizeclass s)} else {None, cached_class c j})" if "j < 2 ^ 64" for j
    using cached_class_puts [OF assms(3) _ that, of "sp_length s" "sp_start s" c] assms(4) by (simp add: pages_of_def)
  have "cached_class ?c j \<in> {None, Some (sp_sizeclass s)}" if "j \<in> pages_of s" for j
  proof -
    have "j < 2 ^ 64" using that assms(4) by (simp add: pages_of_def)
    from puts [OF this] that show ?thesis by simp
  qed
  then have "span_cached ?c s" using assms(2) by (simp add: span_cached_def)
  moreover have "span_cached ?c t" if t: "U q = Some t" "q \<noteq> p" for q t
  proof -
    have "cached_class ?c j \<in> {None, cached_class c j}" if "j \<in> pages_of t" for j
      using puts [OF bnd [OF t(1) that]] dis [OF t] that by (auto split: if_splits)
    then show ?thesis
      using coherent_classD [OF assms(1) t(1)] ne [OF t(1)] by (fastforce simp: span_cached_def split: if_splits)
  qed
  ultimately show ?thesis by (simp add: coherent_def)
qed

text \<open>The spans in use of a page heap.\<close>

lemma inuse_place:
  assumes "ph_inv X h"
  shows "inuse_spans h p = Some s \<Longrightarrow> j \<in> pages_of s \<Longrightarrow> j < 2 ^ 35"
    "inuse_spans h p = Some s \<Longrightarrow> sp_start s \<in> pages_of s"
    "inuse_spans h p = Some s \<Longrightarrow> inuse_spans h q = Some t \<Longrightarrow> p \<noteq> q \<Longrightarrow> pages_of s \<inter> pages_of t = {}"
proof -
  have sp: "spans h r = Some u" if "inuse_spans h r = Some u" for r u
    using that by (auto simp: inuse_spans_def split: option.splits if_splits)
  show "inuse_spans h p = Some s \<Longrightarrow> j \<in> pages_of s \<Longrightarrow> j < 2 ^ 35"
    using start_bound [OF assms sp, of p s] by (auto simp: pages_of_def)
  show "inuse_spans h p = Some s \<Longrightarrow> sp_start s \<in> pages_of s"
    using ph_inv_span [OF assms sp, of p s] by (simp add: pages_of_def)
  show "inuse_spans h p = Some s \<Longrightarrow> inuse_spans h q = Some t \<Longrightarrow> p \<noteq> q \<Longrightarrow> pages_of s \<inter> pages_of t = {}"
    using geom_disjoint [OF ph_invD(1) [OF assms] sp sp] by blast
qed

end
