(* ===== verification/CentralFreeList_Inv.thy ===== *)
theory CentralFreeList_Inv
  imports CentralFreeList PageHeap_Props PageHeap_Cache
begin

text \<open>
  What the central free lists rely on in the page heap, their invariant, and the sets of objects it is
  about: the objects of the spans of a class, those that are free in their span, those that wait in the transfer
  cache, and the rest, which the thread caches and the program hold.
\<close>

section \<open>What the central lists ask of the page heap\<close>

definition nobjs :: "SizeMap \<Rightarrow> nat \<Rightarrow> nat" where
  "nobjs sm cl = class_to_pages sm cl * kPageSize div ByteSizeForClass sm cl"

text \<open>The objects of a span.\<close>

definition grid :: "SizeMap \<Rightarrow> Span \<Rightarrow> addr set" where
  "grid sm s = (\<lambda>i. sp_start s * kPageSize + i * ByteSizeForClass sm (sp_sizeclass s)) ` {..<nobjs sm (sp_sizeclass s)}"

locale page_provider =
  fixes ok :: "'h \<Rightarrow> bool"
    and inuse :: "'h \<Rightarrow> addr \<rightharpoonup> Span"
    and desc :: "'h \<Rightarrow> nat \<Rightarrow> addr option"
  assumes inuse_finite: "ok h \<Longrightarrow> finite (dom (inuse h))"
    and inuse_disjoint: "ok h \<Longrightarrow> inuse h p = Some s \<Longrightarrow> inuse h q = Some t \<Longrightarrow> p \<noteq> q \<Longrightarrow> pages_of s \<inter> pages_of t = {}"
    and desc_classed: "ok h \<Longrightarrow> inuse h p = Some s \<Longrightarrow> sp_sizeclass s \<noteq> 0 \<Longrightarrow> k \<in> pages_of s \<Longrightarrow> desc h k = Some p"
begin

lemma byte_page: "x \<in> bytes_of s \<longleftrightarrow> x div kPageSize \<in> pages_of s"
  by (simp add: bytes_of_def pages_of_def less_mult_imp_div_less div_less_iff_less_mult less_eq_div_iff_mult_less_eq)

lemma grid_bytes:
  assumes "sp_length s = class_to_pages sm (sp_sizeclass s)"
  shows "grid sm s \<subseteq> bytes_of s"
proof
  fix x assume "x \<in> grid sm s"
  then obtain i where i: "i < nobjs sm (sp_sizeclass s)" "x = sp_start s * kPageSize + i * ByteSizeForClass sm (sp_sizeclass s)"
    by (auto simp: grid_def)
  let ?z = "ByteSizeForClass sm (sp_sizeclass s)" and ?n = "sp_length s * kPageSize"
  have z: "0 < ?z" using i(1) by (cases "?z = 0") (simp_all add: nobjs_def)
  have "(i + 1) * ?z \<le> nobjs sm (sp_sizeclass s) * ?z" using i(1) by (intro mult_le_mono1) simp
  also have "\<dots> \<le> ?n" using div_times_less_eq_dividend [of ?n ?z] by (simp add: nobjs_def assms)
  finally have "i * ?z < ?n" using z by simp
  then show "x \<in> bytes_of s" by (simp add: bytes_of_def i(2) distrib_right)
qed

text \<open>The page of an object leads to its span, and two spans have no object in common.\<close>

lemma object_desc:
  assumes "ok h" "inuse h p = Some s" "sp_sizeclass s \<noteq> 0" "sp_length s = class_to_pages sm (sp_sizeclass s)"
    "x \<in> grid sm s"
  shows "desc h (x div kPageSize) = Some p"
proof -
  have "x div kPageSize \<in> pages_of s" using grid_bytes [OF assms(4)] assms(5) byte_page by blast
  then show ?thesis by (rule desc_classed [OF assms(1-3)])
qed

lemma grids_disjoint:
  assumes "ok h" "inuse h p = Some s" "inuse h q = Some t" "p \<noteq> q"
    "sp_length s = class_to_pages sm (sp_sizeclass s)" "sp_length t = class_to_pages sm (sp_sizeclass t)"
  shows "grid sm s \<inter> grid sm t = {}"
proof -
  have "bytes_of s \<inter> bytes_of t = {}" using inuse_disjoint [OF assms(1-4)] byte_page by blast
  with grid_bytes [OF assms(5)] grid_bytes [OF assms(6)] show ?thesis by blast
qed

end

interpretation ph: page_provider heap_ok inuse_spans GetDescriptor
proof (unfold_locales, goal_cases)
  case (1 h)
  have "dom (inuse_spans h) \<subseteq> dom (spans h)" by (auto simp: inuse_spans_Some)
  with ph_invD(5) [OF heap_okD(1) [OF 1]] show ?case by (rule finite_subset [rotated])
next
  case (2 h p s q t)
  with geom_disjoint [OF ph_invD(1) [OF heap_okD(1) [OF 2(1)]], of p s q t] show ?case by (simp add: inuse_spans_Some)
next
  case (3 h p s k)
  with geom_span [OF ph_invD(1) [OF heap_okD(1) [OF 3(1)]], of p s] show ?case
    by (simp add: inuse_spans_Some span_ok_def)
qed

section \<open>The invariant\<close>

text \<open>The size classes as the central lists need them; \<open>refcount\<close> has 16 bits.\<close>

definition sizes_ok :: "SizeMap \<Rightarrow> PageHeap \<Rightarrow> bool" where
  "sizes_ok sm h \<longleftrightarrow> 0 < num_size_classes sm \<and> num_size_classes sm \<le> 128
     \<and> (\<forall>cl. 0 < cl \<and> cl < num_size_classes sm \<longrightarrow>
          0 < ByteSizeForClass sm cl \<and> 0 < class_to_pages sm cl \<and> class_to_pages sm cl \<le> 2 ^ 30
          \<and> 0 < nobjs sm cl \<and> nobjs sm cl < 2 ^ 16
          \<and> RoundUpSize h (class_to_pages sm cl) = class_to_pages sm cl \<and> 0 < num_objects_to_move sm cl)"

definition class_part :: "(addr \<rightharpoonup> Span) \<Rightarrow> nat \<Rightarrow> (addr \<times> Span) set" where
  "class_part U cl = {(p, s). U p = Some s \<and> sp_sizeclass s = cl \<and> cl \<noteq> 0}"

definition all_objs :: "SizeMap \<Rightarrow> (addr \<times> Span) set \<Rightarrow> addr set" where
  "all_objs sm S = (\<Union>(p, s) \<in> S. grid sm s)"

definition free_objs :: "(addr \<times> Span) set \<Rightarrow> addr set" where
  "free_objs S = (\<Union>(p, s) \<in> S. set (sp_objects s))"

definition span_inv :: "SizeMap \<Rightarrow> Span \<Rightarrow> bool" where
  "span_inv sm s \<longleftrightarrow> sp_length s = class_to_pages sm (sp_sizeclass s)
     \<and> distinct (sp_objects s) \<and> set (sp_objects s) \<subseteq> grid sm s
     \<and> sp_refcount s + length (sp_objects s) = nobjs sm (sp_sizeclass s)"

text \<open>The spans of a class without and with free objects, and the lists that hold them.\<close>

definition exhausted :: "(addr \<times> Span) set \<Rightarrow> addr set" where
  "exhausted S = {p. \<exists>s. (p, s) \<in> S \<and> sp_objects s = []}"

definition available :: "(addr \<times> Span) set \<Rightarrow> addr set" where
  "available S = {p. \<exists>s. (p, s) \<in> S \<and> sp_objects s \<noteq> []}"

definition lists_repr :: "CentralFreeList \<Rightarrow> addr set \<Rightarrow> addr set \<Rightarrow> bool" where
  "lists_repr c E N \<longleftrightarrow> distinct (empty_spans c @ nonempty_spans c) \<and> set (empty_spans c) = E \<and> set (nonempty_spans c) = N"

definition cfl_inv :: "SizeMap \<Rightarrow> (addr \<times> Span) set \<Rightarrow> nat \<Rightarrow> CentralFreeList \<Rightarrow> bool" where
  "cfl_inv sm S cl c \<longleftrightarrow> size_class c = cl
     \<and> lists_repr c (exhausted S) (available S) \<and> num_spans c = of_nat (card S)
     \<and> counter c = of_nat (card (free_objs S))
     \<and> used_slots c \<le> cache_size c \<and> cache_size c \<le> max_cache_size c \<and> max_cache_size c \<le> kMaxNumTransferEntries
     \<and> (\<forall>ch \<in> set (tc_slots c). int (length ch) = num_objects_to_move sm cl)
     \<and> distinct (concat (tc_slots c)) \<and> set (concat (tc_slots c)) \<subseteq> all_objs sm S - free_objs S"

definition cc_inv :: "central \<Rightarrow> bool" where
  "cc_inv st \<longleftrightarrow> heap_ok (pageheap st) \<and> sizes_ok (sizemap st) (pageheap st)
     \<and> (\<forall>p s. inuse_spans (pageheap st) p = Some s \<and> sp_sizeclass s \<noteq> 0
          \<longrightarrow> sp_sizeclass s < num_size_classes (sizemap st) \<and> span_inv (sizemap st) s)
     \<and> (\<forall>cl < num_size_classes (sizemap st).
          cfl_inv (sizemap st) (class_part (inuse_spans (pageheap st)) cl) cl (central_cache st cl))"

abbreviation part :: "central \<Rightarrow> nat \<Rightarrow> (addr \<times> Span) set" where
  "part st cl \<equiv> class_part (inuse_spans (pageheap st)) cl"

text \<open>The objects of a class that are neither free in a span nor in the transfer cache.\<close>

definition held :: "central \<Rightarrow> nat \<Rightarrow> addr set" where
  "held st cl = all_objs (sizemap st) (part st cl) - free_objs (part st cl) - set (concat (tc_slots (central_cache st cl)))"

text \<open>The spans in use that are no spans of small objects, and the coherence of the cache of size classes.\<close>

definition large_spans :: "central \<Rightarrow> (addr \<times> Span) set" where
  "large_spans st = {(p, s). inuse_spans (pageheap st) p = Some s \<and> sp_sizeclass s = 0}"

definition cache_ok :: "central \<Rightarrow> bool" where
  "cache_ok st \<longleftrightarrow> coherent (pagemap_cache (pageheap st)) (inuse_spans (pageheap st))"

lemma cc_invD:
  assumes "cc_inv st"
  shows "heap_ok (pageheap st)" "sizes_ok (sizemap st) (pageheap st)"
    "cl < num_size_classes (sizemap st) \<Longrightarrow> cfl_inv (sizemap st) (part st cl) cl (central_cache st cl)"
    "(p, s) \<in> part st cl \<Longrightarrow> cl < num_size_classes (sizemap st) \<and> span_inv (sizemap st) s"
  using assms by (auto simp: cc_inv_def class_part_def)

lemma sizes_okD:
  assumes "sizes_ok sm h" "0 < cl" "cl < num_size_classes sm"
  shows "0 < ByteSizeForClass sm cl" "0 < class_to_pages sm cl" "class_to_pages sm cl \<le> 2 ^ 30" "0 < nobjs sm cl"
    "nobjs sm cl < 2 ^ 16" "RoundUpSize h (class_to_pages sm cl) = class_to_pages sm cl" "0 < num_objects_to_move sm cl" "cl < 128"
  using assms by (auto simp: sizes_ok_def)

lemma sizes_ok_settings: "sizes_ok sm h \<Longrightarrow> settings h h' \<Longrightarrow> sizes_ok sm h'"
  by (simp add: sizes_ok_def settings_def RoundUpSize_def)

lemma settings_refl [simp]: "settings h h"
  by (simp add: settings_def)

section \<open>The sets of objects\<close>

lemma part_finite: "cc_inv st \<Longrightarrow> finite (part st cl)"
proof -
  assume "cc_inv st"
  then have "finite (dom (inuse_spans (pageheap st)))" by (intro ph.inuse_finite cc_invD(1))
  then have "finite ((\<lambda>p. (p, the (inuse_spans (pageheap st) p))) ` dom (inuse_spans (pageheap st)))" by simp
  then show ?thesis by (rule finite_subset [rotated]) (force simp: class_part_def)
qed

lemma part_unique: "(p, s) \<in> part st cl \<Longrightarrow> (p, t) \<in> part st cl' \<Longrightarrow> s = t"
  by (simp add: class_part_def)

lemma grid_finite [simp]: "finite (grid sm s)"
  by (simp add: grid_def)

lemma grid_card: "0 < ByteSizeForClass sm (sp_sizeclass s) \<Longrightarrow> card (grid sm s) = nobjs sm (sp_sizeclass s)"
  unfolding grid_def by (subst card_image) (auto simp: inj_on_def)

lemma grids_apart:
  assumes "cc_inv st" "(p, s) \<in> part st cl" "(q, t) \<in> part st cl'" "p \<noteq> q"
  shows "grid (sizemap st) s \<inter> grid (sizemap st) t = {}"
  using ph.grids_disjoint [OF cc_invD(1) [OF assms(1)], of p s q t "sizemap st"] assms(2-4)
    cc_invD(4) [OF assms(1,2)] cc_invD(4) [OF assms(1,3)]
  by (simp add: class_part_def span_inv_def)

lemma free_subset:
  assumes "cc_inv st" "T \<subseteq> part st cl"
  shows "free_objs T \<subseteq> all_objs (sizemap st) T"
  using cc_invD(4) [OF assms(1), of _ _ cl] assms(2) unfolding free_objs_def all_objs_def span_inv_def by blast

text \<open>One span of a class against the others.\<close>

lemma split_part:
  assumes inv: "cc_inv st" and p: "(p, s) \<in> part st cl"
  defines "T \<equiv> part st cl - {(p, s)}"
  shows "all_objs (sizemap st) (part st cl) = grid (sizemap st) s \<union> all_objs (sizemap st) T"
    "free_objs (part st cl) = set (sp_objects s) \<union> free_objs T"
    "grid (sizemap st) s \<inter> all_objs (sizemap st) T = {}"
    "set (sp_objects s) \<subseteq> grid (sizemap st) s" "free_objs T \<subseteq> all_objs (sizemap st) T"
    "finite T" "finite (free_objs T)"
proof -
  have eq: "part st cl = insert (p, s) T" using p by (auto simp: T_def)
  show "all_objs (sizemap st) (part st cl) = grid (sizemap st) s \<union> all_objs (sizemap st) T"
    "free_objs (part st cl) = set (sp_objects s) \<union> free_objs T"
    by (simp_all add: eq all_objs_def free_objs_def)
  have "grid (sizemap st) s \<inter> grid (sizemap st) t = {}" if "(q, t) \<in> T" for q t
    using that part_unique [OF p, of t cl] by (intro grids_apart [OF inv p, of q t cl]) (auto simp: T_def)
  then show "grid (sizemap st) s \<inter> all_objs (sizemap st) T = {}" unfolding all_objs_def by blast
  show "set (sp_objects s) \<subseteq> grid (sizemap st) s" using cc_invD(4) [OF inv p] by (simp add: span_inv_def)
  show "free_objs T \<subseteq> all_objs (sizemap st) T" by (rule free_subset [OF inv, of _ cl]) (simp add: T_def)
  show f: "finite T" using part_finite [OF inv] by (simp add: T_def)
  show "finite (free_objs T)" using f by (auto simp: free_objs_def)
qed

section \<open>Changing one span\<close>

lemma lists_repr_simps [simp]:
  "lists_repr (c\<lparr> counter := v \<rparr>) E N = lists_repr c E N" "lists_repr (c\<lparr> num_spans := v \<rparr>) E N = lists_repr c E N"
  "lists_repr (c\<lparr> tc_slots := w \<rparr>) E N = lists_repr c E N" "lists_repr (c\<lparr> cache_size := z \<rparr>) E N = lists_repr c E N"
  by (simp_all add: lists_repr_def)

lemma lists_repr_remove: "lists_repr c E N \<Longrightarrow> lists_repr (list_remove p c) (E - {p}) (N - {p})"
  by (auto simp: lists_repr_def list_remove_def)

lemma lists_repr_nonempty: "lists_repr c E N \<Longrightarrow> lists_repr (to_nonempty p c) (E - {p}) (insert p N)"
  by (auto simp: lists_repr_def list_remove_def to_nonempty_def)

lemma lists_repr_empty: "lists_repr c E N \<Longrightarrow> lists_repr (to_empty p c) (insert p E) (N - {p})"
  by (auto simp: lists_repr_def list_remove_def to_empty_def)

lemma list_moves [simp]:
  "counter (list_remove p c) = counter c" "num_spans (list_remove p c) = num_spans c" "tc_slots (list_remove p c) = tc_slots c"
  "cache_size (list_remove p c) = cache_size c" "max_cache_size (list_remove p c) = max_cache_size c"
  "size_class (list_remove p c) = size_class c"
  "counter (to_nonempty p c) = counter c" "num_spans (to_nonempty p c) = num_spans c" "tc_slots (to_nonempty p c) = tc_slots c"
  "cache_size (to_nonempty p c) = cache_size c" "max_cache_size (to_nonempty p c) = max_cache_size c"
  "size_class (to_nonempty p c) = size_class c"
  "counter (to_empty p c) = counter c" "num_spans (to_empty p c) = num_spans c" "tc_slots (to_empty p c) = tc_slots c"
  "cache_size (to_empty p c) = cache_size c" "max_cache_size (to_empty p c) = max_cache_size c"
  "size_class (to_empty p c) = size_class c"
  by (simp_all add: list_remove_def to_nonempty_def to_empty_def)

lemma used_slots_simps [simp]:
  "used_slots (c\<lparr> counter := v \<rparr>) = used_slots c" "used_slots (c\<lparr> num_spans := v \<rparr>) = used_slots c"
  "used_slots (c\<lparr> cache_size := z \<rparr>) = used_slots c" "used_slots (c\<lparr> nonempty_spans := l \<rparr>) = used_slots c"
  "used_slots (list_remove p c) = used_slots c" "used_slots (to_nonempty p c) = used_slots c"
  "used_slots (to_empty p c) = used_slots c"
  by (simp_all add: used_slots_def)

text \<open>The spans other than \<open>p\<close>.\<close>

definition but :: "addr \<Rightarrow> (addr \<times> Span) set \<Rightarrow> (addr \<times> Span) set" where
  "but p S = {e \<in> S. fst e \<noteq> p}"

lemma but_part:
  assumes "(p, s) \<in> part st cl"
  shows "but p (part st cl) = part st cl - {(p, s)}"
  using assms by (auto simp: but_def class_part_def)

lemma class_part_upd:
  "class_part (U(p := s')) cl = but p (class_part U cl)
     \<union> (case s' of None \<Rightarrow> {} | Some t \<Rightarrow> if sp_sizeclass t = cl \<and> cl \<noteq> 0 then {(p, t)} else {})"
  by (auto simp: class_part_def but_def split: option.splits if_splits)

lemma exhausted_but: "exhausted (but p S) = exhausted S - {p}"
  by (auto simp: exhausted_def but_def)

lemma available_but: "available (but p S) = available S - {p}"
  by (auto simp: available_def but_def)

lemma exhausted_un: "exhausted (insert (p, t) S) = (if sp_objects t = [] then insert p (exhausted S) else exhausted S)"
  by (auto simp: exhausted_def)

lemma available_un: "available (insert (p, t) S) = (if sp_objects t = [] then available S else insert p (available S))"
  by (auto simp: available_def)

text \<open>A span of class \<open>cl\<close> is changed, added or removed together with its list.\<close>

lemma cc_inv_change:
  assumes inv: "cc_inv st" and cl: "cl \<noteq> 0" "cl < num_size_classes (sizemap st)"
    and p: "\<And>s. inuse_spans (pageheap st) p = Some s \<Longrightarrow> sp_sizeclass s = cl"
    and h: "heap_ok h" "settings (pageheap st) h" "inuse_spans h = (inuse_spans (pageheap st))(p := s')"
    and s': "\<And>t. s' = Some t \<Longrightarrow> sp_sizeclass t = cl \<and> span_inv (sizemap st) t"
    and c: "cfl_inv (sizemap st) (class_part (inuse_spans h) cl) cl c"
    and st': "pageheap st' = h" "sizemap st' = sizemap st" "central_cache st' = (central_cache st)(cl := c)"
  shows "cc_inv st'" "\<And>d. d \<noteq> cl \<Longrightarrow> held st' d = held st d"
proof -
  have other: "class_part (inuse_spans h) d = part st d" if "d \<noteq> cl" for d
    using that p s' unfolding h(3) class_part_upd by (auto simp: but_def class_part_def split: option.splits)
  show "cc_inv st'"
    unfolding cc_inv_def st'
  proof (intro conjI allI impI)
    show "heap_ok h" "sizes_ok (sizemap st) h" using h sizes_ok_settings [OF cc_invD(2) [OF inv]] by simp_all
    fix q t assume q: "inuse_spans h q = Some t \<and> sp_sizeclass t \<noteq> 0"
    have "sp_sizeclass t < num_size_classes (sizemap st) \<and> span_inv (sizemap st) t"
    proof (cases "q = p")
      case True
      with q h(3) s' cl show ?thesis by simp
    next
      case False
      with q h(3) cc_invD(4) [OF inv, of q t "sp_sizeclass t"] show ?thesis by (simp add: class_part_def)
    qed
    then show "sp_sizeclass t < num_size_classes (sizemap st)" "span_inv (sizemap st) t" by simp_all
  next
    fix d assume "d < num_size_classes (sizemap st)"
    then show "cfl_inv (sizemap st) (class_part (inuse_spans h) d) d (((central_cache st)(cl := c)) d)"
      using c cc_invD(3) [OF inv] other by simp
  qed
  show "held st' d = held st d" if "d \<noteq> cl" for d
    using other [OF that] that by (simp add: held_def st')
qed

text \<open>Writing the object fields of a span in use.\<close>

lemma heap_write:
  assumes "heap_ok h" "inuse_spans h p = Some s"
    "sp_start s' = sp_start s" "sp_length s' = sp_length s" "sp_location s' = sp_location s" "sp_sizeclass s' = sp_sizeclass s"
  shows "heap_ok (upd_span p s' h)" "settings h (upd_span p s' h)" "room (upd_span p s' h) = room h"
    "inuse_spans (upd_span p s' h) = (inuse_spans h)(p \<mapsto> s')"
proof -
  have sp: "spans h p = Some s" "sp_location s = IN_USE" using assms(2) by (simp_all add: inuse_spans_Some)
  note r = relocate [OF heap_okD(1) [OF assms(1)] sp(1) assms(3,4), of "{}"]
  have fr: "frame h (upd_span p s' h)" using r(4) sp(2) assms(5,6) by simp
  show "heap_ok (upd_span p s' h)"
    by (rule heap_ok_frame [OF assms(1) _ _ fr]) (use r(1,2) sp(2) assms(5,6) in simp_all)
  show "settings h (upd_span p s' h)" by (rule frame_settings [OF fr])
  show "room (upd_span p s' h) = room h" "inuse_spans (upd_span p s' h) = (inuse_spans h)(p \<mapsto> s')"
    using r(5,6) sp(2) assms(5,6) by simp_all
qed

end
