(* ===== verification/CentralFreeList_Ops.thy ===== *)
theory CentralFreeList_Ops
  imports CentralFreeList_Inv
begin

text \<open>
  The operations of the central free lists keep the invariant; what each does to the objects the thread caches hold.
\<close>

section \<open>Progress of the state\<close>

text \<open>\<open>k\<close> bounds the number of descriptors taken from the metadata.\<close>

definition evolves :: "nat \<Rightarrow> central \<Rightarrow> central \<Rightarrow> bool" where
  "evolves k st st' \<longleftrightarrow> cc_inv st' \<and> sizemap st' = sizemap st \<and> settings (pageheap st) (pageheap st')
     \<and> room (pageheap st) \<le> room (pageheap st') + k
     \<and> large_spans st' = large_spans st \<and> (cache_ok st \<longrightarrow> cache_ok st')"

text \<open>A span of small objects that is deleted or changes its objects.\<close>

lemma small_change:
  assumes "inuse_spans (pageheap st) p = Some s" "sp_sizeclass s \<noteq> 0" "inuse_spans (pageheap st') = (inuse_spans (pageheap st))(p := r)"
    "pagemap_cache (pageheap st') = pagemap_cache (pageheap st)" "\<And>t. r = Some t \<Longrightarrow> same_place s t"
  shows "large_spans st' = large_spans st" "cache_ok st \<Longrightarrow> cache_ok st'"
proof -
  show "large_spans st' = large_spans st"
    using assms by (cases r) (auto simp: large_spans_def same_place_def split: if_splits)
  show "cache_ok st \<Longrightarrow> cache_ok st'"
    using coherent_drop coherent_same [where U = "inuse_spans (pageheap st)", OF _ assms(1)] assms(5)
    unfolding cache_ok_def assms(3,4) by (cases r) auto
qed

definition same_caches :: "central \<Rightarrow> central \<Rightarrow> bool" where
  "same_caches st st' \<longleftrightarrow> (\<forall>d. tc_slots (central_cache st' d) = tc_slots (central_cache st d)
     \<and> cache_size (central_cache st' d) = cache_size (central_cache st d)
     \<and> max_cache_size (central_cache st' d) = max_cache_size (central_cache st d)
     \<and> size_class (central_cache st' d) = size_class (central_cache st d))"

lemma evolvesD:
  assumes "evolves k st st'"
  shows "cc_inv st'" "sizemap st' = sizemap st" "settings (pageheap st) (pageheap st')"
    "room (pageheap st) \<le> room (pageheap st') + k" "large_spans st' = large_spans st" "cache_ok st \<Longrightarrow> cache_ok st'"
  using assms by (simp_all add: evolves_def)

lemma evolves_refl: "cc_inv st \<Longrightarrow> evolves 0 st st"
  by (simp add: evolves_def)

lemma evolves_trans: "evolves j st st1 \<Longrightarrow> evolves k st1 st2 \<Longrightarrow> evolves (j + k) st st2"
  by (auto simp: evolves_def intro: settings_trans)

lemma evolves_lively: "lively b (j + k) (pageheap st) \<Longrightarrow> evolves k st st' \<Longrightarrow> lively b j (pageheap st')"
  using lively_settings [of b "j + k" "pageheap st" "pageheap st'" j] evolvesD(3,4) [of k st st'] by simp

lemma same_caches_trans: "same_caches st st1 \<Longrightarrow> same_caches st1 st2 \<Longrightarrow> same_caches st st2"
  by (simp add: same_caches_def)

lemma held_span:
  assumes "cc_inv st" "x \<in> held st cl"
  obtains p s where "(p, s) \<in> part st cl" "x \<in> grid (sizemap st) s" "x \<notin> free_objs (part st cl)"
    "x \<notin> set (concat (tc_slots (central_cache st cl)))" "cl \<noteq> 0" "cl < num_size_classes (sizemap st)"
proof -
  from assms(2) obtain p s where "(p, s) \<in> part st cl" "x \<in> grid (sizemap st) s"
    unfolding held_def all_objs_def by blast
  with assms that cc_invD(4) [OF assms(1)] show ?thesis by (auto simp: held_def class_part_def)
qed

section \<open>\<open>ReleaseToSpans\<close>\<close>

text \<open>The span of an object that comes back.\<close>

lemma released_span:
  assumes inv: "cc_inv st" and p: "(p, s) \<in> part st cl" and x: "x \<in> grid (sizemap st) s" "x \<notin> free_objs (part st cl)"
  shows "GetDescriptor (pageheap st) (x div kPageSize) = Some p" "spans (pageheap st) p = Some s"
    "length (sp_objects s) < nobjs (sizemap st) cl" "sp_refcount s < 2 ^ 16" "0 < sp_refcount s"
    "sp_refcount s = 1 \<Longrightarrow> grid (sizemap st) s = insert x (set (sp_objects s))"
proof -
  note d = cc_invD [OF inv]
  have U: "inuse_spans (pageheap st) p = Some s" "sp_sizeclass s = cl" "cl \<noteq> 0" "cl < num_size_classes (sizemap st)"
    using p d(4) [OF p] by (simp_all add: class_part_def)
  have si: "sp_length s = class_to_pages (sizemap st) cl" "distinct (sp_objects s)" "set (sp_objects s) \<subseteq> grid (sizemap st) s"
      "sp_refcount s + length (sp_objects s) = nobjs (sizemap st) cl"
    using d(4) [OF p] U(2) by (simp_all add: span_inv_def)
  have sz: "0 < ByteSizeForClass (sizemap st) cl" "nobjs (sizemap st) cl < 2 ^ 16"
    using sizes_okD [OF d(2) _ U(4)] U(3) by simp_all
  show "GetDescriptor (pageheap st) (x div kPageSize) = Some p"
    using ph.object_desc [OF d(1) U(1) _ _ x(1)] U si(1) by simp
  show "spans (pageheap st) p = Some s" using U(1) by (simp add: inuse_spans_Some)
  have x': "x \<notin> set (sp_objects s)" using x(2) p by (auto simp: free_objs_def)
  have sub: "insert x (set (sp_objects s)) \<subseteq> grid (sizemap st) s" using x(1) si(3) by simp
  have card: "card (insert x (set (sp_objects s))) = Suc (length (sp_objects s))"
    using x' distinct_card [OF si(2)] by simp
  have grid: "card (grid (sizemap st) s) = nobjs (sizemap st) cl" using grid_card [of "sizemap st" s] sz(1) U(2) by simp
  show less: "length (sp_objects s) < nobjs (sizemap st) cl" using card_mono [OF grid_finite sub] card grid by simp
  with si(4) sz(2) show "sp_refcount s < 2 ^ 16" "0 < sp_refcount s" by simp_all
  show "grid (sizemap st) s = insert x (set (sp_objects s))" if "sp_refcount s = 1"
    using card_subset_eq [OF grid_finite sub] card grid si(4) that by simp
qed

lemma dec16: "0 < r \<Longrightarrow> r < 2 ^ 16 \<Longrightarrow> (r + (2 ^ 16 - 1)) mod 2 ^ 16 = r - (1::nat)"
proof -
  assume r: "0 < r" "r < 2 ^ 16"
  then have "r + (2 ^ 16 - 1) = (r - 1) + 2 ^ 16" by simp
  then show ?thesis using r by (simp only: mod_add_self2) simp
qed

text \<open>The list after the span \<open>p\<close> of the object was made sure to be on the list of spans with free objects.\<close>

lemma nonempty_list:
  assumes inv: "cc_inv st" and p: "(p, s) \<in> part st cl"
  defines "c \<equiv> if sp_objects s = [] then to_nonempty p (central_cache st cl) else central_cache st cl"
  shows "lists_repr c (exhausted (part st cl) - {p}) (insert p (available (part st cl)))"
    "size_class c = cl" "counter c = of_nat (card (free_objs (part st cl)))" "num_spans c = of_nat (card (part st cl))"
    "tc_slots c = tc_slots (central_cache st cl)" "cache_size c = cache_size (central_cache st cl)"
    "max_cache_size c = max_cache_size (central_cache st cl)"
proof -
  have ci: "cfl_inv (sizemap st) (part st cl) cl (central_cache st cl)" using cc_invD(3,4) [OF inv] p by blast
  then show "size_class c = cl" "counter c = of_nat (card (free_objs (part st cl)))" "num_spans c = of_nat (card (part st cl))"
    "tc_slots c = tc_slots (central_cache st cl)" "cache_size c = cache_size (central_cache st cl)"
    "max_cache_size c = max_cache_size (central_cache st cl)"
    by (simp_all add: c_def cfl_inv_def)
  have r: "lists_repr (central_cache st cl) (exhausted (part st cl)) (available (part st cl))" using ci by (simp add: cfl_inv_def)
  show "lists_repr c (exhausted (part st cl) - {p}) (insert p (available (part st cl)))"
  proof (cases "sp_objects s = []")
    case True
    with lists_repr_nonempty [OF r] show ?thesis by (simp add: c_def)
  next
    case False
    then have "p \<notin> exhausted (part st cl)" "p \<in> available (part st cl)"
      unfolding exhausted_def available_def using p part_unique [OF p] False by blast+
    with r False show ?thesis by (simp add: c_def insert_absorb)
  qed
qed

text \<open>The last object of a span comes back and the span is deleted.\<close>

lemma release_last:
  assumes inv: "cc_inv st" and p: "(p, s) \<in> part st cl" and x: "x \<in> grid (sizemap st) s" "x \<in> held st cl"
    and r1: "sp_refcount s = 1" and h: "heap_ok h" "settings (pageheap st) h"
      "inuse_spans h = (inuse_spans (pageheap st))(p := None)" "room (pageheap st) \<le> room h" "pagemap_cache h = pagemap_cache (pageheap st)"
  defines "c \<equiv> if sp_objects s = [] then to_nonempty p (central_cache st cl) else central_cache st cl"
  defines "st' \<equiv> st\<lparr> central_cache := (central_cache st)(cl := (list_remove p c)
      \<lparr> counter := counter c + 1 - of_nat (nobjs (sizemap st) cl), num_spans := num_spans c - 1 \<rparr>), pageheap := h \<rparr>"
  shows "evolves 0 st st' \<and> same_caches st st' \<and> held st' cl = held st cl - {x} \<and> (\<forall>d. d \<noteq> cl \<longrightarrow> held st' d = held st d)"
proof -
  note d = cc_invD [OF inv] and sp = split_part [OF inv p] and l = nonempty_list [OF inv p, folded c_def]
  let ?sm = "sizemap st" and ?S = "part st cl"
  let ?c = "central_cache st' cl"
  define T where "T = ?S - {(p, s)}"
  have x': "x \<notin> free_objs ?S" "x \<notin> set (concat (tc_slots (central_cache st cl)))" using x(2) by (auto simp: held_def)
  note rs = released_span [OF inv p x(1) x'(1)]
  have cl: "cl \<noteq> 0" "cl < num_size_classes ?sm" using p d(4) [OF p] by (simp_all add: class_part_def)
  have ci: "cfl_inv ?sm ?S cl (central_cache st cl)" by (rule d(3) [OF cl(2)])
  have part: "class_part (inuse_spans h) cl = T" using but_part [OF p] by (simp add: h(3) class_part_upd T_def)
  have grid: "grid ?sm s = insert x (set (sp_objects s))" by (rule rs(6) [OF r1])
  have xo: "x \<notin> set (sp_objects s)" using x'(1) sp(2) by blast
  have len: "Suc (length (sp_objects s)) = nobjs ?sm cl" "distinct (sp_objects s)"
    using d(4) [OF p] r1 p by (simp_all add: span_inv_def class_part_def)
  have cS: "card ?S = Suc (card T)" unfolding T_def by (rule card.remove [OF part_finite [OF inv] p])
  have cF: "card (free_objs ?S) = length (sp_objects s) + card (free_objs T)"
  proof -
    have "set (sp_objects s) \<inter> free_objs T = {}" using sp(3-5) unfolding T_def by blast
    with card_Un_disjoint [of "set (sp_objects s)" "free_objs T"] sp(7) distinct_card [OF len(2)]
    show ?thesis unfolding sp(2) by (simp add: T_def)
  qed
  have slots: "set (concat (tc_slots (central_cache st cl))) \<subseteq> all_objs ?sm T - free_objs T"
  proof
    fix y assume y: "y \<in> set (concat (tc_slots (central_cache st cl)))"
    have sub: "set (concat (tc_slots (central_cache st cl))) \<subseteq> all_objs ?sm ?S - free_objs ?S"
      using ci unfolding cfl_inv_def by simp
    have y1: "y \<in> all_objs ?sm ?S" "y \<notin> free_objs ?S" "y \<noteq> x" using subsetD [OF sub y] x'(2) y by auto
    then show "y \<in> all_objs ?sm T - free_objs T" unfolding sp(1,2) T_def [symmetric] grid by simp
  qed
  have c': "?c = (list_remove p c)\<lparr> counter := counter c + 1 - of_nat (nobjs ?sm cl), num_spans := num_spans c - 1 \<rparr>"
    by (simp add: st'_def)
  have "lists_repr (list_remove p c) (exhausted T) (available T)"
    using lists_repr_remove [OF l(1), of p] exhausted_but [of p ?S] available_but [of p ?S] but_part [OF p] by (simp add: T_def)
  moreover have "counter c + 1 - of_nat (nobjs ?sm cl) = of_nat (card (free_objs T))"
    by (simp add: l(3) cF flip: len(1))
  moreover have "num_spans c - 1 = of_nat (card T)" by (simp add: l(4) cS)
  ultimately have ci': "cfl_inv ?sm T cl ?c"
    using ci slots l(2,5-7) unfolding c' cfl_inv_def by (simp add: used_slots_def)
  have "cc_inv st'" "\<And>d. d \<noteq> cl \<Longrightarrow> held st' d = held st d"
    by (rule cc_inv_change [OF inv cl _ h(1-3), of ?c st'];
        use p ci' part in \<open>simp add: st'_def class_part_def\<close>)+
  moreover have "held st' cl = held st cl - {x}"
  proof -
    have "held st' cl = all_objs ?sm T - free_objs T - set (concat (tc_slots (central_cache st cl)))"
      using part l(5) by (simp add: held_def st'_def)
    then show ?thesis
      using sp(3,5) xo unfolding held_def sp(1,2) T_def [symmetric] grid by auto
  qed
  moreover have "inuse_spans (pageheap st) p = Some s" "sp_sizeclass s \<noteq> 0" using p by (simp_all add: class_part_def)
  note small_change [OF this, of st' None]
  ultimately show ?thesis
    using h(2-5) l(5-7) l(2) ci by (auto simp: evolves_def same_caches_def st'_def cfl_inv_def)
qed

text \<open>A span whose objects change, with its list.\<close>

lemma span_change:
  assumes inv: "cc_inv st" and p: "(p, s) \<in> part st cl" and t: "sp_start t = sp_start s" "sp_length t = sp_length s"
      "sp_location t = sp_location s" "sp_sizeclass t = sp_sizeclass s" "span_inv (sizemap st) t"
    and c: "lists_repr c (exhausted (insert (p, t) (but p (part st cl)))) (available (insert (p, t) (but p (part st cl))))"
      "counter c = of_nat (card (free_objs (insert (p, t) (but p (part st cl)))))" "num_spans c = of_nat (card (part st cl))"
      "size_class c = cl" "tc_slots c = tc_slots (central_cache st cl)" "cache_size c = cache_size (central_cache st cl)"
      "max_cache_size c = max_cache_size (central_cache st cl)"
    and slots: "set (concat (tc_slots c)) \<inter> set (sp_objects t) = {}"
    and st'_def: "central_cache st' = (central_cache st)(cl := c)" "pageheap st' = upd_span p t (pageheap st)" "sizemap st' = sizemap st"
  shows "evolves 0 st st' \<and> same_caches st st' \<and> (\<forall>d. d \<noteq> cl \<longrightarrow> held st' d = held st d)
    \<and> held st' cl = held st cl \<union> (set (sp_objects s) - set (sp_objects t)) - set (sp_objects t)"
proof -
  note d = cc_invD [OF inv] and sp = split_part [OF inv p]
  let ?sm = "sizemap st" and ?S = "part st cl" and ?c = "central_cache st cl"
  define T where "T = ?S - {(p, s)}"
  note sp' = sp [folded T_def]
  have U: "inuse_spans (pageheap st) p = Some s" "sp_sizeclass s = cl" "cl \<noteq> 0" "cl < num_size_classes ?sm"
    using p d(4) [OF p] by (simp_all add: class_part_def)
  have ci: "cfl_inv ?sm ?S cl ?c" by (rule d(3) [OF U(4)])
  note w = heap_write [OF d(1) U(1) t(1-4)]
  have bt: "but p ?S = T" using but_part [OF p] by (simp add: T_def)
  have part: "class_part (inuse_spans (upd_span p t (pageheap st))) cl = insert (p, t) T"
    using U(2,3) t(4) by (simp add: w(4) class_part_upd bt)
  have gt: "grid ?sm t = grid ?sm s" using t(1,4) by (simp add: grid_def)
  have all: "all_objs ?sm (insert (p, t) T) = all_objs ?sm ?S" unfolding sp'(1) by (simp add: all_objs_def gt)
  have free: "free_objs (insert (p, t) T) = set (sp_objects t) \<union> free_objs T" by (simp add: free_objs_def)
  have ot: "set (sp_objects t) \<subseteq> grid ?sm s" using t(5) gt by (simp add: span_inv_def)
  have cd: "card (insert (p, t) T) = card ?S"
  proof -
    have "(p, t) \<notin> T" using part_unique [OF p, of t cl] by (auto simp: T_def)
    then show ?thesis using sp'(6) card.remove [OF part_finite [OF inv] p] by (simp add: T_def)
  qed
  have "set (concat (tc_slots ?c)) \<subseteq> all_objs ?sm ?S - free_objs ?S" using ci unfolding cfl_inv_def by simp
  then have "set (concat (tc_slots c)) \<subseteq> all_objs ?sm (insert (p, t) T) - free_objs (insert (p, t) T)"
    using slots unfolding all free sp'(2) c(5) by blast
  then have ci': "cfl_inv ?sm (insert (p, t) T) cl c"
    using ci c unfolding bt cfl_inv_def cd by (simp add: used_slots_def)
  have "cc_inv st'" "\<And>d. d \<noteq> cl \<Longrightarrow> held st' d = held st d"
    by (rule cc_inv_change [OF inv U(3,4) _ w(1,2,4), of c st'];
        use U t(4,5) ci' part in \<open>simp add: st'_def\<close>)+
  moreover have "held st' cl = all_objs ?sm ?S - (set (sp_objects t) \<union> free_objs T) - set (concat (tc_slots ?c))"
    using part all free c(5) by (simp add: held_def st'_def)
  then have "held st' cl = held st cl \<union> (set (sp_objects s) - set (sp_objects t)) - set (sp_objects t)"
    using sp'(3,4,5) \<open>set (concat (tc_slots ?c)) \<subseteq> _\<close> unfolding held_def sp'(1,2) by auto
  moreover have "same_place s t" using t by (simp add: same_place_def)
  with small_change [OF U(1), of st' "Some t"] U(2,3) w(4)
  have "large_spans st' = large_spans st" "cache_ok st \<Longrightarrow> cache_ok st'" by (simp_all add: st'_def)
  ultimately show ?thesis
    using w(2,3) c(4-7) ci by (auto simp: evolves_def same_caches_def st'_def cfl_inv_def)
qed

lemma release_more:
  assumes inv: "cc_inv st" and p: "(p, s) \<in> part st cl" and x: "x \<in> grid (sizemap st) s" "x \<in> held st cl"
    and r: "1 < sp_refcount s"
  defines "c \<equiv> if sp_objects s = [] then to_nonempty p (central_cache st cl) else central_cache st cl"
  defines "t \<equiv> s\<lparr> sp_refcount := sp_refcount s - 1, sp_objects := x # sp_objects s \<rparr>"
  defines "st' \<equiv> st\<lparr> central_cache := (central_cache st)(cl := c\<lparr> counter := counter c + 1 \<rparr>), pageheap := upd_span p t (pageheap st) \<rparr>"
  shows "evolves 0 st st' \<and> same_caches st st' \<and> held st' cl = held st cl - {x} \<and> (\<forall>d. d \<noteq> cl \<longrightarrow> held st' d = held st d)"
proof -
  note l = nonempty_list [OF inv p, folded c_def] and sp = split_part [OF inv p]
  let ?S = "part st cl"
  have x': "x \<notin> free_objs ?S" "x \<notin> set (concat (tc_slots (central_cache st cl)))" using x(2) by (auto simp: held_def)
  have xo: "x \<notin> set (sp_objects s)" using x'(1) sp(2) by blast
  have bt: "but p ?S = ?S - {(p, s)}" by (rule but_part [OF p])
  have "span_inv (sizemap st) s" using cc_invD(4) [OF inv p] by simp
  then have si: "span_inv (sizemap st) t" using x(1) xo r by (simp add: span_inv_def t_def grid_def)
  have free: "free_objs (insert (p, t) (but p ?S)) = insert x (free_objs ?S)"
    unfolding sp(2) bt by (auto simp: free_objs_def t_def)
  have fin: "finite (free_objs ?S)" using sp(2,7) by simp
  have "exhausted (insert (p, t) (but p ?S)) = exhausted ?S - {p}" "available (insert (p, t) (but p ?S)) = insert p (available ?S)"
    by (simp_all add: exhausted_un available_un exhausted_but available_but t_def)
  note sets = this
  have tf: "sp_start t = sp_start s" "sp_length t = sp_length s" "sp_location t = sp_location s" "sp_sizeclass t = sp_sizeclass s"
    by (simp_all add: t_def)
  have ci: "cfl_inv (sizemap st) ?S cl (central_cache st cl)" using cc_invD(3,4) [OF inv] p by blast
  have sl: "set (concat (tc_slots (central_cache st cl))) \<inter> set (sp_objects t) = {}"
    using ci x'(2) sp(2) by (auto simp: cfl_inv_def t_def)
  have "evolves 0 st st' \<and> same_caches st st' \<and> (\<forall>d. d \<noteq> cl \<longrightarrow> held st' d = held st d)
    \<and> held st' cl = held st cl \<union> (set (sp_objects s) - set (sp_objects t)) - set (sp_objects t)"
    by (rule span_change [OF inv p tf si, where c = "c\<lparr> counter := counter c + 1 \<rparr>"])
      (use l sl x'(1) fin in \<open>simp_all add: sets free st'_def\<close>)
  moreover have "set (sp_objects s) \<inter> held st cl = {}" using sp(2) by (auto simp: held_def)
  ultimately show ?thesis by (auto simp: t_def)
qed

lemma list_remove_counter: "list_remove p (c\<lparr> counter := v \<rparr>) = (list_remove p c)\<lparr> counter := v \<rparr>"
  by (simp add: list_remove_def)

lemma ReleaseToSpans_wpo:
  assumes inv: "cc_inv st" and x: "x \<in> held st cl" and lv: "lively b k (pageheap st)"
  shows "wpo b (ReleaseToSpans st cl x) (\<lambda>st'. evolves 0 st st' \<and> same_caches st st'
    \<and> held st' cl = held st cl - {x} \<and> (\<forall>d. d \<noteq> cl \<longrightarrow> held st' d = held st d))"
proof -
  obtain p s where p: "(p, s) \<in> part st cl" "x \<in> grid (sizemap st) s" "x \<notin> free_objs (part st cl)"
    by (rule held_span [OF inv x])
  note rs = released_span [OF inv p]
  have U: "inuse_spans (pageheap st) p = Some s" "sp_sizeclass s = cl" using p(1) by (simp_all add: class_part_def)
  have n: "sp_length s * kPageSize div ByteSizeForClass (sizemap st) cl = nobjs (sizemap st) cl"
    using cc_invD(4) [OF inv p(1)] U(2) by (simp add: span_inv_def nobjs_def)
  let ?c = "if sp_objects s = [] then to_nonempty p (central_cache st cl) else central_cache st cl"
  show ?thesis
  proof (cases "sp_refcount s = 1")
    case True
    let ?s = "s\<lparr> sp_refcount := 0 \<rparr>"
    let ?st = "\<lambda>h. st\<lparr> central_cache := (central_cache st)(cl := (list_remove p ?c)
      \<lparr> counter := counter ?c + 1 - of_nat (nobjs (sizemap st) cl), num_spans := num_spans ?c - 1 \<rparr>), pageheap := h \<rparr>"
    have eq: "ReleaseToSpans st cl x = do { h \<leftarrow> PH_Delete (upd_span p ?s (pageheap st)) p; Some (?st h) }"
      using True rs(1,2) n U(2) dec16 [OF rs(5,4)]
      by (simp add: ReleaseToSpans_def list_remove_counter)
    note w = heap_write [OF cc_invD(1) [OF inv] U(1), of ?s]
    have h1: "heap_ok (upd_span p ?s (pageheap st))" "inuse_spans (upd_span p ?s (pageheap st)) p = Some ?s"
      "lively b k (upd_span p ?s (pageheap st))"
      using w lively_settings [of b k "pageheap st"] lv by simp_all
    show ?thesis
      unfolding eq wpo_bind
    proof (rule wpo_mono [OF Delete_wpo [OF h1]], elim conjE, goal_cases)
      case (1 h)
      have "settings (pageheap st) h" using w(2) frame_settings [OF 1(3)] by (auto intro: settings_trans)
      then show ?case
        using release_last [OF inv p(1,2) x True 1(1)] 1(2,4) w(3,4) frame_cache [OF 1(3)] by simp
    qed
  next
    case False
    let ?s = "s\<lparr> sp_refcount := sp_refcount s - 1, sp_objects := x # sp_objects s \<rparr>"
    have "ReleaseToSpans st cl x = Some (st\<lparr> central_cache := (central_cache st)(cl := ?c\<lparr> counter := counter ?c + 1 \<rparr>),
        pageheap := upd_span p ?s (pageheap st) \<rparr>)"
      using False rs(1,2,5) dec16 [OF rs(5,4)] by (simp add: ReleaseToSpans_def)
    with release_more [OF inv p(1,2) x] False rs(5) show ?thesis by simp
  qed
qed

text \<open>What an operation that only takes back objects does.\<close>

definition took :: "nat \<Rightarrow> addr set \<Rightarrow> central \<Rightarrow> central \<Rightarrow> bool" where
  "took cl X st st' \<longleftrightarrow> evolves 0 st st' \<and> held st' cl = held st cl - X \<and> (\<forall>d. d \<noteq> cl \<longrightarrow> held st' d = held st d)"

lemma took_trans: "took cl X st st1 \<Longrightarrow> took cl Y st1 st2 \<Longrightarrow> took cl (X \<union> Y) st st2"
  using evolves_trans [of 0 st st1 0 st2] by (auto simp: took_def)

lemma took_lively: "took cl X st st' \<Longrightarrow> lively b k (pageheap st) \<Longrightarrow> lively b k (pageheap st')"
  using evolves_lively [of b k 0 st st'] by (simp add: took_def)

lemma ReleaseListToSpans_wpo:
  assumes "cc_inv st" "distinct xs" "set xs \<subseteq> held st cl" "lively b k (pageheap st)"
  shows "wpo b (ReleaseListToSpans st cl xs) (\<lambda>st'. took cl (set xs) st st' \<and> same_caches st st')"
  using assms
proof (induction xs arbitrary: st)
  case Nil
  then show ?case by (simp add: took_def evolves_refl same_caches_def)
next
  case (Cons x xs)
  have x: "x \<in> held st cl" using Cons.prems(3) by simp
  show ?case
    unfolding ReleaseListToSpans.simps wpo_bind
  proof (rule wpo_mono [OF ReleaseToSpans_wpo [OF Cons.prems(1) x Cons.prems(4)]], goal_cases)
    case (1 st1)
    then have t1: "took cl {x} st st1" "same_caches st st1" by (simp_all add: took_def)
    then have "cc_inv st1" "set xs \<subseteq> held st1 cl" using Cons.prems(2,3) by (auto simp: took_def evolves_def)
    from Cons.IH [OF this(1) _ this(2) took_lively [OF t1(1) Cons.prems(4)]] Cons.prems(2) show ?case
      using took_trans [OF t1(1), of "set xs"] same_caches_trans [OF t1(2)] by (auto elim!: wpo_mono)
  qed
qed

section \<open>The transfer cache\<close>

lemma cc_inv_cache:
  assumes inv: "cc_inv st" and t: "t < num_size_classes (sizemap st)"
    and sl: "int (length sl) \<le> z" "z \<le> max_cache_size (central_cache st t)"
      "\<forall>ch \<in> set sl. int (length ch) = num_objects_to_move (sizemap st) t" "distinct (concat sl)"
      "set (concat sl) \<subseteq> all_objs (sizemap st) (part st t) - free_objs (part st t)"
    and st': "central_cache st' = (central_cache st)(t := (central_cache st t)\<lparr> cache_size := z, tc_slots := sl \<rparr>)"
      "pageheap st' = pageheap st" "sizemap st' = sizemap st"
  shows "evolves 0 st st'" "d \<noteq> t \<Longrightarrow> held st' d = held st d"
    "held st' t = all_objs (sizemap st) (part st t) - free_objs (part st t) - set (concat sl)"
proof -
  have ci: "cfl_inv (sizemap st) (part st t) t (central_cache st t)" by (rule cc_invD(3) [OF inv t])
  have "cfl_inv (sizemap st) (part st t) t ((central_cache st t)\<lparr> cache_size := z, tc_slots := sl \<rparr>)"
    using ci sl by (simp add: cfl_inv_def used_slots_def)
  with inv have "cc_inv st'" unfolding cc_inv_def st' by auto
  then show "evolves 0 st st'" by (simp add: evolves_def st' large_spans_def cache_ok_def)
  show "d \<noteq> t \<Longrightarrow> held st' d = held st d" by (simp add: held_def st')
  show "held st' t = all_objs (sizemap st) (part st t) - free_objs (part st t) - set (concat sl)"
    by (simp add: held_def st')
qed

lemma slotsD:
  assumes "cc_inv st" "t < num_size_classes (sizemap st)"
  shows "used_slots (central_cache st t) \<le> cache_size (central_cache st t)"
    "cache_size (central_cache st t) \<le> max_cache_size (central_cache st t)"
    "\<forall>ch \<in> set (tc_slots (central_cache st t)). int (length ch) = num_objects_to_move (sizemap st) t"
    "distinct (concat (tc_slots (central_cache st t)))"
    "set (concat (tc_slots (central_cache st t))) \<subseteq> all_objs (sizemap st) (part st t) - free_objs (part st t)"
    "size_class (central_cache st t) = t" "max_cache_size (central_cache st t) \<le> kMaxNumTransferEntries"
  using cc_invD(3) [OF assms] by (simp_all add: cfl_inv_def)

text \<open>Taking the last batch out.\<close>

lemma slot_pop:
  assumes inv: "cc_inv st" and t: "t < num_size_classes (sizemap st)" and ne: "tc_slots (central_cache st t) \<noteq> []"
    and z: "int (length (tc_slots (central_cache st t))) - 1 \<le> z" "z \<le> cache_size (central_cache st t)"
    and st': "central_cache st' = (central_cache st)(t := (central_cache st t)\<lparr> cache_size := z, tc_slots := butlast (tc_slots (central_cache st t)) \<rparr>)"
      "pageheap st' = pageheap st" "sizemap st' = sizemap st"
  defines "ch \<equiv> last (tc_slots (central_cache st t))"
  shows "evolves 0 st st'" "d \<noteq> t \<Longrightarrow> held st' d = held st d" "held st' t = held st t \<union> set ch" "set ch \<inter> held st t = {}"
    "distinct ch" "int (length ch) = num_objects_to_move (sizemap st) t"
proof -
  let ?sl = "tc_slots (central_cache st t)"
  note s = slotsD [OF inv t]
  have eq: "?sl = butlast ?sl @ [ch]" using ne by (simp add: ch_def)
  have c: "concat ?sl = concat (butlast ?sl) @ ch" by (subst eq) simp
  have sub: "set (butlast ?sl) \<subseteq> set ?sl" by (meson in_set_butlastD subsetI)
  have "int (length (butlast ?sl)) \<le> z" "z \<le> max_cache_size (central_cache st t)"
    using z s(2) ne by (simp_all add: of_nat_diff Suc_le_eq)
  moreover have "\<forall>ch \<in> set (butlast ?sl). int (length ch) = num_objects_to_move (sizemap st) t" using s(3) sub by blast
  moreover have "distinct (concat (butlast ?sl))"
      "set (concat (butlast ?sl)) \<subseteq> all_objs (sizemap st) (part st t) - free_objs (part st t)"
    using s(4,5) unfolding c by simp_all
  ultimately have st: "evolves 0 st st'" "d \<noteq> t \<Longrightarrow> held st' d = held st d"
    "held st' t = all_objs (sizemap st) (part st t) - free_objs (part st t) - set (concat (butlast ?sl))" for d
    using cc_inv_cache [OF inv t _ _ _ _ _ st'] by simp_all
  show "evolves 0 st st'" "d \<noteq> t \<Longrightarrow> held st' d = held st d" using st by simp_all
  have held_eq: "held st t = all_objs (sizemap st) (part st t) - free_objs (part st t) - set (concat ?sl)" by (simp only: held_def)
  show "held st' t = held st t \<union> set ch" "set ch \<inter> held st t = {}"
    using s(4,5) unfolding st(3) held_eq c by auto
  show "distinct ch" using s(4) c by simp
  show "int (length ch) = num_objects_to_move (sizemap st) t" using s(3) ne by (simp add: ch_def)
qed

text \<open>No operation on the transfer caches changes what is held.\<close>

definition keeps :: "central \<Rightarrow> central \<Rightarrow> bool" where
  "keeps st st' \<longleftrightarrow> evolves 0 st st' \<and> (\<forall>d. held st' d = held st d)"

lemma keepsD: "keeps st st' \<Longrightarrow> evolves 0 st st'" "keeps st st' \<Longrightarrow> held st' d = held st d"
  by (simp_all add: keeps_def)

lemma keeps_refl: "cc_inv st \<Longrightarrow> keeps st st"
  by (simp add: keeps_def evolves_refl)

lemma keeps_trans: "keeps st st1 \<Longrightarrow> keeps st1 st2 \<Longrightarrow> keeps st st2"
  using evolves_trans [of 0 st st1 0 st2] by (simp add: keeps_def)

text \<open>The slots of the classes: only one class gave one up.\<close>

definition slots_total :: "central \<Rightarrow> int" where
  "slots_total st = (\<Sum>d < num_size_classes (sizemap st). cache_size (central_cache st d))"

definition slot_given :: "nat \<Rightarrow> bool \<Rightarrow> central \<Rightarrow> central \<Rightarrow> bool" where
  "slot_given cl ok st st' \<longleftrightarrow> slots_total st' = slots_total st - (if ok then 1 else 0)
     \<and> tc_slots (central_cache st' cl) = tc_slots (central_cache st cl)
     \<and> cache_size (central_cache st' cl) = cache_size (central_cache st cl)
     \<and> (\<forall>d. max_cache_size (central_cache st' d) = max_cache_size (central_cache st d))"

lemma slots_total_same: "same_caches st st' \<Longrightarrow> sizemap st' = sizemap st \<Longrightarrow> slots_total st' = slots_total st"
  by (simp add: slots_total_def same_caches_def)

lemma slots_total_upd:
  assumes "central_cache st' = (central_cache st)(t := c)" "sizemap st' = sizemap st" "t < num_size_classes (sizemap st)"
  shows "slots_total st' = slots_total st + cache_size c - cache_size (central_cache st t)"
proof -
  have "(\<Sum>d < n. cache_size (((central_cache st)(t := c)) d)) = (\<Sum>d < n. cache_size (central_cache st d)) + cache_size c - cache_size (central_cache st t)"
    if "t < n" for n
    using that by (simp add: sum.remove [of "{..<n}" t])
  with assms show ?thesis by (simp add: slots_total_def)
qed

lemma ShrinkCache_wpo:
  assumes inv: "cc_inv st" and t: "t < num_size_classes (sizemap st)" "t \<noteq> cl" and lv: "lively b k (pageheap st)"
  shows "wpo b (ShrinkCache st t force) (\<lambda>(ok, st'). keeps st st' \<and> slot_given cl ok st st')"
proof -
  let ?c = "central_cache st t"
  note s = slotsD [OF inv t(1)]
  consider "cache_size ?c = 0 \<or> \<not> force \<and> used_slots ?c = cache_size ?c"
    | "cache_size ?c \<noteq> 0" "used_slots ?c = cache_size ?c" force
    | "cache_size ?c \<noteq> 0" "used_slots ?c \<noteq> cache_size ?c" by blast
  then show ?thesis
  proof cases
    case 1
    then show ?thesis by (auto simp: ShrinkCache_def Let_def keeps_refl [OF inv] slot_given_def)
  next
    case 2
    then have ne: "tc_slots ?c \<noteq> []" by (auto simp: used_slots_def)
    let ?st = "upd_list t (\<lambda>c. c\<lparr> cache_size := cache_size c - 1, tc_slots := butlast (tc_slots c) \<rparr>) st"
    have z: "int (length (tc_slots ?c)) - 1 \<le> cache_size ?c - 1" "cache_size ?c - 1 \<le> cache_size ?c"
      using s(1) by (simp_all add: used_slots_def)
    note sp = slot_pop [OF inv t(1) ne z, of ?st, simplified]
    have lv1: "lively b k (pageheap ?st)" using lv by simp
    have tot: "slots_total ?st = slots_total st - 1"
      using slots_total_upd [of ?st st t "?c\<lparr> cache_size := cache_size ?c - 1, tc_slots := butlast (tc_slots ?c) \<rparr>"] t(1) by simp
    have eq: "ShrinkCache st t force = do { st \<leftarrow> ReleaseListToSpans ?st t (last (tc_slots ?c)); Some (True, st) }"
      using 2 by (simp add: ShrinkCache_def Let_def)
    have sub: "set (last (tc_slots ?c)) \<subseteq> held ?st t" using sp(3) by simp
    show ?thesis
      unfolding eq wpo_bind
    proof (rule wpo_mono [OF ReleaseListToSpans_wpo [OF evolvesD(1) [OF sp(1)] sp(5) sub lv1]], goal_cases)
      case (1 st2)
      then have 2: "took t (set (last (tc_slots ?c))) ?st st2" "same_caches ?st st2" by simp_all
      have "held st2 d = held st d" for d
        using 2(1) sp(2) sp(3,4) by (cases "d = t") (auto simp: took_def)
      moreover have "evolves 0 st st2" using evolves_trans [OF sp(1)] 2(1) by (fastforce simp: took_def)
      moreover have "slots_total st2 = slots_total st - 1"
        using slots_total_same [OF 2(2)] tot 2(1) by (simp add: took_def evolves_def)
      ultimately show ?case
        using 2(2) t(2) by (simp add: keeps_def slot_given_def same_caches_def)
    qed
  next
    case 3
    let ?st = "upd_list t (\<lambda>c. c\<lparr> cache_size := cache_size c - 1 \<rparr>) st"
    have c': "central_cache ?st = (central_cache st)(t := ?c\<lparr> cache_size := cache_size ?c - 1, tc_slots := tc_slots ?c \<rparr>)" by simp
    have "int (length (tc_slots ?c)) \<le> cache_size ?c - 1" "cache_size ?c - 1 \<le> max_cache_size ?c"
      using s(1,2) 3(2) by (simp_all add: used_slots_def)
    note k = cc_inv_cache [OF inv t(1) this s(3,4,5) c']
    have "held ?st d = held st d" for d using k(2,3) by (cases "d = t") (simp_all add: held_def)
    then have "keeps st ?st" using k(1) by (simp add: keeps_def)
    moreover have "slots_total ?st = slots_total st - 1" using slots_total_upd [OF c' _ t(1)] by simp
    ultimately show ?thesis using 3 t(2) by (simp add: ShrinkCache_def Let_def slot_given_def)
  qed
qed

lemma wrap_class_mod:
  assumes "0 < n"
  shows "wrap_class n t = Some (t mod n)"
proof (induction t rule: less_induct)
  case (less t)
  show ?case
  proof (cases "n \<le> t")
    case True
    with less.IH [of "t - n"] assms show ?thesis by (subst wrap_class.simps) (simp add: le_mod_geq)
  next
    case False
    then show ?thesis by (subst wrap_class.simps) simp
  qed
qed

end
