(* ===== verification/CentralFreeList_Range.thy ===== *)
theory CentralFreeList_Range
  imports CentralFreeList_Ops
begin

text \<open>
  Batches of objects between the thread caches and the central lists: \<open>InsertRange\<close> and \<open>RemoveRange\<close>.
\<close>

section \<open>Making room for a batch\<close>

lemma race_counter_irrelevant [simp]:
  "held (st\<lparr> race_counter := r \<rparr>) d = held st d" "cc_inv (st\<lparr> race_counter := r \<rparr>) = cc_inv st"
  "evolves k st (st'\<lparr> race_counter := r \<rparr>) = evolves k st st'" "evolves k (st\<lparr> race_counter := r \<rparr>) st' = evolves k st st'"
  "slots_total (st\<lparr> race_counter := r \<rparr>) = slots_total st"
  by (simp_all add: held_def cc_inv_def evolves_def slots_total_def large_spans_def cache_ok_def)

lemma race_counter_keeps [simp]:
  "keeps st (st'\<lparr> race_counter := r \<rparr>) = keeps st st'" "keeps (st\<lparr> race_counter := r \<rparr>) st' = keeps st st'"
  "slot_given cl ok (st\<lparr> race_counter := r \<rparr>) st' = slot_given cl ok st st'"
  "slot_given cl ok st (st'\<lparr> race_counter := r \<rparr>) = slot_given cl ok st st'"
  by (simp_all add: keeps_def slot_given_def)

lemma EvictRandomSizeClass_wpo:
  assumes inv: "cc_inv st" and lv: "lively b k (pageheap st)"
  shows "wpo b (EvictRandomSizeClass st cl force) (\<lambda>(ok, st'). keeps st st' \<and> slot_given cl ok st st')"
proof -
  let ?n = "num_size_classes (sizemap st)"
  have n: "0 < ?n" using cc_invD(2) [OF inv] by (simp add: sizes_ok_def)
  obtain t r where t: "t < ?n" and eq: "EvictRandomSizeClass st cl force =
      (if t = cl then Some (False, st\<lparr> race_counter := r \<rparr>) else ShrinkCache (st\<lparr> race_counter := r \<rparr>) t force)"
  proof (cases "?n \<le> race_counter st")
    case True
    have "race_counter st mod ?n < ?n" using n by simp
    then show ?thesis
      by (rule that [of _ "race_counter st mod ?n"]) (simp add: EvictRandomSizeClass_def Let_def True wrap_class_mod [OF n])
  next
    case False
    then show ?thesis
      by (intro that [of "race_counter st" "race_counter st + 1"]) (simp_all add: EvictRandomSizeClass_def Let_def)
  qed
  show ?thesis
  proof (cases "t = cl")
    case True
    then show ?thesis using inv by (simp add: eq keeps_refl slot_given_def)
  next
    case False
    with ShrinkCache_wpo [of "st\<lparr> race_counter := r \<rparr>" t cl b k force] inv t lv show ?thesis by (simp add: eq)
  qed
qed

text \<open>\<open>MakeCacheSpace\<close> keeps the number of slots of all classes together.\<close>

lemma MakeCacheSpace_wpo:
  assumes inv: "cc_inv st" and cl: "cl < num_size_classes (sizemap st)" and lv: "lively b k (pageheap st)"
  shows "wpo b (MakeCacheSpace st cl) (\<lambda>(ok, st'). keeps st st' \<and> slots_total st' \<le> slots_total st
    \<and> tc_slots (central_cache st' cl) = tc_slots (central_cache st cl)
    \<and> (ok \<longrightarrow> used_slots (central_cache st' cl) < cache_size (central_cache st' cl)))"
proof -
  let ?c = "central_cache st cl"
  note s = slotsD [OF inv cl]
  let ?attempt = "do { (ok, st) \<leftarrow> EvictRandomSizeClass st cl False; if ok then Some (True, st) else EvictRandomSizeClass st cl True }"
  have evict: "wpo b ?attempt (\<lambda>(ok, st'). keeps st st' \<and> slot_given cl ok st st')"
    unfolding wpo_bind
  proof (rule wpo_mono [OF EvictRandomSizeClass_wpo [OF inv lv]], goal_cases)
    case (1 x)
    obtain ok st1 where x: "x = (ok, st1)" by (cases x)
    with 1 have k1: "keeps st st1" "slot_given cl ok st st1" by simp_all
    show ?case
    proof (cases ok)
      case True
      with x k1 show ?thesis by simp
    next
      case False
      have lv1: "lively b k (pageheap st1)" using evolves_lively [of b k 0] lv keepsD(1) [OF k1(1)] by simp
      from EvictRandomSizeClass_wpo [OF evolvesD(1) [OF keepsD(1) [OF k1(1)]] lv1, of cl True]
      show ?thesis
        using x False k1 keeps_trans [OF k1(1)] by (auto simp: slot_given_def elim!: wpo_mono)
    qed
  qed
  consider "used_slots ?c < cache_size ?c" | "\<not> used_slots ?c < cache_size ?c" "cache_size ?c = max_cache_size ?c"
    | "\<not> used_slots ?c < cache_size ?c" "cache_size ?c \<noteq> max_cache_size ?c" by blast
  then show ?thesis
  proof cases
    case 1
    then show ?thesis using keeps_refl [OF inv] by (simp add: MakeCacheSpace_def Let_def)
  next
    case 2
    then show ?thesis using keeps_refl [OF inv] by (simp add: MakeCacheSpace_def Let_def)
  next
    case 3
    let ?grow = "\<lambda>x. case x of (ok, st) \<Rightarrow>
      if ok \<and> cache_size (central_cache st cl) < max_cache_size (central_cache st cl)
      then Some (True, upd_list cl (\<lambda>c. c\<lparr> cache_size := cache_size c + 1 \<rparr>) st) else Some (False, st)"
    have eq: "MakeCacheSpace st cl = do { x \<leftarrow> ?attempt; ?grow x }"
      unfolding MakeCacheSpace_def Let_def s(6) using 3 by simp
    show ?thesis
      unfolding eq
    proof (subst wpo_bind, rule wpo_mono [OF evict], goal_cases)
      case (1 x)
      obtain ok st1 where x: "x = (ok, st1)" by (cases x)
      let ?c1 = "central_cache st1 cl" and ?st = "upd_list cl (\<lambda>c. c\<lparr> cache_size := cache_size c + 1 \<rparr>) st1"
      from 1 x have k1: "keeps st st1" "slot_given cl ok st st1" by simp_all
      note inv1 = evolvesD(1) [OF keepsD(1) [OF k1(1)]] and sm1 = evolvesD(2) [OF keepsD(1) [OF k1(1)]]
      have cl1: "cl < num_size_classes (sizemap st1)" using cl sm1 by simp
      note s1 = slotsD [OF inv1 cl1]
      show ?case
      proof (cases "ok \<and> cache_size ?c1 < max_cache_size ?c1")
        case True
        have c': "central_cache ?st = (central_cache st1)(cl := ?c1\<lparr> cache_size := cache_size ?c1 + 1, tc_slots := tc_slots ?c1 \<rparr>)" by simp
        have "int (length (tc_slots ?c1)) \<le> cache_size ?c1 + 1" "cache_size ?c1 + 1 \<le> max_cache_size ?c1"
          using s1(1) True by (simp_all add: used_slots_def)
        note k = cc_inv_cache [OF inv1 cl1 this s1(3,4,5) c']
        have "held ?st d = held st1 d" for d using k(2,3) by (cases "d = cl") (simp_all add: held_def)
        then have "keeps st1 ?st" using k(1) by (simp add: keeps_def)
        then have "keeps st ?st" by (rule keeps_trans [OF k1(1)])
        moreover have "slots_total ?st = slots_total st1 + 1" using slots_total_upd [OF c' _ cl1] by simp
        ultimately show ?thesis
          using x True k1(2) s1(1) by (simp add: slot_given_def used_slots_def)
      next
        case False
        then show ?thesis using x k1 by (auto simp: slot_given_def)
      qed
    qed
  qed
qed

section \<open>\<open>InsertRange\<close>\<close>

lemma InsertRange_wpo:
  assumes inv: "cc_inv st" and cl: "cl < num_size_classes (sizemap st)" and lv: "lively b k (pageheap st)"
    and ch: "distinct ch" "set ch \<subseteq> held st cl" "N = int (length ch)"
  shows "wpo b (InsertRange st cl ch N) (took cl (set ch) st)"
proof -
  let ?m = "if N = num_objects_to_move (sizemap st) cl then MakeCacheSpace st cl else Some (False, st)"
  have m: "wpo b ?m (\<lambda>(ok, st'). keeps st st'
      \<and> (ok \<longrightarrow> used_slots (central_cache st' cl) < cache_size (central_cache st' cl) \<and> N = num_objects_to_move (sizemap st) cl))"
    using keeps_refl [OF inv] by (auto intro: wpo_mono [OF MakeCacheSpace_wpo [OF inv cl lv]])
  have eq: "InsertRange st cl ch N = do { (room, st) \<leftarrow> ?m;
      if room then Some (upd_list cl (\<lambda>c. c\<lparr> tc_slots := tc_slots c @ [ch] \<rparr>) st) else ReleaseListToSpans st cl ch }"
    using slotsD(6) [OF inv cl] by (simp add: InsertRange_def)
  show ?thesis
    unfolding eq wpo_bind
  proof (rule wpo_mono [OF m], goal_cases)
    case (1 x)
    obtain ok st1 where x: "x = (ok, st1)" by (cases x)
    with 1 have k1: "keeps st st1" and ok: "ok \<Longrightarrow> used_slots (central_cache st1 cl) < cache_size (central_cache st1 cl)"
        "ok \<Longrightarrow> N = num_objects_to_move (sizemap st) cl" by auto
    note inv1 = evolvesD(1) [OF keepsD(1) [OF k1(1)]] and sm1 = evolvesD(2) [OF keepsD(1) [OF k1(1)]]
    have cl1: "cl < num_size_classes (sizemap st1)" using cl sm1 by simp
    have h1: "set ch \<subseteq> held st1 cl" using ch(2) keepsD(2) [OF k1] by simp
    have lv1: "lively b k (pageheap st1)" using evolves_lively [of b k 0] lv keepsD(1) [OF k1(1)] by simp
    show ?case
    proof (cases ok)
      case True
      let ?c1 = "central_cache st1 cl" and ?st = "upd_list cl (\<lambda>c. c\<lparr> tc_slots := tc_slots c @ [ch] \<rparr>) st1"
      note s1 = slotsD [OF inv1 cl1]
      have c': "central_cache ?st = (central_cache st1)(cl := ?c1\<lparr> cache_size := cache_size ?c1, tc_slots := tc_slots ?c1 @ [ch] \<rparr>)" by simp
      have hd: "held st1 cl = all_objs (sizemap st1) (part st1 cl) - free_objs (part st1 cl) - set (concat (tc_slots ?c1))"
        by (simp only: held_def)
      have "int (length (tc_slots ?c1 @ [ch])) \<le> cache_size ?c1" using ok(1) True by (simp add: used_slots_def)
      moreover have "\<forall>c \<in> set (tc_slots ?c1 @ [ch]). int (length c) = num_objects_to_move (sizemap st1) cl"
        using s1(3) ok(2) True ch(3) sm1 by simp
      moreover have "distinct (concat (tc_slots ?c1 @ [ch]))"
          "set (concat (tc_slots ?c1 @ [ch])) \<subseteq> all_objs (sizemap st1) (part st1 cl) - free_objs (part st1 cl)"
        using s1(4,5) ch(1) h1 unfolding hd by auto
      ultimately have k: "evolves 0 st1 ?st" "d \<noteq> cl \<Longrightarrow> held ?st d = held st1 d"
          "held ?st cl = all_objs (sizemap st1) (part st1 cl) - free_objs (part st1 cl) - set (concat (tc_slots ?c1 @ [ch]))" for d
        using cc_inv_cache [OF inv1 cl1 _ s1(2) _ _ _ c'] by simp_all
      have "held ?st cl = held st1 cl - set ch" unfolding k(3) hd by auto
      then show ?thesis
        using x True k(1,2) evolves_trans [OF keepsD(1) [OF k1] k(1)] keepsD(2) [OF k1] by (simp add: took_def)
    next
      case False
      from ReleaseListToSpans_wpo [OF inv1 ch(1) h1 lv1] show ?thesis
        using x False keepsD [OF k1] evolves_trans [of 0 st st1 0] by (auto simp: took_def elim!: wpo_mono)
    qed
  qed
qed

section \<open>Fetching from the spans\<close>

text \<open>What an operation that hands out the objects \<open>ch\<close> does.\<close>

definition gave :: "nat \<Rightarrow> nat \<Rightarrow> addr list \<Rightarrow> central \<Rightarrow> central \<Rightarrow> bool" where
  "gave k cl ch st st' \<longleftrightarrow> evolves k st st' \<and> distinct ch \<and> set ch \<inter> held st cl = {}
     \<and> held st' cl = held st cl \<union> set ch \<and> (\<forall>d. d \<noteq> cl \<longrightarrow> held st' d = held st d)"

lemma gave_trans:
  assumes "gave j cl xs st st1" "gave k cl ys st1 st2"
  shows "gave (j + k) cl (ys @ xs) st st2"
  using assms evolves_trans [of j st st1 k st2] by (auto simp: gave_def)

lemma gave_nil: "evolves k st st' \<Longrightarrow> (\<And>d. held st' d = held st d) \<Longrightarrow> gave k cl [] st st'"
  by (simp add: gave_def)

lemma FetchFromOneSpans_wpo:
  assumes inv: "cc_inv st" and cl: "cl < num_size_classes (sizemap st)"
  shows "wpo b (FetchFromOneSpans st cl N) (\<lambda>(ch, st'). gave 0 cl ch st st' \<and> same_caches st st' \<and> length ch \<le> max 1 N
    \<and> (ch = [] \<longleftrightarrow> available (part st cl) = {}) \<and> (ch = [] \<longrightarrow> st' = st))"
proof (cases "nonempty_spans (central_cache st cl)")
  case Nil
  then have "available (part st cl) = {}"
    using cc_invD(3) [OF inv cl] by (simp add: cfl_inv_def lists_repr_def)
  then show ?thesis
    using Nil evolves_refl [OF inv] by (simp add: FetchFromOneSpans_def gave_def same_caches_def)
next
  case (Cons p ps)
  let ?c = "central_cache st cl" and ?S = "part st cl"
  have ci: "cfl_inv (sizemap st) ?S cl ?c" by (rule cc_invD(3) [OF inv cl])
  then have av: "p \<in> available ?S" "p \<notin> exhausted ?S" using Cons by (auto simp: cfl_inv_def lists_repr_def)
  then obtain s where p: "(p, s) \<in> ?S" and ne: "sp_objects s \<noteq> []" by (auto simp: available_def)
  note sp = split_part [OF inv p]
  have U: "inuse_spans (pageheap st) p = Some s" "sp_sizeclass s = cl" "cl \<noteq> 0" using p by (simp_all add: class_part_def)
  have si: "span_inv (sizemap st) s" using cc_invD(4) [OF inv p] by simp
  let ?k = "max 1 N"
  define ch where "ch = take ?k (sp_objects s)"
  define t where "t = s\<lparr> sp_objects := drop ?k (sp_objects s), sp_refcount := (sp_refcount s + length ch) mod 2 ^ 16 \<rparr>"
  define c where "c = (if drop ?k (sp_objects s) = [] then to_empty p ?c else ?c)"
  define st' where "st' = st\<lparr> pageheap := upd_span p t (pageheap st),
      central_cache := (central_cache st)(cl := c\<lparr> counter := counter c - of_nat (length ch) \<rparr>) \<rparr>"
  have sp_p: "spans (pageheap st) p = Some s" using U(1) by (simp add: inuse_spans_Some)
  have eq: "FetchFromOneSpans st cl N = Some (ch, st')"
    using Cons sp_p ne unfolding ch_def t_def c_def st'_def by (simp add: FetchFromOneSpans_def Let_def)
  have objs: "sp_objects s = ch @ sp_objects t" by (simp add: ch_def t_def)
  have dist: "distinct ch" "distinct (sp_objects t)" "set ch \<inter> set (sp_objects t) = {}"
    using si unfolding span_inv_def objs by auto
  have "sp_refcount s + length ch + length (sp_objects t) = nobjs (sizemap st) cl"
    using si U(2) unfolding span_inv_def objs by simp
  moreover from this have "(sp_refcount s + length ch) mod 2 ^ 16 = sp_refcount s + length ch"
    using sizes_okD(5) [OF cc_invD(2) [OF inv] _ cl] U(3) by simp
  ultimately have ti: "span_inv (sizemap st) t"
    using si dist(2) U(2) unfolding span_inv_def objs by (simp add: t_def grid_def)
  have tf: "sp_start t = sp_start s" "sp_length t = sp_length s" "sp_location t = sp_location s" "sp_sizeclass t = sp_sizeclass s"
    by (simp_all add: t_def)
  have bt: "but p ?S = ?S - {(p, s)}" by (rule but_part [OF p])
  have free: "free_objs ?S = set ch \<union> free_objs (insert (p, t) (but p ?S))" "set ch \<inter> free_objs (insert (p, t) (but p ?S)) = {}"
  proof -
    have new: "free_objs (insert (p, t) (but p ?S)) = set (sp_objects t) \<union> free_objs (?S - {(p, s)})"
      by (simp add: bt free_objs_def)
    show "free_objs ?S = set ch \<union> free_objs (insert (p, t) (but p ?S))" unfolding new sp(2) objs by auto
    show "set ch \<inter> free_objs (insert (p, t) (but p ?S)) = {}"
      using sp(3,4,5) dist(3) unfolding new objs by auto
  qed
  have fin: "finite (free_objs ?S)" using sp(2,7) by simp
  have cnt: "card (free_objs ?S) = length ch + card (free_objs (insert (p, t) (but p ?S)))"
    using card_Un_disjoint [OF _ _ free(2)] fin free(1) distinct_card [OF dist(1)] by (metis finite_Un)
  have rep: "lists_repr c (exhausted (insert (p, t) (but p ?S))) (available (insert (p, t) (but p ?S)))"
  proof -
    have r: "lists_repr ?c (exhausted ?S) (available ?S)" using ci by (simp add: cfl_inv_def)
    have "exhausted ?S - {p} = exhausted ?S" "insert p (available ?S - {p}) = available ?S" using av by auto
    with r lists_repr_empty [OF r, of p] show ?thesis
      by (simp add: exhausted_un available_un exhausted_but available_but c_def t_def)
  qed
  have slots: "set (concat (tc_slots ?c)) \<inter> set (sp_objects t) = {}"
    using ci sp(2) unfolding cfl_inv_def objs by auto
  have "evolves 0 st st' \<and> same_caches st st' \<and> (\<forall>d. d \<noteq> cl \<longrightarrow> held st' d = held st d)
    \<and> held st' cl = held st cl \<union> (set (sp_objects s) - set (sp_objects t)) - set (sp_objects t)"
    by (rule span_change [OF inv p tf ti, where c = "c\<lparr> counter := counter c - of_nat (length ch) \<rparr>"])
      (use rep slots ci cnt in \<open>simp_all add: c_def st'_def cfl_inv_def\<close>)
  moreover have "set ch \<inter> held st cl = {}" "held st cl \<inter> set (sp_objects t) = {}"
    using sp(2) unfolding held_def objs by auto
  ultimately have "gave 0 cl ch st st'" "same_caches st st'"
    using dist unfolding objs by (auto simp: gave_def)
  then show ?thesis using av ne by (auto simp: eq ch_def)
qed

section \<open>\<open>Populate\<close>\<close>

lemma carve_objects_eq:
  assumes z: "0 < z" and b: "base + n * z \<le> limit" "limit < base + (n + 1) * z" "limit < 2 ^ 63" "z < 2 ^ 63" and i: "i \<le> n"
  shows "carve_objects z limit (base + i * z) = Some (map (\<lambda>j. base + j * z) [i ..< n])"
  using i
proof (induction "n - i" arbitrary: i)
  case 0
  then have "i = n" by simp
  moreover have "(base + n * z + z) mod 2 ^ 64 = base + n * z + z"
  proof (rule mod_less)
    have "base + n * z + z < 2 ^ 63 + 2 ^ 63" using b(1,3,4) by linarith
    then show "base + n * z + z < 2 ^ 64" by simp
  qed
  ultimately show ?case using b by (subst carve_objects.simps) (simp add: Let_def algebra_simps)
next
  case (Suc d)
  then have lt: "i < n" by simp
  then have "(i + 1) * z \<le> n * z" by (intro mult_le_mono1) simp
  then have le: "base + i * z + z \<le> limit" using b(1) by simp
  then have m: "(base + i * z + z) mod 2 ^ 64 = base + (i + 1) * z" using b(3) by simp
  have "carve_objects z limit (base + (i + 1) * z) = Some (map (\<lambda>j. base + j * z) [i + 1 ..< n])"
    using Suc.hyps(2) lt by (intro Suc.hyps(1)) simp_all
  then show ?case
    using le z lt unfolding carve_objects.simps [of z limit "base + i * z"] Let_def m
    by (simp add: upt_conv_Cons)
qed

lemma carve_span:
  assumes inv: "cc_inv st" and cl: "0 < cl" "cl < num_size_classes (sizemap st)"
    and h: "heap_ok h" "inuse_spans h p = Some s" "sp_length s = class_to_pages (sizemap st) cl" "sp_sizeclass s = cl"
  obtains objs where "carve_objects (ByteSizeForClass (sizemap st) cl)
      (sp_start s * kPageSize + class_to_pages (sizemap st) cl * kPageSize) (sp_start s * kPageSize) = Some objs"
    "distinct objs" "set objs = grid (sizemap st) s" "length objs = nobjs (sizemap st) cl"
proof -
  let ?z = "ByteSizeForClass (sizemap st) cl" and ?n = "nobjs (sizemap st) cl" and ?base = "sp_start s * kPageSize"
    and ?len = "class_to_pages (sizemap st) cl * kPageSize"
  note sz = sizes_okD [OF cc_invD(2) [OF inv] cl]
  have "spans h p = Some s" using h(2) by (simp add: inuse_spans_Some)
  from start_bound [OF heap_okD(1) [OF h(1)] this] have "(sp_start s + sp_length s) * kPageSize < 2 ^ 35 * kPageSize"
    by (intro mult_less_mono1) simp_all
  then have lim: "?base + ?len < 2 ^ 63" by (simp add: h(3) add_mult_distrib)
  have n: "?n * ?z \<le> ?len" "?len < (?n + 1) * ?z"
    using sz(1) div_times_less_eq_dividend [of ?len ?z] dividend_less_div_times [of ?z ?len] by (simp_all add: nobjs_def algebra_simps)
  have "?z \<le> ?n * ?z" using sz(4) by simp
  then have "?z < 2 ^ 63" using n(1) lim by linarith
  with carve_objects_eq [OF sz(1), of ?base ?n "?base + ?len" 0] n lim
  have eq: "carve_objects ?z (?base + ?len) ?base = Some (map (\<lambda>j. ?base + j * ?z) [0 ..< ?n])" by simp
  have d: "distinct (map (\<lambda>j. ?base + j * ?z) [0 ..< ?n])" using sz(1) by (auto simp: distinct_map inj_on_def)
  have g: "set (map (\<lambda>j. ?base + j * ?z) [0 ..< ?n]) = grid (sizemap st) s" using h(4) by (auto simp: grid_def)
  show ?thesis by (rule that [OF eq d g]) simp
qed

text \<open>Filling the cache of size classes changes nothing else.\<close>

lemma cache_fill:
  "foldl (\<lambda>h i. SetCachedSizeClass h (f i) cl) h is
     = h\<lparr> pagemap_cache := foldl (\<lambda>c i. put_class c (f i) cl) (pagemap_cache h) is \<rparr>"
  by (induction "is" arbitrary: h) (simp_all add: SetCachedSizeClass_put)

lemma cached_heap:
  assumes "heap_ok h"
  shows "heap_ok (h\<lparr> pagemap_cache := c \<rparr>)" "spans (h\<lparr> pagemap_cache := c \<rparr>) = spans h"
  using assms by (simp_all add: heap_ok_def ph_inv_cache)

text \<open>The pages of a new span are all entered.\<close>

lemma populate_coherent:
  assumes ok: "heap_ok (pageheap st)" "heap_ok h" and U: "inuse_spans (pageheap st) p = None"
      "inuse_spans h = (inuse_spans (pageheap st))(p \<mapsto> s)" "pagemap_cache h = Invalidate (pagemap_cache (pageheap st)) (of_nat (sp_start s))"
    and cl: "sp_sizeclass s \<noteq> 0" "sp_sizeclass s < 128" and c: "cache_ok st" and t: "same_place s t"
  shows "coherent (foldl (\<lambda>c i. put_class c (sp_start s + i) (sp_sizeclass s)) (pagemap_cache h) [0 ..< sp_length s])
    ((inuse_spans (pageheap st))(p \<mapsto> t))"
proof -
  note i = inuse_place [OF heap_okD(1) [OF ok(1)]] and i' = inuse_place [OF heap_okD(1) [OF ok(2)]]
  have s: "inuse_spans h p = Some s" "spans h p = Some s" using U(2) by (simp_all flip: inuse_spans_Some add: inuse_spans_Some [THEN iffD1])
  have co: "coherent (pagemap_cache h) (inuse_spans (pageheap st))"
    unfolding U(3) using coherent_forgets [OF _ forgets_Invalidate] c by (simp add: cache_ok_def)
  have lt: "sp_start s + sp_length s < 2 ^ 64" using start_bound [OF heap_okD(1) [OF ok(2)] s(2)] by simp
  have dis: "pages_of u \<inter> pages_of s = {}" if "inuse_spans (pageheap st) q = Some u" "q \<noteq> p" for q u
    using i'(3) [of q u p s] s(1) that U(2) by simp
  have "coherent (foldl (\<lambda>c i. put_class c (sp_start s + i) (sp_sizeclass s)) (pagemap_cache h) [0 ..< sp_length s])
    ((inuse_spans (pageheap st))(p \<mapsto> s))"
    by (rule coherent_puts [OF co cl lt _ dis i(2)]) (auto dest: i(1))
  from coherent_same [OF this _ t, of p] show ?thesis by simp
qed

text \<open>A new span joins its class.\<close>

lemma add_span:
  assumes inv: "cc_inv st" and cl: "0 < cl" "cl < num_size_classes (sizemap st)"
    and h: "heap_ok h" "settings (pageheap st) h" "inuse_spans h = (inuse_spans (pageheap st))(p \<mapsto> t)"
      "inuse_spans (pageheap st) p = None" "room (pageheap st) \<le> room h + 3"
      "cache_ok st \<Longrightarrow> coherent (pagemap_cache h) (inuse_spans h)"
    and t: "sp_length t = class_to_pages (sizemap st) cl" "sp_sizeclass t = cl" "distinct (sp_objects t)"
      "set (sp_objects t) = grid (sizemap st) t" "length (sp_objects t) = nobjs (sizemap st) cl" "sp_refcount t = 0"
    and st': "pageheap st' = h" "sizemap st' = sizemap st"
      "central_cache st' = (central_cache st)(cl := (central_cache st cl)\<lparr> nonempty_spans := p # nonempty_spans (central_cache st cl),
         num_spans := num_spans (central_cache st cl) + 1, counter := counter (central_cache st cl) + of_nat (length (sp_objects t)) \<rparr>)"
  shows "evolves 3 st st' \<and> same_caches st st' \<and> (\<forall>d. held st' d = held st d) \<and> available (part st' cl) \<noteq> {}"
proof -
  let ?S = "part st cl" and ?c = "central_cache st cl" and ?sm = "sizemap st"
  have ci: "cfl_inv ?sm ?S cl ?c" by (rule cc_invD(3) [OF inv cl(2)])
  have pS: "p \<notin> exhausted ?S" "p \<notin> available ?S" "but p ?S = ?S" "(p, t) \<notin> ?S"
    using h(4) by (auto simp: exhausted_def available_def class_part_def but_def)
  have part: "class_part (inuse_spans h) cl = insert (p, t) ?S" using cl t(2) by (simp add: h(3) class_part_upd pS)
  have ne: "sp_objects t \<noteq> []" using sizes_okD(4) [OF cc_invD(2) [OF inv] cl] t(5) by auto
  have si: "span_inv ?sm t" using t by (simp add: span_inv_def)
  have tU: "inuse_spans h p = Some t" by (simp add: h(3))
  have apart: "grid ?sm t \<inter> all_objs ?sm ?S = {}"
  proof -
    have "grid ?sm t \<inter> grid ?sm s = {}" if "(q, s) \<in> ?S" for q s
    proof (rule ph.grids_disjoint [OF h(1) tU])
      show "inuse_spans h q = Some s" "p \<noteq> q" using that h(3,4) by (auto simp: class_part_def)
    qed (use t cc_invD(4) [OF inv that] in \<open>simp_all add: span_inv_def\<close>)
    then show ?thesis by (auto simp: all_objs_def)
  qed
  have sub: "free_objs ?S \<subseteq> all_objs ?sm ?S" by (rule free_subset [OF inv order_refl])
  have free: "free_objs (insert (p, t) ?S) = grid ?sm t \<union> free_objs ?S" by (simp add: free_objs_def t(4))
  have all: "all_objs ?sm (insert (p, t) ?S) = grid ?sm t \<union> all_objs ?sm ?S" by (simp add: all_objs_def)
  have fin: "finite (free_objs ?S)" using part_finite [OF inv] by (auto simp: free_objs_def)
  have cnt: "card (free_objs (insert (p, t) ?S)) = length (sp_objects t) + card (free_objs ?S)"
    unfolding free using apart sub fin distinct_card [OF t(3)] t(4) by (subst card_Un_disjoint) auto
  have "lists_repr (?c\<lparr> nonempty_spans := p # nonempty_spans ?c \<rparr>) (exhausted (insert (p, t) ?S)) (available (insert (p, t) ?S))"
    using ci ne pS by (auto simp: cfl_inv_def lists_repr_def exhausted_un available_un)
  moreover have "set (concat (tc_slots ?c)) \<subseteq> all_objs ?sm (insert (p, t) ?S) - free_objs (insert (p, t) ?S)"
    using ci apart unfolding cfl_inv_def all free by blast
  ultimately have ci': "cfl_inv ?sm (insert (p, t) ?S) cl (central_cache st' cl)"
    using ci cnt pS(4) part_finite [OF inv] by (simp add: st' cfl_inv_def used_slots_def)
  have cl0: "cl \<noteq> 0" using cl(1) by simp
  have "cc_inv st'" "\<And>d. d \<noteq> cl \<Longrightarrow> held st' d = held st d"
    by (rule cc_inv_change [OF inv cl0 cl(2) _ h(1-3), of "central_cache st' cl" st'];
        use h(4) t(2) si ci' part st' in simp)+
  moreover have "held st' cl = held st cl"
  proof -
    have "held st' cl = grid ?sm t \<union> all_objs ?sm ?S - (grid ?sm t \<union> free_objs ?S) - set (concat (tc_slots ?c))"
      by (simp add: held_def st' part all free)
    then show ?thesis using apart unfolding held_def by auto
  qed
  ultimately have "cc_inv st'" "\<forall>d. held st' d = held st d" by metis+
  moreover have "large_spans st' = large_spans st" using h(4) t(2) cl(1) by (auto simp: large_spans_def st' h(3) split: if_splits)
  moreover have "cache_ok st \<Longrightarrow> cache_ok st'" using h(6) by (simp add: cache_ok_def st')
  ultimately show ?thesis
    using h(2,5) ne ci unfolding evolves_def same_caches_def by (simp add: st' part available_un)
qed

lemma Populate_wpo:
  assumes inv: "cc_inv st" and cl: "0 < cl" "cl < num_size_classes (sizemap st)" and lv: "lively b 3 (pageheap st)"
  shows "wpo b (Populate st cl) (\<lambda>st'. evolves 3 st st' \<and> same_caches st st' \<and> (\<forall>d. held st' d = held st d)
    \<and> (available (part st' cl) \<noteq> {} \<or> inuse_spans (pageheap st') = inuse_spans (pageheap st)
        \<and> (heap_limit_mb (pageheap st) = 0 \<longrightarrow> \<not> free_fit (spans (pageheap st)) (class_to_pages (sizemap st) cl))))"
proof -
  let ?n = "class_to_pages (sizemap st) cl"
  note sz = sizes_okD [OF cc_invD(2) [OF inv] cl] and ok = cc_invD(1) [OF inv]
  have sc: "size_class (central_cache st cl) = cl" by (rule slotsD(6) [OF inv cl(2)])
  have n: "?n \<le> 2 ^ 52" using sz(3) by (rule order_trans) simp
  show ?thesis
    unfolding Populate_def Let_def sc wpo_bind
  proof (rule wpo_mono [OF New_wpo [OF ok sz(2) n lv]], goal_cases)
    case (1 x)
    obtain r h where x: "x = (r, h)" by (cases x)
    with 1 have h: "heap_ok h" "settings (pageheap st) h" "room (pageheap st) \<le> room h + 3" by simp_all
    show ?case
    proof (cases r)
      case None
      let ?st = "st\<lparr> pageheap := h \<rparr>"
      have U: "inuse_spans h = inuse_spans (pageheap st)" "pagemap_cache h = pagemap_cache (pageheap st)"
          "heap_limit_mb (pageheap st) = 0 \<longrightarrow> \<not> free_fit (spans (pageheap st)) ?n"
        using 1 x None sz(6) by auto
      have "cc_inv ?st" using inv h sizes_ok_settings [OF cc_invD(2) [OF inv] h(2)] unfolding cc_inv_def by (auto simp: U)
      moreover have "held ?st d = held st d" for d by (simp add: held_def U)
      ultimately show ?thesis using x None U h by (simp add: evolves_def same_caches_def large_spans_def cache_ok_def)
    next
      case (Some p)
      with 1 x have g: "span_given ?n cl (pageheap st) p h" using sz(6) by simp
      then obtain s where s: "inuse_spans (pageheap st) p = None" "inuse_spans h = (inuse_spans (pageheap st))(p \<mapsto> s)"
          "sp_length s = ?n" "sp_sizeclass s = cl" "pagemap_cache h = Invalidate (pagemap_cache (pageheap st)) (of_nat (sp_start s))"
        using sz(8) by (auto simp: span_given_def)
      have hp: "inuse_spans h p = Some s" "spans h p = Some s" using s(2) by (simp_all flip: inuse_spans_Some add: inuse_spans_Some [THEN iffD1])
      define c where "c = foldl (\<lambda>c i. put_class c (sp_start s + i) cl) (pagemap_cache h) [0 ..< ?n]"
      have c: "foldl (\<lambda>h i. SetCachedSizeClass h (sp_start s + i) cl) h [0 ..< ?n] = h\<lparr> pagemap_cache := c \<rparr>"
        unfolding c_def by (rule cache_fill)
      let ?h1 = "h\<lparr> pagemap_cache := c \<rparr>"
      have h1: "heap_ok ?h1" "inuse_spans ?h1 = inuse_spans h" "settings h ?h1" "room ?h1 = room h"
        using cached_heap [OF h(1)] by simp_all
      obtain objs where o: "carve_objects (ByteSizeForClass (sizemap st) cl) (sp_start s * kPageSize + ?n * kPageSize) (sp_start s * kPageSize) = Some objs"
          "distinct objs" "set objs = grid (sizemap st) s" "length objs = nobjs (sizemap st) cl"
        by (rule carve_span [OF inv cl h(1) hp(1) s(3,4)])
      let ?t = "s\<lparr> sp_objects := objs, sp_refcount := 0 \<rparr>"
      have "inuse_spans ?h1 p = Some s" using h1(2) hp(1) by simp
      note w = heap_write [OF h1(1) this, of ?t, simplified]
      have sett: "settings (pageheap st) (upd_span p ?t ?h1)" 
        using settings_trans [OF h(2) settings_trans [OF h1(3)]] w(2) by simp
      have coh: "coherent c ((inuse_spans (pageheap st))(p \<mapsto> ?t))" if "cache_ok st"
        using populate_coherent [OF ok h(1) s(1,2,5) _ _ that, of ?t] s(3,4) cl(1) sz(8) by (simp add: c_def same_place_def)
      have "grid (sizemap st) ?t = grid (sizemap st) s" by (simp add: grid_def)
      then have post: "evolves 3 st st' \<and> same_caches st st' \<and> (\<forall>d. held st' d = held st d) \<and> available (part st' cl) \<noteq> {}"
        if "pageheap st' = upd_span p ?t ?h1" "sizemap st' = sizemap st"
          "central_cache st' = (central_cache st)(cl := (central_cache st cl)\<lparr> nonempty_spans := p # nonempty_spans (central_cache st cl),
            num_spans := num_spans (central_cache st cl) + 1, counter := counter (central_cache st cl) + of_nat (length (sp_objects ?t)) \<rparr>)"
        for st'
        using s o h w h1 sett coh that by (intro add_span [OF inv cl, of "upd_span p ?t ?h1" p ?t st']) simp_all
      have weaken: "A \<and> B \<and> C \<and> D \<Longrightarrow> A \<and> B \<and> C \<and> (D \<or> E)" for A B C D E by blast
      show ?thesis
        unfolding x Some prod.case option.case Let_def hp(2) bind.bind_lunit c o(1) wpo_Some
        by (rule weaken, rule post) simp_all
    qed
  qed
qed

section \<open>\<open>RemoveRange\<close>\<close>

text \<open>No span of the class has a free object and the page heap has no memory for another.\<close>

definition no_memory :: "central \<Rightarrow> nat \<Rightarrow> bool" where
  "no_memory st cl \<longleftrightarrow> (heap_limit_mb (pageheap st) = 0 \<longrightarrow> \<not> free_fit (spans (pageheap st)) (class_to_pages (sizemap st) cl))
     \<and> available (part st cl) = {}"

lemma FetchFromOneSpansSafe_wpo:
  assumes inv: "cc_inv st" and cl: "0 < cl" "cl < num_size_classes (sizemap st)" and lv: "lively b 3 (pageheap st)"
  shows "wpo b (FetchFromOneSpansSafe st cl N) (\<lambda>(ch, st'). gave 3 cl ch st st' \<and> length ch \<le> max 1 N
    \<and> (ch = [] \<longrightarrow> no_memory st cl))"
  unfolding FetchFromOneSpansSafe_def wpo_bind
proof (rule wpo_mono [OF FetchFromOneSpans_wpo [OF inv cl(2)]], goal_cases)
  case (1 x)
  obtain ch st1 where x: "x = (ch, st1)" by (cases x)
  with 1 have g: "gave 0 cl ch st st1" "length ch \<le> max 1 N" "ch = [] \<longleftrightarrow> available (part st cl) = {}" "ch = [] \<longrightarrow> st1 = st"
    by simp_all
  show ?case
  proof (cases "ch = []")
    case False
    with x g show ?thesis by (auto simp: gave_def evolves_def)
  next
    case True
    have "wpo b (Populate st cl) (\<lambda>st1. wpo b (FetchFromOneSpans st1 cl N) (\<lambda>(ch, st'). gave 3 cl ch st st' \<and> length ch \<le> max 1 N
      \<and> (ch = [] \<longrightarrow> no_memory st cl)))"
    proof (rule wpo_mono [OF Populate_wpo [OF inv cl lv]], elim conjE, goal_cases)
      case (1 st2)
      have cl2: "cl < num_size_classes (sizemap st2)" using cl(2) evolvesD(2) [OF 1(1)] by simp
      have p: "gave 3 cl [] st st2" using 1(1,3) by (simp add: gave_def)
      show ?case
      proof (rule wpo_mono [OF FetchFromOneSpans_wpo [OF evolvesD(1) [OF 1(1)] cl2]], goal_cases)
        case (1 y)
        obtain ch' st3 where y: "y = (ch', st3)" by (cases y)
        with 1 have g3: "gave 0 cl ch' st2 st3" "length ch' \<le> max 1 N" "ch' = [] \<longleftrightarrow> available (part st2 cl) = {}" by simp_all
        with gave_trans [OF p g3(1)] y True g(3) \<open>available (part st2 cl) \<noteq> {} \<or> _\<close> show ?case
          by (auto simp: no_memory_def)
      qed
    qed
    with True x g(4) show ?thesis by simp
  qed
qed

lemma fetch_more_wpo:
  assumes "cc_inv st" "cl < num_size_classes (sizemap st)"
  shows "wpo b (fetch_more st cl N ch) (\<lambda>(ch', st'). \<exists>pre. ch' = pre @ ch \<and> gave 0 cl pre st st' \<and> length ch' \<le> max (length ch) N)"
  using assms
proof (induction "N - length ch" arbitrary: st ch rule: less_induct)
  case less
  show ?case
  proof (cases "length ch < N")
    case False
    then show ?thesis using evolves_refl [OF less.prems(1)] by (subst fetch_more.simps) (simp add: gave_def)
  next
    case True
    have "wpo b (FetchFromOneSpans st cl (N - length ch)) (\<lambda>(nxt, st1). wpo b (if nxt = [] then Some (ch, st1) else fetch_more st1 cl N (nxt @ ch))
        (\<lambda>(ch', st'). \<exists>pre. ch' = pre @ ch \<and> gave 0 cl pre st st' \<and> length ch' \<le> max (length ch) N))"
    proof (rule wpo_mono [OF FetchFromOneSpans_wpo [OF less.prems]], goal_cases)
      case (1 x)
      obtain nxt st1 where x: "x = (nxt, st1)" by (cases x)
      with 1 True have g: "gave 0 cl nxt st st1" "length nxt \<le> N - length ch" by simp_all
      show ?case
      proof (cases "nxt = []")
        case True
        with x g show ?thesis by simp
      next
        case False
        have "N - length (nxt @ ch) < N - length ch" using False True by (cases nxt) auto
        moreover have "cc_inv st1" "cl < num_size_classes (sizemap st1)" using g(1) less.prems(2) by (simp_all add: gave_def evolves_def)
        ultimately have "wpo b (fetch_more st1 cl N (nxt @ ch)) (\<lambda>(ch', st'). \<exists>pre. ch' = pre @ nxt @ ch \<and> gave 0 cl pre st1 st'
            \<and> length ch' \<le> max (length (nxt @ ch)) N)" by (rule less.hyps)
        then have "wpo b (fetch_more st1 cl N (nxt @ ch)) (\<lambda>(ch', st'). \<exists>pre. ch' = pre @ ch \<and> gave 0 cl pre st st' \<and> length ch' \<le> max (length ch) N)"
        proof (rule wpo_mono, clarify, goal_cases)
          case (1 ch' st' pre)
          then show ?case using gave_trans [OF g(1) 1(2)] g(2) True by (intro exI [of _ "pre @ nxt"]) simp
        qed
        with x False show ?thesis by simp
      qed
    qed
    with True show ?thesis
      by (subst fetch_more.simps, cases "FetchFromOneSpans st cl (N - length ch)") auto
  qed
qed

lemma RemoveRange_wpo:
  assumes inv: "cc_inv st" and cl: "0 < cl" "cl < num_size_classes (sizemap st)" and lv: "lively b 3 (pageheap st)" and N: "0 < N"
  shows "wpo b (RemoveRange st cl N) (\<lambda>(n, ch, st'). n = length ch \<and> n \<le> N \<and> gave 3 cl ch st st'
    \<and> (n = 0 \<longrightarrow> no_memory st cl \<and> (int N = num_objects_to_move (sizemap st) cl \<longrightarrow> tc_slots (central_cache st cl) = [])))"
proof (cases "int N = num_objects_to_move (sizemap st) cl \<and> used_slots (central_cache st cl) > 0")
  case True
  let ?c = "central_cache st cl" and ?st = "upd_list cl (\<lambda>c. c\<lparr> tc_slots := butlast (tc_slots c) \<rparr>) st"
  have ne: "tc_slots ?c \<noteq> []" using True by (auto simp: used_slots_def)
  have z: "int (length (tc_slots ?c)) - 1 \<le> cache_size ?c" "cache_size ?c \<le> cache_size ?c"
    using slotsD(1) [OF inv cl(2)] by (simp_all add: used_slots_def)
  have st': "central_cache ?st = (central_cache st)(cl := ?c\<lparr> cache_size := cache_size ?c, tc_slots := butlast (tc_slots ?c) \<rparr>)" by simp
  note sp = slot_pop [OF inv cl(2) ne z st', simplified]
  have "RemoveRange st cl N = Some (N, last (tc_slots ?c), ?st)"
    unfolding RemoveRange_def Let_def slotsD(6) [OF inv cl(2)] using True by simp
  moreover have "gave 3 cl (last (tc_slots ?c)) st ?st"
    using sp by (auto simp: gave_def evolves_def)
  ultimately show ?thesis using sp(6) True N by auto
next
  case False
  have eq: "RemoveRange st cl N = do { (chain, st) \<leftarrow> FetchFromOneSpansSafe st cl N;
      (chain, st) \<leftarrow> (if chain \<noteq> [] then fetch_more st cl N chain else Some (chain, st)); Some (length chain, chain, st) }"
    unfolding RemoveRange_def Let_def slotsD(6) [OF inv cl(2)] using False by auto
  show ?thesis
    unfolding eq wpo_bind
  proof (rule wpo_mono [OF FetchFromOneSpansSafe_wpo [OF inv cl lv]], goal_cases)
    case (1 x)
    obtain ch st1 where x: "x = (ch, st1)" by (cases x)
    with 1 N have g: "gave 3 cl ch st st1" "length ch \<le> N" "ch = [] \<longrightarrow> no_memory st cl" by simp_all
    show ?case
    proof (cases "ch = []")
      case True
      with x g N False show ?thesis by (auto simp: used_slots_def)
    next
      case ne: False
      have st1: "cc_inv st1" "cl < num_size_classes (sizemap st1)" using g(1) cl(2) by (simp_all add: gave_def evolves_def)
      have "wpo b (fetch_more st1 cl N ch) (\<lambda>(ch', st'). gave 3 cl ch' st st' \<and> length ch' \<le> N \<and> ch' \<noteq> [])"
      proof (rule wpo_mono [OF fetch_more_wpo [OF st1]], clarify, goal_cases)
        case (1 ch' st' pre)
        then show ?case using gave_trans [OF g(1) 1(1)] g(2) ne by simp
      qed
      then show ?thesis using x ne by (auto simp: case_prod_beta elim!: wpo_mono)
    qed
  qed
qed

end
