(* ===== verification/CentralFreeList_Props.thy ===== *)
theory CentralFreeList_Props
  imports CentralFreeList_Range SizeMap_Props
begin

text \<open>
  The central free lists as the thread caches see them: a pool of objects per size class.
\<close>

section \<open>The contract of a pool of objects\<close>

text \<open>\<open>held s cl\<close> are the objects of class \<open>cl\<close> that the pool has handed out.\<close>

locale object_pool =
  fixes ok :: "'s \<Rightarrow> bool"
    and classes :: "'s \<Rightarrow> nat \<Rightarrow> bool"
    and held :: "'s \<Rightarrow> nat \<Rightarrow> addr set"
    and remove :: "'s \<Rightarrow> nat \<Rightarrow> nat \<Rightarrow> (nat \<times> addr list \<times> 's) option"
    and insert_range :: "'s \<Rightarrow> nat \<Rightarrow> addr list \<Rightarrow> int \<Rightarrow> 's option"
  assumes remove_gives: "ok s \<Longrightarrow> classes s cl \<Longrightarrow> 0 < N \<Longrightarrow> remove s cl N = Some (n, ch, s') \<Longrightarrow>
      ok s' \<and> classes s' = classes s \<and> n = length ch \<and> n \<le> N \<and> distinct ch \<and> set ch \<inter> held s cl = {}
      \<and> held s' cl = held s cl \<union> set ch \<and> (\<forall>d. d \<noteq> cl \<longrightarrow> held s' d = held s d)"
    and insert_takes: "ok s \<Longrightarrow> classes s cl \<Longrightarrow> distinct ch \<Longrightarrow> set ch \<subseteq> held s cl
      \<Longrightarrow> insert_range s cl ch (int (length ch)) = Some s' \<Longrightarrow>
      ok s' \<and> classes s' = classes s \<and> held s' cl = held s cl - set ch \<and> (\<forall>d. d \<noteq> cl \<longrightarrow> held s' d = held s d)"
    and held_apart: "ok s \<Longrightarrow> d \<noteq> cl \<Longrightarrow> held s d \<inter> held s cl = {}"
begin

lemma held_after:
  assumes "ok s" "classes s cl" "0 < N" "remove s cl N = Some (n, ch, s1)"
  shows "held s1 = (held s)(cl := held s cl \<union> set ch)"
  using remove_gives [OF assms] by (auto simp: fun_eq_iff)

text \<open>What was handed out is not handed out again.\<close>

lemma removes_disjoint:
  assumes "ok s" "classes s cl" "0 < N" "remove s cl N = Some (n, ch, s1)"
    and "classes s d" "0 < M" "remove s1 d M = Some (m, ch', s2)"
  shows "set ch \<inter> set ch' = {}"
proof -
  have 1: "ok s1" "classes s1 d" "set ch \<subseteq> held s1 cl" using remove_gives [OF assms(1-4)] assms(5) by simp_all
  have 2: "ok s2" "set ch' \<inter> held s1 d = {}" "set ch' \<subseteq> held s2 d" "\<forall>e. e \<noteq> d \<longrightarrow> held s2 e = held s1 e"
    using remove_gives [OF 1(1,2) assms(6,7)] by blast+
  show ?thesis
  proof (cases "d = cl")
    case True
    with 1(3) 2(2) show ?thesis by blast
  next
    case False
    then have "held s2 cl = held s1 cl" using 2(4) by simp
    then have "set ch \<subseteq> held s2 cl" using 1(3) by simp
    moreover have "held s2 d \<inter> held s2 cl = {}" by (rule held_apart [OF 2(1) False])
    ultimately show ?thesis using 2(3) by auto
  qed
qed

text \<open>Giving a batch back undoes its removal.\<close>

lemma remove_insert:
  assumes "ok s" "classes s cl" "0 < N" "remove s cl N = Some (n, ch, s1)" "insert_range s1 cl ch (int n) = Some s2"
  shows "ok s2 \<and> held s2 = held s"
proof -
  note r = remove_gives [OF assms(1-4)]
  have i: "ok s2 \<and> classes s2 = classes s1 \<and> held s2 cl = held s1 cl - set ch \<and> (\<forall>d. d \<noteq> cl \<longrightarrow> held s2 d = held s1 d)"
    by (rule insert_takes [of s1 cl ch]) (use r assms(2,5) in auto)
  have "held s2 d = held s d" for d using r i by (cases "d = cl") auto
  with i show ?thesis by auto
qed

end

section \<open>The central lists are a pool\<close>

abbreviation size_classes :: "central \<Rightarrow> nat \<Rightarrow> bool" where
  "size_classes st cl \<equiv> 0 < cl \<and> cl < num_size_classes (sizemap st)"

lemma held_disjoint:
  assumes inv: "cc_inv st" and d: "d \<noteq> cl"
  shows "held st d \<inter> held st cl = {}"
proof (rule ccontr)
  assume "\<not> ?thesis"
  then obtain x where x: "x \<in> held st d" "x \<in> held st cl" by blast
  obtain p s where p: "(p, s) \<in> part st d" "x \<in> grid (sizemap st) s" by (rule held_span [OF inv x(1)])
  obtain q t where q: "(q, t) \<in> part st cl" "x \<in> grid (sizemap st) t" by (rule held_span [OF inv x(2)])
  have "p \<noteq> q" using p(1) q(1) d by (auto simp: class_part_def)
  from grids_apart [OF inv p(1) q(1) this] p(2) q(2) show False by blast
qed

lemma lively_False [simp]: "lively False k h"
  by (simp add: lively_def)

interpretation cfl: object_pool cc_inv size_classes held RemoveRange InsertRange
proof (unfold_locales, goal_cases)
  case (1 s cl N n ch s')
  from wpo_partial [OF RemoveRange_wpo [OF 1(1) _ _ lively_False 1(3)] 1(4)] 1(2) show ?case
    by (auto simp: gave_def evolves_def)
next
  case (2 s cl ch s')
  from wpo_partial [OF InsertRange_wpo [OF 2(1) _ lively_False 2(3,4) refl] 2(5)] 2(2) show ?case
    by (auto simp: took_def evolves_def)
next
  case (3 s d cl)
  then show ?case by (rule held_disjoint)
qed

section \<open>Reachable states\<close>

text \<open>The lists are initialised on a new page heap; then batches move in both directions.  A client gives
  back only objects it holds.\<close>

inductive central_reachable :: "central \<Rightarrow> bool" where
  central_start: "heap_reachable h \<Longrightarrow> spans h = Map.empty \<Longrightarrow> sizes_ok sm h
    \<Longrightarrow> (\<And>cl. cl < num_size_classes sm \<Longrightarrow> CFL_Init sm cl = Some (tab cl))
    \<Longrightarrow> central_reachable \<lparr> pageheap = h, sizemap = sm, central_cache = tab, race_counter = 0 \<rparr>"
| central_remove: "central_reachable st \<Longrightarrow> 0 < cl \<Longrightarrow> cl < num_size_classes (sizemap st) \<Longrightarrow> 0 < N
    \<Longrightarrow> RemoveRange st cl N = Some (n, ch, st') \<Longrightarrow> central_reachable st'"
| central_insert: "central_reachable st \<Longrightarrow> 0 < cl \<Longrightarrow> cl < num_size_classes (sizemap st)
    \<Longrightarrow> distinct ch \<Longrightarrow> set ch \<subseteq> held st cl
    \<Longrightarrow> InsertRange st cl ch (int (length ch)) = Some st' \<Longrightarrow> central_reachable st'"

lemma CFL_Init_fields:
  "CFL_Init sm cl = Some c \<Longrightarrow> nonempty_spans c = [] \<and> empty_spans c = [] \<and> tc_slots c = [] \<and> size_class c = cl"
  by (auto simp: CFL_Init_def Let_def split: if_splits)

lemma CFL_Init_inv:
  assumes "CFL_Init sm cl = Some c"
  shows "cfl_inv sm {} cl c"
proof -
  have "min 64 (max 1 x) \<ge> (1::int)" for x by simp
  then show ?thesis
    using assms by (auto simp: CFL_Init_def Let_def cfl_inv_def lists_repr_def exhausted_def available_def free_objs_def
        used_slots_def kMaxNumTransferEntries_def min_le_iff_disj split: if_splits)
qed

lemma central_reachable_inv: "central_reachable st \<Longrightarrow> cc_inv st"
proof (induction rule: central_reachable.induct)
  case (central_start h sm tab)
  have "inuse_spans h = Map.empty" using central_start(2) by (auto simp: inuse_spans_def fun_eq_iff)
  moreover have "class_part Map.empty cl = {}" for cl by (auto simp: class_part_def)
  ultimately show ?case
    using heap_reachable_ok [OF central_start(1)] central_start(3,4) CFL_Init_inv by (auto simp: cc_inv_def)
next
  case (central_remove st cl N n ch st')
  then show ?case using cfl.remove_gives [of st cl N] by blast
next
  case (central_insert st cl ch st')
  then show ?case using cfl.insert_takes [of st cl ch] by blast
qed

section \<open>Conservation of objects\<close>

lemma all_objs_card:
  assumes inv: "cc_inv st" and cl: "0 < cl" "cl < num_size_classes (sizemap st)"
  shows "card (all_objs (sizemap st) (part st cl)) = card (part st cl) * nobjs (sizemap st) cl"
proof -
  let ?sm = "sizemap st"
  have z: "0 < ByteSizeForClass ?sm cl" using sizes_okD(1) [OF cc_invD(2) [OF inv] cl] .
  have "card (all_objs ?sm (part st cl)) = (\<Sum>e \<in> part st cl. card (grid ?sm (snd e)))"
    unfolding all_objs_def
  proof (subst card_UN_disjoint)
    show "finite (part st cl)" by (rule part_finite [OF inv])
    show "\<forall>e \<in> part st cl. \<forall>f \<in> part st cl. e \<noteq> f \<longrightarrow> (case e of (p, s) \<Rightarrow> grid ?sm s) \<inter> (case f of (p, s) \<Rightarrow> grid ?sm s) = {}"
    proof (intro ballI impI)
      fix e f assume ef: "e \<in> part st cl" "f \<in> part st cl" "e \<noteq> f"
      obtain p s q t where e: "e = (p, s)" "f = (q, t)" by (cases e, cases f)
      have "p \<noteq> q" using ef e part_unique [of p s st cl t cl] by blast
      with grids_apart [OF inv, of p s cl q t cl] ef e
      show "(case e of (p, s) \<Rightarrow> grid ?sm s) \<inter> (case f of (p, s) \<Rightarrow> grid ?sm s) = {}" by simp
    qed
  qed (auto simp: case_prod_beta)
  also have "\<dots> = (\<Sum>e \<in> part st cl. nobjs ?sm cl)"
    by (rule sum.cong) (use z in \<open>auto simp: class_part_def grid_card\<close>)
  finally show ?thesis by simp
qed

text \<open>Every object of a class is free in its span, in the transfer cache, or held.\<close>

lemma class_census:
  assumes inv: "cc_inv st" and cl: "0 < cl" "cl < num_size_classes (sizemap st)"
  shows "card (part st cl) * nobjs (sizemap st) cl
    = card (free_objs (part st cl)) + length (concat (tc_slots (central_cache st cl))) + card (held st cl)"
proof -
  let ?A = "all_objs (sizemap st) (part st cl)" and ?F = "free_objs (part st cl)" and ?T = "set (concat (tc_slots (central_cache st cl)))"
  have "finite ?A" using part_finite [OF inv] by (auto simp: all_objs_def)
  note s = slotsD [OF inv cl(2)]
  have FA: "?F \<subseteq> ?A" by (rule free_subset [OF inv order_refl])
  have "card ?A = card (?F \<union> ?T \<union> held st cl)" using FA s(5) by (intro arg_cong [of _ _ card]) (auto simp: held_def)
  also have "\<dots> = card (?F \<union> ?T) + card (held st cl)"
    using finite_subset [OF FA \<open>finite ?A\<close>] finite_subset [OF _ \<open>finite ?A\<close>, of "held st cl"]
    by (intro card_Un_disjoint) (auto simp: held_def)
  also have "card (?F \<union> ?T) = card ?F + card ?T"
    using finite_subset [OF FA \<open>finite ?A\<close>] s(5) by (intro card_Un_disjoint) auto
  also have "card ?T = length (concat (tc_slots (central_cache st cl)))" by (rule distinct_card [OF s(4)])
  finally show ?thesis using all_objs_card [OF assms] by simp
qed

lemma concat_length:
  assumes "\<forall>c \<in> set cs. int (length c) = k"
  shows "int (length (concat cs)) = int (length cs) * k"
  using assms by (induction cs) (simp_all add: algebra_simps)

section \<open>The bytes of the objects\<close>

lemma grid_bytes_disjoint:
  assumes "x \<in> grid sm s" "y \<in> grid sm s" "x \<noteq> y"
  shows "{x ..< x + ByteSizeForClass sm (sp_sizeclass s)} \<inter> {y ..< y + ByteSizeForClass sm (sp_sizeclass s)} = {}"
proof -
  let ?z = "ByteSizeForClass sm (sp_sizeclass s)"
  obtain i j where ij: "x = sp_start s * kPageSize + i * ?z" "y = sp_start s * kPageSize + j * ?z"
    using assms(1,2) by (auto simp: grid_def)
  then have "i \<noteq> j" using assms(3) by auto
  then consider "i + 1 \<le> j" | "j + 1 \<le> i" by linarith
  then have "x + ?z \<le> y \<or> y + ?z \<le> x"
  proof cases
    case 1
    then have "(i + 1) * ?z \<le> j * ?z" by (rule mult_le_mono1)
    then show ?thesis by (simp add: ij)
  next
    case 2
    then have "(j + 1) * ?z \<le> i * ?z" by (rule mult_le_mono1)
    then show ?thesis by (simp add: ij)
  qed
  then show ?thesis by auto
qed

lemma grid_object_bytes:
  assumes "sp_length s = class_to_pages sm (sp_sizeclass s)" "x \<in> grid sm s"
  shows "{x ..< x + ByteSizeForClass sm (sp_sizeclass s)} \<subseteq> bytes_of s"
proof -
  let ?z = "ByteSizeForClass sm (sp_sizeclass s)"
  obtain i where i: "x = sp_start s * kPageSize + i * ?z" "i < nobjs sm (sp_sizeclass s)"
    using assms(2) by (auto simp: grid_def)
  have "(i + 1) * ?z \<le> nobjs sm (sp_sizeclass s) * ?z" using i(2) by (intro mult_le_mono1) simp
  also have "\<dots> \<le> sp_length s * kPageSize"
    using div_times_less_eq_dividend [of "sp_length s * kPageSize" ?z] by (simp add: nobjs_def assms(1))
  finally show ?thesis by (auto simp: bytes_of_def i(1) distrib_right)
qed

lemma held_in_span:
  assumes inv: "cc_inv st" and x: "x \<in> held st cl"
  shows "\<exists>p s. inuse_spans (pageheap st) p = Some s \<and> sp_sizeclass s = cl
    \<and> GetDescriptor (pageheap st) (x div kPageSize) = Some p
    \<and> {x ..< x + ByteSizeForClass (sizemap st) cl} \<subseteq> bytes_of s"
proof -
  obtain p s where p: "(p, s) \<in> part st cl" "x \<in> grid (sizemap st) s" "x \<notin> free_objs (part st cl)" by (rule held_span [OF inv x])
  have U: "inuse_spans (pageheap st) p = Some s" "sp_sizeclass s = cl" using p(1) by (simp_all add: class_part_def)
  have "sp_length s = class_to_pages (sizemap st) (sp_sizeclass s)" using cc_invD(4) [OF inv p(1)] by (simp add: span_inv_def)
  from grid_object_bytes [OF this p(2)] released_span(1) [OF inv p] U show ?thesis by blast
qed

lemma held_bytes_disjoint:
  assumes inv: "cc_inv st" and x: "x \<in> held st cl" and y: "y \<in> held st d" and ne: "x \<noteq> y \<or> cl \<noteq> d"
  shows "{x ..< x + ByteSizeForClass (sizemap st) cl} \<inter> {y ..< y + ByteSizeForClass (sizemap st) d} = {}"
proof -
  obtain p s where p: "(p, s) \<in> part st cl" "x \<in> grid (sizemap st) s" by (rule held_span [OF inv x])
  obtain q t where q: "(q, t) \<in> part st d" "y \<in> grid (sizemap st) t" by (rule held_span [OF inv y])
  have U: "inuse_spans (pageheap st) p = Some s" "sp_sizeclass s = cl" "inuse_spans (pageheap st) q = Some t" "sp_sizeclass t = d"
    using p(1) q(1) by (simp_all add: class_part_def)
  have len: "sp_length s = class_to_pages (sizemap st) (sp_sizeclass s)" "sp_length t = class_to_pages (sizemap st) (sp_sizeclass t)"
    using cc_invD(4) [OF inv p(1)] cc_invD(4) [OF inv q(1)] by (simp_all add: span_inv_def)
  show ?thesis
  proof (cases "p = q")
    case True
    then have "s = t" "cl = d" using U by auto
    with ne grid_bytes_disjoint [OF p(2), of y] q(2) U(2) show ?thesis by simp
  next
    case False
    have "bytes_of s \<inter> bytes_of t = {}"
      using ph.inuse_disjoint [OF cc_invD(1) [OF inv] U(1,3) False] ph.byte_page by blast
    with grid_object_bytes [OF len(1) p(2)] grid_object_bytes [OF len(2) q(2)] U(2,4) show ?thesis by blast
  qed
qed

section \<open>A concrete state\<close>

lemma default_sizes_ok:
  assumes "SizeMap_Init 4096 None = Some (Inr sm)" "smallest_span_size h = 1"
  shows "sizes_ok sm h" "num_size_classes sm = 86"
proof -
  obtain sm' where sm': "SizeMap_Init 4096 None = Some (Inr sm')" "num_size_classes sm' = 86"
      "class_to_size_tab sm' = default_class_sizes @ replicate 42 0" "class_to_pages_tab sm' = default_class_pages @ replicate 42 0"
    by (rule SizeMap_Init_default)
  with assms(1) have sm: "num_size_classes sm = 86"
      "class_to_size_tab sm = default_class_sizes @ replicate 42 0" "class_to_pages_tab sm = default_class_pages @ replicate 42 0" by simp_all
  then show "num_size_classes sm = 86" by simp
  have env: "init_env 4096 None" by (simp add: init_env_def)
  note t = SizeMap_Init_tables [OF assms(1) env]
  have "list_all (\<lambda>(z, n). n * 8192 div z < 65536 \<and> n \<le> 32) (zip default_class_sizes default_class_pages)"
    by (simp add: default_class_sizes_def default_class_pages_def)
  moreover have len: "length default_class_sizes = 86" "length default_class_pages = 86"
    by (simp_all add: default_class_sizes_def default_class_pages_def)
  ultimately have small: "class_to_pages sm cl * 8192 div ByteSizeForClass sm cl < 65536 \<and> class_to_pages sm cl \<le> 32" if "cl < 86" for cl
    using that by (auto simp: ByteSizeForClass_def class_to_pages_def sm nth_append list_all_length)
  have round: "RoundUpSize h n = n" if "n \<le> 32" for n
    using that RoundUpSize_2_pow [of h 0 n] assms(2) by simp
  show "sizes_ok sm h"
    unfolding sizes_ok_def
  proof (intro conjI allI impI)
    show "0 < num_size_classes sm" "num_size_classes sm \<le> 128" using sm(1) by simp_all
    fix cl assume cl: "0 < cl \<and> cl < num_size_classes sm"
    then have c: "1 \<le> cl" "cl < num_size_classes sm" "cl < 86" using sm(1) by simp_all
    note tc = tables_ok_class [OF t(1) c(1,2)]
    show z: "0 < ByteSizeForClass sm cl" using tc(1) by (simp add: ByteSizeForClass_def)
    have le: "ByteSizeForClass sm cl \<le> class_to_pages sm cl * kPageSize"
      using tc(4) by (simp add: ByteSizeForClass_def class_to_pages_def)
    then show "0 < class_to_pages sm cl" using z by (cases "class_to_pages sm cl") simp_all
    show "class_to_pages sm cl \<le> 2 ^ 30" using small [OF c(3)] by simp
    show "0 < nobjs sm cl" using le z by (simp add: nobjs_def div_greater_zero_iff)
    show "nobjs sm cl < 2 ^ 16" using small [OF c(3)] by (simp add: nobjs_def)
    show "RoundUpSize h (class_to_pages sm cl) = class_to_pages sm cl" using round small [OF c(3)] by blast
    show "0 < num_objects_to_move sm cl"
      using t(5) [OF c(1,2)] z by (simp add: NumMoveSize_def InitTCMallocTransferNumObjects_def ByteSizeForClass_def Let_def)
  qed
qed

text \<open>The default size classes on the concrete page heap.\<close>

lemma demo_central:
  obtains sm st where "SizeMap_Init 4096 None = Some (Inr sm)" "central_reachable st" "sizemap st = sm" "pageheap st = demo_heap"
    "\<forall>cl < 86. CFL_Init sm cl = Some (central_cache st cl)"
proof -
  obtain sm where sm: "SizeMap_Init 4096 None = Some (Inr sm)" using SizeMap_Init_default by blast
  obtain s a b where "PageHeap_init 1 s a b 0 1 = Some demo_heap" by (rule demo_init)
  note f = PageHeap_init_fields [OF this]
  note d = default_sizes_ok [OF sm f(4)]
  let ?st = "\<lparr> pageheap = demo_heap, sizemap = sm, central_cache = (\<lambda>cl. the (CFL_Init sm cl)), race_counter = 0 \<rparr>"
  have ini: "CFL_Init sm cl = Some (the (CFL_Init sm cl))" if "cl < 86" for cl
  proof (cases "cl = 0")
    case False
    then have "0 < ByteSizeForClass sm cl" "0 < num_objects_to_move sm cl" using sizes_okD(1,7) [OF d(1)] that d(2) by simp_all
    then show ?thesis using False by (simp add: CFL_Init_def Let_def)
  qed (simp add: CFL_Init_def Let_def)
  have "central_reachable ?st"
    by (rule central_start [OF demo_heap_reachable f(1) d(1)]) (use ini d(2) in simp)
  with sm ini show ?thesis by (intro that [of sm ?st]) simp_all
qed

text \<open>The first batch of a class in the concrete state.\<close>

lemma demo_central_RemoveRange:
  assumes "0 < cl" "cl < 86" "0 < N"
    and st: "SizeMap_Init 4096 None = Some (Inr sm)" "cc_inv st" "sizemap st = sm" "fresh_heap (pageheap st)"
      "\<forall>cl < 86. CFL_Init sm cl = Some (central_cache st cl)"
  shows "\<exists>n ch st'. num_size_classes (sizemap st) = 86 \<and> RemoveRange st cl N = Some (n, ch, st') \<and> ch \<noteq> []"
proof -
  note inv = st(2) and f = fresh_heapD [OF st(4)]
  have n86: "num_size_classes sm = 86" using default_sizes_ok(2) [OF st(1)] f(6) by simp
  have lv: "lively True 3 (pageheap st)" using f(2) by (auto simp: lively_def)
  have cl: "cl < num_size_classes (sizemap st)" using assms(2) n86 st(3) by simp
  note sz = sizes_okD [OF cc_invD(2) [OF inv] assms(1) cl]
  have ini: "CFL_Init sm cl = Some (central_cache st cl)" using st(5) assms(2) by blast
  have ns: "nonempty_spans (central_cache st cl) = []" "tc_slots (central_cache st cl) = []" "size_class (central_cache st cl) = cl"
    using CFL_Init_fields [OF ini] by simp_all
  have p1000: "class_to_pages sm cl \<le> 1000"
  proof -
    have "list_all (\<lambda>n. n \<le> 1000) (default_class_pages @ replicate 42 0)" by (simp add: default_class_pages_def list_all_iff)
    moreover obtain sm' where "SizeMap_Init 4096 None = Some (Inr sm')" "class_to_pages_tab sm' = default_class_pages @ replicate 42 0"
      by (rule SizeMap_Init_default)
    moreover have "length (default_class_pages @ replicate 42 0) = 128" by (simp add: default_class_pages_def)
    ultimately show ?thesis using assms(2) st(1) by (simp add: class_to_pages_def list_all_length)
  qed
  obtain p h where New: "NewWithSizeClass (pageheap st) (class_to_pages sm cl) cl = Some (Some p, h)"
    using fresh_New [OF st(4), of "class_to_pages sm cl" cl] sz(2) p1000 st(3) by auto
  obtain n ch st' where R: "RemoveRange st cl N = Some (n, ch, st')"
    using wpo_total [OF RemoveRange_wpo [OF inv assms(1) cl lv assms(3)]] by auto
  obtain st1 where P: "Populate st cl = Some st1" "evolves 3 st st1"
    using wpo_total [OF Populate_wpo [OF inv assms(1) cl lv]] by auto
  have ns1: "nonempty_spans (central_cache st1 cl) \<noteq> []"
    using P(1) New unfolding Populate_def Let_def ns st(3)
    by (cases "spans h p", simp,
        cases "carve_objects (ByteSizeForClass sm cl) (sp_start (the (spans h p)) * kPageSize + class_to_pages sm cl * kPageSize) (sp_start (the (spans h p)) * kPageSize)")
      auto
  have "available (part st1 cl) \<noteq> {}"
    using cc_invD(3) [OF evolvesD(1) [OF P(2)], of cl] ns1 cl evolvesD(2) [OF P(2)]
    by (auto simp: cfl_inv_def lists_repr_def)
  moreover have "cl < num_size_classes (sizemap st1)" using cl evolvesD(2) [OF P(2)] by simp
  ultimately obtain ch1 st2 where F: "FetchFromOneSpans st1 cl N = Some (ch1, st2)" "ch1 \<noteq> []" "gave 0 cl ch1 st1 st2"
    using wpo_total [OF FetchFromOneSpans_wpo [OF evolvesD(1) [OF P(2)], of cl True N]] by auto
  have "FetchFromOneSpansSafe st cl N = Some (ch1, st2)"
    using P(1) F(1) ns(1) by (simp add: FetchFromOneSpansSafe_def FetchFromOneSpans_def [of st])
  moreover have "\<forall>ch' st3. fetch_more st2 cl N ch1 = Some (ch', st3) \<longrightarrow> ch' \<noteq> []"
  proof (intro allI impI)
    fix ch' st3 assume "fetch_more st2 cl N ch1 = Some (ch', st3)"
    moreover have "cc_inv st2" "cl < num_size_classes (sizemap st2)"
      using F(3) cl evolvesD(2) [OF P(2)] by (simp_all add: gave_def evolves_def)
    ultimately show "ch' \<noteq> []" using wpo_partial [OF fetch_more_wpo [of st2 cl False N ch1]] F(2) by fastforce
  qed
  ultimately have "ch \<noteq> []"
    using R F(2) ns(2) by (auto simp: RemoveRange_def Let_def used_slots_def split: bind_splits)
  with st(3) n86 R show ?thesis by blast
qed

lemma demo_RemoveRange:
  assumes "0 < cl" "cl < 86" "0 < N"
  shows "\<exists>st n ch st'. central_reachable st \<and> pageheap st = demo_heap \<and> num_size_classes (sizemap st) = 86
    \<and> RemoveRange st cl N = Some (n, ch, st') \<and> ch \<noteq> []"
proof -
  obtain sm st where st: "SizeMap_Init 4096 None = Some (Inr sm)" "central_reachable st" "sizemap st = sm" "pageheap st = demo_heap"
      "\<forall>cl < 86. CFL_Init sm cl = Some (central_cache st cl)" by (rule demo_central)
  from demo_central_RemoveRange [OF assms st(1) central_reachable_inv [OF st(2)] st(3) _ st(5)] st(2,4) demo_heap_fresh show ?thesis by auto
qed

section \<open>Properties\<close>

text \<open>C16. The objects that are out of the central lists never overlap: in every reachable state, two different
  held objects, of the same or of different size classes, share no byte; each lies in a span in use
  of its class, and the page map leads from its address to this span.\<close>

theorem held_objects_disjoint:
  assumes "central_reachable st" "x \<in> held st cl" "y \<in> held st d"
  shows "(x \<noteq> y \<or> cl \<noteq> d \<longrightarrow>
        {x ..< x + ByteSizeForClass (sizemap st) cl} \<inter> {y ..< y + ByteSizeForClass (sizemap st) d} = {})
    \<and> (\<exists>p s. inuse_spans (pageheap st) p = Some s \<and> sp_sizeclass s = cl
          \<and> GetDescriptor (pageheap st) (x div kPageSize) = Some p
          \<and> {x ..< x + ByteSizeForClass (sizemap st) cl} \<subseteq> bytes_of s)"
  using held_bytes_disjoint [OF central_reachable_inv [OF assms(1)] assms(2,3)]
    held_in_span [OF central_reachable_inv [OF assms(1)] assms(2)] by blast

theorem held_objects_disjoint_witness:
  "\<exists>st x. central_reachable st \<and> x \<in> held st 5 \<and> (\<exists>p. GetDescriptor (pageheap st) (x div kPageSize) = Some p)"
proof -
  obtain st n ch st' where r: "central_reachable st" "num_size_classes (sizemap st) = 86" "RemoveRange st 5 4 = Some (n, ch, st')" "ch \<noteq> []"
    using demo_RemoveRange [of 5 4] by auto
  have st': "central_reachable st'" by (rule central_remove [OF r(1) _ _ _ r(3)]) (use r(2) in simp_all)
  obtain x xs where x: "ch = x # xs" using r(4) by (cases ch) auto
  have g: "cc_inv st' \<and> size_classes st' = size_classes st \<and> n = length ch \<and> n \<le> 4 \<and> distinct ch \<and> set ch \<inter> held st 5 = {}
      \<and> held st' 5 = held st 5 \<union> set ch \<and> (\<forall>d. d \<noteq> 5 \<longrightarrow> held st' d = held st d)"
    by (rule cfl.remove_gives [OF central_reachable_inv [OF r(1)] _ _ r(3)]) (use r(2) in simp_all)
  have hx: "x \<in> held st' 5" using g x by auto
  from held_objects_disjoint [OF st' hx hx] st' hx show ?thesis by blast
qed

text \<open>C17. Objects are conserved: in every reachable state and for every size class, the free objects the list
  counts, the objects in its transfer cache and the objects held outside add up to the objects of its spans; the
  transfer cache uses no more slots than it has, and has no more than its maximum.\<close>

theorem central_conservation:
  assumes "central_reachable st" "0 < cl" "cl < num_size_classes (sizemap st)"
  shows "counter (central_cache st cl) + of_int (tc_length st cl) + of_nat (card (held st cl))
      = num_spans (central_cache st cl) * of_nat (class_to_pages (sizemap st) cl * kPageSize div ByteSizeForClass (sizemap st) cl)
    \<and> used_slots (central_cache st cl) \<le> cache_size (central_cache st cl)
    \<and> cache_size (central_cache st cl) \<le> max_cache_size (central_cache st cl)
    \<and> max_cache_size (central_cache st cl) \<le> kMaxNumTransferEntries"
proof -
  note inv = central_reachable_inv [OF assms(1)]
  note s = slotsD [OF inv assms(3)]
  have ci: "counter (central_cache st cl) = of_nat (card (free_objs (part st cl)))" "num_spans (central_cache st cl) = of_nat (card (part st cl))"
    using cc_invD(3) [OF inv assms(3)] by (simp_all add: cfl_inv_def)
  have tc: "tc_length st cl = int (length (concat (tc_slots (central_cache st cl))))"
    unfolding tc_length_def used_slots_def s(6) using concat_length [OF s(3)] by simp
  have "(of_nat (card (part st cl) * nobjs (sizemap st) cl) :: u64)
      = of_nat (card (free_objs (part st cl)) + length (concat (tc_slots (central_cache st cl))) + card (held st cl))"
    by (simp only: class_census [OF inv assms(2,3)])
  then show ?thesis
    using s(1,2,7) unfolding ci tc nobjs_def by (simp del: kPageSize_def)
qed

theorem central_conservation_witness:
  "\<exists>st n ch st'. central_reachable st' \<and> RemoveRange st 5 4 = Some (n, ch, st')
     \<and> counter (central_cache st' 5) + of_int (tc_length st' 5) + of_nat (card (held st' 5))
       = num_spans (central_cache st' 5) * of_nat (class_to_pages (sizemap st') 5 * kPageSize div ByteSizeForClass (sizemap st') 5)"
proof -
  obtain st n ch st' where r: "central_reachable st" "num_size_classes (sizemap st) = 86" "RemoveRange st 5 4 = Some (n, ch, st')"
    using demo_RemoveRange [of 5 4] by auto
  have st': "central_reachable st'" by (rule central_remove [OF r(1) _ _ _ r(3)]) (use r(2) in simp_all)
  have "sizemap st' = sizemap st"
    using wpo_partial [OF RemoveRange_wpo [OF central_reachable_inv [OF r(1)] _ _ lively_False, of 5 4] r(3)] r(2)
    by (simp add: gave_def evolves_def)
  with r(2) have n: "0 < (5::nat)" "5 < num_size_classes (sizemap st')" by simp_all
  from central_conservation [OF st' n] st' r(3) show ?thesis by blast
qed



text \<open>C19. \<open>InsertRange\<close> takes back a chain of held objects and returns: exactly these objects are no longer held,
  whether the chain went to the transfer cache (evicting a batch of another class) or to the spans (freeing the spans that
  become empty); giving back what \<open>RemoveRange\<close> gave restores the held objects.\<close>

theorem InsertRange_takes_back:
  assumes "central_reachable st" "0 < cl" "cl < num_size_classes (sizemap st)" "distinct ch" "set ch \<subseteq> held st cl"
    "release_fair (system (pageheap st))"
  shows "(\<exists>st'. InsertRange st cl ch (int (length ch)) = Some st' \<and> held st' = (held st)(cl := held st cl - set ch))
    \<and> (\<forall>n bs st1 st2. RemoveRange st cl (Suc N) = Some (n, bs, st1) \<and> InsertRange st1 cl bs (int n) = Some st2 \<longrightarrow> held st2 = held st)"
proof
  note inv = central_reachable_inv [OF assms(1)]
  have c: "size_classes st cl" using assms(2,3) by simp
  have "lively True 0 (pageheap st)" using assms(6) by (simp add: lively_def)
  from wpo_total [OF InsertRange_wpo [OF inv assms(3) this assms(4,5) refl]]
  obtain st' where st': "InsertRange st cl ch (int (length ch)) = Some st'" by auto
  have "held st' = (held st)(cl := held st cl - set ch)"
    using cfl.insert_takes [OF inv c assms(4,5) st'] by (auto simp: fun_eq_iff)
  with st' show "\<exists>st'. InsertRange st cl ch (int (length ch)) = Some st' \<and> held st' = (held st)(cl := held st cl - set ch)" by blast
  show "\<forall>n bs st1 st2. RemoveRange st cl (Suc N) = Some (n, bs, st1) \<and> InsertRange st1 cl bs (int n) = Some st2 \<longrightarrow> held st2 = held st"
    using cfl.remove_insert [OF inv c, of "Suc N"] by auto
qed

theorem InsertRange_takes_back_witness:
  "\<exists>st ch st'. central_reachable st \<and> ch \<noteq> [] \<and> set ch \<subseteq> held st 5 \<and> InsertRange st 5 ch (int (length ch)) = Some st'
     \<and> held st' = (held st)(5 := held st 5 - set ch)"
proof -
  obtain st0 n ch st where r: "central_reachable st0" "num_size_classes (sizemap st0) = 86" "RemoveRange st0 5 4 = Some (n, ch, st)" "ch \<noteq> []"
      "pageheap st0 = demo_heap"
    using demo_RemoveRange [of 5 4] by auto
  have st: "central_reachable st" by (rule central_remove [OF r(1) _ _ _ r(3)]) (use r(2) in simp_all)
  have g: "n = length ch \<and> n \<le> 4 \<and> gave 3 5 ch st0 st"
    using wpo_partial [OF RemoveRange_wpo [OF central_reachable_inv [OF r(1)] _ _ lively_False, of 5 4] r(3)] r(2) by simp
  have rf: "release_fair (system (pageheap st))"
    using g demo_heap_lively [of 0 True] r(5) by (auto simp: gave_def evolves_def settings_def release_fair_def lively_def)
  have "5 < num_size_classes (sizemap st)" "distinct ch" "set ch \<subseteq> held st 5"
    using g r(2) by (auto simp: gave_def evolves_def)
  with InsertRange_takes_back [OF st, of 5 ch 0] rf st r(4) show ?thesis by auto
qed

end
