(* ===== verification/ThreadCache_Inv.thy ===== *)
theory ThreadCache_Inv
  imports ThreadCache CentralFreeList_Props
begin

text \<open>
  The invariant of a thread cache and the traffic between a thread cache and the central lists.  The
  objects of a class that are held outside the central lists and outside the cache at hand are its
  \<open>outside\<close>: moving objects between cache and central lists leaves them alone, an allocation adds one object and a
  deallocation removes one.
\<close>

section \<open>Wrap-around of sizes\<close>

lemma wrap32_id: "- (2 ^ 31) \<le> i \<Longrightarrow> i < 2 ^ 31 \<Longrightarrow> wrap32 i = i"
  unfolding wrap32_def by (rule signed_take_bit_int_eq_self) simp_all

lemma wrap32_add [simp]: "wrap32 (wrap32 a + b) = wrap32 (a + b)" "wrap32 (b + wrap32 a) = wrap32 (b + a)"
  unfolding wrap32_def by (metis signed_take_bit_add signed_take_bit_signed_take_bit min.idem)+

lemma wrap32_diff [simp]: "wrap32 (wrap32 a - b) = wrap32 (a - b)"
  using wrap32_add(1) [of a "- b"] by simp

section \<open>Free lists\<close>

lemma take_drop_disjoint: "distinct xs \<Longrightarrow> set (take n xs) \<inter> set (drop n xs) = {}"
  by (metis append_take_drop_id distinct_append)

lemma minus_take: "distinct xs \<Longrightarrow> set xs - set (take n xs) = set (drop n xs)"
proof -
  assume "distinct xs"
  from take_drop_disjoint [OF this, of n] show ?thesis
    using set_append [of "take n xs" "drop n xs"] unfolding append_take_drop_id by blast
qed

text \<open>The form of \<open>max_length\<close>: below the batch size while the list starts slowly, then a multiple of it.\<close>

definition max_length_ok :: "nat \<Rightarrow> nat \<Rightarrow> bool" where
  "max_length_ok b m \<longleftrightarrow> 0 < m \<and> (m \<le> b \<or> b dvd m \<and> m \<le> kMaxDynamicFreeListLength)"

definition synced :: "FreeList \<Rightarrow> bool" where
  "synced l \<longleftrightarrow> fl_length l = length (fl_list l) \<and> lowater l \<le> fl_length l \<and> fl_length l \<le> kMaxDynamicFreeListLength + 1"

definition popped :: "nat \<Rightarrow> FreeList \<Rightarrow> FreeList" where
  "popped n l = l\<lparr> fl_list := drop n (fl_list l), fl_length := fl_length l - n, lowater := min (lowater l) (fl_length l - n) \<rparr>"

lemma popped_simps [simp]:
  "fl_list (popped n l) = drop n (fl_list l)" "fl_max_length (popped n l) = fl_max_length l" "object_size (popped n l) = object_size l"
  "fl_length (popped n l) = fl_length l - n" "lowater (popped n l) = min (lowater l) (fl_length l - n)"
  by (simp_all add: popped_def)

lemma popped_0: "synced l \<Longrightarrow> popped 0 l = l"
  by (simp add: popped_def synced_def min_absorb1)

lemma popped_popped: "popped n (popped m l) = popped (m + n) l"
  by (simp add: popped_def min.assoc add.commute)

lemma synced_popped: "synced l \<Longrightarrow> n \<le> length (fl_list l) \<Longrightarrow> synced (popped n l)"
  by (auto simp: synced_def)

lemma shorten_eq:
  assumes "synced l" "n \<le> length (fl_list l)"
  shows "(shorten (int n) l)\<lparr> fl_list := drop n (fl_list l) \<rparr> = popped n l"
proof -
  have "(int (fl_length l) - int n) mod 2 ^ 32 = int (fl_length l - n)"
    using assms by (auto simp: synced_def of_nat_diff)
  then show ?thesis by (auto simp: shorten_def popped_def Let_def)
qed

lemma FL_PopRange_eq:
  assumes "synced l" "n \<le> length (fl_list l)"
  shows "FL_PopRange l (int n) = Some (take n (fl_list l), popped n l)"
proof (cases "n = 0")
  case False
  then have "nat (max 1 (int n)) = n" by simp
  then show ?thesis using assms shorten_eq [OF assms] False by (simp add: FL_PopRange_def Let_def)
qed (use assms popped_0 in \<open>simp add: FL_PopRange_def\<close>)

lemma FL_TryPop_eq:
  assumes "synced l"
  shows "FL_TryPop l = (case fl_list l of [] \<Rightarrow> (None, l) | x # xs \<Rightarrow> (Some x, popped 1 l))"
  using assms shorten_eq [of l 1] by (auto simp: FL_TryPop_def split: list.split)

lemma synced_int32: "synced l \<Longrightarrow> int32_of_nat (fl_length l) = int (fl_length l)" "synced l \<Longrightarrow> lowwatermark l = int (lowater l)"
  by (auto simp: synced_def lowwatermark_def int32_of_nat_small)

section \<open>The invariant of a cache\<close>

definition batches_ok :: "SizeMap \<Rightarrow> bool" where
  "batches_ok sm \<longleftrightarrow> (\<forall>cl. 0 < cl \<and> cl < num_size_classes sm \<longrightarrow>
     num_objects_to_move sm cl \<le> int kMaxDynamicFreeListLength \<and> ByteSizeForClass sm cl \<le> kMaxSize)"

abbreviation batch :: "central \<Rightarrow> nat \<Rightarrow> nat" where
  "batch st cl \<equiv> nat (num_objects_to_move (sizemap st) cl)"

definition fl_ok :: "central \<Rightarrow> nat \<Rightarrow> FreeList \<Rightarrow> bool" where
  "fl_ok st cl l \<longleftrightarrow> synced l \<and> distinct (fl_list l) \<and> set (fl_list l) \<subseteq> held st cl
     \<and> max_length_ok (batch st cl) (fl_max_length l) \<and> object_size l = int (ByteSizeForClass (sizemap st) cl)"

definition cached_bytes :: "SizeMap \<Rightarrow> ThreadCache \<Rightarrow> int" where
  "cached_bytes sm h = (\<Sum>cl < num_size_classes sm. int (length (fl_list (tc_list h cl))) * int (ByteSizeForClass sm cl))"

definition tc_core :: "central \<Rightarrow> ThreadCache \<Rightarrow> bool" where
  "tc_core st h \<longleftrightarrow> (\<forall>cl. 0 < cl \<and> cl < num_size_classes (sizemap st) \<longrightarrow> fl_ok st cl (tc_list h cl))
     \<and> fl_list (tc_list h 0) = [] \<and> synced (tc_list h 0)
     \<and> tc_size h = wrap32 (cached_bytes (sizemap st) h)"

definition outside :: "central \<Rightarrow> ThreadCache \<Rightarrow> nat \<Rightarrow> addr set" where
  "outside st h cl = held st cl - set (fl_list (tc_list h cl))"

definition same_owner :: "ThreadCache \<Rightarrow> ThreadCache \<Rightarrow> bool" where
  "same_owner h h' \<longleftrightarrow> tc_max_size h' = tc_max_size h \<and> tc_sampler h' = tc_sampler h \<and> tc_tid h' = tc_tid h
     \<and> in_setspecific h' = in_setspecific h"

definition passes :: "central \<Rightarrow> ThreadCache \<Rightarrow> central \<Rightarrow> ThreadCache \<Rightarrow> bool" where
  "passes st h st' h' \<longleftrightarrow> evolves 0 st st' \<and> tc_core st' h' \<and> same_owner h h'
     \<and> (\<forall>cl. outside st' h' cl = outside st h cl
          \<and> length (fl_list (tc_list h' cl)) \<le> length (fl_list (tc_list h cl)))"

lemma tc_coreD:
  assumes "tc_core st h"
  shows "0 < cl \<Longrightarrow> cl < num_size_classes (sizemap st) \<Longrightarrow> fl_ok st cl (tc_list h cl)"
    "fl_list (tc_list h 0) = []" "synced (tc_list h 0)" "tc_size h = wrap32 (cached_bytes (sizemap st) h)"
  using assms by (simp_all add: tc_core_def)

lemma fl_okD:
  assumes "fl_ok st cl l"
  shows "synced l" "distinct (fl_list l)" "set (fl_list l) \<subseteq> held st cl" "max_length_ok (batch st cl) (fl_max_length l)"
    "object_size l = int (ByteSizeForClass (sizemap st) cl)" "fl_length l = length (fl_list l)"
  using assms by (simp_all add: fl_ok_def synced_def)

lemma cached_bytes_upd:
  assumes "cl < num_size_classes sm" "tc_list h' = (tc_list h)(cl := l)"
  shows "cached_bytes sm h' = cached_bytes sm h
    + (int (length (fl_list l)) - int (length (fl_list (tc_list h cl)))) * int (ByteSizeForClass sm cl)"
proof -
  let ?f = "\<lambda>h d. int (length (fl_list (tc_list h d))) * int (ByteSizeForClass sm d)"
  let ?D = "{..<num_size_classes sm}"
  have "sum (?f h') ?D = ?f h' cl + sum (?f h') (?D - {cl})" using assms(1) by (intro sum.remove) simp_all
  also have "sum (?f h') (?D - {cl}) = sum (?f h) (?D - {cl})" using assms(2) by (intro sum.cong) simp_all
  finally have "sum (?f h') ?D = ?f h' cl + sum (?f h) (?D - {cl})" .
  moreover have "sum (?f h) ?D = ?f h cl + sum (?f h) (?D - {cl})" using assms(1) by (intro sum.remove) simp_all
  ultimately show ?thesis using assms(2) by (simp add: cached_bytes_def algebra_simps)
qed

text \<open>The other lists of a cache are not concerned when the central lists take or give objects of one class.\<close>

lemma fl_ok_held:
  assumes "fl_ok st cl l" "sizemap st' = sizemap st" "set (fl_list l) \<subseteq> held st' cl"
  shows "fl_ok st' cl l"
  using assms by (simp add: fl_ok_def)

lemma tc_core_upd:
  assumes core: "tc_core st h" and cl: "0 < cl" "cl < num_size_classes (sizemap st)"
    and st': "sizemap st' = sizemap st" "\<And>d. d \<noteq> cl \<Longrightarrow> held st' d = held st d"
    and l: "fl_ok st' cl l" "tc_list h' = (tc_list h)(cl := l)"
    and sz: "tc_size h' = wrap32 (tc_size h + (int (length (fl_list l)) - int (length (fl_list (tc_list h cl)))) * int (ByteSizeForClass (sizemap st) cl))"
  shows "tc_core st' h'"
  unfolding tc_core_def
proof (intro conjI allI impI)
  fix d assume d: "0 < d \<and> d < num_size_classes (sizemap st')"
  show "fl_ok st' d (tc_list h' d)"
  proof (cases "d = cl")
    case False
    have ok: "fl_ok st d (tc_list h d)" using tc_coreD(1) [OF core] d st'(1) by simp
    have "set (fl_list (tc_list h d)) \<subseteq> held st' d" using fl_okD(3) [OF ok] st'(2) [OF False] by simp
    from fl_ok_held [OF ok st'(1) this] show ?thesis using False l(2) by simp
  qed (use l in simp)
next
  show "tc_size h' = wrap32 (cached_bytes (sizemap st') h')"
    unfolding sz st'(1) cached_bytes_upd [OF cl(2) l(2)] tc_coreD(4) [OF core] by simp
qed (use core l cl in \<open>simp_all add: tc_core_def\<close>)

lemma passes_refl: "cc_inv st \<Longrightarrow> tc_core st h \<Longrightarrow> passes st h st h"
  by (simp add: passes_def evolves_refl same_owner_def)

lemma passes_trans: "passes st h st1 h1 \<Longrightarrow> passes st1 h1 st2 h2 \<Longrightarrow> passes st h st2 h2"
  unfolding passes_def using evolves_trans [of 0 st st1 0 st2] by (auto simp: same_owner_def intro: order_trans)

lemma passes_lively: "passes st h st' h' \<Longrightarrow> lively b k (pageheap st) \<Longrightarrow> lively b k (pageheap st')"
  using evolves_lively [of b k 0 st st'] by (simp add: passes_def)

lemma passesD:
  assumes "passes st h st' h'"
  shows "cc_inv st'" "sizemap st' = sizemap st" "tc_core st' h'" "evolves 0 st st'"
    "outside st' h' cl = outside st h cl" "length (fl_list (tc_list h' cl)) \<le> length (fl_list (tc_list h cl))"
  using assms by (auto simp: passes_def evolves_def)

text \<open>A change of the bookkeeping of one list.\<close>

lemma passes_list:
  assumes p: "passes st h st' h'" and l: "cl = 0 \<or> max_length_ok (batch st cl) (fl_max_length l)"
    and same: "fl_list l = fl_list (tc_list h' cl)" "object_size l = object_size (tc_list h' cl)" "synced l"
  shows "passes st h st' (set_list cl l h')"
proof -
  have "tc_core st' (set_list cl l h')"
    unfolding tc_core_def
  proof (intro conjI allI impI)
    fix d assume d: "0 < d \<and> d < num_size_classes (sizemap st')"
    with tc_coreD(1) [OF passesD(3) [OF p], of d] l same show "fl_ok st' d (tc_list (set_list cl l h') d)"
      by (auto simp: fl_ok_def passesD(2) [OF p])
  next
    have "cached_bytes (sizemap st') (set_list cl l h') = cached_bytes (sizemap st') h'"
      using same(1) by (simp add: cached_bytes_def fun_upd_def if_distrib cong: if_cong) (rule sum.cong, auto)
    then show "tc_size (set_list cl l h') = wrap32 (cached_bytes (sizemap st') (set_list cl l h'))"
      using tc_coreD(4) [OF passesD(3) [OF p]] by simp
  qed (use same tc_coreD(2,3) [OF passesD(3) [OF p]] in auto)
  moreover have "outside st' (set_list cl l h') d = outside st' h' d" for d using same(1) by (simp add: outside_def)
  ultimately show ?thesis using p same(1) by (auto simp: passes_def same_owner_def)
qed

section \<open>Releasing objects\<close>

lemma release_batches_wpo:
  assumes "cc_inv st" "cl < num_size_classes (sizemap st)" "lively b k (pageheap st)"
    "synced src" "distinct (fl_list src)" "set (fl_list src) \<subseteq> held st cl" "n \<le> length (fl_list src)"
    "0 < B"
  shows "wpo b (release_batches src st cl (int B) (int n))
    (\<lambda>(N, src', st'). \<exists>m \<le> n. N = int (n - m) \<and> src' = popped m src \<and> took cl (set (take m (fl_list src))) st st')"
  using assms
proof (induction n arbitrary: src st rule: less_induct)
  case (less n)
  show ?case
  proof (cases "n > B")
    case False
    have "took cl (set (take 0 (fl_list src))) st st" using evolves_refl [OF less.prems(1)] by (simp add: took_def)
    then show ?thesis using False less.prems(4)
      by (subst release_batches.simps) (auto simp: popped_0 intro!: exI [of _ 0])
  next
    case True
    have B: "B \<le> length (fl_list src)" using True less.prems(7) by simp
    let ?c = "take B (fl_list src)"
    have ch: "distinct ?c" "set ?c \<subseteq> held st cl" "int B = int (length ?c)"
      using less.prems(5,6) B by (auto dest: in_set_takeD)
    have eq: "release_batches src st cl (int B) (int n)
        = do { st \<leftarrow> InsertRange st cl ?c (int B); release_batches (popped B src) st cl (int B) (int (n - B)) }"
      using True FL_PopRange_eq [OF less.prems(4) B] by (subst release_batches.simps) (simp add: of_nat_diff)
    show ?thesis
      unfolding eq wpo_bind
    proof (rule wpo_mono [OF InsertRange_wpo [OF less.prems(1-3) ch]], goal_cases)
      case (1 st1)
      have st1: "cc_inv st1" "sizemap st1 = sizemap st" using 1 by (simp_all add: took_def evolves_def)
      have d: "distinct (fl_list (popped B src))" using less.prems(5) by simp
      have "set (drop B (fl_list src)) \<inter> set ?c = {}" using take_drop_disjoint [OF less.prems(5)] by blast
      then have h: "set (fl_list (popped B src)) \<subseteq> held st1 cl"
        using 1 less.prems(6) by (auto simp: took_def dest: in_set_dropD)
      have IH: "wpo b (release_batches (popped B src) st1 cl (int B) (int (n - B)))
          (\<lambda>(N, src', st'). \<exists>m \<le> n - B. N = int (n - B - m) \<and> src' = popped m (popped B src)
             \<and> took cl (set (take m (fl_list (popped B src)))) st1 st')"
        using less.IH [of "n - B" st1 "popped B src"] st1 took_lively [OF 1 less.prems(3)] synced_popped [OF less.prems(4) B]
          less.prems(2,7,8) d h True by simp
      show ?case
      proof (rule wpo_mono [OF IH], goal_cases)
        case (1 x)
        then obtain N src' st' m where x: "x = (N, src', st')" "m \<le> n - B" "N = int (n - B - m)" "src' = popped (B + m) src"
            "took cl (set (take m (drop B (fl_list src)))) st1 st'"
          by (cases x) (auto simp: popped_popped)
        have "took cl (set (take (B + m) (fl_list src))) st st'"
          using took_trans [OF \<open>took cl (set ?c) st st1\<close> x(5)] by (simp add: take_add)
        with x True show ?case by (auto intro!: exI [of _ "B + m"])
      qed
    qed
  qed
qed

text \<open>\<open>ReleaseToCentralCache\<close> drops the first objects of a list, as many as it is asked for.\<close>

lemma popped_ok:
  assumes l: "fl_ok st cl l" and n: "n \<le> length (fl_list l)" and st': "sizemap st' = sizemap st" "held st' cl = held st cl - set (take n (fl_list l))"
  shows "fl_ok st' cl (popped n l)"
proof -
  have "set (drop n (fl_list l)) \<subseteq> held st' cl"
    using fl_okD(3) [OF l] take_drop_disjoint [OF fl_okD(2) [OF l], of n] st'(2) by (auto dest: in_set_dropD)
  then show ?thesis using l synced_popped [OF fl_okD(1) [OF l] n] st'(1) by (simp add: fl_ok_def)
qed

lemma ReleaseToCentralCache_wpo:
  assumes inv: "cc_inv st" and core: "tc_core st h" and cl: "0 < cl" "cl < num_size_classes (sizemap st)"
    and lv: "lively b k (pageheap st)" and N: "0 \<le> N" "N < 2 ^ 31"
  shows "wpo b (ReleaseToCentralCache h st cl N)
    (\<lambda>(h', st'). passes st h st' h' \<and> tc_list h' = (tc_list h)(cl := popped (min (nat N) (length (fl_list (tc_list h cl)))) (tc_list h cl)))"
proof -
  let ?l = "tc_list h cl"
  define n where "n = min (nat N) (length (fl_list ?l))"
  note l = fl_okD [OF tc_coreD(1) [OF core cl]]
  have n: "n \<le> length (fl_list ?l)" by (simp add: n_def)
  obtain B where B: "0 < B" "num_objects_to_move (sizemap st) cl = int B"
    using sizes_okD(7) [OF cc_invD(2) [OF inv] cl] by (metis zero_less_imp_eq_int)
  have N': "(if size_t_of_int N > fl_length ?l then int32_of_nat (fl_length ?l) else N) = int n"
    using N l(6) synced_int32(1) [OF l(1)] by (auto simp: n_def size_t_of_int_nonneg)
  have eq: "ReleaseToCentralCache h st cl N = do { (N, src, st1) \<leftarrow> release_batches ?l st cl (int B) (int n);
      (chain, src) \<leftarrow> FL_PopRange src N;
      st2 \<leftarrow> InsertRange st1 cl chain N;
      Some ((set_list cl src h)\<lparr> tc_size := wrap32 (tc_size h - int n * int (ByteSizeForClass (sizemap st) cl)) \<rparr>, st2) }"
    unfolding ReleaseToCentralCache_def Let_def N' B(2) ..
  show ?thesis
    unfolding eq
  proof (subst wpo_bind, rule wpo_mono [OF release_batches_wpo [OF inv cl(2) lv l(1-3) n B(1)]], goal_cases)
    case (1 x)
    then obtain m st1 where m: "m \<le> n" "x = (int (n - m), popped m ?l, st1)" "took cl (set (take m (fl_list ?l))) st st1" by (cases x) auto
    have mm: "n - m \<le> length (fl_list (popped m ?l))" "m \<le> length (fl_list ?l)" using m(1) n by simp_all
    let ?c = "take (n - m) (drop m (fl_list ?l))"
    have st1: "cc_inv st1" "sizemap st1 = sizemap st" using m(3) by (simp_all add: took_def evolves_def)
    have l1: "fl_ok st1 cl (popped m ?l)" by (rule popped_ok [OF tc_coreD(1) [OF core cl] mm(2) st1(2)]) (use m(3) in \<open>simp add: took_def\<close>)
    have ch: "distinct ?c" "set ?c \<subseteq> held st1 cl" "int (n - m) = int (length ?c)"
      using l(2) fl_okD(3) [OF l1] mm(1) by (auto dest: in_set_takeD)
    have pop: "FL_PopRange (popped m ?l) (int (n - m)) = Some (?c, popped n ?l)"
      using FL_PopRange_eq [OF synced_popped [OF l(1) mm(2)] mm(1)] m(1) by (simp add: popped_popped)
    show ?case
      unfolding m(2) prod.case pop bind.bind_lunit
    proof (subst wpo_bind, rule wpo_mono [OF InsertRange_wpo [OF st1(1) _ took_lively [OF m(3) lv] ch]], goal_cases)
      case (2 st2)
      have "set (take n (fl_list ?l)) = set (take m (fl_list ?l)) \<union> set ?c"
        using m(1) take_add [of m "n - m" "fl_list ?l"] by simp
      then have t: "took cl (set (take n (fl_list ?l))) st st2" using took_trans [OF m(3) 2] by simp
      let ?h = "(set_list cl (popped n ?l) h)\<lparr> tc_size := wrap32 (tc_size h - int n * int (ByteSizeForClass (sizemap st) cl)) \<rparr>"
      have st2: "sizemap st2 = sizemap st" "\<And>d. d \<noteq> cl \<Longrightarrow> held st2 d = held st d" "held st2 cl = held st cl - set (take n (fl_list ?l))"
        using t by (simp_all add: took_def evolves_def)
      have "tc_core st2 ?h"
        by (rule tc_core_upd [OF core cl st2(1,2) popped_ok [OF tc_coreD(1) [OF core cl] n st2(1,3)]])
          (use n in \<open>simp_all add: of_nat_diff algebra_simps\<close>)
      moreover have "outside st2 ?h d = outside st h d" for d
        using st2(2,3) minus_take [OF l(2), of n] by (cases "d = cl") (auto simp: outside_def dest: in_set_takeD)
      ultimately show ?case using t by (auto simp: passes_def took_def same_owner_def n_def)
    qed (use cl st1 in simp)
  qed
qed

section \<open>The bookkeeping of the lists\<close>

lemma size_t_of_int_int [simp]: "n < 2 ^ 64 \<Longrightarrow> size_t_of_int (int n) = n"
  by (simp add: size_t_of_int_nonneg)

lemma smod_int: "int a smod int b = int (a mod b)"
  by (cases "a = 0") (auto simp: signed_modulo_int_def zmod_int sgn_if)

lemma max_length_bound: "max_length_ok b m \<Longrightarrow> b \<le> kMaxDynamicFreeListLength \<Longrightarrow> m \<le> kMaxDynamicFreeListLength"
  by (auto simp: max_length_ok_def)

lemma max_length_dvd: "max_length_ok b m \<Longrightarrow> b \<le> m \<Longrightarrow> b dvd m"
  by (auto simp: max_length_ok_def)

lemma grow_max_length_simps [simp]:
  "fl_list (grow_max_length b l) = fl_list l" "object_size (grow_max_length b l) = object_size l"
  "fl_length (grow_max_length b l) = fl_length l" "lowater (grow_max_length b l) = lowater l"
  by (simp_all add: grow_max_length_def set_max_length_def Let_def)

lemma adapt_max_length_simps [simp]:
  "fl_list (adapt_max_length b l) = fl_list l" "object_size (adapt_max_length b l) = object_size l"
  "fl_length (adapt_max_length b l) = fl_length l" "lowater (adapt_max_length b l) = lowater l"
  by (simp_all add: adapt_max_length_def set_max_length_def set_length_overages_def Let_def)

lemma grow_max_length_ok:
  assumes m: "max_length_ok b (fl_max_length l)" and b: "0 < b" "b \<le> kMaxDynamicFreeListLength"
  shows "max_length_ok b (fl_max_length (grow_max_length (int b) l))"
proof (cases "fl_max_length l < b")
  case True
  then show ?thesis using b by (simp add: grow_max_length_def set_max_length_def max_length_ok_def)
next
  case False
  let ?m = "fl_max_length l"
  let ?x = "min (?m + b) kMaxDynamicFreeListLength"
  have m8: "?m \<le> 8192" using max_length_bound [OF m b(2)] by simp
  have x: "b \<le> ?x" using b by simp
  have "int32_of_nat (?m + b) = int (?m + b)" using m8 b by (simp add: int32_of_nat_small)
  then have "min (int32_of_nat (?m + b)) (int kMaxDynamicFreeListLength) = int ?x" by simp
  moreover have "int ?x - int ?x smod int b = int (?x - ?x mod b)" unfolding smod_int by (rule of_nat_diff [symmetric], rule mod_less_eq_dividend)
  moreover have "size_t_of_int (int y) mod 2 ^ 32 = y" if "y \<le> 8192" for y using that by simp
  from this [of "?x - ?x mod b"] have "size_t_of_int (int (?x - ?x mod b)) mod 2 ^ 32 = ?x - ?x mod b" by simp
  ultimately have e: "fl_max_length (grow_max_length (int b) l) = ?x - ?x mod b"
    using False b m8 by (simp add: grow_max_length_def set_max_length_def Let_def)
  have "?x - ?x mod b = ?x div b * b" by (simp add: minus_mod_eq_div_mult)
  moreover have "0 < ?x div b" using x b(1) by (simp add: div_greater_zero_iff)
  moreover have "?x div b * b \<le> 8192" using div_times_less_eq_dividend [of ?x b] by simp
  ultimately show ?thesis unfolding e max_length_ok_def using b by simp
qed

lemma adapt_max_length_ok:
  assumes m: "max_length_ok b (fl_max_length l)" and b: "0 < b" "b \<le> kMaxDynamicFreeListLength"
  shows "max_length_ok b (fl_max_length (adapt_max_length (int b) l))"
proof -
  have m8: "fl_max_length l \<le> 8192" using max_length_bound [OF m b(2)] by simp
  then have "max_length_ok b (fl_max_length l - b)" if "b < fl_max_length l"
    using that max_length_dvd [OF m] by (auto simp: max_length_ok_def intro: dvd_diff_nat)
  then show ?thesis
    using m m8 b by (auto simp: adapt_max_length_def set_max_length_def set_length_overages_def Let_def max_length_ok_def)
qed

lemma scavenge_max_length_ok:
  assumes m: "max_length_ok b m" "b < m" and b: "0 < b" "b \<le> kMaxDynamicFreeListLength"
  shows "max_length_ok b (size_t_of_int (max (int32_of_nat (m - b)) (int b)) mod 2 ^ 32)"
proof -
  have m8: "m \<le> 8192" using max_length_bound [OF m(1) b(2)] by simp
  have "max (int32_of_nat (m - b)) (int b) = int (max (m - b) b)" using m8 by (simp add: int32_of_nat_small)
  moreover have "max (m - b) b < 2 ^ 32" using m8 b by simp
  ultimately have e: "size_t_of_int (max (int32_of_nat (m - b)) (int b)) mod 2 ^ 32 = max (m - b) b"
    by (simp add: size_t_of_int_nonneg)
  have "b dvd m - b" using max_length_dvd [OF m(1)] m(2) by (simp add: dvd_diff_nat)
  then show ?thesis unfolding e max_length_ok_def using m8 m(2) b(1) by (auto simp: max_def)
qed

end
