(* ===== verification/StackTraceTable.thy ===== *)
theory StackTraceTable
  imports TCMalloc ThreadCache_Inv
begin

text \<open>
  The table of stack traces of \<^verbatim>\<open>src/stack_trace_table.cc\<close>, in which the sampled allocations are collected for a heap profile, and the
  loops of \<^verbatim>\<open>src/malloc_extension.cc\<close> that read what it writes.
\<close>

section \<open>The allocator of the entries\<close>

definition kMaxStackDepth :: nat where "kMaxStackDepth = 31"

record STLPageHeapAllocator =
  underlying :: PageHeapAllocator
  stl_initialized :: bool

definition sizeof_Entry :: nat where "sizeof_Entry = 272"   \<comment> \<open>a pointer and a stack trace\<close>

text \<open>\<open>CHECK_CONDITION\<close> ends the program.\<close>

definition stl_allocate :: "sys \<Rightarrow> STLPageHeapAllocator \<Rightarrow> nat \<Rightarrow> (addr \<times> sys \<times> STLPageHeapAllocator) option" where
  "stl_allocate s a n =
     do { (s, a) \<leftarrow> (if stl_initialized a then Some (s, a)
                     else do { (s, u) \<leftarrow> PHA_Init sizeof_Entry s; Some (s, \<lparr> underlying = u, stl_initialized = True \<rparr>) });
          if n \<noteq> 1 then None
          else do { (p, s, u) \<leftarrow> PHA_New sizeof_Entry s (underlying a); Some (p, s, a\<lparr> underlying := u \<rparr>) } }"

definition stl_deallocate :: "STLPageHeapAllocator \<Rightarrow> addr \<Rightarrow> nat \<Rightarrow> STLPageHeapAllocator option" where
  "stl_deallocate a p n = (if n \<noteq> 1 then None else Some (a\<lparr> underlying := PHA_Delete (underlying a) p \<rparr>))"

section \<open>The table\<close>

text \<open>The entries from \<open>head_\<close> on, with their addresses.\<close>

record StackTraceTable =
  tt_error :: bool
  depth_total :: int
  bucket_total :: int
  tt_head :: "(addr \<times> StackTrace) list"

definition empty_table :: StackTraceTable where
  "empty_table = \<lparr> tt_error = False, depth_total = 0, bucket_total = 0, tt_head = [] \<rparr>"

definition AddTrace :: "StackTrace \<Rightarrow> sys \<times> STLPageHeapAllocator \<times> StackTraceTable \<Rightarrow> (sys \<times> STLPageHeapAllocator \<times> StackTraceTable) option" where
  "AddTrace t = (\<lambda>(s, a, tab).
     if tt_error tab then Some (s, a, tab)
     else let tab = tab\<lparr> depth_total := wrap32 (depth_total tab + int (length (trace_stack t))), bucket_total := wrap32 (bucket_total tab + 1) \<rparr>
          in do { (entry, s, a) \<leftarrow> stl_allocate s a 1;
                  Some (s, a, if entry = 0 then tab\<lparr> tt_error := True \<rparr> else tab\<lparr> tt_head := (entry, t) # tt_head tab \<rparr>) })"

text \<open>A store to the next cell of the output; outside the array it is undefined.\<close>

definition put_cell :: "u64 \<Rightarrow> u64 list \<times> nat \<Rightarrow> (u64 list \<times> nat) option" where
  "put_cell v = (\<lambda>(out, idx). if idx < length out then Some (out[idx := v], idx + 1) else None)"

fun put_cells :: "u64 list \<Rightarrow> u64 list \<times> nat \<Rightarrow> (u64 list \<times> nat) option" where
  "put_cells [] x = Some x"
| "put_cells (v # vs) x = do { x \<leftarrow> put_cell v x; put_cells vs x }"

fun fill_entries :: "(addr \<times> StackTrace) list \<Rightarrow> u64 list \<times> nat \<Rightarrow> (u64 list \<times> nat) option" where
  "fill_entries [] x = Some x"
| "fill_entries ((_, t) # ts) x =
     do { x \<leftarrow> put_cell 1 x;
          x \<leftarrow> put_cell (of_nat (trace_size t)) x;
          x \<leftarrow> put_cell (of_nat (length (trace_stack t))) x;
          x \<leftarrow> put_cells (map of_nat (trace_stack t)) x;
          fill_entries ts x }"

fun free_entries :: "(addr \<times> StackTrace) list \<Rightarrow> STLPageHeapAllocator \<Rightarrow> STLPageHeapAllocator option" where
  "free_entries [] a = Some a"
| "free_entries ((p, _) # ts) a = do { a \<leftarrow> stl_deallocate a p 1; free_entries ts a }"

definition out_len :: "StackTraceTable \<Rightarrow> int" where
  "out_len tab = wrap32 (bucket_total tab * 3 + depth_total tab + 1)"

text \<open>\<open>new_array n\<close> is the array of \<open>n\<close> cells that \<open>operator new[]\<close> gives, or the null pointer.\<close>

definition ReadStackTracesAndClear ::
    "(int \<Rightarrow> u64 list option) \<Rightarrow> StackTraceTable \<Rightarrow> STLPageHeapAllocator \<Rightarrow> (u64 list option \<times> STLPageHeapAllocator \<times> StackTraceTable) option" where
  "ReadStackTracesAndClear new_array tab a =
     do { out \<leftarrow> (case (if tt_error tab then None else new_array (out_len tab)) of
                    None \<Rightarrow> Some None
                  | Some out \<Rightarrow> do { x \<leftarrow> fill_entries (tt_head tab) (out, 0); (out, idx) \<leftarrow> put_cell 0 x; Some (Some out) });
          a \<leftarrow> free_entries (tt_head tab) a;
          Some (out, a, empty_table) }"

text \<open>\<open>ReadStackTraces\<close> of \<^verbatim>\<open>tcmalloc.cc\<close>: the traces of the sampled spans, from the list head on, and the sampling period.\<close>

fun add_sampled :: "tcmalloc \<Rightarrow> addr list \<Rightarrow> sys \<times> STLPageHeapAllocator \<times> StackTraceTable \<Rightarrow> (sys \<times> STLPageHeapAllocator \<times> StackTraceTable) option" where
  "add_sampled S [] x = Some x"
| "add_sampled S (p # ps) x =
     do { s \<leftarrow> spans (heap_of S) p;
          t \<leftarrow> (case sp_objects s of [] \<Rightarrow> None | q # _ \<Rightarrow> stack_traces S q);
          x \<leftarrow> AddTrace t x;
          add_sampled S ps x }"

definition ReadStackTraces ::
    "(int \<Rightarrow> u64 list option) \<Rightarrow> nat \<Rightarrow> STLPageHeapAllocator \<Rightarrow> tcmalloc \<Rightarrow> (u64 list option \<times> int \<times> STLPageHeapAllocator \<times> tcmalloc) option" where
  "ReadStackTraces new_array me a S =
     do { (s, a, tab) \<leftarrow> add_sampled S (sampled_objects S) (system (heap_of S), a, empty_table);
          let S = set_heap ((heap_of S)\<lparr> system := s \<rparr>) S;
          (t, T) \<leftarrow> GetCache (tm S) me (seed_of S me);
          let S = S\<lparr> tm := T \<rparr>;
          (out, a, tab) \<leftarrow> ReadStackTracesAndClear new_array tab a;
          Some (out, GetSamplePeriod (sampling T), a, S) }"

section \<open>The reader\<close>

text \<open>The accessors \<open>Count\<close>, \<open>Size\<close>, \<open>Depth\<close> and \<open>PC\<close> of an entry; a read outside the array is undefined.\<close>

definition cell :: "u64 list \<Rightarrow> nat \<Rightarrow> u64 option" where
  "cell out i = (if i < length out then Some (out ! i) else None)"

function header_totals :: "u64 list \<Rightarrow> nat \<Rightarrow> u64 \<Rightarrow> u64 \<Rightarrow> (u64 \<times> u64) option" where
  "header_totals out e total_count total_size =
     (case cell out e of
        None \<Rightarrow> None
      | Some c \<Rightarrow> if c = 0 then Some (total_count, total_size)
          else do { z \<leftarrow> cell out (e + 1); d \<leftarrow> cell out (e + 2); header_totals out (e + (3 + unat d)) (total_count + c) (total_size + z) })"
  by pat_completeness auto
termination by (relation "measure (\<lambda>(out, e, _, _). length out - e)") (auto simp: cell_def split: if_splits)

fun read_pcs :: "u64 list \<Rightarrow> nat \<Rightarrow> nat \<Rightarrow> u64 list option" where
  "read_pcs out i 0 = Some []"
| "read_pcs out i (Suc n) = do { v \<leftarrow> cell out i; vs \<leftarrow> read_pcs out (i + 1) n; Some (v # vs) }"

text \<open>What \<open>GetHeapSample\<close> prints: count, size and program counters of each entry.\<close>

function sample_entries :: "u64 list \<Rightarrow> nat \<Rightarrow> (u64 \<times> u64 \<times> u64 list) list option" where
  "sample_entries out e =
     (case cell out e of
        None \<Rightarrow> None
      | Some c \<Rightarrow> if c = 0 then Some []
          else do { z \<leftarrow> cell out (e + 1); d \<leftarrow> cell out (e + 2); pcs \<leftarrow> read_pcs out (e + 3) (unat d);
                    rest \<leftarrow> sample_entries out (e + (3 + unat d)); Some ((c, z, pcs) # rest) })"
  by pat_completeness auto
termination by (relation "measure (\<lambda>(out, e). length out - e)") (auto simp: cell_def split: if_splits)

section \<open>Correctness\<close>

abbreviation trace_cells :: "StackTrace \<Rightarrow> u64 list" where
  "trace_cells t \<equiv> [1, of_nat (trace_size t), of_nat (length (trace_stack t))] @ map of_nat (trace_stack t)"

lemma put_cells_append: "put_cells (xs @ ys) = (\<lambda>x. put_cells xs x \<bind> put_cells ys)"
proof
  show "put_cells (xs @ ys) x = put_cells xs x \<bind> put_cells ys" for x
  proof (induction xs arbitrary: x)
    case (Cons a xs)
    then show ?case by (cases "put_cell a x") simp_all
  qed simp
qed

lemma put_cells_ok:
  "i + length vs \<le> length out \<Longrightarrow> put_cells vs (out, i) = Some (take i out @ vs @ drop (i + length vs) out, i + length vs)"
proof (induction vs arbitrary: out i)
  case (Cons v vs)
  then have i: "i < length out" by simp
  have "take (Suc i) (out[i := v]) = take i out @ [v]" using i by (simp add: take_Suc_conv_app_nth)
  with Cons.IH [of "Suc i" "out[i := v]"] Cons.prems i show ?case by (simp add: put_cell_def)
qed simp

lemma fill_entries_cells: "fill_entries es = put_cells (concat (map trace_cells (map snd es)))"
proof (induction es)
  case (Cons e es)
  obtain p t where e: "e = (p, t)" by (cases e)
  have "put_cells (v # vs) = (\<lambda>x. put_cell v x \<bind> put_cells vs)" for v vs by (rule ext) simp
  with Cons.IH show ?case by (intro ext) (simp add: e put_cells_append)
qed (simp add: fun_eq_iff)

text \<open>The entries of the table: the totals are those of the chain, and each trace has been added.\<close>

definition add_traces :: "StackTrace list \<Rightarrow> sys \<times> STLPageHeapAllocator \<times> StackTraceTable \<Rightarrow> (sys \<times> STLPageHeapAllocator \<times> StackTraceTable) option" where
  "add_traces ts x = foldl (\<lambda>m t. m \<bind> AddTrace t) (Some x) ts"

lemma add_traces_snoc: "add_traces (ts @ [t]) x = add_traces ts x \<bind> AddTrace t"
  by (simp add: add_traces_def)

lemma AddTrace_error: "AddTrace t (s, a, tab) = Some (s', a', tab') \<Longrightarrow> \<not> tt_error tab' \<Longrightarrow> \<not> tt_error tab"
  by (auto simp: AddTrace_def split: if_splits)

lemma add_traces_table:
  assumes "add_traces ts (s, a, empty_table) = Some (s', a', tab)" "\<not> tt_error tab"
  shows "map snd (tt_head tab) = rev ts \<and> bucket_total tab = wrap32 (int (length ts)) \<and> depth_total tab = wrap32 (\<Sum>t \<leftarrow> ts. int (length (trace_stack t)))"
  using assms
proof (induction ts arbitrary: s' a' tab rule: rev_induct)
  case Nil
  then show ?case by (auto simp: add_traces_def empty_table_def wrap32_def)
next
  case (snoc t ts)
  then obtain s1 a1 tab1 where 1: "add_traces ts (s, a, empty_table) = Some (s1, a1, tab1)" "AddTrace t (s1, a1, tab1) = Some (s', a', tab)"
    by (cases "add_traces ts (s, a, empty_table)") (auto simp: add_traces_snoc)
  note e = AddTrace_error [OF 1(2) snoc.prems(2)]
  from 1(2) e snoc.prems(2) obtain p where "tab = tab1\<lparr> depth_total := wrap32 (depth_total tab1 + int (length (trace_stack t))),
      bucket_total := wrap32 (bucket_total tab1 + 1), tt_head := (p, t) # tt_head tab1 \<rparr>"
    by (auto simp: AddTrace_def Let_def split: bind_splits if_splits)
  with snoc.IH [OF 1(1) e] show ?case by (simp add: add_ac)
qed

lemma free_entries_inuse:
  "free_entries es a = Some (a\<lparr> underlying := (underlying a)\<lparr> free_list := rev (map fst es) @ free_list (underlying a), inuse := inuse (underlying a) - int (length es) \<rparr> \<rparr>)"
proof (induction es arbitrary: a)
  case (Cons e es)
  then show ?case by (cases e) (simp add: stl_deallocate_def PHA_Delete_def)
qed simp

text \<open>Reading an entry.\<close>

lemma cell_append: "cell (pre @ x # post) (length pre) = Some x"
  by (simp add: cell_def)

lemma read_pcs_ok: "read_pcs (pre @ vs @ post) (length pre) (length vs) = Some vs"
proof (induction vs arbitrary: pre)
  case (Cons v vs)
  from Cons.IH [of "pre @ [v]"] show ?case by (simp add: cell_def)
qed simp

lemma entry_length:
  "length ts < 2 ^ 64 \<Longrightarrow> unat (of_nat (length ts) :: u64) = length ts"
  by (simp add: unsigned_of_nat take_bit_nat_eq_self)

lemma entry_next: "length pre + (3 + length (trace_stack t)) = length (pre @ trace_cells t)"
  by simp

lemma entry_cells:
  "cell (pre @ trace_cells t @ post) (length pre) = Some 1"
    "cell (pre @ trace_cells t @ post) (length pre + 1) = Some (of_nat (trace_size t))"
    "cell (pre @ trace_cells t @ post) (length pre + 2) = Some (of_nat (length (trace_stack t)))"
    "read_pcs (pre @ trace_cells t @ post) (length pre + 3) (length (trace_stack t)) = Some (map of_nat (trace_stack t))"
proof -
  show "read_pcs (pre @ trace_cells t @ post) (length pre + 3) (length (trace_stack t)) = Some (map of_nat (trace_stack t))"
    using read_pcs_ok [of "pre @ [1, of_nat (trace_size t), of_nat (length (trace_stack t))]" "map of_nat (trace_stack t)" post] by (simp add: numeral_3_eq_3)
qed (simp_all add: cell_def nth_append)

lemma readers_ok:
  assumes "\<forall>t \<in> set ts. length (trace_stack t) < 2 ^ 64"
  shows "sample_entries (pre @ concat (map trace_cells ts) @ 0 # post) (length pre)
      = Some (map (\<lambda>t. (1, of_nat (trace_size t), map of_nat (trace_stack t))) ts)"
    "header_totals (pre @ concat (map trace_cells ts) @ 0 # post) (length pre) c z = Some (c + of_nat (length ts), z + of_nat (\<Sum>t \<leftarrow> ts. trace_size t))"
  using assms
proof (induction ts arbitrary: pre c z)
  case Nil
  {
    case 1
    show ?case by (subst sample_entries.simps) (simp add: cell_append)
  next
    case 2
    show ?case by (subst header_totals.simps) (simp add: cell_append)
  }
next
  case (Cons t ts)
  {
    case 1
    then have t: "length (trace_stack t) < 2 ^ 64" by simp
    let ?post = "concat (map trace_cells ts) @ 0 # post"
    note e = entry_cells [of pre t ?post] entry_length [OF t]
    have "sample_entries ((pre @ trace_cells t) @ ?post) (length (pre @ trace_cells t)) = Some (map (\<lambda>t. (1, of_nat (trace_size t), map of_nat (trace_stack t))) ts)"
      using Cons.IH(1) [of "pre @ trace_cells t"] 1 by simp
    then have r: "sample_entries (pre @ trace_cells t @ ?post) (length pre + (3 + length (trace_stack t))) = Some (map (\<lambda>t. (1, of_nat (trace_size t), map of_nat (trace_stack t))) ts)"
      unfolding entry_next by (simp only: append_assoc)
    have "sample_entries (pre @ trace_cells t @ ?post) (length pre) = Some ((1, of_nat (trace_size t), map of_nat (trace_stack t)) # map (\<lambda>t. (1, of_nat (trace_size t), map of_nat (trace_stack t))) ts)"
      by (subst sample_entries.simps) (simp only: e r option.case bind.bind_lunit if_False one_neq_zero)
    then show ?case by simp
  next
    case 2
    then have t: "length (trace_stack t) < 2 ^ 64" by simp
    let ?post = "concat (map trace_cells ts) @ 0 # post"
    note e = entry_cells [of pre t ?post] entry_length [OF t]
    let ?r = "Some (c + 1 + of_nat (length ts), z + of_nat (trace_size t) + of_nat (\<Sum>t \<leftarrow> ts. trace_size t)) :: (u64 \<times> u64) option"
    have "header_totals ((pre @ trace_cells t) @ ?post) (length (pre @ trace_cells t)) (c + 1) (z + of_nat (trace_size t)) = ?r"
      using Cons.IH(2) [of "pre @ trace_cells t"] 2 by simp
    then have r: "header_totals (pre @ trace_cells t @ ?post) (length pre + (3 + length (trace_stack t))) (c + 1) (z + of_nat (trace_size t)) = ?r"
      unfolding entry_next by (simp only: append_assoc)
    have "header_totals (pre @ trace_cells t @ ?post) (length pre) c z = ?r"
      by (subst header_totals.simps) (simp only: e r option.case bind.bind_lunit if_False one_neq_zero)
    then show ?case by (simp add: add_ac)
  }
qed

lemma length_cells: "length (concat (map trace_cells ts)) = 3 * length ts + (\<Sum>t \<leftarrow> ts. length (trace_stack t))"
  by (induction ts) simp_all

lemma depths_bound: "\<forall>t \<in> set ts. length (trace_stack t) \<le> kMaxStackDepth \<Longrightarrow> (\<Sum>t \<leftarrow> ts. length (trace_stack t)) \<le> kMaxStackDepth * length ts"
  by (induction ts) auto

lemma out_len_exact:
  assumes "add_traces ts (s, a, empty_table) = Some (s', a', tab)" "\<not> tt_error tab"
    "\<forall>t \<in> set ts. length (trace_stack t) \<le> kMaxStackDepth" "length ts < 2 ^ 25"
  shows "out_len tab = int (length (concat (map trace_cells (rev ts))) + 1)"
proof -
  note t = add_traces_table [OF assms(1,2)]
  let ?d = "\<Sum>t \<leftarrow> ts. length (trace_stack t)"
  have i: "(\<Sum>t \<leftarrow> ts. int (length (trace_stack t))) = int ?d" by (induction ts) simp_all
  have "?d \<le> 31 * length ts" using depths_bound [OF assms(3)] by (simp add: kMaxStackDepth_def)
  then have b: "3 * length ts + ?d + 1 < 2 ^ 31" using assms(4) by simp
  have w: "wrap32 (int n) = int n" if "n < 2 ^ 31" for n by (rule wrap32_id) (use that in simp_all)
  then have "bucket_total tab = int (length ts)" "depth_total tab = int ?d" using t b i by simp_all
  then have "bucket_total tab * 3 + depth_total tab + 1 = int (3 * length ts + ?d + 1)" by simp
  then have "out_len tab = int (3 * length ts + ?d + 1)" unfolding out_len_def using w [OF b] by (simp only:)
  moreover have "(\<Sum>t \<leftarrow> rev ts. length (trace_stack t)) = ?d" by (simp add: rev_map [symmetric] sum_list_rev)
  ultimately show ?thesis by (simp only: length_cells length_rev)
qed

text \<open>C39. Stack traces survive the table: when traces of at most 31 frames, fewer than \<open>2^25\<close> of them, are added to an empty table without an error and the output array has the length
  the table asks for, then \<open>ReadStackTracesAndClear\<close> writes no cell outside the array and fills it to its end; the loops of the heap profile read back exactly the traces,
  last one first, each with count one, and their number and total size; and the table is empty again, with all its entries deallocated.\<close>

theorem stack_traces_round_trip:
  assumes "add_traces ts (s, a, empty_table) = Some (s', a', tab)" "\<not> tt_error tab"
    "\<forall>t \<in> set ts. length (trace_stack t) \<le> kMaxStackDepth" "length ts < 2 ^ 25" "new_array (out_len tab) = Some arr" "length arr = nat (out_len tab)"
  shows "\<exists>b a2. ReadStackTracesAndClear new_array tab a' = Some (Some b, a2, empty_table) \<and> length b = length arr
    \<and> sample_entries b 0 = Some (map (\<lambda>t. (1, of_nat (trace_size t), map of_nat (trace_stack t))) (rev ts))
    \<and> header_totals b 0 0 0 = Some (of_nat (length ts), of_nat (\<Sum>t \<leftarrow> ts. trace_size t))
    \<and> inuse (underlying a2) = inuse (underlying a') - int (length ts)"
proof -
  define c where "c = concat (map trace_cells (rev ts))"
  have h: "map snd (tt_head tab) = rev ts" using add_traces_table [OF assms(1,2)] by simp
  then have l: "length (tt_head tab) = length ts" by (metis length_map length_rev)
  have n: "length arr = length c + 1" using assms(6) out_len_exact [OF assms(1-4), folded c_def] by simp
  have "fill_entries (tt_head tab) (arr, 0) = Some (c @ drop (length c) arr, length c)"
    unfolding fill_entries_cells h c_def [symmetric] using put_cells_ok [of 0 c arr] n by simp
  moreover have "length (drop (length c) arr) = 1" using n by simp
  then obtain v where "drop (length c) arr = [v]" by (cases "drop (length c) arr") (auto simp del: length_drop)
  ultimately have f: "fill_entries (tt_head tab) (arr, 0) \<bind> put_cell 0 = Some (c @ [0], length c + 1)" by (simp add: put_cell_def)
  have small: "\<forall>t \<in> set (rev ts). length (trace_stack t) < 2 ^ 64" using assms(3) by (auto simp: kMaxStackDepth_def)
  have "sample_entries (c @ [0]) 0 = Some (map (\<lambda>t. (1, of_nat (trace_size t), map of_nat (trace_stack t))) (rev ts))"
    using readers_ok(1) [OF small, of "[]" "[]", folded c_def] by simp
  moreover have "header_totals (c @ [0]) 0 0 0 = Some (of_nat (length ts), of_nat (\<Sum>t \<leftarrow> ts. trace_size t))"
    using readers_ok(2) [OF small, of "[]" "[]" 0 0, folded c_def] by (simp add: rev_map [symmetric] sum_list_rev)
  moreover obtain a2 where "free_entries (tt_head tab) a' = Some a2" "inuse (underlying a2) = inuse (underlying a') - int (length ts)"
    using free_entries_inuse [of "tt_head tab" a'] l by simp
  ultimately show ?thesis
    using f n assms(2,5) by (intro exI [of _ "c @ [0]"] exI [of _ a2]) (auto simp: ReadStackTracesAndClear_def split: bind_splits)
qed

theorem stack_traces_round_trip_witness:
  "\<exists>s' a' tab b a2. add_traces [\<lparr> trace_size = 100, trace_stack = [7, 8] \<rparr>, \<lparr> trace_size = 20, trace_stack = [9] \<rparr>]
       (demo_sys, \<lparr> underlying = \<lparr> free_area = 0, free_avail = 0, free_list = [], inuse = 0 \<rparr>, stl_initialized = False \<rparr>, empty_table) = Some (s', a', tab)
     \<and> ReadStackTracesAndClear (\<lambda>n. Some (replicate (nat n) 0)) tab a' = Some (Some b, a2, empty_table)
     \<and> sample_entries b 0 = Some [(1, 20, [9]), (1, 100, [7, 8])]"
proof -
  let ?ts = "[\<lparr> trace_size = 100, trace_stack = [7, 8] \<rparr>, \<lparr> trace_size = 20, trace_stack = [9] \<rparr>]"
    and ?a = "\<lparr> underlying = \<lparr> free_area = 0, free_avail = 0, free_list = [], inuse = 0 \<rparr>, stl_initialized = False \<rparr>"
  obtain s' a' tab where A: "add_traces ?ts (demo_sys, ?a, empty_table) = Some (s', a', tab)" "\<not> tt_error tab"
    by (simp add: add_traces_def AddTrace_def stl_allocate_def PHA_Init_def PHA_New_def PHA_Delete_def kAllocIncrement_def MetaDataAlloc_def
      TCMalloc_SystemAlloc_def CheckAddressBits_def demo_sys_def sizeof_Entry_def Let_def kMetadataAllocChunkSize_def sizeof_MemoryAligner_def empty_table_def)
  from stack_traces_round_trip [OF A, of "\<lambda>n. Some (replicate (nat n) 0)" "replicate (nat (out_len tab)) 0"] A(1) show ?thesis
    by (auto simp: kMaxStackDepth_def)
qed

end
