(* ===== verification/ThreadCache_Ops.thy ===== *)
theory ThreadCache_Ops
  imports ThreadCache_Inv
begin

text \<open>
  The operations of one thread cache: fetching from the central lists, scavenging, cleaning up, and the part of
  \<open>ListTooLong\<close> that concerns the list itself.
\<close>

lemma batch_pos:
  assumes "cc_inv st" "batches_ok (sizemap st)" "0 < cl" "cl < num_size_classes (sizemap st)"
  obtains B where "0 < B" "B \<le> kMaxDynamicFreeListLength" "num_objects_to_move (sizemap st) cl = int B" "batch st cl = B"
proof -
  have "0 < num_objects_to_move (sizemap st) cl" by (rule sizes_okD(7) [OF cc_invD(2) [OF assms(1)] assms(3,4)])
  then obtain B where "0 < B" "num_objects_to_move (sizemap st) cl = int B" by (metis zero_less_imp_eq_int)
  moreover have "num_objects_to_move (sizemap st) cl \<le> int kMaxDynamicFreeListLength" using assms(2-4) by (simp add: batches_ok_def)
  ultimately show ?thesis using that by simp
qed

section \<open>Scavenging\<close>

lemma clear_passes:
  assumes p: "passes st h st' h'" and cl: "cl < num_size_classes (sizemap st)"
  shows "passes st h st' (set_list cl (clear_lowwatermark (tc_list h' cl)) h')"
proof -
  note core = passesD(3) [OF p]
  have "synced (tc_list h' cl) \<and> (cl = 0 \<or> max_length_ok (batch st cl) (fl_max_length (tc_list h' cl)))"
  proof (cases "cl = 0")
    case False
    then have "fl_ok st' cl (tc_list h' cl)" using tc_coreD(1) [OF core] cl passesD(2) [OF p] by simp
    from fl_okD(1,4) [OF this] show ?thesis by (simp add: passesD(2) [OF p])
  qed (use tc_coreD(3) [OF core] in simp)
  then show ?thesis by (intro passes_list [OF p]) (simp_all add: clear_lowwatermark_def synced_def)
qed

lemma scavenge_class_wpo:
  assumes inv: "cc_inv st" and bo: "batches_ok (sizemap st)" and core: "tc_core st h"
    and cl: "cl < num_size_classes (sizemap st)" and lv: "lively b k (pageheap st)"
  shows "wpo b (scavenge_class h st cl) (\<lambda>(h', st'). passes st h st' h')"
proof -
  let ?low = "lowwatermark (tc_list h cl)"
  have "wpo b (if ?low > 0 then
             do { (h, st) \<leftarrow> ReleaseToCentralCache h st cl (if ?low > 1 then ?low sdiv 2 else 1);
                  let batch_size = num_objects_to_move (sizemap st) cl;
                  let l = tc_list h cl;
                  Some (if fl_max_length l > size_t_of_int batch_size
                        then set_list cl (set_max_length l (size_t_of_int
                               (max (int32_of_nat (fl_max_length l - size_t_of_int batch_size)) batch_size))) h
                        else h, st) }
           else Some (h, st)) (\<lambda>(h', st'). passes st h st' h')"
  proof (cases "?low > 0")
    case True
    then have cl0: "0 < cl" using tc_coreD(2,3) [OF core] synced_int32(2) [of "tc_list h 0"] by (cases "cl = 0") (auto simp: synced_def)
    note l = fl_okD [OF tc_coreD(1) [OF core cl0 cl]]
    obtain B where B: "0 < B" "B \<le> kMaxDynamicFreeListLength" "num_objects_to_move (sizemap st) cl = int B" "batch st cl = B"
      by (rule batch_pos [OF inv bo cl0 cl])
    have low: "?low = int (lowater (tc_list h cl))" by (rule synced_int32(2) [OF l(1)])
    have lo8: "lowater (tc_list h cl) \<le> 8193" using l(1) by (simp add: synced_def)
    have drop: "0 \<le> (if ?low > 1 then ?low sdiv 2 else 1)" "(if ?low > 1 then ?low sdiv 2 else 1) < 2 ^ 31"
      unfolding low using lo8 by (auto simp: signed_divide_int_def intro: le_less_trans [OF zdiv_mono1])
    show ?thesis
      using True
    proof (simp only: if_True, subst wpo_bind, intro wpo_mono [OF ReleaseToCentralCache_wpo [OF inv core cl0 cl lv drop]], goal_cases)
      case (1 x)
      obtain h1 st1 where x: "x = (h1, st1)" by (cases x)
      with 1 have p: "passes st h st1 h1" by simp
      have l1: "fl_ok st1 cl (tc_list h1 cl)" using tc_coreD(1) [OF passesD(3) [OF p]] cl0 cl passesD(2) [OF p] by simp
      have m: "max_length_ok B (fl_max_length (tc_list h1 cl))" using fl_okD(4) [OF l1] B(4) passesD(2) [OF p] by simp
      have "passes st h st1 (set_list cl (set_max_length (tc_list h1 cl)
          (size_t_of_int (max (int32_of_nat (fl_max_length (tc_list h1 cl) - B)) (int B)))) h1)" if "B < fl_max_length (tc_list h1 cl)"
        by (rule passes_list [OF p]) (use scavenge_max_length_ok [OF m that B(1,2)] B(4) fl_okD(1) [OF l1] in
          \<open>simp_all add: set_max_length_def synced_def\<close>)
      then show ?case using p B by (simp add: x Let_def passesD(2) [OF p])
    qed
  qed (use passes_refl [OF inv core] in simp)
  then show ?thesis
    unfolding scavenge_class_def Let_def wpo_bind by (rule wpo_mono) (use cl in \<open>auto intro: clear_passes\<close>)
qed

lemma scavenge_classes_wpo:
  assumes "cc_inv st" "batches_ok (sizemap st)" "tc_core st h" "\<forall>cl \<in> set cls. cl < num_size_classes (sizemap st)"
    "lively b k (pageheap st)"
  shows "wpo b (scavenge_classes cls h st) (\<lambda>(h', st'). passes st h st' h')"
  using assms
proof (induction cls arbitrary: h st)
  case Nil
  then show ?case by (simp add: passes_refl)
next
  case (Cons cl cls)
  have cl: "cl < num_size_classes (sizemap st)" using Cons.prems(4) by simp
  show ?case
    unfolding scavenge_classes.simps wpo_bind
  proof (rule wpo_mono [OF scavenge_class_wpo [OF Cons.prems(1-3) cl Cons.prems(5)]], goal_cases)
    case (1 x)
    obtain h1 st1 where x: "x = (h1, st1)" by (cases x)
    with 1 have p: "passes st h st1 h1" by simp
    have "wpo b (scavenge_classes cls h1 st1) (\<lambda>(h', st'). passes st1 h1 st' h')"
      using Cons.IH [OF passesD(1) [OF p] _ passesD(3) [OF p] _ passes_lively [OF p Cons.prems(5)]] Cons.prems(2,4) passesD(2) [OF p] by simp
    then show ?case unfolding x by (auto elim!: wpo_mono intro: passes_trans [OF p])
  qed
qed

section \<open>Cleaning up\<close>

lemma cleanup_classes_wpo:
  assumes "cc_inv st" "tc_core st h" "\<forall>cl \<in> set cls. cl < num_size_classes (sizemap st)" "lively b k (pageheap st)"
  shows "wpo b (cleanup_classes cls h st) (\<lambda>(h', st'). passes st h st' h' \<and> (\<forall>cl \<in> set cls. fl_list (tc_list h' cl) = []))"
  using assms
proof (induction cls arbitrary: h st)
  case Nil
  then show ?case by (simp add: passes_refl)
next
  case (Cons cl cls)
  let ?l = "tc_list h cl"
  have cl: "cl < num_size_classes (sizemap st)" using Cons.prems(3) by simp
  have "wpo b (if fl_length ?l > 0 then ReleaseToCentralCache h st cl (int32_of_nat (fl_length ?l)) else Some (h, st))
      (\<lambda>(h', st'). passes st h st' h' \<and> fl_list (tc_list h' cl) = [])"
  proof (cases "fl_length ?l > 0")
    case True
    then have cl0: "0 < cl" using tc_coreD(2,3) [OF Cons.prems(2)] by (cases "cl = 0") (auto simp: synced_def)
    note l = fl_okD [OF tc_coreD(1) [OF Cons.prems(2) cl0 cl]]
    have n: "0 \<le> int32_of_nat (fl_length ?l)" "int32_of_nat (fl_length ?l) < 2 ^ 31" "nat (int32_of_nat (fl_length ?l)) = length (fl_list ?l)"
      using synced_int32(1) [OF l(1)] l(1) by (simp_all add: synced_def)
    show ?thesis
      using True wpo_mono [OF ReleaseToCentralCache_wpo [OF Cons.prems(1,2) cl0 cl Cons.prems(4) n(1,2)]] n(3) by auto
  next
    case False
    then have "fl_list ?l = []"
      using fl_okD(6) [OF tc_coreD(1) [OF Cons.prems(2) _ cl]] tc_coreD(2) [OF Cons.prems(2)] by (cases "cl = 0") auto
    then show ?thesis using False Cons.prems by (simp add: passes_refl)
  qed
  then show ?case
    unfolding cleanup_classes.simps wpo_bind
  proof (rule wpo_mono, goal_cases)
    case (1 x)
    obtain h1 st1 where x: "x = (h1, st1)" by (cases x)
    with 1 have p: "passes st h st1 h1" "fl_list (tc_list h1 cl) = []" by simp_all
    have "wpo b (cleanup_classes cls h1 st1) (\<lambda>(h', st'). passes st1 h1 st' h' \<and> (\<forall>cl \<in> set cls. fl_list (tc_list h' cl) = []))"
      using Cons.IH [OF passesD(1,3) [OF p(1)] _ passes_lively [OF p(1) Cons.prems(4)]] Cons.prems(3) passesD(2) [OF p(1)] by simp
    then show ?case
      unfolding x prod.case
      by (rule wpo_mono) (use p passesD(6) [of st1 h1 _ _ cl] in \<open>auto intro: passes_trans [OF p(1)]\<close>)
  qed
qed

section \<open>Fetching\<close>

definition fetched :: "central \<Rightarrow> ThreadCache \<Rightarrow> nat \<Rightarrow> addr option \<Rightarrow> ThreadCache \<Rightarrow> central \<Rightarrow> bool" where
  "fetched st h cl r h' st' \<longleftrightarrow> evolves 3 st st' \<and> tc_core st' h' \<and> same_owner h h'
     \<and> (\<forall>d. length (fl_list (tc_list h' d)) \<le> max kMaxDynamicFreeListLength (length (fl_list (tc_list h d))))
     \<and> (case r of
          None \<Rightarrow> outside st' h' = outside st h \<and> no_memory st cl
        | Some x \<Rightarrow> x \<notin> outside st h cl \<and> outside st' h' = (outside st h)(cl := insert x (outside st h cl)))"

lemma FL_PushRange_eq:
  assumes "synced l" "fl_list l = []" "length xs \<le> kMaxDynamicFreeListLength"
  shows "FL_PushRange l (int (length xs)) xs = l\<lparr> fl_list := xs, fl_length := length xs \<rparr>"
    "synced (l\<lparr> fl_list := xs, fl_length := length xs \<rparr>)"
  using assms by (simp_all add: FL_PushRange_def synced_def)

lemma FetchFromCentralCache_wpo:
  assumes inv: "cc_inv st" and bo: "batches_ok (sizemap st)" and core: "tc_core st h" and cl: "0 < cl" "cl < num_size_classes (sizemap st)"
    and e: "fl_list (tc_list h cl) = []" and lv: "lively b 3 (pageheap st)"
  shows "wpo b (FetchFromCentralCache h st cl (int (ByteSizeForClass (sizemap st) cl))) (\<lambda>(r, h', st'). fetched st h cl r h' st')"
proof -
  let ?l = "tc_list h cl" and ?z = "int (ByteSizeForClass (sizemap st) cl)"
  note l = fl_okD [OF tc_coreD(1) [OF core cl]]
  obtain B where B: "0 < B" "B \<le> kMaxDynamicFreeListLength" "num_objects_to_move (sizemap st) cl = int B" "batch st cl = B"
    by (rule batch_pos [OF inv bo cl])
  have m: "max_length_ok B (fl_max_length ?l)" using l(4) B(4) by simp
  define n where "n = min (fl_max_length ?l) B"
  have n: "0 < n" "n \<le> 8192" using m B(1,2) by (auto simp: n_def max_length_ok_def)
  have "min (int32_of_nat (fl_max_length ?l)) (int B) = int n"
    using max_length_bound [OF m B(2)] by (simp add: n_def int32_of_nat_small)
  then have eq: "FetchFromCentralCache h st cl ?z = do { (fetch_count, chain, st') \<leftarrow> RemoveRange st cl n;
      if fetch_count = 0 then Some (None, h, st')
      else (case chain of [] \<Rightarrow> None
            | start # rest \<Rightarrow>
                let fetch_count = int fetch_count - 1;
                    l = grow_max_length (int B) (FL_PushRange ?l fetch_count rest)
                in Some (Some start, (set_list cl l h)\<lparr> tc_size := wrap32 (tc_size h + ?z * fetch_count) \<rparr>, st')) }"
    using n(1) unfolding FetchFromCentralCache_def Let_def B(3) by simp
  show ?thesis
    unfolding eq
  proof (subst wpo_bind, rule wpo_mono [OF RemoveRange_wpo [OF inv cl lv n(1)]], goal_cases)
    case (1 x)
    obtain c ch st' where x: "x = (c, ch, st')" by (cases x)
    with 1 have r: "c = length ch" "c \<le> n" "gave 3 cl ch st st'" "c = 0 \<longrightarrow> no_memory st cl" by simp_all
    have st': "evolves 3 st st'" "sizemap st' = sizemap st" "held st' cl = held st cl \<union> set ch" "\<And>d. d \<noteq> cl \<Longrightarrow> held st' d = held st d"
        "set ch \<inter> held st cl = {}" "distinct ch"
      using r(3) by (simp_all add: gave_def evolves_def)
    show ?case
    proof (cases ch)
      case Nil
      then have hd: "held st' = held st" using st'(3,4) by (intro ext) (metis Un_empty_right list.set(1))
      have "tc_core st' h" using core hd st'(2) by (simp add: tc_core_def fl_ok_def)
      then show ?thesis using x r Nil hd st'(1) by (simp add: fetched_def same_owner_def outside_def fun_eq_iff)
    next
      case (Cons a rest)
      have len: "length rest \<le> kMaxDynamicFreeListLength" using r(1,2) n(2) Cons by simp
      note pr = FL_PushRange_eq [OF l(1) e len]
      let ?l' = "grow_max_length (int B) (?l\<lparr> fl_list := rest, fl_length := length rest \<rparr>)"
      let ?h = "(set_list cl ?l' h)\<lparr> tc_size := wrap32 (tc_size h + ?z * int (length rest)) \<rparr>"
      have "max_length_ok B (fl_max_length ?l')" by (rule grow_max_length_ok [OF _ B(1,2)]) (use m in simp)
      then have ok: "fl_ok st' cl ?l'"
        using l(5) pr(2) st'(3,6) B(4) Cons by (auto simp: fl_ok_def st'(2) synced_def)
      have "tc_core st' ?h"
        by (rule tc_core_upd [OF core cl st'(2,4) ok]) (use e in \<open>simp_all add: algebra_simps\<close>)
      moreover have "outside st' ?h = (outside st h)(cl := insert a (outside st h cl))"
        using st'(3-6) Cons e by (auto simp: fun_eq_iff outside_def)
      moreover have "a \<notin> outside st h cl" using st'(5) Cons by (auto simp: outside_def)
      ultimately have "fetched st h cl (Some a) ?h st'"
        using st'(1) len by (auto simp: fetched_def same_owner_def max_def)
      then show ?thesis using x r(1) Cons pr(1) by (simp add: Let_def algebra_simps)
    qed
  qed
qed

end
