(* ===== verification/ThreadCache_Pool.thy ===== *)
theory ThreadCache_Pool
  imports ThreadCache_Ops
begin

text \<open>
  All thread caches together: the division of the objects among the caches and the application, and the
  division of the overall limit among the caches.
\<close>

section \<open>The objects of the application\<close>

definition others :: "threads \<Rightarrow> addr \<Rightarrow> nat \<Rightarrow> addr set" where
  "others T t cl = {x. \<exists>u g. heaps T u = Some g \<and> u \<noteq> t \<and> x \<in> set (fl_list (tc_list g cl))}"

definition live :: "threads \<Rightarrow> nat \<Rightarrow> addr set" where
  "live T cl = {x \<in> held (cc T) cl. \<forall>t h. heaps T t = Some h \<longrightarrow> x \<notin> set (fl_list (tc_list h cl))}"

abbreviation classes_of :: "threads \<Rightarrow> nat" where
  "classes_of T \<equiv> num_size_classes (sizemap (cc T))"

definition cache_inv :: "threads \<Rightarrow> ThreadCache \<Rightarrow> bool" where
  "cache_inv T h \<longleftrightarrow> tc_core (cc T) h \<and> (\<forall>cl < classes_of T. length (fl_list (tc_list h cl)) \<le> kMaxDynamicFreeListLength)"

definition pool_inv :: "threads \<Rightarrow> bool" where
  "pool_inv T \<longleftrightarrow> cc_inv (cc T) \<and> batches_ok (sizemap (cc T)) \<and> (\<forall>t h. heaps T t = Some h \<longrightarrow> cache_inv T h)
     \<and> (\<forall>t h u g. \<forall>cl < classes_of T. heaps T t = Some h \<and> heaps T u = Some g \<and> t \<noteq> u
          \<longrightarrow> set (fl_list (tc_list h cl)) \<inter> set (fl_list (tc_list g cl)) = {})"

lemma pool_invD:
  assumes "pool_inv T"
  shows "cc_inv (cc T)" "batches_ok (sizemap (cc T))"
    "heaps T t = Some h \<Longrightarrow> tc_core (cc T) h"
    "heaps T t = Some h \<Longrightarrow> cl < classes_of T \<Longrightarrow> length (fl_list (tc_list h cl)) \<le> kMaxDynamicFreeListLength"
    "heaps T t = Some h \<Longrightarrow> heaps T u = Some g \<Longrightarrow> t \<noteq> u \<Longrightarrow> cl < classes_of T
       \<Longrightarrow> set (fl_list (tc_list h cl)) \<inter> set (fl_list (tc_list g cl)) = {}"
  using assms by (auto simp: pool_inv_def cache_inv_def)

lemma list_held:
  assumes "tc_core st h" "cl < num_size_classes (sizemap st)"
  shows "set (fl_list (tc_list h cl)) \<subseteq> held st cl"
  using tc_coreD [OF assms(1)] fl_okD(3) assms(2) by (cases "cl = 0") auto

lemma live_outside: "heaps T t = Some h \<Longrightarrow> live T cl = outside (cc T) h cl - others T t cl"
proof -
  assume t: "heaps T t = Some h"
  have "(\<forall>u g. heaps T u = Some g \<longrightarrow> x \<notin> set (fl_list (tc_list g cl)))
      \<longleftrightarrow> x \<notin> set (fl_list (tc_list h cl)) \<and> x \<notin> others T t cl" for x
    using t unfolding others_def by (auto; metis option.inject)
  then show ?thesis by (auto simp: live_def outside_def)
qed

lemma others_outside:
  assumes "pool_inv T" "heaps T t = Some h" "cl < classes_of T"
  shows "others T t cl \<subseteq> outside (cc T) h cl"
  using pool_invD(5) [OF assms(1) _ assms(2) _ assms(3)] list_held [OF pool_invD(3) [OF assms(1)] assms(3)]
  unfolding others_def outside_def by blast

lemma others_put [simp]: "others (put_cache t h st T) t = others T t"
  by (auto simp: others_def fun_eq_iff)

lemma live_put: "live (put_cache t h st T) cl = outside st h cl - others T t cl"
  using live_outside [of "put_cache t h st T" t h cl] by simp

lemma pool_inv_put:
  assumes inv: "pool_inv T" and t: "heaps T t = Some h0" and st: "cc_inv st" "sizemap st = sizemap (cc T)" and core: "tc_core st h"
    and len: "\<And>cl. cl < classes_of T \<Longrightarrow> length (fl_list (tc_list h cl)) \<le> kMaxDynamicFreeListLength"
    and out: "\<And>cl. cl < classes_of T \<Longrightarrow> others T t cl \<subseteq> outside st h cl"
  shows "pool_inv (put_cache t h st T)"
proof -
  let ?T = "put_cache t h st T"
  have sub: "set (fl_list (tc_list g cl)) \<subseteq> outside st h cl" if "heaps T u = Some g" "u \<noteq> t" "cl < classes_of T" for u g cl
    using out [OF that(3)] that(1,2) unfolding others_def by blast
  have cg: "cache_inv ?T g" if g: "heaps T u = Some g" "u \<noteq> t" for u g
  proof -
    have "fl_ok st cl (tc_list g cl)" if cl: "0 < cl" "cl < classes_of T" for cl
      using fl_ok_held [OF tc_coreD(1) [OF pool_invD(3) [OF inv g(1)] cl] st(2)] sub [OF g cl(2)] unfolding outside_def by blast
    then have "tc_core st g" using pool_invD(3) [OF inv g(1)] st(2) by (simp add: tc_core_def)
    then show ?thesis using pool_invD(4) [OF inv g(1)] st(2) by (simp add: cache_inv_def)
  qed
  have ch: "cache_inv ?T h" using core len st(2) by (simp add: cache_inv_def)
  have dis: "set (fl_list (tc_list h cl)) \<inter> set (fl_list (tc_list g cl)) = {}" if "heaps T u = Some g" "u \<noteq> t" "cl < classes_of T" for u g cl
    using sub [OF that] unfolding outside_def by blast
  show ?thesis
    unfolding pool_inv_def
  proof (intro conjI allI impI, goal_cases)
    case (3 u g)
    then show ?case using ch cg [of u g] by (cases "u = t") auto
  next
    case (4 u g v k cl)
    then show ?case
      using dis [of u g cl] dis [of v k cl] pool_invD(5) [OF inv, of u g v k cl] st(2) by (cases "u = t"; cases "v = t") auto
  qed (use st pool_invD(2) [OF inv] in simp_all)
qed

section \<open>The limits\<close>

definition claimed :: "threads \<Rightarrow> int" where
  "claimed T = (\<Sum>p \<in> dom (heaps T). tc_max_size (the (heaps T p)))"

text \<open>The caches in \<open>X\<close> are in the store and not on the list.\<close>

definition limits_ok :: "addr set \<Rightarrow> threads \<Rightarrow> bool" where
  "limits_ok X T \<longleftrightarrow> distinct (thread_heaps T) \<and> set (thread_heaps T) = dom (heaps T) - X \<and> finite (dom (heaps T)) \<and> 0 \<notin> dom (heaps T)
     \<and> thread_heap_count T = int (length (thread_heaps T))
     \<and> (next_memory_steal T = 0 \<or> next_memory_steal T \<in> set (thread_heaps T))
     \<and> kMinThreadCacheSize \<le> overall_thread_cache_size T \<and> overall_thread_cache_size T \<le> 2 ^ 30
     \<and> unclaimed_cache_space T + claimed T = int (overall_thread_cache_size T)
     \<and> (\<forall>t h. heaps T t = Some h \<longrightarrow> 0 \<le> tc_max_size h \<and> tc_max_size h < 2 ^ 31)"

text \<open>No limit is so close to 2 GB that an increase leaves the range of \<open>int32\<close>.\<close>

definition slack :: "threads \<Rightarrow> bool" where
  "slack T \<longleftrightarrow> (\<forall>t h. heaps T t = Some h \<longrightarrow> tc_max_size h + int kStealAmount < 2 ^ 31)"

text \<open>What only the creation and destruction of caches and the threads themselves change.\<close>

abbreviation same_locals :: "threads \<Rightarrow> threads \<Rightarrow> bool" where
  "same_locals T T' \<equiv> tsd_inited T' = tsd_inited T \<and> threadlocal_data T' = threadlocal_data T \<and> sampling T' = sampling T"

definition adjusted :: "threads \<Rightarrow> threads \<Rightarrow> bool" where
  "adjusted T T' \<longleftrightarrow> cc T' = cc T \<and> thread_heaps T' = thread_heaps T \<and> threadcache_allocator T' = threadcache_allocator T
     \<and> same_locals T T'
     \<and> (\<forall>t. rel_option (\<lambda>h h'. tc_list h' = tc_list h \<and> tc_size h' = tc_size h) (heaps T t) (heaps T' t))"

lemma adjusted_refl: "adjusted T T"
  by (simp add: adjusted_def option.rel_refl)

lemma adjusted_trans: "adjusted T T1 \<Longrightarrow> adjusted T1 T2 \<Longrightarrow> adjusted T T2"
proof -
  assume a: "adjusted T T1" "adjusted T1 T2"
  have "rel_option (\<lambda>h h'. tc_list h' = tc_list h \<and> tc_size h' = tc_size h) (heaps T t) (heaps T2 t)" for t
    using a unfolding adjusted_def by (cases "heaps T t"; cases "heaps T1 t"; cases "heaps T2 t") (force dest: spec [of _ t])+
  then show ?thesis using a by (simp add: adjusted_def)
qed

lemma adjustedD: "adjusted T T' \<Longrightarrow> rel_option (\<lambda>h h'. tc_list h' = tc_list h \<and> tc_size h' = tc_size h) (heaps T t) (heaps T' t)"
  by (simp add: adjusted_def)

lemma adjusted_heap: "adjusted T T' \<Longrightarrow> heaps T t = Some h \<Longrightarrow> \<exists>h'. heaps T' t = Some h' \<and> tc_list h' = tc_list h \<and> tc_size h' = tc_size h"
  using adjustedD [of T T' t] by (cases "heaps T' t") simp_all

lemma adjusted_heap': "adjusted T T' \<Longrightarrow> heaps T' t = Some h' \<Longrightarrow> \<exists>h. heaps T t = Some h \<and> tc_list h' = tc_list h \<and> tc_size h' = tc_size h"
  using adjustedD [of T T' t] by (cases "heaps T t") simp_all

lemma adjusted_dom: "adjusted T T' \<Longrightarrow> dom (heaps T') = dom (heaps T)"
  using adjusted_heap adjusted_heap' by blast

lemma adjusted_core: "tc_list h' = tc_list h \<Longrightarrow> tc_size h' = tc_size h \<Longrightarrow> tc_core st h' = tc_core st h"
  by (simp add: tc_core_def cached_bytes_def)

lemma adjusted_pool:
  assumes inv: "pool_inv T" and a: "adjusted T T'"
  shows "pool_inv T'" "live T' = live T"
proof -
  have c: "cc T' = cc T" using a by (simp add: adjusted_def)
  show "pool_inv T'"
    unfolding pool_inv_def c
  proof (intro conjI allI impI, goal_cases)
    case (3 t h')
    from adjusted_heap' [OF a this] obtain h where h: "heaps T t = Some h" "tc_list h' = tc_list h" "tc_size h' = tc_size h" by blast
    then show ?case using inv adjusted_core [OF h(2,3)] by (auto simp: pool_inv_def cache_inv_def c)
  next
    case (4 t h' u g' cl)
    from 4 obtain h g where "heaps T t = Some h" "tc_list h' = tc_list h" "heaps T u = Some g" "tc_list g' = tc_list g"
      using adjusted_heap' [OF a, of t h'] adjusted_heap' [OF a, of u g'] by blast
    then show ?case using pool_invD(5) [OF inv, of t h u g cl] 4 by simp
  qed (use pool_invD [OF inv] in simp_all)
  have "(\<forall>t h. heaps T' t = Some h \<longrightarrow> x \<notin> set (fl_list (tc_list h cl))) = (\<forall>t h. heaps T t = Some h \<longrightarrow> x \<notin> set (fl_list (tc_list h cl)))" for x cl
    using adjusted_heap [OF a] adjusted_heap' [OF a] by metis
  then show "live T' = live T" by (simp add: live_def c fun_eq_iff)
qed

lemma claimed_upd:
  assumes "finite (dom (heaps T))" "heaps T t = Some h" "heaps T' = (heaps T)(t \<mapsto> h')"
  shows "claimed T' = claimed T + tc_max_size h' - tc_max_size h"
proof -
  let ?D = "dom (heaps T)"
  have D: "dom (heaps T') = ?D" "t \<in> ?D" using assms(2,3) by auto
  have "claimed T' = tc_max_size (the (heaps T' t)) + (\<Sum>p \<in> ?D - {t}. tc_max_size (the (heaps T' p)))"
    unfolding claimed_def D(1) by (rule sum.remove [OF assms(1) D(2)])
  also have "(\<Sum>p \<in> ?D - {t}. tc_max_size (the (heaps T' p))) = (\<Sum>p \<in> ?D - {t}. tc_max_size (the (heaps T p)))"
    using assms(3) by (intro sum.cong) auto
  finally have "claimed T' = tc_max_size h' + (\<Sum>p \<in> ?D - {t}. tc_max_size (the (heaps T p)))" using assms(3) by simp
  moreover have "claimed T = tc_max_size h + (\<Sum>p \<in> ?D - {t}. tc_max_size (the (heaps T p)))"
    using sum.remove [OF assms(1) D(2), of "\<lambda>p. tc_max_size (the (heaps T p))"] assms(2) by (simp add: claimed_def)
  ultimately show ?thesis by simp
qed

lemma next_heap_mem: "next_heap xs p = 0 \<or> next_heap xs p \<in> set xs"
proof (induction xs)
  case (Cons x xs)
  then show ?case by (cases xs) auto
qed simp

text \<open>A change of one limit, with the unclaimed space.\<close>

lemma limits_upd:
  assumes ok: "limits_ok X T" and t: "heaps T t = Some h" and m: "0 \<le> m" "m < 2 ^ 31"
    and T': "heaps T' = (heaps T)(t \<mapsto> SetMaxSize m h)" "thread_heaps T' = thread_heaps T" "thread_heap_count T' = thread_heap_count T"
      "overall_thread_cache_size T' = overall_thread_cache_size T" "next_memory_steal T' = 0 \<or> next_memory_steal T' \<in> set (thread_heaps T)"
      "unclaimed_cache_space T' + m = unclaimed_cache_space T + tc_max_size h"
  shows "limits_ok X T'"
proof -
  have w: "tc_max_size (SetMaxSize m h) = m" using m by (simp add: SetMaxSize_def wrap32_id)
  have d: "dom (heaps T') = dom (heaps T)" using t T'(1) by auto
  have "finite (dom (heaps T))" using ok by (simp add: limits_ok_def)
  from claimed_upd [OF this t T'(1)] have "claimed T' = claimed T + m - tc_max_size h" unfolding w .
  moreover have "\<forall>u g. heaps T' u = Some g \<longrightarrow> 0 \<le> tc_max_size g \<and> tc_max_size g < 2 ^ 31"
    using ok m w T'(1) by (simp add: limits_ok_def)
  ultimately show ?thesis using ok T' d by (simp add: limits_ok_def)
qed

lemma adjusted_upd:
  assumes "heaps T t = Some h" "heaps T' = (heaps T)(t \<mapsto> SetMaxSize m h)" "cc T' = cc T" "thread_heaps T' = thread_heaps T"
    "threadcache_allocator T' = threadcache_allocator T" "same_locals T T'"
  shows "adjusted T T'"
  using assms by (auto simp: adjusted_def SetMaxSize_def option.rel_refl)

end
