(* ===== verification/ThreadCache_Steps.thy ===== *)
theory ThreadCache_Steps
  imports ThreadCache_Pool
begin

text \<open>
  The operations on all thread caches: what each does to the objects of the application and to the limits.
\<close>

section \<open>Raising a limit\<close>

lemma limits_okD:
  assumes "limits_ok X T"
  shows "distinct (thread_heaps T)" "set (thread_heaps T) = dom (heaps T) - X" "finite (dom (heaps T))" "0 \<notin> dom (heaps T)"
    "next_memory_steal T = 0 \<or> next_memory_steal T \<in> set (thread_heaps T)"
    "unclaimed_cache_space T + claimed T = int (overall_thread_cache_size T)"
    "heaps T t = Some h \<Longrightarrow> 0 \<le> tc_max_size h \<and> tc_max_size h < 2 ^ 31"
    "kMinThreadCacheSize \<le> overall_thread_cache_size T"
  using assms unfolding limits_ok_def by blast+

lemma limits_next:
  assumes "limits_ok X T" "p = 0 \<or> p \<in> set (thread_heaps T)"
  shows "limits_ok X (T\<lparr> next_memory_steal := p \<rparr>)"
  using assms by (simp add: limits_ok_def claimed_def)

lemma slack_next [simp]: "slack (T\<lparr> next_memory_steal := p \<rparr>) = slack T"
  by (simp add: slack_def)

lemma adjusted_next: "adjusted T (T\<lparr> next_memory_steal := p \<rparr>)"
  by (simp add: adjusted_def option.rel_refl)

definition raised :: "addr set \<Rightarrow> addr \<Rightarrow> threads \<Rightarrow> threads \<Rightarrow> bool" where
  "raised X t T T' \<longleftrightarrow> limits_ok X T' \<and> adjusted T T' \<and> thread_heap_count T' = thread_heap_count T
     \<and> tc_max_size (the (heaps T' t)) \<in> {tc_max_size (the (heaps T t)), tc_max_size (the (heaps T t)) + int kStealAmount}"

lemma raised_next: "raised X t (T\<lparr> next_memory_steal := p \<rparr>) T' \<Longrightarrow> raised X t T T'"
  using adjusted_trans [OF adjusted_next] by (auto simp: raised_def)

lemma steal_from:
  assumes ok: "limits_ok X T" and sl: "slack T" and t: "heaps T t = Some ht" and v: "heaps T v = Some hv" "v \<noteq> t"
    and big: "kMinThreadCacheSize < size_t_of_int (tc_max_size hv)"
  defines "T1 \<equiv> upd_cache v (SetMaxSize (tc_max_size hv - int kStealAmount)) T"
  shows "raised X t T (upd_cache t (SetMaxSize (tc_max_size ht + int kStealAmount)) T1)"
proof -
  note lt = limits_okD(7) [OF ok t] and lv = limits_okD(7) [OF ok v(1)]
  have st: "tc_max_size ht + int kStealAmount < 2 ^ 31" using sl t unfolding slack_def by blast
  have big': "524288 < tc_max_size hv" using big lv by (simp add: size_t_of_int_nonneg)
  let ?hv = "SetMaxSize (tc_max_size hv - int kStealAmount) hv"
  let ?T2 = "upd_cache t (SetMaxSize (tc_max_size ht + int kStealAmount)) T1"
  \<comment> \<open>pass through a state where the space is unclaimed\<close>
  let ?U = "T1\<lparr> unclaimed_cache_space := unclaimed_cache_space T + int kStealAmount \<rparr>"
  have U: "limits_ok X ?U"
    by (rule limits_upd [OF ok v(1), of "tc_max_size hv - int kStealAmount"])
      (use big' lv v limits_okD(5) [OF ok] in \<open>simp_all add: T1_def\<close>)
  have t1: "heaps ?U t = Some ht" using v(2) t by (simp add: T1_def)
  have L: "limits_ok X ?T2"
    by (rule limits_upd [OF U t1, of "tc_max_size ht + int kStealAmount"])
      (use lt st t1 limits_okD(5) [OF ok] in \<open>simp_all add: T1_def\<close>)
  have "adjusted T T1" by (rule adjusted_upd [OF v(1)]) (use v in \<open>simp_all add: T1_def\<close>)
  moreover have "adjusted T1 ?T2" by (rule adjusted_upd [of _ t ht]) (use t1 in simp_all)
  ultimately have A: "adjusted T ?T2" by (rule adjusted_trans)
  have "tc_max_size (the (heaps ?T2 t)) = tc_max_size ht + int kStealAmount"
    using t1 lt st by (simp add: SetMaxSize_def wrap32_id)
  with L A t show ?thesis by (simp add: raised_def T1_def)
qed

lemma steal_loop_raises:
  assumes "limits_ok X T" "slack T" "heaps T t = Some ht" "thread_heaps T \<noteq> []"
  shows "\<exists>T'. steal_loop i T t = Some T' \<and> raised X t T T'"
  using assms
proof (induction i arbitrary: T)
  case 0
  then show ?case by (auto simp: raised_def adjusted_refl)
next
  case (Suc i)
  obtain p ps where ps: "thread_heaps T = p # ps" using Suc.prems(4) by (cases "thread_heaps T") auto
  define v where "v = (if next_memory_steal T = 0 then p else next_memory_steal T)"
  have v: "v \<in> set (thread_heaps T)" using limits_okD(5) [OF Suc.prems(1)] ps by (auto simp: v_def)
  then obtain hv where hv: "heaps T v = Some hv" using limits_okD(2) [OF Suc.prems(1)] by auto
  define T1 where "T1 = T\<lparr> next_memory_steal := next_heap (thread_heaps T) v \<rparr>"
  have T1: "limits_ok X T1" "slack T1" "heaps T1 t = Some ht" "thread_heaps T1 \<noteq> []" "heaps T1 = heaps T"
    using limits_next [OF Suc.prems(1) next_heap_mem] Suc.prems(2-4) by (simp_all add: T1_def)
  define T0 where "T0 = (if next_memory_steal T = 0
      then T\<lparr> next_memory_steal := (case thread_heaps T of [] \<Rightarrow> 0 | p # _ \<Rightarrow> p) \<rparr> else T)"
  have T0: "next_memory_steal T0 = v" "heaps T0 = heaps T" "thread_heaps T0 = thread_heaps T"
      "T0\<lparr> next_memory_steal := x \<rparr> = T\<lparr> next_memory_steal := x \<rparr>" for x
    using ps by (auto simp: T0_def v_def)
  have eq: "steal_loop (Suc i) T t =
      (if v = t \<or> size_t_of_int (tc_max_size hv) \<le> kMinThreadCacheSize then steal_loop i T1 t
       else do { ht \<leftarrow> heaps (upd_cache v (SetMaxSize (tc_max_size hv - int kStealAmount)) T1) t;
                 Some (upd_cache t (SetMaxSize (tc_max_size ht + int kStealAmount))
                        (upd_cache v (SetMaxSize (tc_max_size hv - int kStealAmount)) T1)) })"
    unfolding steal_loop.simps Let_def T0_def [symmetric] T0 T1_def [symmetric] hv bind.bind_lunit by (rule refl)
  have r: "raised X t T1 T' \<Longrightarrow> raised X t T T'" for T' unfolding T1_def by (rule raised_next)
  show ?case
  proof (cases "v = t \<or> size_t_of_int (tc_max_size hv) \<le> kMinThreadCacheSize")
    case True
    then show ?thesis using Suc.IH [OF T1(1-4)] r eq by auto
  next
    case False
    have "raised X t T1 (upd_cache t (SetMaxSize (tc_max_size ht + int kStealAmount))
        (upd_cache v (SetMaxSize (tc_max_size hv - int kStealAmount)) T1))"
      by (rule steal_from [OF T1(1,2,3)]) (use False hv T1(5) in auto)
    moreover have "heaps (upd_cache v (SetMaxSize (tc_max_size hv - int kStealAmount)) T1) t = Some ht"
      using False T1(3) by simp
    ultimately show ?thesis using r False unfolding eq by (auto simp del: kStealAmount_def)
  qed
qed

lemma IncreaseCacheLimitLocked_raises:
  assumes ok: "limits_ok X T" and sl: "slack T" and t: "heaps T t = Some h" and ne: "thread_heaps T \<noteq> [] \<or> unclaimed_cache_space T > 0"
  shows "\<exists>T'. IncreaseCacheLimitLocked T t = Some T' \<and> raised X t T T'"
proof (cases "unclaimed_cache_space T > 0")
  case True
  let ?T' = "upd_cache t (SetMaxSize (tc_max_size h + int kStealAmount)) (T\<lparr> unclaimed_cache_space := unclaimed_cache_space T - int kStealAmount \<rparr>)"
  note l = limits_okD(7) [OF ok t]
  have st: "tc_max_size h + int kStealAmount < 2 ^ 31" using sl t unfolding slack_def by blast
  have "limits_ok X ?T'"
    by (rule limits_upd [OF ok t, of "tc_max_size h + int kStealAmount"]) (use l st t limits_okD(5) [OF ok] in simp_all)
  moreover have "adjusted T ?T'" by (rule adjusted_upd [OF t]) (use t in simp_all)
  moreover have "tc_max_size (the (heaps ?T' t)) = tc_max_size h + int kStealAmount" using t l st by (simp add: SetMaxSize_def wrap32_id)
  ultimately have "raised X t T ?T'" using t by (simp add: raised_def)
  then show ?thesis using True t by (simp add: IncreaseCacheLimitLocked_def)
next
  case False
  then show ?thesis using steal_loop_raises [OF ok sl t] ne by (simp add: IncreaseCacheLimitLocked_def)
qed

section \<open>Deallocation\<close>

definition stepped :: "nat \<Rightarrow> threads \<Rightarrow> threads \<Rightarrow> (nat \<Rightarrow> addr set) \<Rightarrow> bool" where
  "stepped k T T' L \<longleftrightarrow> pool_inv T' \<and> limits_ok {} T' \<and> evolves k (cc T) (cc T') \<and> thread_heaps T' = thread_heaps T
     \<and> threadcache_allocator T' = threadcache_allocator T \<and> same_locals T T'
     \<and> (\<forall>cl < classes_of T. live T' cl = L cl)"

lemma limits_put:
  assumes "limits_ok X T" "heaps T t = Some h" "tc_max_size h' = tc_max_size h"
  shows "limits_ok X (put_cache t h' st T)"
proof -
  have "claimed (put_cache t h' st T) = claimed T"
    using claimed_upd [OF limits_okD(3) [OF assms(1)] assms(2), of "put_cache t h' st T" h'] assms(3) by simp
  moreover have "dom (heaps (put_cache t h' st T)) = dom (heaps T)" using assms(2) by auto
  moreover have "\<forall>u g. heaps (put_cache t h' st T) u = Some g \<longrightarrow> 0 \<le> tc_max_size g \<and> tc_max_size g < 2 ^ 31"
    using assms by (simp add: limits_ok_def)
  ultimately show ?thesis using assms(1) by (auto simp: limits_ok_def)
qed

lemma slack_put: "slack T \<Longrightarrow> heaps T t = Some h \<Longrightarrow> tc_max_size h' = tc_max_size h \<Longrightarrow> slack (put_cache t h' st T)"
  by (simp add: slack_def)

text \<open>A cache that passes objects to the central lists, seen from outside.\<close>

lemma passes_put:
  assumes inv: "pool_inv T" and t: "heaps T t = Some h0" and p: "passes st h st' h'"
    and st: "sizemap st = sizemap (cc T)"
    and len: "\<And>cl. cl < classes_of T \<Longrightarrow> length (fl_list (tc_list h' cl)) \<le> kMaxDynamicFreeListLength"
    and out: "\<And>cl. cl < classes_of T \<Longrightarrow> others T t cl \<subseteq> outside st h cl"
  shows "pool_inv (put_cache t h' st' T)" "live (put_cache t h' st' T) cl = outside st h cl - others T t cl"
proof -
  show "pool_inv (put_cache t h' st' T)"
    by (rule pool_inv_put [OF inv t passesD(1) [OF p] _ passesD(3) [OF p]])
      (use passesD(2,5) [OF p] len out st in auto)
  show "live (put_cache t h' st' T) cl = outside st h cl - others T t cl"
    unfolding live_put passesD(5) [OF p] ..
qed

lemma Scavenge_wpo:
  assumes inv: "pool_inv T" and ok: "limits_ok {} T" and sl: "slack T" and t: "heaps T t = Some h" and lv: "lively b k (pageheap (cc T))"
  shows "wpo b (Scavenge T t) (\<lambda>T'. stepped 0 T T' (live T))"
proof -
  note i = pool_invD [OF inv]
  have bnd: "\<forall>cl \<in> set [0 ..< classes_of T]. cl < classes_of T" by simp
  have eq: "Scavenge T t = do { (h', st') \<leftarrow> scavenge_classes [0 ..< classes_of T] h (cc T); IncreaseCacheLimitLocked (put_cache t h' st' T) t }"
    using t by (simp add: Scavenge_def)
  show ?thesis
    unfolding eq
  proof (subst wpo_bind, rule wpo_mono [OF scavenge_classes_wpo [OF i(1,2) i(3) [OF t] bnd lv]], goal_cases)
    case (1 x)
    obtain h' st' where x: "x = (h', st')" by (cases x)
    with 1 have p: "passes (cc T) h st' h'" by simp
    let ?T = "put_cache t h' st' T"
    have ms: "tc_max_size h' = tc_max_size h" using p by (simp add: passes_def same_owner_def)
    note pp = passes_put [OF inv t p refl order_trans [OF passesD(6) [OF p] i(4) [OF t]] others_outside [OF inv t]]
    have ne: "thread_heaps ?T \<noteq> [] \<or> unclaimed_cache_space ?T > 0" using limits_okD(2) [OF ok] t by auto
    obtain T' where T': "IncreaseCacheLimitLocked ?T t = Some T'" "raised {} t ?T T'"
      using IncreaseCacheLimitLocked_raises [OF limits_put [OF ok t ms] slack_put [OF sl t ms] _ ne, of t h'] by auto
    have a: "adjusted ?T T'" "limits_ok {} T'" using T'(2) by (simp_all add: raised_def)
    note ap = adjusted_pool [OF pp(1) a(1)]
    have "live T' cl = live T cl" if "cl < classes_of T" for cl
      using live_outside [OF t, of cl] pp(2) [of cl] by (simp only: ap(2))
    then show ?case using x T'(1) ap(1) a passesD(4) [OF p] by (simp add: stepped_def adjusted_def)
  qed
qed

lemma stepped_trans: "stepped j T T1 L \<Longrightarrow> stepped k T1 T2 (live T1) \<Longrightarrow> stepped (j + k) T T2 L"
  using evolves_trans [of j "cc T" "cc T1" k "cc T2"] evolvesD(2) [of j "cc T" "cc T1"] by (auto simp: stepped_def)

text \<open>The object that is given back, on its list.\<close>

definition pushed :: "addr \<Rightarrow> FreeList \<Rightarrow> FreeList" where
  "pushed x l = l\<lparr> fl_list := x # fl_list l, fl_length := fl_length l + 1 \<rparr>"

lemma FL_Push_eq: "synced l \<Longrightarrow> FL_Push l x = (fl_length l + 1, pushed x l)"
  by (simp add: FL_Push_def pushed_def synced_def)

lemma push_core:
  assumes inv: "pool_inv T" and t: "heaps T t = Some h" and cl: "0 < cl" "cl < classes_of T" and x: "x \<in> live T cl"
  defines "h2 \<equiv> (set_list cl (pushed x (tc_list h cl)) h)\<lparr> tc_size := wrap32 (tc_size h + object_size (tc_list h cl)) \<rparr>"
  shows "tc_core (cc T) h2" "d < classes_of T \<Longrightarrow> others T t d \<subseteq> outside (cc T) h2 d"
    "outside (cc T) h2 d - others T t d = ((live T)(cl := live T cl - {x})) d" "same_owner h h2"
proof -
  let ?l = "tc_list h cl"
  note i = pool_invD [OF inv]
  note l = fl_okD [OF tc_coreD(1) [OF i(3) [OF t] cl]]
  have xh: "x \<in> held (cc T) cl" "x \<notin> set (fl_list ?l)" "x \<notin> others T t cl"
    using x unfolding live_outside [OF t] outside_def by blast+
  have len: "length (fl_list ?l) \<le> 8192" using i(4) [OF t cl(2)] by simp
  have ok: "fl_ok (cc T) cl (pushed x ?l)"
    using l xh(1,2) len by (auto simp: fl_ok_def pushed_def synced_def)
  show "tc_core (cc T) h2"
    by (rule tc_core_upd [OF i(3) [OF t] cl refl refl ok]) (simp_all add: h2_def l(5) pushed_def algebra_simps)
  have o: "outside (cc T) h2 d = (if d = cl then outside (cc T) h cl - {x} else outside (cc T) h d)" for d
    by (auto simp: h2_def outside_def pushed_def)
  show "d < classes_of T \<Longrightarrow> others T t d \<subseteq> outside (cc T) h2 d"
    using others_outside [OF inv t, of d] xh(3) unfolding o by auto
  show "outside (cc T) h2 d - others T t d = ((live T)(cl := live T cl - {x})) d"
    using live_outside [OF t] unfolding o by auto
  show "same_owner h h2" by (simp add: same_owner_def h2_def)
qed

text \<open>The end of a deallocation, with or without scavenging.\<close>

lemma scavenge_if_wpo:
  assumes inv: "pool_inv T" and ok: "limits_ok {} T" and sl: "slack T" and t: "heaps T t = Some h0" and lv: "lively b k (pageheap (cc T))"
    and p: "passes (cc T) h2 st' h'" and so: "same_owner h0 h2"
    and len: "\<And>cl. cl < classes_of T \<Longrightarrow> length (fl_list (tc_list h' cl)) \<le> kMaxDynamicFreeListLength"
    and out: "\<And>cl. cl < classes_of T \<Longrightarrow> others T t cl \<subseteq> outside (cc T) h2 cl"
    and L: "\<And>d. outside (cc T) h2 d - others T t d = L d"
  shows "wpo b (if c then Scavenge (put_cache t h' st' T) t else Some (put_cache t h' st' T)) (\<lambda>T'. stepped 0 T T' L)"
proof -
  let ?T = "put_cache t h' st' T"
  have ms: "tc_max_size h' = tc_max_size h0" using p so by (simp add: passes_def same_owner_def)
  note pp = passes_put [OF inv t p refl len out]
  have s: "stepped 0 T ?T L"
    using pp L limits_put [OF ok t ms] passesD(4) [OF p] by (simp add: stepped_def)
  have "wpo b (Scavenge ?T t) (\<lambda>T'. stepped 0 ?T T' (live ?T))"
    by (rule Scavenge_wpo [OF pp(1) limits_put [OF ok t ms] slack_put [OF sl t ms], where h = h'])
      (use passes_lively [OF p lv] in simp_all)
  then show ?thesis using s stepped_trans [OF s] by (auto elim!: wpo_mono)
qed

lemma Deallocate_wpo:
  assumes inv: "pool_inv T" and ok: "limits_ok {} T" and sl: "slack T" and t: "heaps T t = Some h" and lv: "lively b k (pageheap (cc T))"
    and cl: "0 < cl" "cl < classes_of T" and x: "x \<in> live T cl"
  shows "wpo b (Deallocate T t x cl) (\<lambda>T'. stepped 0 T T' ((live T)(cl := live T cl - {x})))"
proof -
  let ?l = "tc_list h cl" and ?L = "(live T)(cl := live T cl - {x})"
  note i = pool_invD [OF inv]
  note l = fl_okD [OF tc_coreD(1) [OF i(3) [OF t] cl]]
  define h1 where "h1 = set_list cl (pushed x ?l) h"
  define h2 where "h2 = h1\<lparr> tc_size := wrap32 (tc_size h + object_size ?l) \<rparr>"
  note pc = push_core [OF inv t cl x, folded h1_def, folded h2_def]
  have lp: "object_size (pushed x ?l) = object_size ?l" "fl_max_length (pushed x ?l) = fl_max_length ?l" by (simp_all add: pushed_def)
  have len2: "length (fl_list (tc_list h2 d)) \<le> 8192 + (if d = cl then 1 else 0)" if "d < classes_of T" for d
    using i(4) [OF t that] by (auto simp: h2_def h1_def pushed_def)
  show ?thesis
  proof (cases "fl_length ?l + 1 > fl_max_length ?l")
    case False
    have p: "passes (cc T) h2 (cc T) h2" by (rule passes_refl [OF i(1) pc(1)])
    have "length (fl_list (tc_list h2 d)) \<le> kMaxDynamicFreeListLength" if "d < classes_of T" for d
    proof (cases "d = cl")
      case True
      obtain B where B: "B \<le> kMaxDynamicFreeListLength" "batch (cc T) cl = B" by (rule batch_pos [OF i(1,2) cl])
      have "fl_max_length ?l \<le> kMaxDynamicFreeListLength" using max_length_bound [OF l(4)] B by simp
      then show ?thesis using False l(6) True by (simp add: h2_def h1_def pushed_def)
    qed (use len2 [OF that] in simp)
    note sc = scavenge_if_wpo [OF inv ok sl t lv p pc(4) this pc(2,3)]
    have eq: "Deallocate T t x cl = (if tc_size h2 > tc_max_size h2 then Scavenge (put_cache t h2 (cc T) T) t else Some (put_cache t h2 (cc T) T))"
      using t False by (simp add: Deallocate_def FL_Push_eq [OF l(1)] lp h2_def h1_def Let_def)
    show ?thesis unfolding eq by (rule sc)
  next
    case True
    obtain B where B: "0 < B" "B \<le> kMaxDynamicFreeListLength" "num_objects_to_move (sizemap (cc T)) cl = int B" "batch (cc T) cl = B"
      by (rule batch_pos [OF i(1,2) cl])
    have N: "0 \<le> int B" "int B < 2 ^ 31" using B(2) by simp_all
    have eq: "Deallocate T t x cl = do { (h', st') \<leftarrow> ReleaseToCentralCache h2 (cc T) cl (int B);
        if tc_size h' > tc_max_size h'
        then Scavenge (put_cache t (set_list cl (adapt_max_length (int B) (tc_list h' cl)) h') st' T) t
        else Some (put_cache t (set_list cl (adapt_max_length (int B) (tc_list h' cl)) h') st' T) }"
      using t True by (simp add: Deallocate_def ListTooLong_def FL_Push_eq [OF l(1)] lp h2_def h1_def Let_def B(3) cong: if_cong)
    show ?thesis
      unfolding eq
    proof (subst wpo_bind, rule wpo_mono [OF ReleaseToCentralCache_wpo [OF i(1) pc(1) cl lv N]], goal_cases)
      case (1 y)
      obtain h' st' where y: "y = (h', st')" by (cases y)
      let ?h = "set_list cl (adapt_max_length (int B) (tc_list h' cl)) h'"
      have p: "passes (cc T) h2 st' h'" and tl: "tc_list h' = (tc_list h2)(cl := popped (min B (length (fl_list (tc_list h2 cl)))) (tc_list h2 cl))"
        using 1 y by simp_all
      have ok': "fl_ok st' cl (tc_list h' cl)" using tc_coreD(1) [OF passesD(3) [OF p] cl(1)] cl(2) passesD(2) [OF p] by simp
      have "passes (cc T) h2 st' ?h"
        by (rule passes_list [OF p])
          (use adapt_max_length_ok [OF _ B(1,2), of "tc_list h' cl"] fl_okD(1,4) [OF ok'] B(4) in
            \<open>simp_all add: passesD(2) [OF p] synced_def\<close>)
      moreover have "length (fl_list (tc_list ?h d)) \<le> kMaxDynamicFreeListLength" if "d < classes_of T" for d
        using len2 [OF that] tl B(1) by (auto simp: min_def)
      ultimately show ?case
        using scavenge_if_wpo [OF inv ok sl t lv _ pc(4) _ pc(2,3), of st' ?h "tc_size h' > tc_max_size h'"] unfolding y prod.case by blast
    qed
  qed
qed

section \<open>Allocation\<close>

lemma Allocate_wpo:
  assumes inv: "pool_inv T" and ok: "limits_ok {} T" and t: "heaps T t = Some h" and lv: "lively b 3 (pageheap (cc T))"
    and cl: "0 < cl" "cl < classes_of T"
  shows "wpo b (Allocate T t (ByteSizeForClass (sizemap (cc T)) cl) cl)
    (\<lambda>(r, T'). case r of None \<Rightarrow> stepped 3 T T' (live T) \<and> no_memory (cc T) cl
      | Some x \<Rightarrow> x \<notin> live T cl \<and> stepped 3 T T' ((live T)(cl := insert x (live T cl))))"
proof -
  let ?l = "tc_list h cl" and ?z = "ByteSizeForClass (sizemap (cc T)) cl"
  note i = pool_invD [OF inv]
  note l = fl_okD [OF tc_coreD(1) [OF i(3) [OF t] cl]]
  have "?z \<le> kMaxSize" using i(2) cl unfolding batches_ok_def by blast
  then have z: "int32_of_nat ?z = int ?z" by (simp add: int32_of_nat_small)
  show ?thesis
  proof (cases "fl_list ?l")
    case (Cons x xs)
    let ?h = "(set_list cl (popped 1 ?l) h)\<lparr> tc_size := wrap32 (tc_size h - int ?z) \<rparr>"
    have eq: "Allocate T t ?z cl = Some (Some x, put_cache t ?h (cc T) T)"
      using t Cons by (simp add: Allocate_def FL_TryPop_eq [OF l(1)])
    have "fl_ok (cc T) cl (popped 1 ?l)"
      using l synced_popped [OF l(1), of 1] Cons by (auto simp: fl_ok_def)
    then have core: "tc_core (cc T) ?h"
      by (rule tc_core_upd [OF i(3) [OF t] cl refl refl]) (use Cons in \<open>simp_all add: algebra_simps\<close>)
    have out: "outside (cc T) ?h = (outside (cc T) h)(cl := insert x (outside (cc T) h cl))"
      using Cons l(2,3) by (auto simp: fun_eq_iff outside_def)
    have x: "x \<notin> outside (cc T) h cl" "x \<notin> others T t cl"
      using Cons others_outside [OF inv t cl(2)] by (auto simp: outside_def)
    have P: "pool_inv (put_cache t ?h (cc T) T)"
    proof (rule pool_inv_put [OF inv t i(1) refl core])
      fix d assume d: "d < classes_of T"
      show "length (fl_list (tc_list ?h d)) \<le> kMaxDynamicFreeListLength"
        using i(4) [OF t d] by (cases "d = cl") (simp_all add: le_diff_conv)
      show "others T t d \<subseteq> outside (cc T) ?h d" using others_outside [OF inv t d] unfolding out by auto
    qed
    have "live (put_cache t ?h (cc T) T) d = ((live T)(cl := insert x (live T cl))) d" for d
      using x live_outside [OF t] unfolding live_put out by auto
    then have "stepped 3 T (put_cache t ?h (cc T) T) ((live T)(cl := insert x (live T cl)))"
      using P limits_put [OF ok t, of ?h "cc T"] evolves_refl [OF i(1)] by (simp add: stepped_def evolves_def)
    then show ?thesis using x live_outside [OF t, of cl] by (simp add: eq)
  next
    case Nil
    have eq: "Allocate T t ?z cl = do { (r, h', st') \<leftarrow> FetchFromCentralCache h (cc T) cl (int ?z); Some (r, put_cache t h' st' T) }"
      using t Nil z by (simp add: Allocate_def FL_TryPop_eq [OF l(1)])
    show ?thesis
      unfolding eq
    proof (subst wpo_bind, rule wpo_mono [OF FetchFromCentralCache_wpo [OF i(1,2) i(3) [OF t] cl Nil lv]], goal_cases)
      case (1 y)
      obtain r h' st' where y: "y = (r, h', st')" by (cases y)
      with 1 have f: "fetched (cc T) h cl r h' st'" by simp
      let ?T = "put_cache t h' st' T"
      define O' where "O' = outside st' h'"
      have fs: "evolves 3 (cc T) st'" "tc_core st' h'" "tc_max_size h' = tc_max_size h"
          "\<And>d. length (fl_list (tc_list h' d)) \<le> max kMaxDynamicFreeListLength (length (fl_list (tc_list h d)))"
        using f by (simp_all add: fetched_def same_owner_def)
      have sub: "outside (cc T) h d \<subseteq> outside st' h' d" for d using f by (auto simp: fetched_def split: option.splits)
      have P: "pool_inv ?T"
      proof (rule pool_inv_put [OF inv t evolvesD(1,2) [OF fs(1)] fs(2)])
        fix d assume d: "d < classes_of T"
        show "length (fl_list (tc_list h' d)) \<le> kMaxDynamicFreeListLength" using fs(4) [of d] i(4) [OF t d] by (metis max_absorb1)
        show "others T t d \<subseteq> outside st' h' d" using others_outside [OF inv t d] sub by blast
      qed
      have S: "stepped 3 T ?T L" if "\<And>d. outside st' h' d - others T t d = L d" for L
        using P limits_put [OF ok t fs(3)] fs(1) that by (simp add: stepped_def live_put)
      show ?case
      proof (cases r)
        case None
        then show ?thesis using f S [of "live T"] live_outside [OF t] by (simp add: y fetched_def)
      next
        case (Some x)
        then have x: "x \<notin> outside (cc T) h cl" "outside st' h' = (outside (cc T) h)(cl := insert x (outside (cc T) h cl))"
          using f by (simp_all add: fetched_def)
        have "x \<notin> others T t cl" using x(1) others_outside [OF inv t cl(2)] by blast
        then have "outside st' h' d - others T t d = ((live T)(cl := insert x (live T cl))) d" for d
          using live_outside [OF t] unfolding x(2) by auto
        then have "stepped 3 T ?T ((live T)(cl := insert x (live T cl)))" by (rule S)
        moreover have "x \<notin> live T cl" using x(1) unfolding live_outside [OF t] by blast
        ultimately show ?thesis by (simp add: y Some)
      qed
    qed
  qed
qed

end
