(* ===== verification/ThreadCache_Life.thy ===== *)
theory ThreadCache_Life
  imports ThreadCache_Steps
begin

text \<open>
  The creation and destruction of thread caches, and changes of the overall limit.
\<close>

section \<open>Metadata of the caches and the page heap\<close>

lemma swap_system:
  assumes inv: "cc_inv st" and N: "PHA_New m (system (pageheap st)) b = Some (p, s, b')"
  defines "st' \<equiv> upd_heap (\<lambda>h. h\<lparr> system := s \<rparr>) st"
  shows "evolves 0 st st'" "held st' = held st"
proof -
  let ?h = "pageheap st" and ?h' = "(pageheap st)\<lparr> system := s \<rparr>"
  note ok = cc_invD(1) [OF inv]
  note m = ph_inv_meta [OF heap_okD(1) [OF ok] N]
  have s: "settings ?h ?h'" by (rule m(2))
  with m(1) have h: "heap_ok ?h'" by (intro heap_ok_settings [OF ok]) (simp_all add: imbalance_def)
  have u: "inuse_spans ?h' = inuse_spans ?h" by (simp add: inuse_spans_def fun_eq_iff)
  have st': "pageheap st' = ?h'" "sizemap st' = sizemap st" "central_cache st' = central_cache st" by (simp_all add: st'_def)
  have "cc_inv st'"
    using inv h sizes_ok_settings [OF cc_invD(2) [OF inv] s] unfolding cc_inv_def st' u by blast
  then show "evolves 0 st st'" using s by (simp add: evolves_def st' room_def large_spans_def cache_ok_def u)
  show "held st' = held st" unfolding held_def [abs_def] st' u ..
qed

text \<open>The addresses of the caches come from an allocator of their own.\<close>

definition caches_ok :: "threads \<Rightarrow> bool" where
  "caches_ok T \<longleftrightarrow> pha_ok sizeof_ThreadCache (dom (heaps T)) (system (pageheap (cc T)), threadcache_allocator T)"

lemma caches_ok_step:
  assumes "caches_ok T" "evolves k (cc T) (cc T')" "dom (heaps T') = dom (heaps T)" "threadcache_allocator T' = threadcache_allocator T"
  shows "caches_ok T'"
  using sys_stepD [of "system (pageheap (cc T))" "system (pageheap (cc T'))"] evolvesD(3) [OF assms(2)] assms(1,3,4)
  by (simp add: caches_ok_def settings_def)

lemma stepped_dom: "limits_ok {} T \<Longrightarrow> stepped k T T' L \<Longrightarrow> dom (heaps T') = dom (heaps T)"
  using limits_okD(2) [of "{}" T] limits_okD(2) [of "{}" T'] by (simp add: stepped_def)

lemma caches_ok_stepped: "caches_ok T \<Longrightarrow> limits_ok {} T \<Longrightarrow> stepped k T T' L \<Longrightarrow> caches_ok T'"
  using caches_ok_step [of T k T'] stepped_dom [of T k T' L] by (simp add: stepped_def)

lemma caches_ok_adjusted: "caches_ok T \<Longrightarrow> adjusted T T' \<Longrightarrow> caches_ok T'"
  using adjusted_dom [of T T'] by (simp add: caches_ok_def adjusted_def)

lemma caches_ok_New:
  assumes "caches_ok T" "PHA_New sizeof_ThreadCache (system (pageheap (cc T))) (threadcache_allocator T) = Some (p, s, a)"
  shows "heaps T p = None" "p \<noteq> 0" "pha_ok sizeof_ThreadCache (insert p (dom (heaps T))) (s, a)"
proof -
  have "p \<notin> dom (heaps T) \<and> pha_ok sizeof_ThreadCache (insert p (dom (heaps T))) (s, a)"
    by (rule pha_ok_New [OF assms(1) [unfolded caches_ok_def] _ assms(2)]) (simp add: sizeof_ThreadCache_def kAllocIncrement_def)
  then show "heaps T p = None" "p \<noteq> 0" "pha_ok sizeof_ThreadCache (insert p (dom (heaps T))) (s, a)"
    using pha_ok_nonzero [of sizeof_ThreadCache "insert p (dom (heaps T))" s a p] by auto
qed

section \<open>New caches\<close>

lemma FL_Init_ok:
  assumes "cc_inv st" "batches_ok (sizemap st)" "0 < cl" "cl < num_size_classes (sizemap st)"
  shows "fl_ok st cl (FL_Init (class_to_size (sizemap st) cl))"
proof -
  obtain B where B: "0 < B" "batch st cl = B" by (rule batch_pos [OF assms])
  have "ByteSizeForClass (sizemap st) cl \<le> kMaxSize" using assms(2-4) unfolding batches_ok_def by blast
  then have "int32_of_nat (class_to_size (sizemap st) cl) = int (ByteSizeForClass (sizemap st) cl)"
    by (simp add: int32_of_nat_small class_to_size_def ByteSizeForClass_def)
  then show ?thesis using B by (simp add: fl_ok_def FL_Init_def synced_def max_length_ok_def)
qed

lemma new_core:
  assumes "cc_inv st" "batches_ok (sizemap st)"
    and h: "tc_size h = 0" "\<And>cl. cl < num_size_classes (sizemap st) \<Longrightarrow> tc_list h cl = FL_Init (class_to_size (sizemap st) cl)"
  shows "tc_core st h"
proof -
  have "0 < num_size_classes (sizemap st)" using cc_invD(2) [OF assms(1)] by (simp add: sizes_ok_def)
  moreover have "cached_bytes (sizemap st) h = 0" using h(2) by (simp add: cached_bytes_def FL_Init_def)
  ultimately show ?thesis
    using h FL_Init_ok [OF assms(1,2)] by (simp add: tc_core_def FL_Init_def synced_def wrap32_id)
qed

text \<open>Adding a cache with empty lists to the store.\<close>

lemma pool_inv_add:
  assumes inv: "pool_inv T" and st: "cc_inv (cc T')" "sizemap (cc T') = sizemap (cc T)" "held (cc T') = held (cc T)"
    and old: "\<And>u g. u \<noteq> p \<Longrightarrow> heaps T' u = Some g \<Longrightarrow> \<exists>g0. heaps T u = Some g0 \<and> tc_list g = tc_list g0 \<and> tc_size g = tc_size g0"
    and sup: "\<And>u g0. heaps T u = Some g0 \<Longrightarrow> \<exists>g. heaps T' u = Some g \<and> tc_list g = tc_list g0"
    and p: "heaps T p = None" "heaps T' p = Some h" "tc_core (cc T') h" "\<And>cl. cl < classes_of T \<Longrightarrow> fl_list (tc_list h cl) = []"
  shows "pool_inv T'" "cl < classes_of T \<Longrightarrow> live T' cl = live T cl"
proof -
  have core: "tc_core (cc T') g = tc_core (cc T) g" for g by (simp add: tc_core_def fl_ok_def st(2,3))
  show "pool_inv T'"
    unfolding pool_inv_def
  proof (intro conjI allI impI, goal_cases)
    case (3 u g)
    show ?case
    proof (cases "u = p")
      case False
      then obtain g0 where g0: "heaps T u = Some g0" "tc_list g = tc_list g0" "tc_size g = tc_size g0" using old 3 by blast
      then show ?thesis using pool_invD(3,4) [OF inv g0(1)] core adjusted_core [OF g0(2,3)] by (simp add: cache_inv_def st(2))
    qed (use 3 p in \<open>auto simp: cache_inv_def st(2)\<close>)
  next
    case (4 u g v k cl)
    show ?case
    proof (cases "u = p \<or> v = p")
      case False
      with 4 obtain g0 k0 where "heaps T u = Some g0" "tc_list g = tc_list g0" "heaps T v = Some k0" "tc_list k = tc_list k0"
        using old [of u g] old [of v k] by blast
      then show ?thesis using pool_invD(5) [OF inv, of u g0 v k0 cl] 4 by (simp add: st(2))
    qed (use 4 p in \<open>auto simp: st(2)\<close>)
  qed (use st pool_invD(2) [OF inv] in simp_all)
  show "live T' cl = live T cl" if "cl < classes_of T"
  proof -
    have "(\<forall>u g. heaps T' u = Some g \<longrightarrow> x \<notin> set (fl_list (tc_list g cl)))
        = (\<forall>u g. heaps T u = Some g \<longrightarrow> x \<notin> set (fl_list (tc_list g cl)))" (is "?A = ?B") for x
    proof
      assume ?A
      show ?B using sup \<open>?A\<close> by metis
    next
      assume b: ?B
      show ?A
      proof (intro allI impI)
        fix u g assume u: "heaps T' u = Some g"
        show "x \<notin> set (fl_list (tc_list g cl))"
        proof (cases "u = p")
          case False
          with old u obtain g0 where "heaps T u = Some g0" "tc_list g = tc_list g0" by blast
          with b show ?thesis by simp
        qed (use u p that in auto)
      qed
    qed
    then show ?thesis by (simp add: live_def st(3))
  qed
qed

text \<open>The limit of a new cache.\<close>

lemma limits_new:
  assumes ok: "limits_ok {} T" and p: "heaps T p = None" "p \<noteq> 0" "tc_max_size h = 0"
    and T': "heaps T' = (heaps T)(p \<mapsto> h)" "thread_heaps T' = thread_heaps T" "thread_heap_count T' = thread_heap_count T"
      "overall_thread_cache_size T' = overall_thread_cache_size T" "next_memory_steal T' = next_memory_steal T"
      "unclaimed_cache_space T' = unclaimed_cache_space T"
  shows "limits_ok {p} T'" "thread_heaps T' \<noteq> [] \<or> unclaimed_cache_space T' > 0"
proof -
  have p': "p \<notin> dom (heaps T)" using p(1) by auto
  have fin: "finite (dom (heaps T))" by (rule limits_okD(3) [OF ok])
  have "claimed T' = tc_max_size h + (\<Sum>q \<in> dom (heaps T). tc_max_size (the (heaps T' q)))"
    using p' fin by (simp add: claimed_def T'(1))
  also have "(\<Sum>q \<in> dom (heaps T). tc_max_size (the (heaps T' q))) = claimed T"
    unfolding claimed_def using p' by (intro sum.cong) (auto simp: T'(1))
  finally have c: "claimed T' = claimed T" using p(3) by simp
  show "limits_ok {p} T'" using ok p p' c unfolding limits_ok_def T' by (auto simp: insert_Diff_if)
  have "claimed T = 0" if "thread_heaps T = []"
    using limits_okD(2) [OF ok] that by (auto simp: claimed_def)
  then show "thread_heaps T' \<noteq> [] \<or> unclaimed_cache_space T' > 0"
    using limits_okD(6,8) [OF ok] by (auto simp: T'(2,6))
qed

lemma NewHeap_ok:
  assumes inv: "pool_inv T" and ok: "limits_ok {} T" and sl: "slack T" and ca: "caches_ok T"
    and N: "PHA_New sizeof_ThreadCache (system (pageheap (cc T))) (threadcache_allocator T) = Some (p, s, a)"
  shows "\<exists>T'. NewHeap T tid seed = Some (p, T') \<and> pool_inv T' \<and> limits_ok {} T' \<and> evolves 0 (cc T) (cc T')
    \<and> thread_heaps T' = p # thread_heaps T \<and> heaps T p = None \<and> heaps T' p \<noteq> None \<and> same_locals T T' \<and> caches_ok T' \<and> (\<forall>cl < classes_of T. live T' cl = live T cl)"
proof -
  note p = caches_ok_New [OF ca N]
  define st where "st = upd_heap (\<lambda>h. h\<lparr> system := s \<rparr>) (cc T)"
  note i = pool_invD [OF inv]
  note sw = swap_system [OF i(1) N, folded st_def]
  note ev = evolvesD [OF sw(1)]
  let ?h0 = "raw_ThreadCache\<lparr> tc_size := 0, tc_max_size := 0 \<rparr>"
  define T1 where "T1 = upd_cache p (\<lambda>h. h\<lparr> tc_size := 0, tc_max_size := 0 \<rparr>)
      (T\<lparr> threadcache_allocator := a, heaps := (heaps T)(p \<mapsto> raw_ThreadCache), cc := st \<rparr>)"
  note ln = limits_new [OF ok p(1,2), of ?h0 T1]
  have l1: "limits_ok {p} T1" "thread_heaps T1 \<noteq> [] \<or> unclaimed_cache_space T1 > 0"
    by (rule ln; simp add: T1_def)+
  have s1: "slack T1" using sl by (simp add: slack_def T1_def)
  obtain T2 where T2: "IncreaseCacheLimitLocked T1 p = Some T2" "raised {p} p T1 T2"
    using IncreaseCacheLimitLocked_raises [OF l1(1) s1 _ l1(2), of p ?h0] by (auto simp: T1_def)
  have a2: "adjusted T1 T2" "limits_ok {p} T2" using T2(2) by (simp_all add: raised_def)
  obtain h2 where h2: "heaps T2 p = Some h2" "tc_size h2 = 0"
    using adjusted_heap [OF a2(1), of p ?h0] by (auto simp: T1_def)
  have m2: "tc_max_size h2 \<in> {0, int kStealAmount}" using T2(2) h2(1) by (simp add: raised_def T1_def)
  define T3 where "T3 = (if tc_max_size h2 = 0
      then (upd_cache p (SetMaxSize (int kMinThreadCacheSize)) T2)\<lparr> unclaimed_cache_space := unclaimed_cache_space T2 - int kMinThreadCacheSize \<rparr>
      else T2)"
  have l3: "limits_ok {p} T3"
    using a2(2) limits_upd [OF a2(2) h2(1), of "int kMinThreadCacheSize" T3] h2(1) limits_okD(5) [OF a2(2)]
    by (cases "tc_max_size h2 = 0") (simp_all add: T3_def)
  have a3: "adjusted T2 T3"
  proof (cases "tc_max_size h2 = 0")
    case True
    show ?thesis by (rule adjusted_upd [OF h2(1)]) (use True h2(1) in \<open>simp_all add: T3_def\<close>)
  qed (simp add: T3_def adjusted_refl)
  obtain h3 where h3: "heaps T3 p = Some h3" "tc_size h3 = 0" using adjusted_heap [OF a3 h2(1)] h2(2) by auto
  have a13: "adjusted T1 T3" by (rule adjusted_trans [OF a2(1) a3])
  have c3: "cc T3 = st" "thread_heaps T3 = thread_heaps T" using a13 by (simp_all add: adjusted_def T1_def)
  define h4 where "h4 = h3\<lparr> tc_tid := tid, in_setspecific := False,
      tc_list := (\<lambda>cl. if cl < num_size_classes (sizemap st) then FL_Init (class_to_size (sizemap st) cl) else tc_list h3 cl),
      tc_sampler := Sampler_Init (sampling T3) (tc_sampler h3) seed \<rparr>"
  define T4 where "T4 = T3\<lparr> heaps := (heaps T3)(p \<mapsto> h4) \<rparr>"
  have h4: "tc_size h4 = 0" "tc_max_size h4 = tc_max_size h3" using h3(2) by (simp_all add: h4_def)
  have bind_h2: "heaps T2 p \<bind> f = f h2" for f :: "ThreadCache \<Rightarrow> threads option" by (simp add: h2(1))
  have init: "TC_Init (T\<lparr> threadcache_allocator := a, heaps := (heaps T)(p \<mapsto> raw_ThreadCache), cc := st \<rparr>) p tid seed = Some T4"
    unfolding TC_Init_def T1_def [symmetric] T2(1) bind.bind_lunit bind_h2 Let_def T3_def [symmetric] c3(1)
    by (simp add: T4_def h4_def h3(1))
  have l4: "limits_ok {p} T4"
    using limits_put [OF l3 h3(1) h4(2), of "cc T3"] by (simp add: T4_def)
  define T5 where "T5 = (if thread_heaps T4 = [] then T4\<lparr> next_memory_steal := p \<rparr> else T4)
      \<lparr> thread_heaps := p # thread_heaps T4, thread_heap_count := thread_heap_count T4 + 1 \<rparr>"
  have N5: "NewHeap T tid seed = Some (p, T5)"
    using init by (simp add: NewHeap_def N st_def [symmetric] T5_def Let_def)
  have f5: "cc T5 = st" "heaps T5 = (heaps T3)(p \<mapsto> h4)" "thread_heaps T5 = p # thread_heaps T" by (simp_all add: T5_def T4_def c3)
  have th: "p \<notin> set (thread_heaps T)" using limits_okD(2) [OF ok] p(1) by auto
  have "p \<in> dom (heaps T4)" by (simp add: T4_def)
  then have l5: "limits_ok {} T5"
    using l4 th c3(2) unfolding limits_ok_def by (auto simp: T5_def claimed_def T4_def)
  have core: "tc_core st h4"
    by (rule new_core [OF ev(1)]) (use i(2) ev(2) h4(1) in \<open>simp_all add: h4_def\<close>)
  have hT: "heaps T1 u = heaps T u" if "u \<noteq> p" for u using that by (simp add: T1_def)
  have old: "\<exists>g0. heaps T u = Some g0 \<and> tc_list g = tc_list g0 \<and> tc_size g = tc_size g0" if "u \<noteq> p" "heaps T5 u = Some g" for u g
    using adjusted_heap' [OF a13, of u g] that hT by (simp add: f5(2))
  have sup: "\<exists>g. heaps T5 u = Some g \<and> tc_list g = tc_list g0" if "heaps T u = Some g0" for u g0
  proof -
    have "u \<noteq> p" using that p(1) by auto
    then show ?thesis using adjusted_heap [OF a13, of u g0] that hT by (auto simp: f5(2))
  qed
  have e: "fl_list (tc_list h4 cl) = []" if "cl < classes_of T" for cl using that ev(2) by (simp add: h4_def FL_Init_def)
  note pool = pool_inv_add [where T = T and T' = T5 and p = p and h = h4, OF inv _ _ _ old sup p(1) _ _ e]
  have "pool_inv T5" "\<forall>cl < classes_of T. live T5 cl = live T cl"
    using pool ev(1,2) sw(2) core by (simp_all add: f5)
  moreover have "same_locals T T5 \<and> threadcache_allocator T5 = a" using a13 by (simp add: adjusted_def T5_def T4_def T1_def)
  moreover have "dom (heaps T3) = insert p (dom (heaps T))" using adjusted_dom [OF a13] by (auto simp: T1_def)
  then have "dom (heaps T5) = insert p (dom (heaps T))" by (auto simp: f5)
  ultimately show ?thesis using N5 l5 sw(1) p by (simp add: f5 caches_ok_def) (simp add: st_def)
qed

section \<open>Destruction\<close>

lemma next_heap_neq: "distinct xs \<Longrightarrow> t \<noteq> 0 \<Longrightarrow> next_heap xs t \<noteq> t"
proof (induction xs)
  case (Cons x xs)
  then show ?case by (cases xs) auto
qed simp

lemma DeleteCache_wpo:
  assumes inv: "pool_inv T" and ok: "limits_ok {} T" and ca: "caches_ok T" and t: "heaps T t = Some h" and lv: "lively b k (pageheap (cc T))"
  shows "wpo b (DeleteCache T t) (\<lambda>T'. pool_inv T' \<and> limits_ok {} T' \<and> evolves 0 (cc T) (cc T')
    \<and> thread_heaps T' = remove1 t (thread_heaps T) \<and> heaps T' = (heaps T)(t := None) \<and> same_locals T T' \<and> caches_ok T'
    \<and> unclaimed_cache_space T' = unclaimed_cache_space T + tc_max_size h
    \<and> (\<forall>cl < classes_of T. live T' cl = live T cl \<and> held (cc T') cl = held (cc T) cl - set (fl_list (tc_list h cl))))"
proof -
  note i = pool_invD [OF inv]
  have bnd: "\<forall>cl \<in> set [0 ..< classes_of T]. cl < classes_of T" by simp
  have eq: "DeleteCache T t = do { (h', st') \<leftarrow> cleanup_classes [0 ..< classes_of T] h (cc T);
      let T = put_cache t h' st' T;
      let nxt = next_heap (thread_heaps T) t;
      let T = T\<lparr> thread_heaps := remove1 t (thread_heaps T), thread_heap_count := thread_heap_count T - 1 \<rparr>;
      let T = (if next_memory_steal T = t then T\<lparr> next_memory_steal := nxt \<rparr> else T);
      let T = (if next_memory_steal T = 0
               then T\<lparr> next_memory_steal := (case thread_heaps T of [] \<Rightarrow> 0 | p # _ \<Rightarrow> p) \<rparr> else T);
      Some (T\<lparr> unclaimed_cache_space := unclaimed_cache_space T + tc_max_size h',
              heaps := (heaps T)(t := None),
              threadcache_allocator := PHA_Delete (threadcache_allocator T) t \<rparr>) }"
    using t by (cases "cleanup_classes [0 ..< classes_of T] h (cc T)") (auto simp: DeleteCache_def Cleanup_def Let_def)
  show ?thesis
    unfolding eq
  proof (subst wpo_bind, rule wpo_mono [OF cleanup_classes_wpo [OF i(1) i(3) [OF t] bnd lv]], goal_cases)
    case (1 x)
    obtain h' st' where x: "x = (h', st')" by (cases x)
    with 1 have p: "passes (cc T) h st' h'" and e: "\<And>cl. cl < classes_of T \<Longrightarrow> fl_list (tc_list h' cl) = []" by auto
    have ms: "tc_max_size h' = tc_max_size h" using p by (simp add: passes_def same_owner_def)
    let ?T1 = "put_cache t h' st' T"
    note pp = passes_put [OF inv t p refl order_trans [OF passesD(6) [OF p] i(4) [OF t]] others_outside [OF inv t]]
    have l1: "limits_ok {} ?T1" by (rule limits_put [OF ok t ms])
    define nx where "nx = (if next_memory_steal T = t then next_heap (thread_heaps T) t else next_memory_steal T)"
    define T' where "T' = ?T1\<lparr> thread_heaps := remove1 t (thread_heaps T), thread_heap_count := thread_heap_count T - 1,
        next_memory_steal := (if nx = 0 then (case remove1 t (thread_heaps T) of [] \<Rightarrow> 0 | p # _ \<Rightarrow> p) else nx),
        unclaimed_cache_space := unclaimed_cache_space T + tc_max_size h', heaps := (heaps T)(t := None),
        threadcache_allocator := PHA_Delete (threadcache_allocator T) t \<rparr>"
    have sub: "heaps T' u = Some g \<longleftrightarrow> u \<noteq> t \<and> heaps ?T1 u = Some g" for u g by (simp add: T'_def)
    have ccT': "cc T' = st'" by (simp add: T'_def)
    have P: "pool_inv T'"
      using pp(1) unfolding pool_inv_def cache_inv_def sub by (simp add: ccT') metis
    have L: "live T' cl = live T cl" if "cl < classes_of T" for cl
    proof -
      have "live T' cl = live ?T1 cl" using e [OF that] unfolding live_def sub ccT' by (auto split: if_splits)
      then show ?thesis using pp(2) [of cl] live_outside [OF t, of cl] by simp
    qed
    have t0: "t \<noteq> 0" "t \<in> dom (heaps T)" "t \<in> set (thread_heaps T)" using limits_okD(2,4) [OF ok] t by (auto intro: ccontr)
    note dis = limits_okD(1) [OF ok]
    have nx: "nx = 0 \<or> nx \<in> set (remove1 t (thread_heaps T))"
      using next_heap_mem [of "thread_heaps T" t] next_heap_neq [OF dis t0(1)] limits_okD(5) [OF ok] dis by (auto simp: nx_def)
    have "claimed T' = claimed T - tc_max_size h"
      using sum.remove [OF limits_okD(3) [OF ok] t0(2), of "\<lambda>p. tc_max_size (the (heaps T p))"] t
      by (simp add: claimed_def T'_def)
    moreover have "next_memory_steal T' = 0 \<or> next_memory_steal T' \<in> set (thread_heaps T')"
      using nx by (cases "remove1 t (thread_heaps T)") (auto simp: T'_def)
    moreover have "int (length (remove1 t (thread_heaps T))) = int (length (thread_heaps T)) - 1"
      using t0(3) length_pos_if_in_set [OF t0(3)] by (simp add: length_remove1 of_nat_diff Suc_leI)
    ultimately have "limits_ok {} T'"
      using ok dis t0 ms unfolding limits_ok_def by (auto simp: T'_def)
    moreover have "evolves 0 (cc T) st'" by (rule passesD(4) [OF p])
    moreover have "held st' cl = held (cc T) cl - set (fl_list (tc_list h cl))" if "cl < classes_of T" for cl
      using passesD(5) [OF p, of cl] e [OF that] by (simp add: outside_def)
    moreover have "caches_ok T'"
    proof -
      have "caches_ok ?T1" by (rule caches_ok_step [OF ca]) (use passesD(4) [OF p] t in auto)
      then have "pha_ok sizeof_ThreadCache (dom (heaps T)) (system (pageheap st'), threadcache_allocator T)"
        using t by (simp add: caches_ok_def insert_absorb domI)
      from pha_ok_Delete [OF this t0(2)] show ?thesis by (simp add: caches_ok_def T'_def)
    qed
    moreover note ms
    ultimately show ?case
      using P L unfolding x prod.case Let_def
      by (simp add: T'_def nx_def cong: if_cong) (auto simp: T'_def nx_def)
  qed
qed

section \<open>The overall limit\<close>

lemma round_half_even_le: "0 < b \<Longrightarrow> a \<le> c * b \<Longrightarrow> round_half_even a b \<le> c"
proof -
  assume b: "0 < b" and le: "a \<le> c * b"
  then have q: "a div b \<le> c" by (metis div_le_mono nonzero_mult_div_cancel_right not_gr_zero)
  show ?thesis
  proof (cases "a div b = c")
    case True
    then have "a mod b = 0" using le div_mult_mod_eq [of a b] by simp
    then show ?thesis using True b by (simp add: round_half_even_def)
  qed (use q in \<open>auto simp: round_half_even_def Let_def\<close>)
qed

lemma scale_size_shrinks:
  assumes "0 \<le> m" "fst r \<le> 2 ^ snd r"
  shows "0 \<le> scale_size m r \<and> scale_size m r \<le> m"
proof -
  let ?n = "nat \<bar>m\<bar>" and ?b = "2 ^ snd r"
  define k where "k = double_exp 116 (?n * fst r) ?b"
  let ?p = "round_half_even (?n * fst r * 2 ^ k) ?b"
  have "?n * fst r * 2 ^ k \<le> ?n * 2 ^ k * ?b" using assms(2) by (simp add: mult_mono)
  then have "?p \<le> ?n * 2 ^ k" by (intro round_half_even_le) simp_all
  then have "?p div 2 ^ k \<le> ?n" by (metis div_le_mono nonzero_mult_div_cancel_right power_not_zero zero_neq_numeral)
  moreover have "scale_size m r = sgn m * int (?p div 2 ^ k)" by (simp add: scale_size_def double_div_def Let_def k_def)
  ultimately show ?thesis using assms(1) by (cases "m = 0") auto
qed

lemma foldl_upd_cache:
  assumes "distinct ps"
  shows "foldl (\<lambda>T p. upd_cache p f T) T ps = T\<lparr> heaps := (\<lambda>p. if p \<in> set ps then map_option f (heaps T p) else heaps T p) \<rparr>"
  using assms by (induction ps arbitrary: T) (auto simp: fun_eq_iff intro!: arg_cong [where f = "\<lambda>x. _\<lparr> heaps := x \<rparr>"])

text \<open>Scaling the limits of all caches down keeps the objects.\<close>

lemma set_overall_ok:
  fixes T :: threads and n :: nat
  assumes inv: "pool_inv T" and ok: "limits_ok {} T"
  defines "T' \<equiv> set_overall_thread_cache_size T n"
  shows "limits_ok {} T'" "adjusted T T'" "overall_thread_cache_size T' = min (2 ^ 30) (max kMinThreadCacheSize n)"
proof -
  define s where "s = min (2 ^ 30) (max kMinThreadCacheSize n)"
  define sp where "sp = (let x = s div nat (if thread_heap_count T > 0 then thread_heap_count T else 1);
      x = (if x < kMinThreadCacheSize then kMinThreadCacheSize else x) in if x > kMaxThreadCacheSize then kMaxThreadCacheSize else x)"
  define r where "r = double_div sp (max 1 (per_thread_cache_size T))"
  define H where "H = (if fst r < 2 ^ snd r
      then (\<lambda>p. if p \<in> set (thread_heaps T) then map_option (\<lambda>h. SetMaxSize (scale_size (tc_max_size h) r) h) (heaps T p) else heaps T p)
      else heaps T)"
  have s: "(if (if n < kMinThreadCacheSize then kMinThreadCacheSize else n) > 2 ^ 30 then 2 ^ 30
      else (if n < kMinThreadCacheSize then kMinThreadCacheSize else n)) = s" by (simp add: s_def)
  have T': "T' = T\<lparr> overall_thread_cache_size := s, heaps := H,
      unclaimed_cache_space := int s - sum_list (map (\<lambda>p. case H p of None \<Rightarrow> 0 | Some h \<Rightarrow> tc_max_size h) (thread_heaps T)),
      per_thread_cache_size := sp \<rparr>"
  proof -
    define U where "U = T\<lparr> overall_thread_cache_size := s \<rparr>"
    have U: "overall_thread_cache_size U = s" "thread_heap_count U = thread_heap_count T" "thread_heaps U = thread_heaps T"
        "per_thread_cache_size U = per_thread_cache_size T" by (simp_all add: U_def)
    have hU: "heaps U = heaps T" by (simp add: U_def)
    show ?thesis
      unfolding T'_def set_overall_thread_cache_size_def Let_def s U_def [symmetric] RecomputePerThreadCacheSize_def U
        sp_def [unfolded Let_def, symmetric] r_def [symmetric] foldl_upd_cache [OF limits_okD(1) [OF ok]]
      unfolding hU H_def by (cases "fst r < 2 ^ snd r") (simp_all add: U_def)
  qed
  have d: "dom H = dom (heaps T)" by (auto simp: H_def split: if_splits)
  have Hh: "\<exists>h. heaps T p = Some h \<and> tc_list h' = tc_list h \<and> tc_size h' = tc_size h \<and> 0 \<le> tc_max_size h' \<and> tc_max_size h' < 2 ^ 31"
    if "H p = Some h'" for p h'
  proof -
    have "p \<in> dom (heaps T)" using that unfolding d [symmetric] by (rule domI)
    then obtain h where h: "heaps T p = Some h" by blast
    note m = limits_okD(7) [OF ok h]
    have p: "p \<in> set (thread_heaps T)" using limits_okD(2) [OF ok] h by auto
    show ?thesis
    proof (cases "fst r < 2 ^ snd r")
      case True
      then have "h' = SetMaxSize (scale_size (tc_max_size h) r) h" using that p h by (simp add: H_def)
      moreover have "0 \<le> scale_size (tc_max_size h) r \<and> scale_size (tc_max_size h) r \<le> tc_max_size h"
        using scale_size_shrinks m True by simp
      ultimately show ?thesis using h m by (simp add: SetMaxSize_def wrap32_id)
    qed (use that h m in \<open>simp add: H_def\<close>)
  qed
  have "(\<Sum>p \<in> dom H. case H p of None \<Rightarrow> 0 | Some h \<Rightarrow> tc_max_size h) = (\<Sum>p \<in> dom H. tc_max_size (the (H p)))"
    by (intro sum.cong) auto
  then have "sum_list (map (\<lambda>p. case H p of None \<Rightarrow> 0 | Some h \<Rightarrow> tc_max_size h) (thread_heaps T)) = claimed T'"
    using sum_list_distinct_conv_sum_set [OF limits_okD(1) [OF ok], of "\<lambda>p. case H p of None \<Rightarrow> 0 | Some h \<Rightarrow> tc_max_size h"]
      limits_okD(2) [OF ok] d by (simp add: claimed_def T')
  then show "limits_ok {} T'"
    using ok d Hh unfolding limits_ok_def by (auto simp: T' s_def)
  have "rel_option (\<lambda>h h'. tc_list h' = tc_list h \<and> tc_size h' = tc_size h) (heaps T p) (H p)" for p
  proof (cases "H p")
    case None
    then have "p \<notin> dom (heaps T)" unfolding d [symmetric] by (simp add: domIff)
    then show ?thesis using None by (simp add: domIff)
  qed (use Hh in fastforce)
  then show "adjusted T T'" by (simp add: adjusted_def T')
  show "overall_thread_cache_size T' = min (2 ^ 30) (max kMinThreadCacheSize n)" by (simp add: T' s_def)
qed

end
