(* ===== verification/StaticVars.thy ===== *)
theory StaticVars
  imports ThreadCache
begin

text \<open>
  The initialisation of the static variables: \<open>Static::InitStaticVars\<close> of \<^verbatim>\<open>src/static_vars.cc\<close> and
  \<open>ThreadCache::InitModule\<close> and \<open>InitTSD\<close> of \<^verbatim>\<open>src/thread_cache.cc\<close>.  The environment is read into \<open>settings_env\<close>.
\<close>

record settings_env =
  native_page_size :: nat            \<comment> \<open>\<open>getpagesize()\<close>\<close>
  transfer_num_obj :: "int option"   \<comment> \<open>\<open>TCMALLOC_TRANSFER_NUM_OBJ\<close>\<close>
  limit_mb :: int                    \<comment> \<open>\<open>TCMALLOC_HEAP_LIMIT_MB\<close>\<close>
  rate :: rat                        \<comment> \<open>\<open>TCMALLOC_RELEASE_RATE\<close>\<close>
  aggressive :: bool                 \<comment> \<open>\<open>TCMALLOC_AGGRESSIVE_DECOMMIT\<close>\<close>
  cache_bytes :: "int option"        \<comment> \<open>\<open>TCMALLOC_MAX_TOTAL_THREAD_CACHE_BYTES\<close>\<close>
  sample_settings :: sample_env      \<comment> \<open>\<open>TCMALLOC_SAMPLE_PARAMETER\<close>\<close>

text \<open>The entries of \<open>central_cache_\<close> from the number of classes on are never initialised; static storage holds zeros there.\<close>

definition raw_CentralFreeList :: CentralFreeList where
  "raw_CentralFreeList = \<lparr> size_class = 0, empty_spans = [], nonempty_spans = [], num_spans = 0, counter = 0,
     tc_slots = [], cache_size = 0, max_cache_size = 0 \<rparr>"

definition InitStaticVars :: "settings_env \<Rightarrow> sys \<Rightarrow> central option" where
  "InitStaticVars env s =
     do { r \<leftarrow> SizeMap_Init (native_page_size env) (transfer_num_obj env);
          sm \<leftarrow> (case r of Inl e \<Rightarrow> None | Inr sm \<Rightarrow> Some sm);
          (s, a, b) \<leftarrow> InitAllocators s;
          cs \<leftarrow> those (map (CFL_Init sm) [0 ..< num_size_classes sm]);
          h \<leftarrow> PageHeap_init (min_span_size_in_pages sm) s a b (limit_mb env) (rate env);
          Some \<lparr> pageheap = h\<lparr> aggressive_decommit := aggressive env \<rparr>, sizemap = sm,
                central_cache = (\<lambda>cl. if cl < num_size_classes sm then cs ! cl else raw_CentralFreeList),
                race_counter = 0 \<rparr> }"

text \<open>The limit from the environment is set before the rest; it does not read the rest.\<close>

definition InitModule :: "settings_env \<Rightarrow> sys \<Rightarrow> threads option" where
  "InitModule env s =
     do { st \<leftarrow> InitStaticVars env s;
          (s, a) \<leftarrow> PHA_Init sizeof_ThreadCache (system (pageheap st));
          let T = \<lparr> cc = upd_heap (\<lambda>h. h\<lparr> system := s \<rparr>) st, heaps = Map.empty, thread_heaps = [], thread_heap_count = 0,
                    next_memory_steal = 0, overall_thread_cache_size = kDefaultOverallThreadCacheSize,
                    per_thread_cache_size = kMaxThreadCacheSize, unclaimed_cache_space = int kDefaultOverallThreadCacheSize,
                    threadcache_allocator = a, tsd_inited = False,
                    threadlocal_data = (\<lambda>_. \<lparr> fast_path_heap = 0, tls_heap = 0, use_emergency_malloc = False \<rparr>),
                    sampling = sample_settings env \<rparr>;
          Some (case cache_bytes env of
                  None \<Rightarrow> T
                | Some v \<Rightarrow> set_overall_thread_cache_size T (size_t_of_int v)) }"

definition InitTSD :: "threads \<Rightarrow> threads" where
  "InitTSD T = T\<lparr> tsd_inited := True \<rparr>"

lemma those_eq_Some: "those xs = Some ys \<Longrightarrow> length ys = length xs \<and> (\<forall>i < length xs. xs ! i = Some (ys ! i))"
proof (induction xs arbitrary: ys)
  case (Cons x xs)
  then obtain y zs where "x = Some y" "those xs = Some zs" "ys = y # zs" by (auto split: option.splits)
  with Cons.IH [of zs] show ?case by (auto simp: nth_Cons split: nat.split)
qed simp

lemma those_map: "\<forall>x \<in> set xs. f x = Some (g x) \<Longrightarrow> those (map f xs) = Some (map g xs)"
  by (induction xs) simp_all

lemma InitStaticVars_cases:
  assumes "InitStaticVars env s = Some st"
  obtains sm s' a b h where "SizeMap_Init (native_page_size env) (transfer_num_obj env) = Some (Inr sm)"
    "InitAllocators s = Some (s', a, b)"
    "PageHeap_init (min_span_size_in_pages sm) s' a b (limit_mb env) (rate env) = Some h"
    "pageheap st = h\<lparr> aggressive_decommit := aggressive env \<rparr>" "sizemap st = sm" "race_counter st = 0"
    "\<forall>cl < num_size_classes sm. CFL_Init sm cl = Some (central_cache st cl)"
proof -
  obtain r where r: "SizeMap_Init (native_page_size env) (transfer_num_obj env) = Some r"
    using assms by (auto simp: InitStaticVars_def bind_eq_Some_conv)
  with assms obtain sm where "r = Inr sm" by (cases r) (simp_all add: InitStaticVars_def)
  with r assms obtain s' a b cs h where i: "SizeMap_Init (native_page_size env) (transfer_num_obj env) = Some (Inr sm)"
      "InitAllocators s = Some (s', a, b)" "those (map (CFL_Init sm) [0 ..< num_size_classes sm]) = Some cs"
      "PageHeap_init (min_span_size_in_pages sm) s' a b (limit_mb env) (rate env) = Some h"
      "st = \<lparr> pageheap = h\<lparr> aggressive_decommit := aggressive env \<rparr>, sizemap = sm,
                central_cache = (\<lambda>cl. if cl < num_size_classes sm then cs ! cl else raw_CentralFreeList), race_counter = 0 \<rparr>"
    by (auto simp: InitStaticVars_def bind_eq_Some_conv)
  from those_eq_Some [OF i(3)] i(5) have "\<forall>cl < num_size_classes sm. CFL_Init sm cl = Some (central_cache st cl)" by simp
  with i show ?thesis by (intro that [of sm s' a b h]) simp_all
qed

end
