(* ===== verification/ThreadCache_Props.thy ===== *)
theory ThreadCache_Props
  imports ThreadCache_Life StaticVars
begin

text \<open>
  The reachable states of the thread caches, and the properties of the objects they hand out, of their
  bookkeeping and of their limits.
\<close>

section \<open>Reachable states\<close>

text \<open>The sizes of the batches of every initialised size map.\<close>

lemma SizeMap_Init_batches:
  assumes "SizeMap_Init native envval = Some (Inr sm)" "init_env native envval"
  shows "batches_ok sm"
  unfolding batches_ok_def
proof (intro allI impI)
  fix cl assume cl: "0 < cl \<and> cl < num_size_classes sm"
  then have c: "1 \<le> cl" "cl < num_size_classes sm" by simp_all
  note t = SizeMap_Init_tables [OF assms]
  let ?z = "class_to_size_tab sm ! cl"
  have z: "0 < ?z" "8 dvd ?z" using tables_ok_class(1,2) [OF t(1) c] by simp_all
  then have "8 \<le> ?z" by (simp add: dvd_imp_le)
  then have "65536 div ?z \<le> 8192" using div_le_mono2 [of 8 ?z 65536] by simp
  then have "NumMoveSize (InitTCMallocTransferNumObjects 0 envval) ?z \<le> 8192"
    using z by (auto simp: NumMoveSize_def Let_def)
  moreover have "?z \<le> kMaxSize" by (rule tables_ok_le_largest [OF t(1) c(2)])
  ultimately show "num_objects_to_move sm cl \<le> int kMaxDynamicFreeListLength \<and> ByteSizeForClass sm cl \<le> kMaxSize"
    using t(5) [OF c] by (simp add: ByteSizeForClass_def)
qed

text \<open>A program starts with \<open>InitModule\<close> on a system that has not been used.  The size classes have to suit the page heap
  (\<open>sizes_ok\<close>: spans of a class are not rounded up and hold fewer than \<open>2^16\<close> objects), which theory
  \<open>CentralFreeList_Props\<close> shows for the default settings.\<close>

definition tc_init :: "settings_env \<Rightarrow> sys \<Rightarrow> threads \<Rightarrow> bool" where
  "tc_init env s T \<longleftrightarrow> os_ok s \<and> os_bounded s \<and> metadata_chunk_avail s = 0 \<and> InitModule env s = Some T
     \<and> init_env (native_page_size env) (transfer_num_obj env) \<and> sizes_ok (sizemap (cc T)) (pageheap (cc T))
     \<and> (\<exists>k \<le> 31. min_span_size_in_pages (sizemap (cc T)) = 2 ^ k)"

text \<open>The invariant of the caches.\<close>

definition tc_inv :: "threads \<Rightarrow> bool" where
  "tc_inv T \<longleftrightarrow> pool_inv T \<and> limits_ok {} T \<and> caches_ok T"

lemma tc_invD:
  assumes "tc_inv T"
  shows "pool_inv T" "limits_ok {} T" "caches_ok T" "cc_inv (cc T)"
  using assms pool_invD(1) by (simp_all add: tc_inv_def)

lemma tc_inv_stepped: "tc_inv T \<Longrightarrow> stepped k T T' L \<Longrightarrow> tc_inv T'"
  using caches_ok_stepped [of T k T' L] by (simp add: tc_inv_def stepped_def)

lemma tc_inv_adjusted: "tc_inv T \<Longrightarrow> adjusted T T' \<Longrightarrow> limits_ok {} T' \<Longrightarrow> tc_inv T'"
  using caches_ok_adjusted [of T T'] adjusted_pool(1) [of T T'] by (simp add: tc_inv_def)

lemma swap_Init:
  assumes "cc_inv st" "PHA_Init m (system (pageheap st)) = Some (s, a)"
  shows "evolves 0 st (upd_heap (\<lambda>h. h\<lparr> system := s \<rparr>) st)" "0 < m \<Longrightarrow> m \<le> kAllocIncrement \<Longrightarrow> pha_ok m {} (s, a)"
proof -
  obtain p a1 where N: "PHA_New m (system (pageheap st)) \<lparr> free_area = 0, free_avail = 0, free_list = [], inuse = 0 \<rparr> = Some (p, s, a1)"
    by (rule PHA_Init_New [OF assms(2)])
  from swap_system(1) [OF assms(1) N] show "evolves 0 st (upd_heap (\<lambda>h. h\<lparr> system := s \<rparr>) st)" .
  obtain U where "meta_inv U (system (pageheap st))"
    by (rule pha_okE [OF ph_invD(3) [OF heap_okD(1) [OF cc_invD(1) [OF assms(1)]]]])
  then show "0 < m \<Longrightarrow> m \<le> kAllocIncrement \<Longrightarrow> pha_ok m {} (s, a)" by (rule pha_ok_Init [OF _ _ _ assms(2)])
qed

lemma InitModule_inv:
  assumes "tc_init env s0 T"
  shows "tc_inv T" "inuse_spans (pageheap (cc T)) = Map.empty" "heaps T = Map.empty"
    "threadlocal_data T = (\<lambda>_. \<lparr> fast_path_heap = 0, tls_heap = 0, use_emergency_malloc = False \<rparr>)" "tsd_inited T = False"
proof -
  note i = assms [unfolded tc_init_def]
  obtain st s a where st: "InitStaticVars env s0 = Some st" "PHA_Init sizeof_ThreadCache (system (pageheap st)) = Some (s, a)"
    using i by (auto simp: InitModule_def bind_eq_Some_conv)
  define T0 where "T0 = \<lparr> cc = upd_heap (\<lambda>h. h\<lparr> system := s \<rparr>) st, heaps = Map.empty, thread_heaps = [], thread_heap_count = 0,
      next_memory_steal = 0, overall_thread_cache_size = kDefaultOverallThreadCacheSize,
      per_thread_cache_size = kMaxThreadCacheSize, unclaimed_cache_space = int kDefaultOverallThreadCacheSize,
      threadcache_allocator = a, tsd_inited = False,
      threadlocal_data = (\<lambda>_. \<lparr> fast_path_heap = 0, tls_heap = 0, use_emergency_malloc = False \<rparr>), sampling = sample_settings env \<rparr>"
  have T: "T = (case cache_bytes env of None \<Rightarrow> T0 | Some v \<Rightarrow> set_overall_thread_cache_size T0 (size_t_of_int v))"
  proof -
    have "InitModule env s0 = Some (case cache_bytes env of None \<Rightarrow> T0 | Some v \<Rightarrow> set_overall_thread_cache_size T0 (size_t_of_int v))"
      unfolding InitModule_def st(1) bind.bind_lunit st(2) by (cases "cache_bytes env") (simp_all add: Let_def T0_def)
    then show ?thesis using i by simp
  qed
  have T0: "cc T0 = upd_heap (\<lambda>h. h\<lparr> system := s \<rparr>) st" by (simp add: T0_def)
  obtain sm s1 a1 b1 h where c: "SizeMap_Init (native_page_size env) (transfer_num_obj env) = Some (Inr sm)" "InitAllocators s0 = Some (s1, a1, b1)"
      "PageHeap_init (min_span_size_in_pages sm) s1 a1 b1 (limit_mb env) (rate env) = Some h"
      "pageheap st = h\<lparr> aggressive_decommit := aggressive env \<rparr>" "sizemap st = sm" "race_counter st = 0"
      "\<forall>cl < num_size_classes sm. CFL_Init sm cl = Some (central_cache st cl)"
    by (rule InitStaticVars_cases [OF st(1)])
  have ccT: "cc T = cc T0" using T by (auto simp: set_overall_thread_cache_size_def RecomputePerThreadCacheSize_def Let_def T0_def split: option.splits)
  have sz: "sizes_ok sm (pageheap st)" using i sizes_ok_settings [of sm "pageheap (cc T0)" "pageheap st"]
    by (simp add: ccT T0 c(5) sizes_ok_def RoundUpSize_def)
  obtain k where k: "k \<le> 31" "min_span_size_in_pages sm = 2 ^ k" using i by (auto simp: ccT T0 c(5))
  have "heap_reachable h"
    by (rule heap_start [of s0 s1 a1 b1 k "limit_mb env" "rate env"]) (use i c(2,3) k in simp_all)
  then have hr: "heap_reachable (pageheap st)" unfolding c(4) by (rule heap_mode)
  have sp: "spans (pageheap st) = Map.empty" using PageHeap_init_fields(1) [OF c(3)] by (simp add: c(4))
  have "central_reachable \<lparr> pageheap = pageheap st, sizemap = sm, central_cache = central_cache st, race_counter = 0 \<rparr>"
    by (rule central_start [OF hr sp sz]) (use c(7) in blast)
  then have "central_reachable st" using c(5,6) by (cases st) simp
  then have inv: "cc_inv st" by (rule central_reachable_inv)
  note sw = swap_Init [OF inv st(2)]
  have cc0: "cc_inv (cc T0)" "sizemap (cc T0) = sm" using evolvesD(1) [OF sw(1)] by (simp_all add: T0 c(5))
  have b: "batches_ok sm" by (rule SizeMap_Init_batches [OF c(1)]) (use i in simp)
  have ca: "pha_ok sizeof_ThreadCache {} (s, a)" by (rule sw(2)) (simp_all add: sizeof_ThreadCache_def kAllocIncrement_def)
  have t0: "tc_inv T0"
    using cc0 b ca by (simp add: tc_inv_def pool_inv_def limits_ok_def claimed_def caches_ok_def T0_def)
  have a: "adjusted T0 T \<and> limits_ok {} T"
    using T set_overall_ok(1,2) [OF tc_invD(1,2) [OF t0]] tc_invD(2) [OF t0] adjusted_refl by (auto split: option.splits)
  show "tc_inv T" using tc_inv_adjusted [OF t0] a by blast
  have "dom (heaps T) = {}" using adjusted_dom [of T0 T] a by (simp add: T0_def)
  then show "heaps T = Map.empty" by simp
  show "threadlocal_data T = (\<lambda>_. \<lparr> fast_path_heap = 0, tls_heap = 0, use_emergency_malloc = False \<rparr>)" "tsd_inited T = False"
    using a by (simp_all add: adjusted_def T0_def)
  show "inuse_spans (pageheap (cc T)) = Map.empty" using sp by (simp add: ccT T0 inuse_spans_def fun_eq_iff)
qed

text \<open>Threads come and go, allocate, and give back objects that are live; a limit is raised only when that leaves
  it in the range of \<open>int32\<close> (\<open>slack\<close>).\<close>

inductive tc_reachable :: "threads \<Rightarrow> bool" where
  tc_start: "tc_init env s T \<Longrightarrow> tc_reachable T"
| tc_tsd: "tc_reachable T \<Longrightarrow> tc_reachable (InitTSD T)"
| tc_new: "tc_reachable T \<Longrightarrow> slack T \<Longrightarrow> NewHeap T tid seed = Some (p, T') \<Longrightarrow> tc_reachable T'"
| tc_allocate: "tc_reachable T \<Longrightarrow> heaps T t = Some h \<Longrightarrow> 0 < cl \<Longrightarrow> cl < classes_of T
    \<Longrightarrow> Allocate T t (ByteSizeForClass (sizemap (cc T)) cl) cl = Some (r, T') \<Longrightarrow> tc_reachable T'"
| tc_deallocate: "tc_reachable T \<Longrightarrow> slack T \<Longrightarrow> heaps T t = Some h \<Longrightarrow> 0 < cl \<Longrightarrow> cl < classes_of T \<Longrightarrow> x \<in> live T cl
    \<Longrightarrow> Deallocate T t x cl = Some T' \<Longrightarrow> tc_reachable T'"
| tc_delete: "tc_reachable T \<Longrightarrow> heaps T t = Some h \<Longrightarrow> DeleteCache T t = Some T' \<Longrightarrow> tc_reachable T'"
| tc_limit: "tc_reachable T \<Longrightarrow> tc_reachable (set_overall_thread_cache_size T n)"

lemma NewHeap_inv:
  assumes inv: "tc_inv T" and sl: "slack T" and N: "NewHeap T tid seed = Some (p, T')"
  shows "tc_inv T'" "evolves 0 (cc T) (cc T')" "heaps T p = None" "heaps T' p \<noteq> None" "thread_heaps T' = p # thread_heaps T"
    "same_locals T T'" "cl < classes_of T \<Longrightarrow> live T' cl = live T cl" "p \<noteq> 0"
proof -
  obtain q s a where q: "PHA_New sizeof_ThreadCache (system (pageheap (cc T))) (threadcache_allocator T) = Some (q, s, a)"
    using N by (cases "PHA_New sizeof_ThreadCache (system (pageheap (cc T))) (threadcache_allocator T)") (auto simp: NewHeap_def)
  have "q = p" using N q by (auto simp: NewHeap_def Let_def split: bind_splits)
  note n = NewHeap_ok [OF tc_invD(1,2) [OF inv] sl tc_invD(3) [OF inv] q, of tid seed, unfolded \<open>q = p\<close> N]
  then show "tc_inv T'" "evolves 0 (cc T) (cc T')" "heaps T p = None" "heaps T' p \<noteq> None" "thread_heaps T' = p # thread_heaps T"
    "same_locals T T'" "cl < classes_of T \<Longrightarrow> live T' cl = live T cl" by (auto simp: tc_inv_def)
  show "p \<noteq> 0" using caches_ok_New(2) [OF tc_invD(3) [OF inv] q] \<open>q = p\<close> by simp
qed

lemma tc_inv_TSD [simp]: "tc_inv (InitTSD T) = tc_inv T"
  by (simp add: tc_inv_def pool_inv_def cache_inv_def limits_ok_def claimed_def caches_ok_def InitTSD_def)

lemma tc_reachable_inv: "tc_reachable T \<Longrightarrow> tc_inv T"
proof (induction rule: tc_reachable.induct)
  case (tc_start env s T)
  then show ?case by (rule InitModule_inv)
next
  case (tc_tsd T)
  then show ?case by simp
next
  case (tc_new T tid seed p T')
  then show ?case using NewHeap_inv(1) by blast
next
  case (tc_allocate T t h cl r T')
  from wpo_partial [OF Allocate_wpo [OF tc_invD(1,2) [OF tc_allocate.IH] tc_allocate.hyps(2) lively_False tc_allocate.hyps(3,4)] tc_allocate.hyps(5)]
  show ?case using tc_inv_stepped [OF tc_allocate.IH] by (cases r) auto
next
  case (tc_deallocate T t h cl x T')
  from wpo_partial [OF Deallocate_wpo [OF tc_invD(1,2) [OF tc_deallocate.IH] tc_deallocate.hyps(2,3) lively_False tc_deallocate.hyps(4-6)]
      tc_deallocate.hyps(7)]
  show ?case using tc_inv_stepped [OF tc_deallocate.IH] by blast
next
  case (tc_delete T t h T')
  from wpo_partial [OF DeleteCache_wpo [OF tc_invD(1-3) [OF tc_delete.IH] tc_delete.hyps(2) lively_False] tc_delete.hyps(3)]
  show ?case by (simp add: tc_inv_def)
next
  case (tc_limit T n)
  then show ?case using set_overall_ok(1,2) [OF tc_invD(1,2)] tc_inv_adjusted by blast
qed

section \<open>A concrete state\<close>

text \<open>One thread on the default size classes and the concrete page heap.\<close>

definition demo_env :: settings_env where
  "demo_env = \<lparr> native_page_size = 4096, transfer_num_obj = None, limit_mb = 0, rate = 1, aggressive = False, cache_bytes = None,
     sample_settings = \<lparr> sample_parameter = 0, interval = (\<lambda>_ _. 0) \<rparr> \<rparr>"

lemma SizeMap_Init_span: "SizeMap_Init n e = Some (Inr sm) \<Longrightarrow> min_span_size_in_pages sm = min_span_size_of n div kPageSize"
proof -
  assume i: "SizeMap_Init n e = Some (Inr sm)"
  then obtain r where "class_loop (min_span_size_of n) (InitTCMallocTransferNumObjects 0 e) kAlignment 1 (replicate kClassSizesMax 0)
      (replicate kClassSizesMax 0) = Some r"
    unfolding SizeMap_Init_def Let_def by (auto split: if_splits bind_splits)
  with i show ?thesis
    unfolding SizeMap_Init_def Let_def by (cases r) (auto split: if_splits option.splits prod.splits)
qed

lemma demo_Init:
  obtains T sm where "tc_init demo_env demo_sys T" "SizeMap_Init 4096 None = Some (Inr sm)" "sizemap (cc T) = sm" "fresh_heap (pageheap (cc T))"
    "\<forall>cl < 86. CFL_Init sm cl = Some (central_cache (cc T) cl)" "free_list (threadcache_allocator T) = [8650752]"
    "heaps T = Map.empty" "thread_heaps T = []" "unclaimed_cache_space T = int kDefaultOverallThreadCacheSize" "num_size_classes sm = 86"
    "sampling T = sample_settings demo_env" "20 \<le> objects_left sizeof_ThreadCache (threadcache_allocator T)"
proof -
  obtain sm st where st: "SizeMap_Init 4096 None = Some (Inr sm)" "central_reachable st" "sizemap st = sm" "pageheap st = demo_heap"
      "\<forall>cl < 86. CFL_Init sm cl = Some (central_cache st cl)" by (rule demo_central)
  have m1: "min_span_size_in_pages sm = 1" using SizeMap_Init_span [OF st(1)] by (simp add: min_span_size_of_def)
  obtain s a b where i: "InitAllocators demo_sys = Some (s, a, b)" "PageHeap_init 1 s a b 0 1 = Some demo_heap" "alloc_calls s = 1"
      "Alloc s = Alloc demo_sys" "metadata_chunk_alloc s = 8650752" "metadata_chunk_avail s = 8126464" by (rule demo_init)
  note f = PageHeap_init_fields [OF i(2)]
  have n86: "num_size_classes sm = 86" by (rule default_sizes_ok(2) [OF st(1) f(4)])
  have "h\<lparr> aggressive_decommit := aggressive_decommit h \<rparr> = h" for h :: PageHeap by (cases h) simp
  moreover have "aggressive_decommit demo_heap = False" using i(2) by (clarsimp simp: PageHeap_init_def split: if_splits) (metis PageHeap.select_convs(9))
  ultimately have ag: "demo_heap\<lparr> aggressive_decommit := False \<rparr> = demo_heap" by metis
  have "those (map (CFL_Init sm) [0 ..< num_size_classes sm]) = Some (map (central_cache st) [0 ..< num_size_classes sm])"
    by (rule those_map) (use st(5) n86 in simp)
  then obtain st1 where st1: "InitStaticVars demo_env demo_sys = Some st1" "pageheap st1 = demo_heap" "sizemap st1 = sm"
      "\<forall>cl < 86. central_cache st1 cl = central_cache st cl"
    using st(1) i(1,2) m1 ag n86 by (simp add: InitStaticVars_def demo_env_def)
  obtain s2 a2 where P: "PHA_Init sizeof_ThreadCache s = Some (s2, a2)" "alloc_calls s2 = 1" "Alloc s2 = Alloc demo_sys"
      "metadata_chunk_alloc s2 = 8781824" "metadata_chunk_avail s2 = 7995392" "free_list a2 = [8650752]" "release_call s2 = release_call s"
      "free_avail a2 = 126912"
    using i(3-) by (simp add: PHA_Init_def PHA_New_def PHA_Delete_def kAllocIncrement_def MetaDataAlloc_def sizeof_ThreadCache_def
      Let_def kMetadataAllocChunkSize_def sizeof_MemoryAligner_def)
  have sy: "system (pageheap st1) = s" by (simp add: st1(2) f(2))
  obtain T where T: "InitModule demo_env demo_sys = Some T" "cc T = upd_heap (\<lambda>h. h\<lparr> system := s2 \<rparr>) st1" "threadcache_allocator T = a2"
      "heaps T = Map.empty" "thread_heaps T = []" "unclaimed_cache_space T = int kDefaultOverallThreadCacheSize" "sampling T = sample_settings demo_env"
    using st1(1) P(1) sy by (simp add: InitModule_def demo_env_def)
  have sz: "sizes_ok sm (pageheap (cc T))" by (rule default_sizes_ok(1) [OF st(1)]) (simp add: T(2) st1(2) f(4))
  have sz1: "sizes_ok sm demo_heap" by (rule default_sizes_ok(1) [OF st(1) f(4)])
  have init: "tc_init demo_env demo_sys T"
    using demo_sys_ok demo_sys_bounded T(1) sz m1 by (auto simp: tc_init_def init_env_def demo_env_def demo_sys_def T(2) st1(3) intro: exI [of _ 0])
  have ok: "heap_ok (pageheap (cc T))" by (rule cc_invD(1) [OF tc_invD(4) [OF InitModule_inv(1) [OF init]]])
  note d = fresh_heapD [OF demo_heap_fresh]
  have "lively True 400 (pageheap (cc T))"
    using d(2) P(7) by (simp add: T(2) st1(2) f(2) lively_def room_def release_fair_def)
  then have "fresh_heap (pageheap (cc T))"
    using ok d P(2-5) by (simp add: fresh_heap_def T(2) st1(2))
  moreover have "20 \<le> objects_left sizeof_ThreadCache a2" by (simp add: objects_left_def P(8) sizeof_ThreadCache_def)
  ultimately show ?thesis using init st(1,5) st1(3,4) T P(6) n86 by (intro that [of T sm]) simp_all
qed

text \<open>The first allocation in a class.\<close>

lemma fresh_Allocate:
  assumes cl: "0 < cl" "cl < 86" and sm: "SizeMap_Init 4096 None = Some (Inr sm)"
    and T: "cc_inv (cc T)" "sizemap (cc T) = sm" "fresh_heap (pageheap (cc T))" "\<forall>cl < 86. CFL_Init sm cl = Some (central_cache (cc T) cl)"
      "num_size_classes sm = 86"
    and h: "heaps T t = Some h" "fl_list (tc_list h cl) = []" "fl_max_length (tc_list h cl) = 1"
  shows "\<exists>x T'. Allocate T t (ByteSizeForClass (sizemap (cc T)) cl) cl = Some (Some x, T')"
proof -
  obtain m ch st' where R: "RemoveRange (cc T) cl 1 = Some (m, ch, st')" "ch \<noteq> []"
    using demo_central_RemoveRange [OF cl _ sm T(1-4), of 1] by auto
  have c86: "cl < num_size_classes (sizemap (cc T))" using cl(2) T(2,5) by simp
  have b: "0 < num_objects_to_move (sizemap (cc T)) cl" by (rule sizes_okD(7) [OF cc_invD(2) [OF T(1)] cl(1) c86])
  have "m = length ch" using cfl.remove_gives [OF T(1) _ _ R(1)] cl c86 by simp
  have "\<exists>x h2 st2. FetchFromCentralCache h (cc T) cl z = Some (Some x, h2, st2)" for z
    using R \<open>m = length ch\<close> b h(3) by (cases ch) (auto simp: FetchFromCentralCache_def Let_def int32_of_nat_small min_def)
  then obtain y h2 st2 where F: "FetchFromCentralCache h (cc T) cl (int32_of_nat (ByteSizeForClass (sizemap (cc T)) cl)) = Some (Some y, h2, st2)" by blast
  then show ?thesis using h(1,2) by (simp add: Allocate_def FL_TryPop_def)
qed

text \<open>One thread on the default size classes.\<close>

lemma demo_thread:
  obtains T h where "tc_reachable T" "slack T" "heaps T 8650752 = Some h" "classes_of T = 86" "thread_heaps T = [8650752]"
    "release_fair (system (pageheap (cc T)))" "3 \<le> room (pageheap (cc T))"
    "\<forall>cl. 0 < cl \<and> cl < 86 \<longrightarrow> (\<exists>x T'. Allocate T 8650752 (ByteSizeForClass (sizemap (cc T)) cl) cl = Some (Some x, T'))"
proof -
  obtain T sm where T: "tc_init demo_env demo_sys T" "SizeMap_Init 4096 None = Some (Inr sm)" "sizemap (cc T) = sm" "fresh_heap (pageheap (cc T))"
      "\<forall>cl < 86. CFL_Init sm cl = Some (central_cache (cc T) cl)" "free_list (threadcache_allocator T) = [8650752]"
      "heaps T = Map.empty" "thread_heaps T = []" "unclaimed_cache_space T = int kDefaultOverallThreadCacheSize" "num_size_classes sm = 86"
    by (rule demo_Init)
  let ?p = "8650752 :: nat"
  have r: "tc_reachable T" by (rule tc_start [OF T(1)])
  note i = tc_invD [OF tc_reachable_inv [OF r]]
  have sl: "slack T" by (simp add: slack_def T(7))
  obtain a where N: "PHA_New sizeof_ThreadCache (system (pageheap (cc T))) (threadcache_allocator T) = Some (?p, system (pageheap (cc T)), a)"
    using T(6) by (simp add: PHA_New_def)
  obtain T' where T': "NewHeap T 1 1 = Some (?p, T')" using NewHeap_ok [OF i(1,2) sl i(3) N, of 1 1] by blast
  note n = NewHeap_inv [OF tc_reachable_inv [OF r] sl T']
  have r': "tc_reachable T'" by (rule tc_new [OF r sl T'])
  have thr: "thread_heaps T' = [?p]" using n(5) T(8) by simp
  obtain h where h: "heaps T' ?p = Some h" using n(4) by blast
  have only: "t = ?p" if "heaps T' t = Some g" for t g using limits_okD(2) [OF tc_invD(2) [OF n(1)]] thr that by auto
  note eval = NewHeap_def TC_Init_def IncreaseCacheLimitLocked_def raw_ThreadCache_def SetMaxSize_def wrap32_id Let_def N T(3,7,8,9)
  have f: "tc_max_size h = 65536 \<and> (\<forall>cl < num_size_classes sm. fl_list (tc_list h cl) = [] \<and> fl_max_length (tc_list h cl) = 1)"
    using T' h by (auto simp: eval FL_Init_def split: bind_splits if_splits)
  have cT: "cc T' = cc T" using T' by (auto simp: eval split: bind_splits if_splits)
  have sl': "slack T'" using only h f by (auto simp: slack_def dest: only)
  have lv: "lively True 3 (pageheap (cc T'))" using fresh_heapD(2) [OF T(4)] by (auto simp: lively_def cT)
  have alloc: "\<exists>x T2. Allocate T' ?p (ByteSizeForClass (sizemap (cc T')) cl) cl = Some (Some x, T2)" if cl: "0 < cl" "cl < 86" for cl
    by (rule fresh_Allocate [OF cl T(2), where h = h]) (use cl(2) i(4) T(3-5,10) cT h f in simp_all)
  show ?thesis
    by (rule that [OF r' sl' h _ thr]) (use lv T(10) alloc in \<open>simp_all add: cT T(3) lively_def\<close>)
qed

section \<open>Properties\<close>

lemma live_held: "live T cl \<subseteq> held (cc T) cl"
  by (auto simp: live_def)

lemma held_class: "cc_inv st \<Longrightarrow> x \<in> held st cl \<Longrightarrow> cl < num_size_classes (sizemap st)"
  using held_span [of st x cl] cc_invD(4) [of st] by metis

text \<open>C11. Allocation is fresh: in every reachable state of any number of thread caches, an allocation in a size class
  returns (given metadata for three objects and a system call that does not fail with \<open>EAGAIN\<close> for ever).  When it
  gives an object, the object's bytes are disjoint from the bytes of every object that is live, in every class and whichever
  thread allocated it, and it is live from then on; when it gives none the memory is exhausted and nothing changes for the
  application.\<close>

theorem Allocate_gives_fresh_object:
  assumes "tc_reachable T" "heaps T t = Some h" "0 < cl" "cl < classes_of T"
    "3 \<le> room (pageheap (cc T))" "release_fair (system (pageheap (cc T)))"
  shows "\<exists>r T'. Allocate T t (ByteSizeForClass (sizemap (cc T)) cl) cl = Some (r, T')
    \<and> (case r of
         None \<Rightarrow> no_memory (cc T) cl \<and> (\<forall>d < classes_of T. live T' d = live T d)
       | Some x \<Rightarrow> (\<forall>d < classes_of T. \<forall>y \<in> live T d.
             {x ..< x + ByteSizeForClass (sizemap (cc T)) cl} \<inter> {y ..< y + ByteSizeForClass (sizemap (cc T)) d} = {})
           \<and> (\<forall>d < classes_of T. live T' d = (if d = cl then insert x (live T cl) else live T d)))"
proof -
  note i = tc_reachable_inv [OF assms(1)]
  have lv: "lively True 3 (pageheap (cc T))" using assms(5,6) by (simp add: lively_def)
  obtain r T' where A: "Allocate T t (ByteSizeForClass (sizemap (cc T)) cl) cl = Some (r, T')"
      "case r of None \<Rightarrow> stepped 3 T T' (live T) \<and> no_memory (cc T) cl
       | Some x \<Rightarrow> x \<notin> live T cl \<and> stepped 3 T T' ((live T)(cl := insert x (live T cl)))"
    using wpo_total [OF Allocate_wpo [OF tc_invD(1,2) [OF i] assms(2) lv assms(3,4)]] by auto
  show ?thesis
  proof (cases r)
    case None
    with A show ?thesis by (auto simp: stepped_def)
  next
    case (Some x)
    with A(2) have x: "x \<notin> live T cl" "stepped 3 T T' ((live T)(cl := insert x (live T cl)))" by simp_all
    have L: "live T' d = (if d = cl then insert x (live T cl) else live T d)" if "d < classes_of T" for d
      using x(2) that by (simp add: stepped_def)
    have inv: "cc_inv (cc T')" "sizemap (cc T') = sizemap (cc T)" using x(2) by (simp_all add: stepped_def evolves_def)
    have "{x ..< x + ByteSizeForClass (sizemap (cc T)) cl} \<inter> {y ..< y + ByteSizeForClass (sizemap (cc T)) d} = {}"
      if d: "d < classes_of T" "y \<in> live T d" for d y
    proof -
      have "x \<in> held (cc T') cl" "y \<in> held (cc T') d"
        using live_held [of T'] L [OF assms(4)] L [OF d(1)] d(2) by (auto split: if_splits)
      moreover have "x \<noteq> y \<or> cl \<noteq> d" using x(1) d(2) by auto
      ultimately show ?thesis using held_bytes_disjoint [OF inv(1)] inv(2) by simp
    qed
    with A(1) Some L show ?thesis by auto
  qed
qed

theorem Allocate_gives_fresh_object_witness:
  "\<exists>T x T'. tc_reachable T \<and> Allocate T 8650752 (ByteSizeForClass (sizemap (cc T)) 5) 5 = Some (Some x, T') \<and> live T' 5 = insert x (live T 5)"
proof -
  obtain T h where T: "tc_reachable T" "slack T" "heaps T 8650752 = Some h" "classes_of T = 86" "thread_heaps T = [8650752]"
      "release_fair (system (pageheap (cc T)))" "3 \<le> room (pageheap (cc T))"
      "\<forall>cl. 0 < cl \<and> cl < 86 \<longrightarrow> (\<exists>x T'. Allocate T 8650752 (ByteSizeForClass (sizemap (cc T)) cl) cl = Some (Some x, T'))"
    by (rule demo_thread)
  obtain x T' where A: "Allocate T 8650752 (ByteSizeForClass (sizemap (cc T)) 5) 5 = Some (Some x, T')" using T(8) by force
  have "live T' 5 = insert x (live T 5)"
    using Allocate_gives_fresh_object [OF T(1,3) _ _ T(7,6), of 5] A T(4) by auto
  with T(1) A show ?thesis by blast
qed

text \<open>The concrete thread after an allocation.\<close>

lemma demo_live:
  obtains T h x where "tc_reachable T" "slack T" "heaps T 8650752 = Some h" "classes_of T = 86"
    "release_fair (system (pageheap (cc T)))" "x \<in> live T 5"
proof -
  obtain T h where T: "tc_reachable T" "slack T" "heaps T 8650752 = Some h" "classes_of T = 86" "thread_heaps T = [8650752]"
      "release_fair (system (pageheap (cc T)))" "3 \<le> room (pageheap (cc T))"
      "\<forall>cl. 0 < cl \<and> cl < 86 \<longrightarrow> (\<exists>x T'. Allocate T 8650752 (ByteSizeForClass (sizemap (cc T)) cl) cl = Some (Some x, T'))"
    by (rule demo_thread)
  note i = tc_reachable_inv [OF T(1)]
  obtain x T' where A: "Allocate T 8650752 (ByteSizeForClass (sizemap (cc T)) 5) 5 = Some (Some x, T')" using T(8) by force
  have s: "stepped 3 T T' ((live T)(5 := insert x (live T 5)))"
    using wpo_partial [OF Allocate_wpo [OF tc_invD(1,2) [OF i] T(3) lively_False] A] T(4) by simp
  have r: "tc_reachable T'" by (rule tc_allocate [OF T(1,3) _ _ A]) (use T(4) in simp_all)
  have c: "classes_of T' = 86" "x \<in> live T' 5" using s T(4) by (simp_all add: stepped_def evolves_def)
  have th: "thread_heaps T' = [8650752]" using s T(5) by (simp add: stepped_def)
  have d: "dom (heaps T') = {8650752}" using limits_okD(2) [OF tc_invD(2) [OF tc_reachable_inv [OF r]]] th by simp
  have rf: "release_fair (system (pageheap (cc T')))"
    using s T(6) by (simp add: stepped_def evolves_def settings_def release_fair_def)
  have ms: "map_option tc_max_size (heaps T' 8650752) = map_option tc_max_size (heaps T 8650752)"
    using A T(3) by (auto simp: Allocate_def FetchFromCentralCache_def Let_def split: prod.splits option.splits bind_splits if_splits list.splits)
  then obtain h' where h': "heaps T' 8650752 = Some h'" "tc_max_size h' = tc_max_size h" using T(3) by auto
  have "tc_max_size h + int kStealAmount < 2 ^ 31" using T(2,3) unfolding slack_def by blast
  moreover have "t = 8650752" if "heaps T' t = Some g" for t g using d that by auto
  ultimately have "slack T'" using h' by (auto simp: slack_def)
  with that [OF r _ h'(1) c(1) rf c(2)] show ?thesis by simp
qed

text \<open>C12. Deallocation: in every reachable state, giving back a live object to the cache of any thread returns,
  even when the list overflows into the central lists and the cache is scavenged, and removes exactly this object from the
  live objects.\<close>

theorem Deallocate_takes_back:
  assumes "tc_reachable T" "slack T" "heaps T t = Some h" "0 < cl" "cl < classes_of T" "x \<in> live T cl"
    "release_fair (system (pageheap (cc T)))"
  shows "\<exists>T'. Deallocate T t x cl = Some T' \<and> (\<forall>d < classes_of T. live T' d = (if d = cl then live T cl - {x} else live T d))"
proof -
  note i = tc_reachable_inv [OF assms(1)]
  have lv: "lively True 0 (pageheap (cc T))" using assms(7) by (simp add: lively_def)
  from wpo_total [OF Deallocate_wpo [OF tc_invD(1,2) [OF i] assms(2,3) lv assms(4-6)]]
  show ?thesis by (auto simp: stepped_def)
qed

theorem Deallocate_takes_back_witness:
  "\<exists>T x T'. tc_reachable T \<and> x \<in> live T 5 \<and> Deallocate T 8650752 x 5 = Some T' \<and> live T' 5 = live T 5 - {x}"
proof -
  obtain T h x where T: "tc_reachable T" "slack T" "heaps T 8650752 = Some h" "classes_of T = 86"
      "release_fair (system (pageheap (cc T)))" "x \<in> live T 5" by (rule demo_live)
  obtain T' where "Deallocate T 8650752 x 5 = Some T'" "\<forall>d < classes_of T. live T' d = (if d = 5 then live T 5 - {x} else live T d)"
    using Deallocate_takes_back [OF T(1-3) _ _ T(6,5)] T(4) by auto
  moreover from this(2) T(4) have "live T' 5 = live T 5 - {x}" by simp
  ultimately show ?thesis using T(1,6) by blast
qed

text \<open>C13. The bookkeeping of every thread cache is well formed in every reachable state: the length field of a list is
  the length of the list and at most 8192, the low-water mark is at most the length, \<open>max_length_\<close> is positive and
  either at most the batch size or a multiple of it up to 8192 (as the code comment demands), the list holds different
  objects, and \<open>size_\<close> is the number of bytes in the lists, in 32 bits.\<close>

theorem thread_cache_well_formed:
  assumes "tc_reachable T" "heaps T t = Some h" "0 < cl" "cl < classes_of T"
  shows "fl_length (tc_list h cl) = length (fl_list (tc_list h cl)) \<and> fl_length (tc_list h cl) \<le> kMaxDynamicFreeListLength
    \<and> lowater (tc_list h cl) \<le> fl_length (tc_list h cl)
    \<and> 0 < fl_max_length (tc_list h cl)
    \<and> (int (fl_max_length (tc_list h cl)) \<le> num_objects_to_move (sizemap (cc T)) cl
       \<or> num_objects_to_move (sizemap (cc T)) cl dvd int (fl_max_length (tc_list h cl)) \<and> fl_max_length (tc_list h cl) \<le> kMaxDynamicFreeListLength)
    \<and> distinct (fl_list (tc_list h cl))
    \<and> tc_size h = wrap32 (\<Sum>d < classes_of T. int (fl_length (tc_list h d)) * int (ByteSizeForClass (sizemap (cc T)) d))"
proof -
  note i = tc_invD(1) [OF tc_reachable_inv [OF assms(1)]]
  note core = pool_invD(3) [OF i assms(2)]
  note l = fl_okD [OF tc_coreD(1) [OF core assms(3,4)]]
  obtain B where B: "0 < B" "num_objects_to_move (sizemap (cc T)) cl = int B" "batch (cc T) cl = B"
    by (rule batch_pos [OF pool_invD(1,2) [OF i] assms(3,4)])
  have len: "fl_length (tc_list h d) = length (fl_list (tc_list h d))" if "d < classes_of T" for d
    using fl_okD(6) [OF tc_coreD(1) [OF core _ that]] tc_coreD(3) [OF core] by (cases "d = 0") (simp_all add: synced_def)
  have "tc_size h = wrap32 (\<Sum>d < classes_of T. int (fl_length (tc_list h d)) * int (ByteSizeForClass (sizemap (cc T)) d))"
    using tc_coreD(4) [OF core] len by (simp add: cached_bytes_def)
  moreover have "max_length_ok B (fl_max_length (tc_list h cl))" using l(4) B(3) by simp
  ultimately show ?thesis
    using l(1,2,6) pool_invD(4) [OF i assms(2,4)] B(1,2) by (auto simp: max_length_ok_def synced_def)
qed

theorem thread_cache_well_formed_witness:
  "\<exists>T h. tc_reachable T \<and> heaps T 8650752 = Some h \<and> fl_length (tc_list h 5) = length (fl_list (tc_list h 5)) \<and> 0 < fl_max_length (tc_list h 5)"
proof -
  obtain T h x where T: "tc_reachable T" "slack T" "heaps T 8650752 = Some h" "classes_of T = 86"
      "release_fair (system (pageheap (cc T)))" "x \<in> live T 5" by (rule demo_live)
  from thread_cache_well_formed [OF T(1,3), of 5] T show ?thesis by auto
qed

text \<open>C14. The limits of the caches add up: in every reachable state the limits of all caches and the unclaimed
  space sum to the overall limit (between 512 KB and 1 GB), the caches on the list are exactly those in the store and are
  counted, the cache to steal from next is on the list, and a thread that wants a higher limit gets an answer: its limit
  grows by 64 KB or stays, and the sum is kept.\<close>

theorem cache_limits_add_up:
  assumes "tc_reachable T" "slack T" "heaps T t = Some h"
  shows "unclaimed_cache_space T + sum_list (map (\<lambda>p. tc_max_size (the (heaps T p))) (thread_heaps T)) = int (overall_thread_cache_size T)
    \<and> kMinThreadCacheSize \<le> overall_thread_cache_size T \<and> overall_thread_cache_size T \<le> 2 ^ 30
    \<and> set (thread_heaps T) = dom (heaps T) \<and> thread_heap_count T = int (length (thread_heaps T))
    \<and> (next_memory_steal T = 0 \<or> next_memory_steal T \<in> dom (heaps T))
    \<and> (\<exists>T' h'. IncreaseCacheLimitLocked T t = Some T' \<and> heaps T' t = Some h'
         \<and> tc_max_size h' \<in> {tc_max_size h, tc_max_size h + int kStealAmount}
         \<and> unclaimed_cache_space T' + sum_list (map (\<lambda>p. tc_max_size (the (heaps T' p))) (thread_heaps T')) = int (overall_thread_cache_size T'))"
proof -
  note l = tc_invD(2) [OF tc_reachable_inv [OF assms(1)]]
  have sum: "unclaimed_cache_space U + sum_list (map (\<lambda>p. tc_max_size (the (heaps U p))) (thread_heaps U)) = int (overall_thread_cache_size U)"
    if "limits_ok {} U" for U
    using limits_okD(2,6) [OF that] sum_list_distinct_conv_sum_set [OF limits_okD(1) [OF that], of "\<lambda>p. tc_max_size (the (heaps U p))"]
    by (simp add: claimed_def)
  have ne: "thread_heaps T \<noteq> [] \<or> unclaimed_cache_space T > 0" using limits_okD(2) [OF l] assms(3) by auto
  obtain T' where T': "IncreaseCacheLimitLocked T t = Some T'" "raised {} t T T'"
    using IncreaseCacheLimitLocked_raises [OF l assms(2,3) ne] by blast
  then obtain h' where h': "heaps T' t = Some h'" using adjusted_heap [of T T' t h] assms(3) by (auto simp: raised_def)
  with T'(2) assms(3) have "tc_max_size h' \<in> {tc_max_size h, tc_max_size h + int kStealAmount}" "limits_ok {} T'"
    by (auto simp: raised_def)
  moreover have "kMinThreadCacheSize \<le> overall_thread_cache_size T" "overall_thread_cache_size T \<le> 2 ^ 30"
      "set (thread_heaps T) = dom (heaps T)" "thread_heap_count T = int (length (thread_heaps T))"
      "next_memory_steal T = 0 \<or> next_memory_steal T \<in> dom (heaps T)"
    using l by (auto simp: limits_ok_def)
  ultimately show ?thesis using sum [OF l] sum [of T'] T'(1) h' by blast
qed

theorem cache_limits_add_up_witness:
  "\<exists>T. tc_reachable T \<and> dom (heaps T) \<noteq> {} \<and>
     unclaimed_cache_space T + sum_list (map (\<lambda>p. tc_max_size (the (heaps T p))) (thread_heaps T)) = int (overall_thread_cache_size T)"
proof -
  obtain T h x where T: "tc_reachable T" "slack T" "heaps T 8650752 = Some h" "classes_of T = 86"
      "release_fair (system (pageheap (cc T)))" "x \<in> live T 5" by (rule demo_live)
  from cache_limits_add_up [OF T(1-3)] T(1,3) show ?thesis by blast
qed

text \<open>C15. When a thread ends, its cache goes away and nothing is lost: \<open>DeleteCache\<close> returns, the live
  objects of the application are the same, the objects of the cache are back in the central lists, and its limit is
  unclaimed again.\<close>

theorem DeleteCache_returns_objects:
  assumes "tc_reachable T" "heaps T t = Some h" "release_fair (system (pageheap (cc T)))"
  shows "\<exists>T'. DeleteCache T t = Some T' \<and> heaps T' t = None \<and> thread_heaps T' = remove1 t (thread_heaps T)
    \<and> unclaimed_cache_space T' = unclaimed_cache_space T + tc_max_size h
    \<and> (\<forall>cl < classes_of T. live T' cl = live T cl \<and> held (cc T') cl = held (cc T) cl - set (fl_list (tc_list h cl)))"
proof -
  note i = tc_reachable_inv [OF assms(1)]
  have lv: "lively True 0 (pageheap (cc T))" using assms(3) by (simp add: lively_def)
  from wpo_total [OF DeleteCache_wpo [OF tc_invD(1-3) [OF i] assms(2) lv]] show ?thesis by auto
qed

theorem DeleteCache_returns_objects_witness:
  "\<exists>T T'. tc_reachable T \<and> DeleteCache T 8650752 = Some T' \<and> live T' 5 = live T 5 \<and> live T 5 \<noteq> {}"
proof -
  obtain T h x where T: "tc_reachable T" "slack T" "heaps T 8650752 = Some h" "classes_of T = 86"
      "release_fair (system (pageheap (cc T)))" "x \<in> live T 5" by (rule demo_live)
  obtain T' where "DeleteCache T 8650752 = Some T'" "\<forall>cl < classes_of T. live T' cl = live T cl \<and> held (cc T') cl = held (cc T) cl - set (fl_list (tc_list h cl))"
    using DeleteCache_returns_objects [OF T(1,3,5)] by blast
  moreover from this(2) T(4) have "live T' 5 = live T 5" by simp
  ultimately show ?thesis using T(1,6) by blast
qed

end
