(* ===== verification/TCMalloc_Inv.thy ===== *)
theory TCMalloc_Inv
  imports TCMalloc ThreadCache_Props
begin

text \<open>
  The invariant of the whole allocator and the blocks the application owns: the live small objects and the spans in
  use that are no spans of small objects.  What each part of an allocation or deallocation does to them.
\<close>

section \<open>Spans without size class\<close>

lemma class_part_large:
  assumes "\<And>s. U p = Some s \<Longrightarrow> sp_sizeclass s = 0" "\<And>s. r = Some s \<Longrightarrow> sp_sizeclass s = 0"
  shows "class_part (U(p := r)) cl = class_part U cl"
  using assms by (auto simp: class_part_def split: if_splits)

text \<open>One such span comes, goes, or changes its marks.\<close>

lemma large_change:
  assumes inv: "cc_inv st" and h: "heap_ok h'" "settings (pageheap st) h'" "inuse_spans h' = (inuse_spans (pageheap st))(p := r)"
    and old: "\<And>s. inuse_spans (pageheap st) p = Some s \<Longrightarrow> sp_sizeclass s = 0" and new: "\<And>s. r = Some s \<Longrightarrow> sp_sizeclass s = 0"
  shows "cc_inv (st\<lparr> pageheap := h' \<rparr>)" "held (st\<lparr> pageheap := h' \<rparr>) = held st"
    "large_spans (st\<lparr> pageheap := h' \<rparr>) = {(q, s) \<in> large_spans st. q \<noteq> p} \<union> {(q, s). q = p \<and> r = Some s}"
proof -
  have cp: "class_part (inuse_spans h') cl = part st cl" for cl
    unfolding h(3) by (rule class_part_large [OF old new])
  show "cc_inv (st\<lparr> pageheap := h' \<rparr>)"
    unfolding cc_inv_def
  proof (intro conjI allI impI, goal_cases)
    case (3 q s)
    then show ?case using inv old new by (auto simp: cc_inv_def h(3) split: if_splits)
  next
    case (4 q s)
    then show ?case using inv old new by (auto simp: cc_inv_def h(3) split: if_splits)
  qed (use h(1) sizes_ok_settings [OF cc_invD(2) [OF inv] h(2)] cc_invD(3) [OF inv] in \<open>simp_all add: cp\<close>)
  show "held (st\<lparr> pageheap := h' \<rparr>) = held st" by (simp add: held_def [abs_def] cp)
  show "large_spans (st\<lparr> pageheap := h' \<rparr>) = {(q, s) \<in> large_spans st. q \<noteq> p} \<union> {(q, s). q = p \<and> r = Some s}"
    using new by (auto simp: large_spans_def h(3) split: if_splits)
qed

section \<open>The caches\<close>

text \<open>What the invariant does not look at.\<close>

lemma tc_inv_local [simp]:
  "limits_ok X (T\<lparr> cc := st \<rparr>) = limits_ok X T" "tc_inv (T\<lparr> threadlocal_data := f \<rparr>) = tc_inv T"
  "live (T\<lparr> threadlocal_data := f \<rparr>) = live T"
  by (simp_all add: tc_inv_def pool_inv_def cache_inv_def limits_ok_def claimed_def caches_ok_def live_def [abs_def])

text \<open>The central lists change and the caches do not.\<close>

lemma tc_inv_central:
  assumes inv: "tc_inv T" and st: "cc_inv st" "sizemap st = sizemap (cc T)" "settings (pageheap (cc T)) (pageheap st)"
    and lists: "\<And>t h cl. heaps T t = Some h \<Longrightarrow> cl < classes_of T \<Longrightarrow> set (fl_list (tc_list h cl)) \<subseteq> held st cl"
  shows "tc_inv (T\<lparr> cc := st \<rparr>)"
proof -
  note i = pool_invD [OF tc_invD(1) [OF inv]]
  have "tc_core st h" if t: "heaps T t = Some h" for t h
    using i(3) [OF t] lists [OF t] fl_ok_held [OF tc_coreD(1) [OF i(3) [OF t]] st(2)] by (simp add: tc_core_def st(2))
  then have "pool_inv (T\<lparr> cc := st \<rparr>)"
    using tc_invD(1) [OF inv] st(1,2) by (simp add: pool_inv_def cache_inv_def)
  moreover have "limits_ok {} (T\<lparr> cc := st \<rparr>)" using tc_invD(2) [OF inv] by simp
  moreover have "caches_ok (T\<lparr> cc := st \<rparr>)"
    using tc_invD(3) [OF inv] sys_stepD [of "system (pageheap (cc T))" "system (pageheap st)"] st(3) by (simp add: caches_ok_def settings_def)
  ultimately show ?thesis by (simp add: tc_inv_def)
qed

lemma tc_inv_pages:
  assumes inv: "tc_inv T" and st: "cc_inv st" "sizemap st = sizemap (cc T)" "settings (pageheap (cc T)) (pageheap st)" "held st = held (cc T)"
  shows "tc_inv (T\<lparr> cc := st \<rparr>)" "live (T\<lparr> cc := st \<rparr>) = live T"
proof -
  show "tc_inv (T\<lparr> cc := st \<rparr>)"
    by (rule tc_inv_central [OF inv st(1-3)]) (use st(4) list_held [OF pool_invD(3) [OF tc_invD(1) [OF inv]]] in simp)
  show "live (T\<lparr> cc := st \<rparr>) = live T" by (simp add: live_def [abs_def] st(4))
qed

lemma tc_inv_took:
  assumes inv: "tc_inv T" and x: "x \<in> live T cl" and st: "took cl {x} (cc T) st"
  shows "tc_inv (T\<lparr> cc := st \<rparr>)" "live (T\<lparr> cc := st \<rparr>) = (live T)(cl := live T cl - {x})"
proof -
  have e: "evolves 0 (cc T) st" and h: "held st d = (if d = cl then held (cc T) cl - {x} else held (cc T) d)" for d
    using st by (auto simp: took_def)
  show "tc_inv (T\<lparr> cc := st \<rparr>)"
  proof (rule tc_inv_central [OF inv evolvesD(1,2,3) [OF e]])
    fix t g d assume t: "heaps T t = Some g" "d < classes_of T"
    have "x \<notin> set (fl_list (tc_list g cl))" using x t(1) by (simp add: live_def)
    with list_held [OF pool_invD(3) [OF tc_invD(1) [OF inv] t(1)] t(2)] show "set (fl_list (tc_list g d)) \<subseteq> held st d" by (auto simp: h)
  qed
  show "live (T\<lparr> cc := st \<rparr>) = (live T)(cl := live T cl - {x})" by (auto simp: live_def fun_eq_iff h)
qed

text \<open>A sampler moves on.\<close>

lemma resampled:
  fixes s :: Sampler
  assumes "tc_inv T" "heaps T t = Some h"
  defines "T' \<equiv> upd_cache t (\<lambda>h. h\<lparr> tc_sampler := s \<rparr>) T"
  shows "tc_inv T'" "live T' = live T" "cc T' = cc T" "same_locals T T'" "slack T' = slack T" "dom (heaps T') = dom (heaps T)"
proof -
  have a: "adjusted T T'" using assms(2) by (auto simp: adjusted_def T'_def option.rel_refl)
  have T': "heaps T' = (heaps T)(t \<mapsto> h\<lparr> tc_sampler := s \<rparr>)" by (simp add: T'_def assms(2))
  have "claimed T' = claimed T"
    using claimed_upd [OF limits_okD(3) [OF tc_invD(2) [OF assms(1)]] assms(2) T'] by simp
  then have "limits_ok {} T'"
    using tc_invD(2) [OF assms(1)] assms(2) by (auto simp: limits_ok_def T'_def insert_absorb domI)
  then show "tc_inv T'" by (rule tc_inv_adjusted [OF assms(1) a])
  show "live T' = live T" by (rule adjusted_pool(2) [OF tc_invD(1) [OF assms(1)] a])
  show "cc T' = cc T" "same_locals T T'" by (simp_all add: T'_def)
  show "slack T' = slack T" using assms(2) by (auto simp: slack_def T')
  show "dom (heaps T') = dom (heaps T)" by (rule adjusted_dom [OF a])
qed

text \<open>The pointers of the threads to their caches.\<close>

definition locals_ok :: "threads \<Rightarrow> bool" where
  "locals_ok T \<longleftrightarrow> (\<forall>me. fast_path_heap (threadlocal_data T me) \<in> {0, tls_heap (threadlocal_data T me)}
     \<and> (tls_heap (threadlocal_data T me) \<noteq> 0 \<longrightarrow> tls_heap (threadlocal_data T me) \<in> dom (heaps T)
        \<and> (\<forall>other. tls_heap (threadlocal_data T other) = tls_heap (threadlocal_data T me) \<longrightarrow> other = me)))"

lemma locals_okD:
  assumes "locals_ok T"
  shows "fast_path_heap (threadlocal_data T me) \<noteq> 0 \<Longrightarrow> \<exists>h. heaps T (fast_path_heap (threadlocal_data T me)) = Some h"
    "tls_heap (threadlocal_data T me) \<noteq> 0 \<Longrightarrow> \<exists>h. heaps T (tls_heap (threadlocal_data T me)) = Some h"
  using assms by (auto simp: locals_ok_def dom_def dest!: spec [of _ me])

lemma locals_unique:
  "locals_ok T \<Longrightarrow> tls_heap (threadlocal_data T me) \<noteq> 0 \<Longrightarrow> tls_heap (threadlocal_data T you) = tls_heap (threadlocal_data T me) \<Longrightarrow> you = me"
  unfolding locals_ok_def by blast

lemma locals_ok_cong: "locals_ok T \<Longrightarrow> threadlocal_data T' = threadlocal_data T \<Longrightarrow> dom (heaps T) \<subseteq> dom (heaps T') \<Longrightarrow> locals_ok T'"
  unfolding locals_ok_def using subsetD [of "dom (heaps T)" "dom (heaps T')"] by metis

lemma locals_ok_new:
  assumes ok: "locals_ok T" and p: "p \<in> dom (heaps T)" "p \<notin> D" "p \<noteq> 0"
    and old: "\<And>other. tls_heap (threadlocal_data T other) \<in> insert 0 D"
  shows "locals_ok (upd_local me (\<lambda>d. d\<lparr> tls_heap := p, fast_path_heap := p \<rparr>) T)"
proof -
  have "p \<noteq> tls_heap (threadlocal_data T other)" "tls_heap (threadlocal_data T other) \<noteq> p" for other
    using old [of other] p(2,3) by auto
  with ok p(1) show ?thesis by (simp add: locals_ok_def)
qed

lemma GetCache_wpo:
  assumes inv: "tc_inv T" and loc: "locals_ok T" and sl: "slack T"
    and left: "b \<longrightarrow> 1 \<le> objects_left sizeof_ThreadCache (threadcache_allocator T)"
  shows "wpo b (GetCache T me seed) (\<lambda>(t, T'). tc_inv T' \<and> locals_ok T' \<and> heaps T' t \<noteq> None \<and> evolves 0 (cc T) (cc T')
    \<and> (\<forall>cl < classes_of T. live T' cl = live T cl))"
proof (cases "GetThreadHeap T me = 0")
  case False
  then show ?thesis
    using loc inv evolves_refl [OF tc_invD(4) [OF inv]] by (auto simp: GetCache_def GetThreadHeap_def locals_ok_def dom_def)
next
  case True
  let ?found = "if \<not> tsd_inited T then find (\<lambda>p. map_option tc_tid (heaps T p) = Some me) (thread_heaps T) else None"
  have eq: "GetCache T me seed = do { (p, T) \<leftarrow> (case ?found of Some p \<Rightarrow> Some (p, T) | None \<Rightarrow> NewHeap T me seed);
      h \<leftarrow> heaps T p;
      Some (p, if \<not> in_setspecific h \<and> tsd_inited T
               then upd_local me (\<lambda>d. d\<lparr> tls_heap := p, fast_path_heap := p \<rparr>) T else T) }"
    using True by (simp add: GetCache_def CreateCacheIfNecessary_def Let_def)
  have step: "wpo b (case ?found of Some p \<Rightarrow> Some (p, T) | None \<Rightarrow> NewHeap T me seed)
      (\<lambda>(p, T'). tc_inv T' \<and> dom (heaps T) \<subseteq> dom (heaps T') \<and> p \<in> dom (heaps T') \<and> p \<noteq> 0 \<and> same_locals T T' \<and> evolves 0 (cc T) (cc T')
        \<and> (\<forall>cl < classes_of T. live T' cl = live T cl) \<and> (tsd_inited T \<longrightarrow> p \<notin> dom (heaps T)))"
  proof (cases ?found)
    case None
    show ?thesis
    proof (cases "NewHeap T me seed")
      case N: None
      have "\<not> b"
      proof
        assume b
        then obtain q s a where "PHA_New sizeof_ThreadCache (system (pageheap (cc T))) (threadcache_allocator T) = Some (q, s, a)"
          using left objects_left_pos [of sizeof_ThreadCache "threadcache_allocator T" "system (pageheap (cc T))"]
          by (cases "PHA_New sizeof_ThreadCache (system (pageheap (cc T))) (threadcache_allocator T)") (auto simp: sizeof_ThreadCache_def)
        from NewHeap_ok [OF tc_invD(1,2) [OF inv] sl tc_invD(3) [OF inv] this, of me seed] N show False by simp
      qed
      then show ?thesis using N None by simp
    next
      case (Some x)
      obtain p T' where x: "x = (p, T')" by (cases x)
      note n = NewHeap_inv [OF inv sl Some [unfolded x]]
      have "set (thread_heaps T') = insert p (set (thread_heaps T))" using n(5) by simp
      then have "dom (heaps T') = insert p (dom (heaps T))"
        using limits_okD(2) [OF tc_invD(2) [OF n(1)]] limits_okD(2) [OF tc_invD(2) [OF inv]] by simp
      then show ?thesis using None Some n by (auto simp: x)
    qed
  next
    case (Some p)
    then have "p \<in> set (thread_heaps T)" "\<not> tsd_inited T" by (auto simp: find_Some_iff split: if_splits)
    moreover have "p \<in> dom (heaps T)" "p \<noteq> 0"
      using \<open>p \<in> set (thread_heaps T)\<close> limits_okD(2,4) [OF tc_invD(2) [OF inv]] by auto
    ultimately show ?thesis using Some inv evolves_refl [OF tc_invD(4) [OF inv]] by simp
  qed
  show ?thesis
    unfolding eq
  proof (subst wpo_bind, rule wpo_mono [OF step], goal_cases)
    case (1 x)
    obtain p T' where x: "x = (p, T')" by (cases x)
    with 1 have s: "tc_inv T'" "dom (heaps T) \<subseteq> dom (heaps T')" "p \<in> dom (heaps T')" "p \<noteq> 0" "same_locals T T'" "evolves 0 (cc T) (cc T')"
        "\<forall>cl < classes_of T. live T' cl = live T cl" "tsd_inited T \<longrightarrow> p \<notin> dom (heaps T)" by auto
    then obtain h where h: "heaps T' p = Some h" by blast
    have l: "locals_ok T'" by (rule locals_ok_cong [OF loc _ s(2)]) (use s(5) in simp)
    let ?T = "upd_local me (\<lambda>d. d\<lparr> tls_heap := p, fast_path_heap := p \<rparr>) T'"
    have "tc_inv ?T \<and> (\<forall>cl < classes_of T. live ?T cl = live T cl)"
      using s(1,7) by simp
    moreover have "locals_ok ?T" if "tsd_inited T"
      by (rule locals_ok_new [OF l, of _ "dom (heaps T)"]) (use loc s(3-5,8) that in \<open>auto simp: locals_ok_def\<close>)
    ultimately show ?case using x h s(1,5-7) l by auto
  qed
qed

section \<open>The invariant\<close>

definition sizemap_ok :: "SizeMap \<Rightarrow> bool" where
  "sizemap_ok sm \<longleftrightarrow> (\<exists>n e. SizeMap_Init n e = Some (Inr sm) \<and> init_env n e)"

definition samples_ok :: "(addr \<times> Span) set \<Rightarrow> bool" where
  "samples_ok S \<longleftrightarrow> (\<forall>(p, s) \<in> S. sp_sample s \<longrightarrow> sp_objects s \<noteq> [])"

definition threads_ok :: "threads \<Rightarrow> bool" where
  "threads_ok T \<longleftrightarrow> tc_inv T \<and> cache_ok (cc T) \<and> locals_ok T \<and> sizemap_ok (sizemap (cc T)) \<and> samples_ok (large_spans (cc T))"

text \<open>The blocks of the application, as address and length.\<close>

definition large_blocks :: "(addr \<times> Span) set \<Rightarrow> (addr \<times> nat) set" where
  "large_blocks S = (\<lambda>(p, s). (sp_start s * kPageSize, sp_length s * kPageSize)) ` S"

definition small_blocks :: "SizeMap \<Rightarrow> (nat \<Rightarrow> addr set) \<Rightarrow> (addr \<times> nat) set" where
  "small_blocks sm L = {(x, ByteSizeForClass sm cl) | x cl. cl < num_size_classes sm \<and> x \<in> L cl}"

definition blocks :: "threads \<Rightarrow> (addr \<times> nat) set" where
  "blocks T = small_blocks (sizemap (cc T)) (live T) \<union> large_blocks (large_spans (cc T))"

definition extent :: "addr \<times> nat \<Rightarrow> addr set" where
  "extent b = {fst b ..< fst b + snd b}"

lemma threads_okD:
  assumes "threads_ok T"
  shows "tc_inv T" "cache_ok (cc T)" "locals_ok T" "sizemap_ok (sizemap (cc T))" "samples_ok (large_spans (cc T))" "cc_inv (cc T)" "heap_ok (pageheap (cc T))"
  using assms tc_invD(4) cc_invD(1) by (auto simp: threads_ok_def)

lemma extent_simps [simp]: "extent (x, n) = {x ..< x + n}"
  by (simp add: extent_def)

text \<open>Every block lies in a span in use, small blocks in spans of their class.\<close>

lemma small_block_span:
  assumes "cc_inv (cc T)" "x \<in> live T cl" "cl < classes_of T"
  obtains p s where "inuse_spans (pageheap (cc T)) p = Some s" "sp_sizeclass s = cl" "cl \<noteq> 0" "x div kPageSize \<in> pages_of s"
    "GetDescriptor (pageheap (cc T)) (x div kPageSize) = Some p" "{x ..< x + ByteSizeForClass (sizemap (cc T)) cl} \<subseteq> bytes_of s"
    "0 < ByteSizeForClass (sizemap (cc T)) cl"
proof -
  have x: "x \<in> held (cc T) cl" using live_held assms(2) by blast
  obtain p s where p: "inuse_spans (pageheap (cc T)) p = Some s" "sp_sizeclass s = cl" "GetDescriptor (pageheap (cc T)) (x div kPageSize) = Some p"
      "{x ..< x + ByteSizeForClass (sizemap (cc T)) cl} \<subseteq> bytes_of s"
    using held_in_span [OF assms(1) x] by blast
  have cl: "cl \<noteq> 0" by (rule held_span [OF assms(1) x]) simp
  then have pos: "0 < ByteSizeForClass (sizemap (cc T)) cl" using sizes_okD(1) [OF cc_invD(2) [OF assms(1)]] assms(3) by simp
  then have "x \<in> bytes_of s" using p(4) by auto
  then have "x div kPageSize \<in> pages_of s"
    by (auto simp: bytes_of_def pages_of_def less_mult_imp_div_less div_less_iff_less_mult less_eq_div_iff_mult_less_eq)
  with that p cl pos show ?thesis by blast
qed

lemma block_in_span:
  assumes "cc_inv (cc T)" "b \<in> blocks T"
  obtains p s where "inuse_spans (pageheap (cc T)) p = Some s" "extent b \<subseteq> bytes_of s" "0 < snd b"
proof -
  consider x cl where "b = (x, ByteSizeForClass (sizemap (cc T)) cl)" "cl < classes_of T" "x \<in> live T cl"
    | p s where "b = (sp_start s * kPageSize, sp_length s * kPageSize)" "inuse_spans (pageheap (cc T)) p = Some s"
    using assms(2) by (auto simp: blocks_def small_blocks_def large_blocks_def large_spans_def)
  then show ?thesis
  proof cases
    case 1
    obtain p s where "inuse_spans (pageheap (cc T)) p = Some s" "{x ..< x + ByteSizeForClass (sizemap (cc T)) cl} \<subseteq> bytes_of s"
        "0 < ByteSizeForClass (sizemap (cc T)) cl" by (rule small_block_span [OF assms(1) 1(3,2)])
    with that 1(1) show ?thesis by simp
  next
    case 2
    have "spans (pageheap (cc T)) p = Some s" using 2(2) by (simp add: inuse_spans_Some)
    then have "0 < sp_length s" using ph_inv_span [OF heap_okD(1) [OF cc_invD(1) [OF assms(1)]]] by blast
    with that [OF 2(2)] 2(1) show ?thesis by (simp add: bytes_of_def distrib_right)
  qed
qed

lemma inuse_bytes_disjoint:
  assumes "heap_ok h" "inuse_spans h p = Some s" "inuse_spans h q = Some t" "p \<noteq> q"
  shows "bytes_of s \<inter> bytes_of t = {}"
  using span_bytes_disjoint [OF ph_invD(1) [OF heap_okD(1) [OF assms(1)]], of p s q t] assms(2-4) by (simp add: inuse_spans_Some)

lemma small_large_disjoint:
  assumes inv: "cc_inv (cc T)" and x: "x \<in> live T cl" "cl < classes_of T" and s: "(p, s) \<in> large_spans (cc T)"
  shows "extent (x, ByteSizeForClass (sizemap (cc T)) cl) \<inter> extent (sp_start s * kPageSize, sp_length s * kPageSize) = {}"
proof -
  obtain q t where t: "inuse_spans (pageheap (cc T)) q = Some t" "sp_sizeclass t = cl" "cl \<noteq> 0"
      "{x ..< x + ByteSizeForClass (sizemap (cc T)) cl} \<subseteq> bytes_of t" by (rule small_block_span [OF inv x])
  have s': "inuse_spans (pageheap (cc T)) p = Some s" "sp_sizeclass s = 0" using s by (simp_all add: large_spans_def)
  then have "q \<noteq> p" using t by auto
  have "extent (sp_start s * kPageSize, sp_length s * kPageSize) = bytes_of s" by (simp add: bytes_of_def distrib_right)
  with inuse_bytes_disjoint [OF cc_invD(1) [OF inv] t(1) s'(1) \<open>q \<noteq> p\<close>] t(4) show ?thesis by (simp only: extent_simps) blast
qed

lemma small_small_disjoint:
  assumes "cc_inv (cc T)" "x \<in> live T cl" "y \<in> live T d" "x \<noteq> y \<or> cl \<noteq> d"
  shows "extent (x, ByteSizeForClass (sizemap (cc T)) cl) \<inter> extent (y, ByteSizeForClass (sizemap (cc T)) d) = {}"
  using held_bytes_disjoint [OF assms(1) subsetD [OF live_held assms(2)] subsetD [OF live_held assms(3)] assms(4)] by simp

lemma blocks_disjoint:
  assumes inv: "cc_inv (cc T)" and b: "b \<in> blocks T" "c \<in> blocks T" "b \<noteq> c"
  shows "extent b \<inter> extent c = {}"
proof -
  let ?st = "cc T"
  note dis = inuse_bytes_disjoint [OF cc_invD(1) [OF inv]] and sl = small_large_disjoint [OF inv]
  have ss: "extent (x, ByteSizeForClass (sizemap ?st) cl) \<inter> extent (y, ByteSizeForClass (sizemap ?st) d) = {}"
    if "x \<in> live T cl" "y \<in> live T d" "(x, ByteSizeForClass (sizemap ?st) cl) \<noteq> (y, ByteSizeForClass (sizemap ?st) d)" for x y cl d
    by (rule small_small_disjoint [OF inv that(1,2)]) (use that(3) in auto)
  have ll: "extent (sp_start s * kPageSize, sp_length s * kPageSize) \<inter> extent (sp_start t * kPageSize, sp_length t * kPageSize) = {}"
    if "(p, s) \<in> large_spans ?st" "(q, t) \<in> large_spans ?st"
      "(sp_start s * kPageSize, sp_length s * kPageSize) \<noteq> (sp_start t * kPageSize, sp_length t * kPageSize)" for p q s t
  proof -
    have u: "inuse_spans (pageheap ?st) p = Some s" "inuse_spans (pageheap ?st) q = Some t" using that(1,2) by (simp_all add: large_spans_def)
    have "p \<noteq> q" using u that(3) by auto
    from dis [OF u this] show ?thesis by (simp add: bytes_of_def distrib_right)
  qed
  from b(1) consider x cl where "b = (x, ByteSizeForClass (sizemap ?st) cl)" "cl < classes_of T" "x \<in> live T cl"
    | p s where "b = (sp_start s * kPageSize, sp_length s * kPageSize)" "(p, s) \<in> large_spans ?st"
    by (auto simp: blocks_def small_blocks_def large_blocks_def)
  note b_cases = this
  from b(2) consider x cl where "c = (x, ByteSizeForClass (sizemap ?st) cl)" "cl < classes_of T" "x \<in> live T cl"
    | p s where "c = (sp_start s * kPageSize, sp_length s * kPageSize)" "(p, s) \<in> large_spans ?st"
    by (auto simp: blocks_def small_blocks_def large_blocks_def)
  note c_cases = this
  show ?thesis
  proof (cases rule: b_cases)
    case 1
    note b1 = 1
    show ?thesis
    proof (cases rule: c_cases)
      case 1
      with b1 b(3) ss show ?thesis by blast
    next
      case 2
      with b1 sl show ?thesis by blast
    qed
  next
    case 2
    note b2 = 2
    show ?thesis
    proof (cases rule: c_cases)
      case 1
      with b2 sl show ?thesis by (metis Int_commute)
    next
      case 2
      with b2 b(3) ll show ?thesis by blast
    qed
  qed
qed

end
