(* ===== verification/TCMalloc_Ops.thy ===== *)
theory TCMalloc_Ops
  imports TCMalloc_Inv
begin

text \<open>
  What the operations of \<^verbatim>\<open>src/tcmalloc.cc\<close> do to the invariant and to the blocks of the application.
\<close>

section \<open>Steps\<close>

text \<open>A step to a good state with the blocks \<open>B\<close> that uses up at most \<open>k\<close> objects of metadata.\<close>

definition tm_step :: "nat \<Rightarrow> threads \<Rightarrow> threads \<Rightarrow> (addr \<times> nat) set \<Rightarrow> bool" where
  "tm_step k T T' B \<longleftrightarrow> threads_ok T' \<and> sizemap (cc T') = sizemap (cc T) \<and> settings (pageheap (cc T)) (pageheap (cc T'))
     \<and> room (pageheap (cc T)) \<le> room (pageheap (cc T')) + k \<and> blocks T' = B"

text \<open>A block apart from all others, and its allocation.\<close>

definition fresh :: "addr \<times> nat \<Rightarrow> threads \<Rightarrow> bool" where
  "fresh c T \<longleftrightarrow> (\<forall>b \<in> blocks T. extent b \<inter> extent c = {})"

definition gives :: "nat \<Rightarrow> nat \<Rightarrow> threads \<Rightarrow> addr option \<times> threads \<Rightarrow> bool" where
  "gives k n T = (\<lambda>(r, T'). case r of
      None \<Rightarrow> tm_step k T T' (blocks T)
    | Some x \<Rightarrow> \<exists>m \<ge> n. fresh (x, m) T \<and> tm_step k T T' (insert (x, m) (blocks T)))"

lemma fresh_not_block: "fresh (x, m) T \<Longrightarrow> 0 < m \<Longrightarrow> (x, m) \<notin> blocks T"
  unfolding fresh_def by (metis Int_absorb atLeastLessThan_empty_iff extent_simps less_add_same_cancel1)

lemma tm_stepD:
  assumes "tm_step k T T' B"
  shows "threads_ok T'" "sizemap (cc T') = sizemap (cc T)" "settings (pageheap (cc T)) (pageheap (cc T'))"
    "room (pageheap (cc T)) \<le> room (pageheap (cc T')) + k" "blocks T' = B"
  using assms by (simp_all add: tm_step_def)

lemma tm_step_refl: "threads_ok T \<Longrightarrow> tm_step 0 T T (blocks T)"
  by (simp add: tm_step_def)

lemma tm_step_trans: "tm_step j T T1 B \<Longrightarrow> tm_step k T1 T2 C \<Longrightarrow> tm_step (j + k) T T2 C"
  by (auto simp: tm_step_def intro: settings_trans)

lemma tm_step_mono: "tm_step j T T' B \<Longrightarrow> j \<le> k \<Longrightarrow> tm_step k T T' B"
  by (auto simp: tm_step_def)

lemma tm_step_lively: "tm_step k T T' B \<Longrightarrow> lively b (j + k) (pageheap (cc T)) \<Longrightarrow> lively b j (pageheap (cc T'))"
  using lively_settings [of b "j + k" "pageheap (cc T)" "pageheap (cc T')" j] by (simp add: tm_step_def)

lemma gives_trans: "tm_step j T T1 (blocks T) \<Longrightarrow> gives k n T1 (r, T2) \<Longrightarrow> gives (j + k) n T (r, T2)"
  using tm_step_trans [of j T T1 "blocks T" k T2] tm_stepD(5) [of j T T1 "blocks T"]
  by (cases r) (auto simp: gives_def fresh_def)

lemma gives_mono: "gives j n T x \<Longrightarrow> j \<le> k \<Longrightarrow> gives k n T x"
  by (cases x; cases "fst x") (auto simp: gives_def intro: tm_step_mono)

section \<open>Objects of the thread caches\<close>

lemma small_blocks_cong: "(\<And>cl. cl < num_size_classes sm \<Longrightarrow> L cl = L' cl) \<Longrightarrow> small_blocks sm L = small_blocks sm L'"
  by (auto simp: small_blocks_def)

lemma small_blocks_insert:
  "cl < num_size_classes sm \<Longrightarrow> small_blocks sm (L(cl := insert x (L cl))) = insert (x, ByteSizeForClass sm cl) (small_blocks sm L)"
  by (auto simp: small_blocks_def)

lemma stepped_tm:
  assumes ok: "threads_ok T" and st: "stepped k T T' L"
  shows "tm_step k T T' (small_blocks (sizemap (cc T)) L \<union> large_blocks (large_spans (cc T)))"
proof -
  note t = threads_okD [OF ok]
  have s: "tc_inv T'" "evolves k (cc T) (cc T')" "same_locals T T'" "\<forall>cl < classes_of T. live T' cl = L cl"
    using tc_inv_stepped [OF t(1) st] st by (simp_all add: stepped_def)
  note e = evolvesD [OF s(2)]
  have "locals_ok T'" by (rule locals_ok_cong [OF t(3)]) (use s(3) stepped_dom [OF tc_invD(2) [OF t(1)] st] in simp_all)
  then have "threads_ok T'" using s(1) e(2,5,6) t by (simp add: threads_ok_def)
  moreover have "small_blocks (sizemap (cc T)) (live T') = small_blocks (sizemap (cc T)) L"
    by (rule small_blocks_cong) (use s(4) in simp)
  ultimately show ?thesis using e(2-5) by (simp add: tm_step_def blocks_def)
qed

lemma Allocate_gives:
  assumes ok: "threads_ok T" and t: "heaps T t = Some h" and lv: "lively b 3 (pageheap (cc T))" and cl: "0 < cl" "cl < classes_of T"
    and n: "n \<le> ByteSizeForClass (sizemap (cc T)) cl"
  shows "wpo b (Allocate T t (ByteSizeForClass (sizemap (cc T)) cl) cl) (gives 3 n T)"
proof -
  note i = threads_okD [OF ok]
  show ?thesis
  proof (rule wpo_mono [OF Allocate_wpo [OF tc_invD(1,2) [OF i(1)] t lv cl]], goal_cases)
    case (1 x)
    obtain r T' where x: "x = (r, T')" by (cases x)
    show ?case
    proof (cases r)
      case None
      with 1 x stepped_tm [OF ok, of 3 T' "live T"] show ?thesis by (simp add: gives_def blocks_def)
    next
      case (Some y)
      with 1 x have y: "y \<notin> live T cl" "stepped 3 T T' ((live T)(cl := insert y (live T cl)))" by simp_all
      note s = stepped_tm [OF ok y(2)]
      let ?z = "ByteSizeForClass (sizemap (cc T)) cl"
      have sm: "sizemap (cc T') = sizemap (cc T)" "large_spans (cc T') = large_spans (cc T)"
        using tm_stepD(2) [OF s] y(2) by (simp_all add: stepped_def evolves_def)
      have inv: "cc_inv (cc T')" by (rule threads_okD(6) [OF tm_stepD(1) [OF s]])
      have L: "live T' d = (if d = cl then insert y (live T cl) else live T d)" if "d < classes_of T" for d
        using y(2) that by (simp add: stepped_def)
      have yl: "y \<in> live T' cl" using L cl(2) by simp
      have "extent c \<inter> extent (y, ?z) = {}" if "c \<in> blocks T" for c
      proof -
        from that consider z d where "c = (z, ByteSizeForClass (sizemap (cc T)) d)" "d < classes_of T" "z \<in> live T d"
          | p s where "c = (sp_start s * kPageSize, sp_length s * kPageSize)" "(p, s) \<in> large_spans (cc T)"
          by (auto simp: blocks_def small_blocks_def large_blocks_def)
        then show ?thesis
        proof cases
          case 1
          then have "z \<in> live T' d" "z \<noteq> y \<or> d \<noteq> cl" using L y(1) by auto
          from small_small_disjoint [OF inv this(1) yl this(2)] 1(1) show ?thesis by (simp add: sm)
        next
          case 2
          with small_large_disjoint [OF inv yl, of p s] cl(2) show ?thesis by (simp add: sm Int_commute)
        qed
      qed
      then have "fresh (y, ?z) T" by (simp add: fresh_def)
      moreover have "tm_step 3 T T' (insert (y, ?z) (blocks T))"
        using s by (simp add: small_blocks_insert [OF cl(2)] blocks_def)
      ultimately show ?thesis using Some x n by (auto simp: gives_def)
    qed
  qed
qed

section \<open>Spans of the page heap\<close>

abbreviation with_heap :: "PageHeap \<Rightarrow> threads \<Rightarrow> threads" where
  "with_heap h T \<equiv> T\<lparr> cc := (cc T)\<lparr> pageheap := h \<rparr> \<rparr>"

abbreviation span_block :: "Span \<Rightarrow> addr \<times> nat" where
  "span_block s \<equiv> (sp_start s * kPageSize, sp_length s * kPageSize)"

lemma large_tm:
  assumes ok: "threads_ok T" and h: "heap_ok h'" "settings (pageheap (cc T)) h'" "inuse_spans h' = (inuse_spans (pageheap (cc T)))(p := r)"
      "room (pageheap (cc T)) \<le> room h' + k" "coherent (pagemap_cache h') (inuse_spans h')"
    and old: "\<And>s. inuse_spans (pageheap (cc T)) p = Some s \<Longrightarrow> sp_sizeclass s = 0"
    and new: "\<And>s. r = Some s \<Longrightarrow> sp_sizeclass s = 0 \<and> (sp_sample s \<longrightarrow> sp_objects s \<noteq> [])"
  shows "tm_step k T (with_heap h' T) (small_blocks (sizemap (cc T)) (live T)
      \<union> large_blocks {(q, s) \<in> large_spans (cc T). q \<noteq> p} \<union> (case r of None \<Rightarrow> {} | Some s \<Rightarrow> {span_block s}))"
proof -
  note t = threads_okD [OF ok]
  let ?st = "(cc T)\<lparr> pageheap := h' \<rparr>"
  have c: "cc_inv ?st" "held ?st = held (cc T)"
      "large_spans ?st = {(q, s) \<in> large_spans (cc T). q \<noteq> p} \<union> {(q, s). q = p \<and> r = Some s}"
    by (rule large_change [OF t(6) h(1-3)]; use old new in blast)+
  note i = tc_inv_pages [OF t(1) c(1) _ _ c(2)]
  have inv: "tc_inv (with_heap h' T)" "live (with_heap h' T) = live T" using i h(2) by simp_all
  have "cache_ok ?st" using h(5) by (simp add: cache_ok_def)
  moreover have "samples_ok (large_spans ?st)" using t(5) new by (auto simp: c(3) samples_ok_def)
  moreover have "locals_ok (with_heap h' T)" by (rule locals_ok_cong [OF t(3)]) simp_all
  ultimately have "threads_ok (with_heap h' T)" using inv(1) t(4) by (simp add: threads_ok_def)
  moreover have "large_blocks (large_spans ?st) = large_blocks {(q, s) \<in> large_spans (cc T). q \<noteq> p} \<union> (case r of None \<Rightarrow> {} | Some s \<Rightarrow> {span_block s})"
    unfolding c(3) by (auto simp: large_blocks_def split: option.splits)
  ultimately show ?thesis using h(2,4) inv(2) by (simp add: tm_step_def blocks_def Un_assoc)
qed

lemma heap_tm:
  assumes ok: "threads_ok T" and h: "heap_ok h'" "settings (pageheap (cc T)) h'" "inuse_spans h' = inuse_spans (pageheap (cc T))"
      "room (pageheap (cc T)) \<le> room h' + k" "coherent (pagemap_cache h') (inuse_spans h')"
  shows "tm_step k T (with_heap h' T) (blocks T)"
proof -
  let ?U = "inuse_spans (pageheap (cc T))"
  have "dom ?U \<subseteq> dom (spans (pageheap (cc T)))" by (auto simp: inuse_spans_Some)
  moreover have "finite (dom (spans (pageheap (cc T))))"
    by (rule geom_finite [OF ph_invD(1) [OF heap_okD(1) [OF threads_okD(7) [OF ok]]]])
  ultimately obtain p where "p \<notin> dom ?U" using ex_new_if_finite [of "dom ?U"] infinite_UNIV_nat finite_subset by blast
  then have z: "?U p = None" by blast
  have e: "inuse_spans h' = ?U(p := None)" using h(3) z by (simp add: fun_upd_idem)
  have "{(q, s) \<in> large_spans (cc T). q \<noteq> p} = large_spans (cc T)" using z by (auto simp: large_spans_def)
  with large_tm [OF ok h(1,2) e h(4,5)] z show ?thesis by (simp add: blocks_def)
qed

lemma span_block_extent: "extent (span_block s) = bytes_of s"
  by (simp add: bytes_of_def distrib_right)

lemma new_span_fresh:
  assumes "cc_inv (cc T)" "inuse_spans (pageheap (cc T)) p = None" "heap_ok h'" "inuse_spans h' = (inuse_spans (pageheap (cc T)))(p \<mapsto> s)"
  shows "fresh (span_block s) T"
  unfolding fresh_def span_block_extent
proof
  fix c assume "c \<in> blocks T"
  then obtain q t where q: "inuse_spans (pageheap (cc T)) q = Some t" "extent c \<subseteq> bytes_of t" by (rule block_in_span [OF assms(1)])
  then have "q \<noteq> p" using assms(2) by auto
  with inuse_bytes_disjoint [OF assms(3), of q t p s] q assms(4) show "extent c \<inter> bytes_of s = {}" by auto
qed

text \<open>A new span.\<close>

lemma PH_New_gives:
  assumes ok: "threads_ok T" and n: "0 < n" "n \<le> 2 ^ 52" and lv: "lively b 3 (pageheap (cc T))"
  shows "wpo b (PH_New (pageheap (cc T)) n) (\<lambda>(r, h'). case r of
      None \<Rightarrow> tm_step 3 T (with_heap h' T) (blocks T)
    | Some p \<Rightarrow> \<exists>s. inuse_spans h' p = Some s \<and> sp_sizeclass s = 0 \<and> n \<le> sp_length s \<and> fresh (span_block s) T
        \<and> tm_step 3 T (with_heap h' T) (insert (span_block s) (blocks T)))"
  unfolding PH_New_def
proof (rule wpo_mono [OF New_wpo [OF threads_okD(7) [OF ok] n lv]], goal_cases)
  case (1 x)
  note t = threads_okD [OF ok]
  note co = t(2) [unfolded cache_ok_def]
  obtain r h' where x: "x = (r, h')" by (cases x)
  with 1 have h: "heap_ok h'" "settings (pageheap (cc T)) h'" "room (pageheap (cc T)) \<le> room h' + 3" by auto
  show ?case
  proof (cases r)
    case None
    with 1 x have u: "inuse_spans h' = inuse_spans (pageheap (cc T))" "pagemap_cache h' = pagemap_cache (pageheap (cc T))" by auto
    with heap_tm [OF ok h(1,2) u(1) h(3)] co None x show ?thesis by simp
  next
    case (Some p)
    with 1 x obtain s where s: "inuse_spans (pageheap (cc T)) p = None" "inuse_spans h' = (inuse_spans (pageheap (cc T)))(p \<mapsto> s)"
        "sp_length s = RoundUpSize (pageheap (cc T)) n" "sp_sizeclass s = 0" "\<not> sp_sample s"
        "pagemap_cache h' = Invalidate (pagemap_cache (pageheap (cc T))) (of_nat (sp_start s))"
      by (auto simp: span_given_def)
    have "coherent (pagemap_cache h') (inuse_spans h')" unfolding s(2,6) by (rule coherent_new [OF co s(4)])
    note l = large_tm [OF ok h(1,2) s(2) h(3) this]
    have "{(q, s) \<in> large_spans (cc T). q \<noteq> p} = large_spans (cc T)" using s(1) by (auto simp: large_spans_def)
    then have "tm_step 3 T (with_heap h' T) (insert (span_block s) (blocks T))" using l s by (simp add: blocks_def Un_assoc)
    moreover have "n \<le> sp_length s" using RoundUpSize_ok(1) [OF t(7) n] s(3) by simp
    ultimately show ?thesis using Some x s new_span_fresh [OF t(6) s(1) h(1) s(2)] by auto
  qed
qed

section \<open>Sampled allocations\<close>

text \<open>The sampler of a cache.\<close>

lemma resampled_tm:
  assumes "threads_ok T" "heaps T t = Some h"
  shows "tm_step 0 T (upd_cache t (\<lambda>h. h\<lparr> tc_sampler := s \<rparr>) T) (blocks T)"
proof -
  note i = threads_okD [OF assms(1)]
  note r = resampled [OF i(1) assms(2), of s]
  have "locals_ok (upd_cache t (\<lambda>h. h\<lparr> tc_sampler := s \<rparr>) T)" by (rule locals_ok_cong [OF i(3)]) (use r(4,6) in simp_all)
  then show ?thesis using r i by (simp add: tm_step_def threads_ok_def blocks_def settings_def)
qed

lemma SampleAllocation_wpo:
  assumes "threads_ok T" "heaps T t = Some h"
  shows "wpo b (SampleAllocation T t k) (\<lambda>(r, T'). tm_step 0 T T' (blocks T) \<and> heaps T' t \<noteq> None)"
  using resampled_tm [OF assms] assms(2) by (simp add: SampleAllocation_def split: prod.split)

lemma TryRecordAllocationFast_wpo:
  assumes "threads_ok T" "heaps T t = Some h"
  shows "wpo b (TC_TryRecordAllocationFast T t k) (\<lambda>(r, T'). tm_step 0 T T' (blocks T) \<and> heaps T' t \<noteq> None
    \<and> threadlocal_data T' = threadlocal_data T \<and> threadcache_allocator T' = threadcache_allocator T \<and> slack T' = slack T)"
  using resampled_tm [OF assms] resampled(5) [OF threads_okD(1) [OF assms(1)] assms(2)] assms(2) by (simp add: TC_TryRecordAllocationFast_def split: prod.split)

text \<open>A span without class is marked.\<close>

lemma mark_tm:
  assumes ok: "threads_ok T" and s: "inuse_spans (pageheap (cc T)) p = Some s" "sp_sizeclass s = 0"
    and s': "same_place s s'" "sp_location s' = sp_location s" "sp_sample s' \<longrightarrow> sp_objects s' \<noteq> []"
    and h: "heap_ok h" "settings (pageheap (cc T)) h" "room (pageheap (cc T)) \<le> room h + k"
      "inuse_spans h = inuse_spans (pageheap (cc T))" "pagemap_cache h = pagemap_cache (pageheap (cc T))"
  shows "tm_step k T (with_heap (upd_span p s' h) T) (blocks T)"
proof -
  note t = threads_okD [OF ok]
  have "inuse_spans h p = Some s" using s(1) h(4) by simp
  note w = heap_write [OF h(1) this, of s']
  have w': "heap_ok (upd_span p s' h)" "settings h (upd_span p s' h)" "room (upd_span p s' h) = room h"
      "inuse_spans (upd_span p s' h) = (inuse_spans h)(p \<mapsto> s')"
    using w s' by (simp_all add: same_place_def)
  have c: "coherent (pagemap_cache (upd_span p s' h)) (inuse_spans (upd_span p s' h))"
    using coherent_same [OF t(2) [unfolded cache_ok_def] s(1) s'(1)] by (simp add: w'(4) h(4,5))
  have "large_spans (cc T) = insert (p, s) {(q, s) \<in> large_spans (cc T). q \<noteq> p}" using s by (auto simp: large_spans_def)
  then have "large_blocks (large_spans (cc T)) = insert (span_block s) (large_blocks {(q, s) \<in> large_spans (cc T). q \<noteq> p})"
    unfolding large_blocks_def by (metis (no_types, lifting) case_prod_conv image_insert)
  moreover have "span_block s' = span_block s" using s'(1) by (simp add: same_place_def)
  moreover have "tm_step k T (with_heap (upd_span p s' h) T) (small_blocks (sizemap (cc T)) (live T)
      \<union> large_blocks {(q, s) \<in> large_spans (cc T). q \<noteq> p} \<union> {span_block s'})"
    using large_tm [OF ok w'(1) settings_trans [OF h(2) w'(2)] _ _ c, of p "Some s'" k] w'(3,4) h(3,4) s s' by (simp add: same_place_def)
  ultimately show ?thesis by (simp add: blocks_def)
qed

text \<open>The record of the stack trace.\<close>

lemma take_trace:
  assumes ok: "heap_ok h" and N: "PHA_New sizeof_StackTrace (system h) (stacktrace_allocator h) = Some (q, sy, a)"
  defines "h' \<equiv> h\<lparr> system := sy, stacktrace_allocator := a \<rparr>"
  shows "heap_ok h'" "settings h h'" "room h \<le> room h' + 1" "inuse_spans h' = inuse_spans h" "pagemap_cache h' = pagemap_cache h"
proof -
  note m = ph_inv_meta [OF heap_okD(1) [OF ok] N]
  have "unlocked h h'" by (simp add: unlocked_def h'_def)
  note u = unlockedD [OF this]
  have "GetDescriptor h' = GetDescriptor (h\<lparr> system := sy \<rparr>)" by (simp add: GetDescriptor_def [abs_def] h'_def)
  then have "ph_inv {} h'" using m(1) by (simp add: ph_inv_def h'_def)
  moreover show st: "settings h h'" using m(2) by (simp add: settings_def h'_def)
  ultimately show "heap_ok h'" using heap_ok_settings [OF ok] u(4) by simp
  show "room h \<le> room h' + 1" using objects_left_New [OF sizeof_pos(2) N] by (auto simp: room_def h'_def)
  show "inuse_spans h' = inuse_spans h" "pagemap_cache h' = pagemap_cache h" by (fact u)+
qed

lemma pages_bounds:
  assumes "sz \<noteq> 0"
  shows "0 < unat (pages sz)" "unat (pages sz) \<le> 2 ^ 52" "unat sz \<le> unat (pages sz) * kPageSize"
proof -
  have "0 < unat sz" using assms unat_0_iff [of sz] by auto
  moreover have "unat sz < 2 ^ 64" using unsigned_less [of sz] by simp
  ultimately show "0 < unat (pages sz)" "unat (pages sz) \<le> 2 ^ 52" "unat sz \<le> unat (pages sz) * kPageSize"
    unfolding pages_round_up by auto
qed

lemma DoSampledAllocation_wpo:
  assumes ok: "threads_ok (tm S)" and lv: "lively b 4 (heap_of S)"
  shows "wpo b (DoSampledAllocation S sz) (\<lambda>(r, S'). gives 4 (unat sz) (tm S) (r, tm S') \<and> tc_new_mode S' = tc_new_mode S)"
proof -
  let ?z = "if sz = 0 then 1 else sz"
  have "?z \<noteq> 0" by simp
  note n = pages_bounds [OF this]
  have le: "unat sz \<le> unat (pages ?z) * kPageSize" using n(3) by (cases "sz = 0") simp_all
  have lv3: "lively b 3 (heap_of S)" using lv by (auto simp: lively_def)
  show ?thesis
    unfolding DoSampledAllocation_def
  proof (subst wpo_bind, rule wpo_mono [OF PH_New_gives [OF ok n(1,2) lv3]], goal_cases)
    case (1 x)
    obtain r h where x: "x = (r, h)" by (cases x)
    show ?case
    proof (cases r)
      case None
      with 1 x show ?thesis by (auto simp: gives_def intro: tm_step_mono)
    next
      case (Some p)
      let ?T = "with_heap h (tm S)"
      from 1 x Some obtain s where s: "inuse_spans h p = Some s" "sp_sizeclass s = 0" "unat (pages ?z) \<le> sp_length s" "fresh (span_block s) (tm S)"
          "tm_step 3 (tm S) ?T (insert (span_block s) (blocks (tm S)))" by auto
      have ok1: "threads_ok ?T" by (rule tm_stepD(1) [OF s(5)])
      have ho: "heap_ok h" using threads_okD(7) [OF ok1] by simp
      have sp: "spans h p = Some s" using s(1) by (simp add: inuse_spans_Some)
      show ?thesis
      proof (cases "PHA_New sizeof_StackTrace (system h) (stacktrace_allocator h)")
        case None
        have "lively b 1 h" using tm_step_lively [OF s(5), of b 1] lv by simp
        with None objects_left_pos [of sizeof_StackTrace "stacktrace_allocator h" "system h"] Some x show ?thesis
          by (auto simp: lively_def room_def)
      next
        case (Some y)
        then obtain q sy a where N: "PHA_New sizeof_StackTrace (system h) (stacktrace_allocator h) = Some (q, sy, a)" by (cases y) auto
        let ?s = "s\<lparr> sp_sample := True, sp_objects := [q] \<rparr>" and ?h = "h\<lparr> system := sy, stacktrace_allocator := a \<rparr>"
        note tr = take_trace [OF ho N]
        have m: "tm_step 1 ?T (with_heap (upd_span p ?s ?h) ?T) (blocks ?T)"
          by (rule mark_tm [OF ok1, of p s]) (use s(1,2) tr in \<open>simp_all add: same_place_def\<close>)
        have "tm_step 4 (tm S) (with_heap (upd_span p ?s ?h) (tm S)) (insert (span_block s) (blocks (tm S)))"
          using tm_step_trans [OF s(5) m] tm_stepD(5) [OF s(5)] by simp
        moreover have "unat sz \<le> sp_length s * kPageSize" using le s(3) mult_le_mono1 [OF s(3), of kPageSize] by linarith
        moreover have "SpanToMallocResult (upd_span p ?s ?h) p = Some (sp_start s * kPageSize)" by (simp add: SpanToMallocResult_def)
        ultimately show ?thesis using x \<open>r = Some p\<close> N sp s(4) by (auto simp: gives_def)
      qed
    qed
  qed
qed

section \<open>Allocation\<close>

lemma should_report_large_same: "should_report_large S n = (r, S') \<Longrightarrow> tm S' = tm S \<and> tc_new_mode S' = tc_new_mode S"
  by (auto simp: should_report_large_def Let_def split: if_splits)

lemma New_block_wpo:
  assumes "threads_ok T" "sz \<noteq> 0" "lively b 3 (pageheap (cc T))"
  shows "wpo b (PH_New (pageheap (cc T)) (unat (pages sz))) (\<lambda>(r, h'). gives 3 (unat sz) T
    (case r of None \<Rightarrow> None | Some p \<Rightarrow> SpanToMallocResult h' p, with_heap h' T))"
proof (rule wpo_mono [OF PH_New_gives [OF assms(1) pages_bounds(1,2) [OF assms(2)] assms(3)]], goal_cases)
  case (1 x)
  obtain r h' where x: "x = (r, h')" by (cases x)
  show ?case
  proof (cases r)
    case None
    with 1 x show ?thesis by (simp add: gives_def)
  next
    case (Some p)
    with 1 x obtain s where s: "spans h' p = Some s" "unat (pages sz) \<le> sp_length s" "fresh (span_block s) T"
        "tm_step 3 T (with_heap h' T) (insert (span_block s) (blocks T))" by (auto simp: inuse_spans_Some)
    have "unat sz \<le> sp_length s * kPageSize" using pages_bounds(3) [OF assms(2)] mult_le_mono1 [OF s(2), of kPageSize] by linarith
    with s Some x show ?thesis by (auto simp: gives_def SpanToMallocResult_def)
  qed
qed

lemma do_malloc_pages_wpo:
  assumes ok: "threads_ok (tm S)" and t: "heaps (tm S) t = Some h" and lv: "lively b 4 (heap_of S)" and z: "sz \<noteq> 0"
  shows "wpo b (do_malloc_pages S t sz) (\<lambda>(r, S'). gives 4 (unat sz) (tm S) (r, tm S') \<and> tc_new_mode S' = tc_new_mode S)"
proof -
  have inner: "wpo b (if sampled then DoSampledAllocation (S\<lparr> tm := T \<rparr>) sz
       else do { (r, h) \<leftarrow> PH_New (heap_of (S\<lparr> tm := T \<rparr>)) (unat (pages sz));
                 Some (case r of None \<Rightarrow> None | Some p \<Rightarrow> SpanToMallocResult h p, set_heap h (S\<lparr> tm := T \<rparr>)) })
      (\<lambda>(r, S'). gives 4 (unat sz) (tm S) (r, tm S') \<and> tc_new_mode S' = tc_new_mode S)"
    if T: "tm_step 0 (tm S) T (blocks (tm S))" for sampled T
  proof -
    have T': "threads_ok T" "lively b 4 (pageheap (cc T))" "lively b 3 (pageheap (cc T))"
      using tm_stepD(1) [OF T] tm_step_lively [OF T, of b 4] lv by (auto simp: lively_def)
    show ?thesis
    proof (cases sampled)
      case True
      have "threads_ok (tm (S\<lparr> tm := T \<rparr>))" "lively b 4 (heap_of (S\<lparr> tm := T \<rparr>))" using T' by simp_all
      from DoSampledAllocation_wpo [OF this, of sz] True show ?thesis
        by (auto elim!: wpo_mono dest: gives_trans [OF T])
    next
      case False
      with New_block_wpo [OF T'(1) z T'(3)] show ?thesis
        by (auto elim!: wpo_mono intro!: gives_mono [OF gives_trans [OF T]])
    qed
  qed
  show ?thesis
    unfolding do_malloc_pages_def Let_def
  proof (subst wpo_bind, rule wpo_mono [OF SampleAllocation_wpo [OF ok t]], goal_cases)
    case (1 x)
    obtain c T where x: "x = (c, T)" by (cases x)
    with 1 have T: "tm_step 0 (tm S) T (blocks (tm S))" by simp
    show ?case
      unfolding x prod.case
      by (subst wpo_bind, rule wpo_mono [OF inner [OF T]]) (auto dest!: should_report_large_same split: prod.split)
  qed
qed

text \<open>The class of a size has room for it.\<close>

lemma class_of_size:
  assumes "sizemap_ok sm"
  shows "GetSizeClass sm sz = Some cl \<Longrightarrow> 0 < cl \<and> cl < num_size_classes sm \<and> unat sz \<le> ByteSizeForClass sm cl \<and> class_to_size sm cl = ByteSizeForClass sm cl"
    "GetSizeClass sm sz = None \<Longrightarrow> sz \<noteq> 0"
proof -
  obtain n e where i: "SizeMap_Init n e = Some (Inr sm)" "init_env n e" using assms by (auto simp: sizemap_ok_def)
  show "GetSizeClass sm sz = None \<Longrightarrow> sz \<noteq> 0" by (auto simp: GetSizeClass_SizeClass)
  assume "GetSizeClass sm sz = Some cl"
  then have c: "unat sz \<le> kMaxSize" "cl = SizeClass sm sz" by (auto simp: GetSizeClass_SizeClass split: if_splits)
  then have "sz \<le> of_nat kMaxSize" by (simp add: word_le_nat_alt)
  from SizeClass_best [OF i this] c(2)
  show "0 < cl \<and> cl < num_size_classes sm \<and> unat sz \<le> ByteSizeForClass sm cl \<and> class_to_size sm cl = ByteSizeForClass sm cl"
    by (auto simp: best_class_def ByteSizeForClass_def class_to_size_def)
qed

text \<open>A thread that can allocate: it does not ask for the emergency allocator, and there is metadata for its cache.\<close>

definition ready :: "bool \<Rightarrow> nat \<Rightarrow> threads \<Rightarrow> bool" where
  "ready b me T \<longleftrightarrow> threads_ok T \<and> slack T \<and> \<not> IsUseEmergencyMalloc T me \<and> lively b 4 (pageheap (cc T))
     \<and> (b \<longrightarrow> 1 \<le> objects_left sizeof_ThreadCache (threadcache_allocator T))"

lemma GetCache_tm:
  assumes "ready b me T"
  shows "wpo b (GetCache T me seed) (\<lambda>(t, T'). tm_step 0 T T' (blocks T) \<and> heaps T' t \<noteq> None)"
proof -
  have r: "threads_ok T" "slack T" "b \<longrightarrow> 1 \<le> objects_left sizeof_ThreadCache (threadcache_allocator T)"
    using assms by (simp_all add: ready_def)
  note i = threads_okD [OF r(1)]
  show ?thesis
  proof (rule wpo_mono [OF GetCache_wpo [OF i(1,3) r(2,3)]], goal_cases)
    case (1 x)
    obtain t T' where x: "x = (t, T')" by (cases x)
    with 1 have g: "tc_inv T'" "locals_ok T'" "heaps T' t \<noteq> None" "evolves 0 (cc T) (cc T')" "\<forall>cl < classes_of T. live T' cl = live T cl" by auto
    note e = evolvesD [OF g(4)]
    have "small_blocks (sizemap (cc T)) (live T') = small_blocks (sizemap (cc T)) (live T)" by (rule small_blocks_cong) (use g(5) in simp)
    then have "tm_step 0 T T' (blocks T)" using g e i by (simp add: tm_step_def threads_ok_def blocks_def)
    with g(3) x show ?case by simp
  qed
qed

lemma small_malloc_wpo:
  assumes ok: "threads_ok T" and t: "heaps T t = Some h" and lv: "lively b 4 (pageheap (cc T))"
    and cl: "0 < cl" "cl < classes_of T" "unat sz \<le> ByteSizeForClass (sizemap (cc T)) cl"
  defines "z \<equiv> ByteSizeForClass (sizemap (cc T)) cl"
  shows "wpo b (do { (sampled, T1) \<leftarrow> SampleAllocation T t z;
       if sampled then DoSampledAllocation (S\<lparr> tm := T1 \<rparr>) sz
       else do { (r, T2) \<leftarrow> Allocate T1 t z cl; Some (r, S\<lparr> tm := T2 \<rparr>) } })
     (\<lambda>(r, S'). gives 4 (unat sz) T (r, tm S') \<and> tc_new_mode S' = tc_new_mode S)"
proof (subst wpo_bind, rule wpo_mono [OF SampleAllocation_wpo [OF ok t]], goal_cases)
  case (1 y)
  obtain c T1 where y: "y = (c, T1)" by (cases y)
  with 1 have T1: "tm_step 0 T T1 (blocks T)" and "heaps T1 t \<noteq> None" by simp_all
  then obtain g where g: "heaps T1 t = Some g" by blast
  have lv1: "lively b 4 (pageheap (cc T1))" "lively b 3 (pageheap (cc T1))" using tm_step_lively [OF T1, of b 4] lv by (auto simp: lively_def)
  note sm = tm_stepD(2) [OF T1]
  show ?case
  proof (cases c)
    case True
    have "threads_ok (tm (S\<lparr> tm := T1 \<rparr>))" "lively b 4 (heap_of (S\<lparr> tm := T1 \<rparr>))" using tm_stepD(1) [OF T1] lv1 by simp_all
    from DoSampledAllocation_wpo [OF this, of sz] True y show ?thesis by (auto elim!: wpo_mono dest: gives_trans [OF T1])
  next
    case False
    have "wpo b (Allocate T1 t (ByteSizeForClass (sizemap (cc T1)) cl) cl) (gives 3 (unat sz) T1)"
      by (rule Allocate_gives [OF tm_stepD(1) [OF T1] g lv1(2)]) (use cl sm in simp_all)
    with False y show ?thesis by (auto simp: sm z_def elim!: wpo_mono intro!: gives_mono [OF gives_trans [OF T1]])
  qed
qed

lemma do_malloc_wpo:
  assumes r: "ready b me (tm S)"
  shows "wpo b (do_malloc me S sz) (\<lambda>(r, S'). gives 4 (unat sz) (tm S) (r, tm S') \<and> tc_new_mode S' = tc_new_mode S)"
proof -
  have e: "\<not> IsUseEmergencyMalloc (tm S) me" and lv: "lively b 4 (heap_of S)" using r by (simp_all add: ready_def)
  show ?thesis
    unfolding do_malloc_def if_not_P [OF e]
  proof (subst wpo_bind, rule wpo_mono [OF GetCache_tm [OF r]], goal_cases)
    case (1 x)
    obtain t T where x: "x = (t, T)" by (cases x)
    with 1 have T: "tm_step 0 (tm S) T (blocks (tm S))" and "heaps T t \<noteq> None" by simp_all
    then obtain h where t: "heaps T t = Some h" by blast
    note ok = tm_stepD(1) [OF T]
    have lv': "lively b 4 (pageheap (cc T))" using tm_step_lively [OF T, of b 4] lv by simp
    show ?case
    proof (cases "GetSizeClass (sizemap (cc T)) sz")
      case None
      have "threads_ok (tm (S\<lparr> tm := T \<rparr>))" "heaps (tm (S\<lparr> tm := T \<rparr>)) t = Some h" "lively b 4 (heap_of (S\<lparr> tm := T \<rparr>))" "sz \<noteq> 0"
        using ok t lv' class_of_size(2) [OF threads_okD(4) [OF ok] None] by simp_all
      from do_malloc_pages_wpo [OF this] None x show ?thesis by (auto elim!: wpo_mono dest: gives_trans [OF T])
    next
      case (Some cl)
      have cl: "0 < cl" "cl < classes_of T" "unat sz \<le> ByteSizeForClass (sizemap (cc T)) cl"
          "class_to_size (sizemap (cc T)) cl = ByteSizeForClass (sizemap (cc T)) cl"
        using class_of_size(1) [OF threads_okD(4) [OF ok] Some] by simp_all
      from small_malloc_wpo [OF ok t lv' cl(1-3), of S] have "wpo b (do { (sampled, T1) \<leftarrow> SampleAllocation T t (ByteSizeForClass (sizemap (cc T)) cl);
           if sampled then DoSampledAllocation (S\<lparr> tm := T1 \<rparr>) sz
           else do { (r, T2) \<leftarrow> Allocate T1 t (ByteSizeForClass (sizemap (cc T)) cl) cl; Some (r, S\<lparr> tm := T2 \<rparr>) } })
         (\<lambda>(r, S'). gives 4 (unat sz) (tm S) (r, tm S') \<and> tc_new_mode S' = tc_new_mode S)"
        by (rule wpo_mono) (auto dest: gives_trans [OF T])
      with Some x cl(4) show ?thesis by (simp add: Let_def)
    qed
  qed
qed

text \<open>Exhausted memory in a function of the C library.\<close>

lemma OOMHandler_malloc:
  "tc_new_mode S = 0 \<Longrightarrow> OOMHandler nh malloc_oom me S sz = Some (Returned None, S\<lparr> errno := ENOMEM \<rparr>)"
  by (simp add: OOMHandler_def oom_args_def handle_oom_def)

definition mallocs :: "u64 \<Rightarrow> tcmalloc \<Rightarrow> outcome \<times> tcmalloc \<Rightarrow> bool" where
  "mallocs sz S = (\<lambda>(out, S'). \<exists>r. out = Returned r \<and> gives 4 (unat sz) (tm S) (r, tm S') \<and> tc_new_mode S' = tc_new_mode S
     \<and> (r = None \<longrightarrow> errno S' = ENOMEM))"

lemma do_allocate_full_wpo:
  assumes r: "ready b me (tm S)" and m: "tc_new_mode S = 0"
  shows "wpo b (do_allocate_full nh malloc_oom me S sz) (mallocs sz S)"
  unfolding do_allocate_full_def
  by (subst wpo_bind, rule wpo_mono [OF do_malloc_wpo [OF r]]) (use m in \<open>auto simp: OOMHandler_malloc mallocs_def\<close>)

lemma tc_malloc_wpo:
  assumes r: "ready b me (tm S)" and m: "tc_new_mode S = 0"
  shows "wpo b (tc_malloc nh me S sz) (mallocs sz S)"
proof -
  let ?t = "GetFastPathCache (tm S) me" and ?sm = "sizemap (cc (tm S))"
  have R: "threads_ok (tm S)" "lively b 4 (heap_of S)" using r by (simp_all add: ready_def)
  note full = do_allocate_full_wpo [OF r m, of nh sz]
  show ?thesis
  proof (cases "?t = 0 \<or> GetSizeClass ?sm sz = None")
    case True
    with full show ?thesis by (auto simp: tc_malloc_def malloc_fast_path_def Let_def)
  next
    case False
    then obtain cl where cl': "GetSizeClass ?sm sz = Some cl" by blast
    have cl: "0 < cl" "cl < classes_of (tm S)" "unat sz \<le> ByteSizeForClass ?sm cl"
      using class_of_size(1) [OF threads_okD(4) [OF R(1)] cl'] by simp_all
    have t0: "fast_path_heap (threadlocal_data (tm S) me) \<noteq> 0" using False by (simp add: GetFastPathCache_def)
    then obtain h where h: "heaps (tm S) ?t = Some h" using locals_okD(1) [OF threads_okD(3) [OF R(1)]] by (auto simp: GetFastPathCache_def)
    let ?z = "ByteSizeForClass ?sm cl"
    have eq: "tc_malloc nh me S sz = do { (c, T) \<leftarrow> TC_TryRecordAllocationFast (tm S) ?t ?z;
        if \<not> c then do_allocate_full nh malloc_oom me (S\<lparr> tm := T \<rparr>) sz
        else do { (r, T2) \<leftarrow> Allocate T ?t ?z cl;
                  if r = None then OOMHandler nh malloc_oom me (S\<lparr> tm := T, tm := T2 \<rparr>) (of_nat ?z) else Some (Returned r, S\<lparr> tm := T, tm := T2 \<rparr>) } }"
      unfolding tc_malloc_def malloc_fast_path_def Let_def using False cl' by simp
    show ?thesis
      unfolding eq
    proof (subst wpo_bind, rule wpo_mono [OF TryRecordAllocationFast_wpo [OF R(1) h]], goal_cases)
      case (1 x)
      obtain c T where x: "x = (c, T)" by (cases x)
      with 1 have T: "tm_step 0 (tm S) T (blocks (tm S))" and T1: "heaps T ?t \<noteq> None" "threadlocal_data T = threadlocal_data (tm S)"
          "threadcache_allocator T = threadcache_allocator (tm S)" "slack T = slack (tm S)" by simp_all
      from T1(1) obtain g where g: "heaps T ?t = Some g" by blast
      have lv: "lively b 4 (pageheap (cc T))" "lively b 3 (pageheap (cc T))" using tm_step_lively [OF T, of b 4] R(2) by (auto simp: lively_def)
      note sm = tm_stepD(2) [OF T]
      show ?case
      proof (cases c)
        case False
        have "ready b me (tm (S\<lparr> tm := T \<rparr>))" using r lv tm_stepD(1) [OF T] T1 by (simp add: ready_def IsUseEmergencyMalloc_def)
        from do_allocate_full_wpo [OF this, of nh sz] m False x show ?thesis
          by (auto simp: mallocs_def elim!: wpo_mono dest: gives_trans [OF T])
      next
        case True
        have "wpo b (Allocate T ?t (ByteSizeForClass (sizemap (cc T)) cl) cl) (gives 3 (unat sz) T)"
          by (rule Allocate_gives [OF tm_stepD(1) [OF T] g lv(2)]) (use cl sm in simp_all)
        with True x m show ?thesis
          by (auto simp: sm mallocs_def OOMHandler_malloc elim!: wpo_mono intro!: gives_mono [OF gives_trans [OF T]])
      qed
    qed
  qed
qed

end
