(* ===== verification/TCMalloc_Free.thy ===== *)
theory TCMalloc_Free
  imports TCMalloc_Ops
begin

text \<open>
  Deallocation: the lookup of the size class of a pointer, small objects, spans, and \<open>free\<close>.
\<close>

section \<open>The class of a pointer\<close>

text \<open>The cache of size classes has no wrong answer for a block.\<close>

lemma small_lookup:
  assumes ok: "threads_ok T" and x: "x \<in> live T cl" "cl < classes_of T"
  obtains q s where "inuse_spans (pageheap (cc T)) q = Some s" "sp_sizeclass s = cl" "cl \<noteq> 0" "x div kPageSize \<in> pages_of s"
    "GetDescriptor (pageheap (cc T)) (x div kPageSize) = Some q" "spans (pageheap (cc T)) q = Some s"
    "TryGetSizeClass (pageheap (cc T)) (x div kPageSize) \<in> {None, Some cl}"
proof -
  note t = threads_okD [OF ok]
  obtain q s where s: "inuse_spans (pageheap (cc T)) q = Some s" "sp_sizeclass s = cl" "cl \<noteq> 0" "x div kPageSize \<in> pages_of s"
      "GetDescriptor (pageheap (cc T)) (x div kPageSize) = Some q" by (rule small_block_span [OF t(6) x])
  have "span_cached (pagemap_cache (pageheap (cc T))) s" by (rule coherent_classD [OF t(2) [unfolded cache_ok_def] s(1)])
  then have "TryGetSizeClass (pageheap (cc T)) (x div kPageSize) \<in> {None, Some cl}"
    using s(2-4) by (simp add: span_cached_def TryGetSizeClass_cached)
  with that [OF s] s(1) show ?thesis by (simp add: inuse_spans_Some)
qed

lemma large_lookup:
  assumes ok: "threads_ok T" and s: "(p, s) \<in> large_spans (cc T)"
  shows "inuse_spans (pageheap (cc T)) p = Some s" "sp_sizeclass s = 0" "spans (pageheap (cc T)) p = Some s" "sp_location s = IN_USE"
    "GetDescriptor (pageheap (cc T)) (sp_start s) = Some p" "TryGetSizeClass (pageheap (cc T)) (sp_start s) = None"
proof -
  note t = threads_okD [OF ok]
  show u: "inuse_spans (pageheap (cc T)) p = Some s" "sp_sizeclass s = 0" using s by (simp_all add: large_spans_def)
  then show sp: "spans (pageheap (cc T)) p = Some s" "sp_location s = IN_USE" by (simp_all add: inuse_spans_Some)
  show "GetDescriptor (pageheap (cc T)) (sp_start s) = Some p"
    using geom_span [OF ph_invD(1) [OF heap_okD(1) [OF t(7)]] sp(1)] by (simp add: span_ok_def)
  show "TryGetSizeClass (pageheap (cc T)) (sp_start s) = None"
    using coherent_classD [OF t(2) [unfolded cache_ok_def] u(1)] u(2) by (simp add: span_cached_def TryGetSizeClass_cached)
qed

text \<open>The class of a page is entered in the cache.\<close>

lemma SetCached_tm:
  assumes ok: "threads_ok T" and s: "inuse_spans (pageheap (cc T)) q = Some s" "sp_sizeclass s \<noteq> 0" "k \<in> pages_of s"
  shows "tm_step 0 T (with_heap (SetCachedSizeClass (pageheap (cc T)) k (sp_sizeclass s)) T) (blocks T)"
proof -
  note t = threads_okD [OF ok]
  note hp = inuse_place [OF heap_okD(1) [OF t(7)]]
  obtain n e where i: "SizeMap_Init n e = Some (Inr (sizemap (cc T)))" "init_env n e" using t(4) by (auto simp: sizemap_ok_def)
  have "(q, s) \<in> part (cc T) (sp_sizeclass s)" using s(1,2) by (simp add: class_part_def)
  then have "sp_sizeclass s < 128" using cc_invD(4) [OF t(6)] SizeMap_Init_tables(3) [OF i] by fastforce
  then have c: "coherent (put_class (pagemap_cache (pageheap (cc T))) k (sp_sizeclass s)) (inuse_spans (pageheap (cc T)))"
  proof (rule coherent_put_class [OF t(2) [unfolded cache_ok_def] s(1,3,2)], goal_cases)
    case (1 r u j)
    then show ?case using hp(1) by fastforce
  qed (use hp(2,3) s(1) in blast)+
  show ?thesis
    unfolding SetCachedSizeClass_put
    by (rule heap_tm [OF ok]) (use c t(7) in \<open>simp_all add: heap_ok_def settings_def ph_inv_cache\<close>)
qed

section \<open>Small objects\<close>

lemma blocks_remove:
  assumes "cc_inv (cc T)" "x \<in> live T cl" "cl < classes_of T"
  shows "small_blocks (sizemap (cc T)) ((live T)(cl := live T cl - {x})) \<union> large_blocks (large_spans (cc T))
    = blocks T - {(x, ByteSizeForClass (sizemap (cc T)) cl)}"
proof -
  let ?z = "ByteSizeForClass (sizemap (cc T))"
  have pos: "0 < ?z cl" by (rule small_block_span [OF assms])
  let ?L = "(live T)(cl := live T cl - {x})"
  have ne: "(y, ?z d) \<noteq> (x, ?z cl)" if "y \<in> live T d" "y \<noteq> x \<or> d \<noteq> cl" for y d
    using small_small_disjoint [OF assms(1) that(1) assms(2) that(2)] pos by auto
  have "small_blocks (sizemap (cc T)) ?L = small_blocks (sizemap (cc T)) (live T) - {(x, ?z cl)}"
  proof (intro set_eqI iffI)
    fix c assume "c \<in> small_blocks (sizemap (cc T)) ?L"
    then obtain y d where c: "c = (y, ?z d)" "d < classes_of T" "y \<in> ?L d" by (auto simp: small_blocks_def)
    then have "y \<in> live T d" "y \<noteq> x \<or> d \<noteq> cl" by (auto split: if_splits)
    with c ne show "c \<in> small_blocks (sizemap (cc T)) (live T) - {(x, ?z cl)}" by (auto simp: small_blocks_def)
  next
    fix c assume "c \<in> small_blocks (sizemap (cc T)) (live T) - {(x, ?z cl)}"
    then obtain y d where c: "c = (y, ?z d)" "d < classes_of T" "y \<in> live T d" "c \<noteq> (x, ?z cl)" by (auto simp: small_blocks_def)
    then have "y \<in> ?L d" by auto
    with c(1,2) show "c \<in> small_blocks (sizemap (cc T)) ?L" unfolding small_blocks_def by blast
  qed
  moreover have "span_block s \<noteq> (x, ?z cl)" if "(p, s) \<in> large_spans (cc T)" for p s
    using small_large_disjoint [OF assms that] pos by auto
  then have "(x, ?z cl) \<notin> large_blocks (large_spans (cc T))" unfolding large_blocks_def by force
  ultimately show ?thesis by (simp add: blocks_def Un_Diff)
qed

lemma free_object_wpo:
  assumes ok: "threads_ok (tm S)" "slack (tm S)" and lv: "lively b 0 (heap_of S)" and x: "x \<in> live (tm S) cl" "cl < classes_of (tm S)"
  shows "wpo b (free_object me S x cl) (\<lambda>S'. tm_step 0 (tm S) (tm S') (blocks (tm S) - {(x, ByteSizeForClass (sizemap (cc (tm S))) cl)})
    \<and> tc_new_mode S' = tc_new_mode S)"
proof -
  let ?T = "tm S"
  note t = threads_okD [OF ok(1)] and br = blocks_remove [OF threads_okD(6) [OF ok(1)] x]
  have cl: "0 < cl" by (rule small_block_span [OF t(6) x]) simp
  show ?thesis
  proof (cases "GetCacheIfPresent ?T me = 0")
    case False
    then obtain h where h: "heaps ?T (GetCacheIfPresent ?T me) = Some h"
      using locals_okD(2) [OF t(3), of me] by (auto simp: GetCacheIfPresent_def GetThreadHeap_def)
    have "wpo b (Deallocate ?T (GetCacheIfPresent ?T me) x cl) (\<lambda>T'. tm_step 0 ?T T' (blocks ?T - {(x, ByteSizeForClass (sizemap (cc ?T)) cl)}))"
      by (rule wpo_mono [OF Deallocate_wpo [OF tc_invD(1,2) [OF t(1)] ok(2) h lv cl x(2,1)]]) (use stepped_tm [OF ok(1)] br in fastforce)
    with False show ?thesis by (auto simp: free_object_def Let_def elim!: wpo_mono)
  next
    case True
    have "wpo b (InsertRange (cc ?T) cl [x] 1) (took cl (set [x]) (cc ?T))"
      by (rule InsertRange_wpo [OF t(6) x(2) lv]) (use subsetD [OF live_held x(1)] in simp_all)
    then have "wpo b (InsertRange (cc ?T) cl [x] 1) (\<lambda>st. tm_step 0 ?T (?T\<lparr> cc := st \<rparr>) (blocks ?T - {(x, ByteSizeForClass (sizemap (cc ?T)) cl)}))"
    proof (rule wpo_mono, goal_cases)
      case (1 st)
      then have k: "took cl {x} (cc ?T) st" by simp
      note i = tc_inv_took [OF t(1) x(1) k] and e = evolvesD [of 0 "cc ?T" st]
      have "evolves 0 (cc ?T) st" using k by (simp add: took_def)
      note e = evolvesD [OF this]
      have "locals_ok (?T\<lparr> cc := st \<rparr>)" by (rule locals_ok_cong [OF t(3)]) simp_all
      then have "threads_ok (?T\<lparr> cc := st \<rparr>)" using i(1) e t by (simp add: threads_ok_def)
      then show ?case using e i(2) br by (simp add: tm_step_def blocks_def)
    qed
    with True show ?thesis by (auto simp: free_object_def Let_def elim!: wpo_mono)
  qed
qed

section \<open>Spans\<close>

text \<open>The sample is dropped; the span keeps its place.\<close>

lemma drop_sample_wpo:
  assumes ok: "threads_ok (tm S)" and s: "(p, s) \<in> large_spans (cc (tm S))"
  shows "wpo b (drop_sample p S) (\<lambda>S'. \<exists>h s'. tm S' = with_heap h (tm S) \<and> tc_new_mode S' = tc_new_mode S \<and> heap_ok h
    \<and> settings (heap_of S) h \<and> room (heap_of S) \<le> room h \<and> inuse_spans h = (inuse_spans (heap_of S))(p \<mapsto> s')
    \<and> sp_length s' = sp_length s \<and> pagemap_cache h = pagemap_cache (heap_of S))"
proof -
  note t = threads_okD [OF ok] and l = large_lookup [OF ok s]
  show ?thesis
  proof (cases "sp_sample s")
    case False
    have "heap_of S = heap_of S \<and> tm S = with_heap (heap_of S) (tm S)" by simp
    moreover have "inuse_spans (heap_of S) = (inuse_spans (heap_of S))(p \<mapsto> s)" using l(1) by (simp add: fun_upd_idem)
    ultimately show ?thesis using False l(3) t(7) by (auto simp: drop_sample_def settings_def intro!: exI [of _ "heap_of S"])
  next
    case True
    then have "sp_objects s \<noteq> []" using t(5) s by (auto simp: samples_ok_def)
    then obtain q r where q: "sp_objects s = q # r" by (cases "sp_objects s") auto
    let ?s = "s\<lparr> sp_objects := [] \<rparr>" and ?h = "upd_span p (s\<lparr> sp_objects := [] \<rparr>) (heap_of S)"
    let ?h' = "?h\<lparr> stacktrace_allocator := PHA_Delete (stacktrace_allocator ?h) q \<rparr>"
    note w = heap_write [OF t(7) l(1), of ?s, simplified]
    have "unlocked ?h ?h'" by (simp add: unlocked_def)
    note u = unlockedD [OF this]
    have "ph_inv {} ?h'" using heap_okD(1) [OF w(1)] u(2) by (simp add: ph_inv_def)
    moreover have "settings ?h ?h'" by (simp add: settings_def)
    ultimately have "heap_ok ?h'" "settings (heap_of S) ?h'"
      using heap_ok_settings [OF w(1)] u(4) settings_trans [OF w(2)] by simp_all
    moreover have "room ?h \<le> room ?h'" by (simp add: room_def objects_left_def PHA_Delete_def)
    moreover have "inuse_spans ?h' = (inuse_spans (heap_of S))(p \<mapsto> ?s)" using u(1) w(4) by simp
    ultimately show ?thesis
      using True q l(3) w(3) by (auto simp: drop_sample_def Let_def intro!: exI [of _ ?h'] exI [of _ ?s])
  qed
qed

lemma do_free_pages_wpo:
  assumes ok: "threads_ok (tm S)" and s: "(p, s) \<in> large_spans (cc (tm S))" and lv: "lively b 0 (heap_of S)"
  shows "wpo b (do_free_pages S p (sp_start s * kPageSize)) (\<lambda>S'. tm_step 0 (tm S) (tm S') (blocks (tm S) - {span_block s})
    \<and> tc_new_mode S' = tc_new_mode S)"
proof -
  note t = threads_okD [OF ok] and l = large_lookup [OF ok s]
  let ?T = "tm S" and ?U = "inuse_spans (heap_of S)"
  have eq: "do_free_pages S p (sp_start s * kPageSize) = do { S \<leftarrow> drop_sample p S; h \<leftarrow> PH_Delete (heap_of S) p; Some (set_heap h S) }"
    using l(3,4) by (simp add: do_free_pages_def PrepareAndDelete_def PH_Delete_def)
  show ?thesis
    unfolding eq
  proof (subst wpo_bind, rule wpo_mono [OF drop_sample_wpo [OF ok s]], goal_cases)
    case (1 S1)
    then obtain h s' where h: "tm S1 = with_heap h ?T" "tc_new_mode S1 = tc_new_mode S" "heap_ok h" "settings (heap_of S) h" "room (heap_of S) \<le> room h"
        "inuse_spans h = ?U(p \<mapsto> s')" "sp_length s' = sp_length s" "pagemap_cache h = pagemap_cache (heap_of S)" by blast
    have p: "inuse_spans h p = Some s'" and lv1: "lively b 0 h" using h lively_settings [OF lv h(4), of 0] by simp_all
    have "wpo b (PH_Delete h p) (\<lambda>h'. tm_step 0 ?T (with_heap h' ?T) (blocks ?T - {span_block s}))"
    proof (rule wpo_mono [OF Delete_wpo [OF h(3) p lv1]], elim conjE, goal_cases)
      case (1 h')
      have u: "inuse_spans h' = ?U(p := None)" using 1(2) h(6) by simp
      have co: "coherent (pagemap_cache h') (inuse_spans h')"
        using coherent_drop [OF t(2) [unfolded cache_ok_def], of p] frame_cache [OF 1(3)] h(8) u by simp
      have st: "settings (heap_of S) h'" by (rule settings_trans [OF h(4) frame_settings [OF 1(3)]])
      let ?B = "small_blocks (sizemap (cc ?T)) (live ?T) \<union> large_blocks {(q, s) \<in> large_spans (cc ?T). q \<noteq> p}"
      have k: "tm_step 0 ?T (with_heap h' ?T) ?B"
        using large_tm [OF ok 1(1) st u _ co, of 0] 1(4) h(5) l(1,2) by simp
      have "fresh (span_block s) (with_heap h' ?T)"
        by (rule new_span_fresh [of _ p "heap_of S"]) (use threads_okD(6) [OF tm_stepD(1) [OF k]] u l(1) t(7) in \<open>simp_all add: fun_upd_idem\<close>)
      moreover have "0 < sp_length s" using ph_inv_span [OF heap_okD(1) [OF t(7)] l(3)] by simp
      ultimately have "span_block s \<notin> ?B" using fresh_not_block [of _ _ "with_heap h' ?T"] tm_stepD(5) [OF k] by simp
      moreover have "large_spans (cc ?T) = insert (p, s) {(q, s) \<in> large_spans (cc ?T). q \<noteq> p}" using s l(1) by (auto simp: large_spans_def)
      then have "large_blocks (large_spans (cc ?T)) = insert (span_block s) (large_blocks {(q, s) \<in> large_spans (cc ?T). q \<noteq> p})"
        unfolding large_blocks_def by (metis (no_types, lifting) case_prod_conv image_insert)
      then have "blocks ?T = insert (span_block s) ?B" by (simp add: blocks_def)
      ultimately show ?case using k by simp
    qed
    with h(1,2) show ?case by (auto elim!: wpo_mono)
  qed
qed

section \<open>Free\<close>

lemma tc_free_wpo:
  assumes ok: "threads_ok (tm S)" "slack (tm S)" and lv: "lively b 0 (heap_of S)" and c: "(ptr, n) \<in> blocks (tm S)"
  shows "wpo b (tc_free me S ptr) (\<lambda>S'. tm_step 0 (tm S) (tm S') (blocks (tm S) - {(ptr, n)}) \<and> tc_new_mode S' = tc_new_mode S)"
proof -
  let ?T = "tm S"
  note free = tc_free_def free_fast_path_def do_free_def do_free_with_callback_def
  from c consider cl where "n = ByteSizeForClass (sizemap (cc ?T)) cl" "cl < classes_of ?T" "ptr \<in> live ?T cl"
    | p s where "(ptr, n) = span_block s" "(p, s) \<in> large_spans (cc ?T)"
    by (auto simp: blocks_def small_blocks_def large_blocks_def)
  then show ?thesis
  proof cases
    case 1
    obtain q s where s: "inuse_spans (heap_of S) q = Some s" "sp_sizeclass s = cl" "cl \<noteq> 0" "ptr div kPageSize \<in> pages_of s"
        "GetDescriptor (heap_of S) (ptr div kPageSize) = Some q" "spans (heap_of S) q = Some s"
        "TryGetSizeClass (heap_of S) (ptr div kPageSize) \<in> {None, Some cl}" by (rule small_lookup [OF ok(1) 1(3,2)])
    show ?thesis
    proof (cases "TryGetSizeClass (heap_of S) (ptr div kPageSize)")
      case (Some d)
      then have "tc_free me S ptr = free_object me S ptr cl" using s(7) by (simp add: free)
      then show ?thesis using free_object_wpo [OF ok lv 1(3,2)] 1(1) by simp
    next
      case None
      let ?S = "set_heap (SetCachedSizeClass (heap_of S) (ptr div kPageSize) cl) S"
      have eq: "tc_free me S ptr = free_object me ?S ptr cl" using None s(2,3,5,6) by (simp add: free Let_def)
      have k: "tm_step 0 ?T (tm ?S) (blocks ?T)" using SetCached_tm [OF ok(1) s(1)] s(2-4) by simp
      have "threads_ok (tm ?S)" "slack (tm ?S)" "lively b 0 (heap_of ?S)" "ptr \<in> live (tm ?S) cl" "cl < classes_of (tm ?S)"
        using tm_stepD(1) [OF k] ok(2) tm_step_lively [OF k, of b 0] lv 1(2,3)
        by (simp_all add: slack_def live_def held_def SetCachedSizeClass_put)
      from free_object_wpo [OF this, of me] show ?thesis
        unfolding eq by (rule wpo_mono) (use tm_step_trans [OF k] tm_stepD(5) [OF k] 1(1) in fastforce)
    qed
  next
    case 2
    note l = large_lookup [OF ok(1) 2(2)]
    have p: "ptr = sp_start s * kPageSize" "n = sp_length s * kPageSize" using 2(1) by simp_all
    have "ptr div kPageSize = sp_start s" using p(1) by simp
    then have "tc_free me S ptr = do_free_pages S p ptr" using l(2,3,5,6) by (simp add: free Let_def)
    with do_free_pages_wpo [OF ok(1) 2(2) lv] p show ?thesis by simp
  qed
qed

end
