(* ===== verification/PageHeap_Inspect.thy ===== *)
theory PageHeap_Inspect
  imports PageHeap_Props
begin

text \<open>
  The operations of the page heap that look at its state: the self-check
  (\<open>CheckExpensive\<close>, \<open>CheckList\<close>, \<open>CheckSet\<close>), the statistics on the free spans
  (\<open>GetSmallSpanStatsLocked\<close>, \<open>GetLargeSpanStatsLocked\<close>) and the enumeration of the spans
  (\<open>GetNextRange\<close>, and its client \<open>IterateOverRanges\<close> of \<^verbatim>\<open>src/tcmalloc.cc\<close>).
\<close>

section \<open>Definitions\<close>

text \<open>The body of the two checking loops; \<open>None\<close> is a failed \<open>CHECK_CONDITION\<close>.\<close>

definition check_span :: "PageHeap \<Rightarrow> location \<Rightarrow> nat \<Rightarrow> nat \<Rightarrow> addr \<Rightarrow> unit option" where
  "check_span h freelist min_pages max_pages p =
     do { s \<leftarrow> spans h p;
          if sp_location s = freelist \<and> min_pages \<le> sp_length s \<and> sp_length s \<le> max_pages
             \<and> GetDescriptor h (sp_start s) = Some p
             \<and> GetDescriptor h (sp_start s + sp_length s - 1) = Some p
          then Some () else None }"

fun CheckList :: "PageHeap \<Rightarrow> addr list \<Rightarrow> nat \<Rightarrow> nat \<Rightarrow> location \<Rightarrow> bool option" where
  "CheckList h [] min_pages max_pages freelist = Some True"
| "CheckList h (p # ps) min_pages max_pages freelist =
     do { check_span h freelist min_pages max_pages p; CheckList h ps min_pages max_pages freelist }"

text \<open>\<open>CheckSet\<close> has no upper bound; lengths are below \<open>2^64\<close>.\<close>

fun CheckSet :: "PageHeap \<Rightarrow> SpanPtrWithLength list \<Rightarrow> nat \<Rightarrow> location \<Rightarrow> bool option" where
  "CheckSet h [] min_pages freelist = Some True"
| "CheckSet h ((l, p) # es) min_pages freelist =
     do { s \<leftarrow> spans h p;
          (if sp_length s = l then Some () else None);
          check_span h freelist min_pages (2 ^ 64 - 1) p;
          CheckSet h es min_pages freelist }"

definition Check :: "PageHeap \<Rightarrow> bool" where
  "Check h = True"

fun check_lists :: "PageHeap \<Rightarrow> nat list \<Rightarrow> unit option" where
  "check_lists h [] = Some ()"
| "check_lists h (s # ss) =
     do { CheckList h (free h ON_NORMAL_FREELIST (s - 1)) s s ON_NORMAL_FREELIST;
          CheckList h (free h ON_RETURNED_FREELIST (s - 1)) s s ON_RETURNED_FREELIST;
          check_lists h ss }"

definition CheckExpensive :: "PageHeap \<Rightarrow> bool option" where
  "CheckExpensive h =
     (let result = Check h
      in do { CheckSet h (large h ON_NORMAL_FREELIST) (kMaxPages + 1) ON_NORMAL_FREELIST;
              CheckSet h (large h ON_RETURNED_FREELIST) (kMaxPages + 1) ON_RETURNED_FREELIST;
              check_lists h [1 ..< kMaxPages + 1];
              Some result })"

record SmallSpanStats =
  normal_length :: "nat list"
  returned_length :: "nat list"

record LargeSpanStats =
  lss_spans :: nat
  lss_normal_pages :: nat
  lss_returned_pages :: nat

definition GetSmallSpanStatsLocked :: "PageHeap \<Rightarrow> SmallSpanStats" where
  "GetSmallSpanStatsLocked h =
     \<lparr> normal_length = map (\<lambda>i. length (free h ON_NORMAL_FREELIST i)) [0 ..< kMaxPages],
       returned_length = map (\<lambda>i. length (free h ON_RETURNED_FREELIST i)) [0 ..< kMaxPages] \<rparr>"

definition GetLargeSpanStatsLocked :: "PageHeap \<Rightarrow> LargeSpanStats" where
  "GetLargeSpanStatsLocked h =
     (let result = \<lparr> lss_spans = 0, lss_normal_pages = 0, lss_returned_pages = 0 \<rparr>;
          result = foldl (\<lambda>r (l, _). r\<lparr> lss_normal_pages := lss_normal_pages r + l, lss_spans := lss_spans r + 1 \<rparr>)
                     result (large h ON_NORMAL_FREELIST)
      in foldl (\<lambda>r (l, _). r\<lparr> lss_returned_pages := lss_returned_pages r + l, lss_spans := lss_spans r + 1 \<rparr>)
           result (large h ON_RETURNED_FREELIST))"

datatype range_type = INUSE | FREE | UNMAPPED | UNKNOWN

record MallocRange =
  address :: nat
  range_length :: nat
  range_type :: range_type
  fraction :: rat

text \<open>The switch of \<open>GetNextRange\<close> on the location; the floating-point fraction is a rational.\<close>

definition range_of :: "SizeMap \<Rightarrow> Span \<Rightarrow> MallocRange" where
  "range_of sm s =
     (let r = \<lparr> address = sp_start s * kPageSize, range_length = sp_length s * kPageSize,
               range_type = UNKNOWN, fraction = 0 \<rparr>
      in case sp_location s of
           IN_USE \<Rightarrow> r\<lparr> range_type := INUSE, fraction :=
             (if sp_sizeclass s > 0
              then of_nat (class_to_size sm (sp_sizeclass s) * sp_refcount s) / of_nat (range_length r)
              else 1) \<rparr>
         | ON_NORMAL_FREELIST \<Rightarrow> r\<lparr> range_type := FREE \<rparr>
         | ON_RETURNED_FREELIST \<Rightarrow> r\<lparr> range_type := UNMAPPED \<rparr>)"

text \<open>\<open>Some None\<close> is the result \<open>false\<close>; \<open>None\<close> a read through a dangling pointer.\<close>

definition GetNextRange :: "SizeMap \<Rightarrow> PageHeap \<Rightarrow> nat \<Rightarrow> MallocRange option option" where
  "GetNextRange sm h start =
     (case PageMap2_Next kPageMapBits (pagemap h) start of
        None \<Rightarrow> Some None
      | Some p \<Rightarrow> do { s \<leftarrow> spans h p; Some (Some (range_of sm s)) })"

definition kNumRanges :: nat where "kNumRanges = 16"

text \<open>The inner loop: at most \<open>n\<close> more ranges go to the buffer.  The result is the buffer, whether the
  last range was seen, and the next page.\<close>

fun range_batch :: "nat \<Rightarrow> SizeMap \<Rightarrow> PageHeap \<Rightarrow> nat \<Rightarrow> (MallocRange list \<times> bool \<times> nat) option" where
  "range_batch 0 sm h page = Some ([], False, page)"
| "range_batch (Suc n) sm h page =
     do { r \<leftarrow> GetNextRange sm h page;
          (case r of
             None \<Rightarrow> Some ([], True, page)
           | Some r \<Rightarrow>
               do { (rs, fin, page) \<leftarrow> range_batch n sm h ((address r + range_length r + kPageSize - 1) div kPageSize);
                    Some (r # rs, fin, page) }) }"

text \<open>The sequence of ranges that are passed to the callback.\<close>

partial_function (option) ranges_loop :: "SizeMap \<Rightarrow> PageHeap \<Rightarrow> nat \<Rightarrow> MallocRange list option" where
  "ranges_loop sm h page =
     do { (rs, fin, page) \<leftarrow> range_batch kNumRanges sm h page;
          if fin then Some rs else do { rest \<leftarrow> ranges_loop sm h page; Some (rs @ rest) } }"

definition IterateOverRanges :: "SizeMap \<Rightarrow> PageHeap \<Rightarrow> MallocRange list option" where
  "IterateOverRanges sm h = ranges_loop sm h 1"

definition GetAggressiveDecommit :: "PageHeap \<Rightarrow> bool" where
  "GetAggressiveDecommit h = aggressive_decommit h"

definition SetAggressiveDecommit :: "PageHeap \<Rightarrow> bool \<Rightarrow> PageHeap" where
  "SetAggressiveDecommit h b = h\<lparr> aggressive_decommit := b \<rparr>"

section \<open>The self-check\<close>

lemma check_span_ok:
  assumes "ph_inv {} h" "spans h p = Some s" "sp_location s = loc" "m \<le> sp_length s" "sp_length s \<le> n"
  shows "check_span h loc m n p = Some ()"
  using geom_span [OF ph_invD(1) [OF assms(1)] assms(2)] assms(2-) by (simp add: check_span_def span_ok_def)

lemma CheckList_ok: "(\<And>p. p \<in> set ps \<Longrightarrow> check_span h loc m n p = Some ()) \<Longrightarrow> CheckList h ps m n loc = Some True"
  by (induction ps) simp_all

lemma CheckSet_ok:
  "(\<And>l p. (l, p) \<in> set es \<Longrightarrow> (\<exists>s. spans h p = Some s \<and> sp_length s = l) \<and> check_span h loc m (2 ^ 64 - 1) p = Some ())
   \<Longrightarrow> CheckSet h es m loc = Some True"
proof (induction es)
  case (Cons e es)
  obtain l p where e: "e = (l, p)" by (cases e)
  with Cons.prems [of l p] obtain s where "spans h p = Some s" "sp_length s = l" "check_span h loc m (2 ^ 64 - 1) p = Some ()"
    by auto
  moreover have "CheckSet h es m loc = Some True" by (rule Cons.IH, rule Cons.prems) simp
  ultimately show ?case by (simp add: e)
qed simp

lemma check_lists_ok:
  "(\<And>s loc. s \<in> set ss \<Longrightarrow> loc \<noteq> IN_USE \<Longrightarrow> CheckList h (free h loc (s - 1)) s s loc = Some True)
   \<Longrightarrow> check_lists h ss = Some ()"
  by (induction ss) simp_all

lemma large_checked:
  assumes inv: "ph_inv {} h" and loc: "loc \<noteq> IN_USE"
  shows "CheckSet h (large h loc) (kMaxPages + 1) loc = Some True"
proof (rule CheckSet_ok)
  fix l p assume "(l, p) \<in> set (large h loc)"
  with lists_okD(3) [OF ph_invD(2) [OF inv] loc, of l p] obtain s
    where s: "spans h p = Some s" "sp_location s = loc" "sp_length s = l" "kMaxPages < l" by (auto simp: on_list_def)
  have "sp_length s < 2 ^ 35" using start_bound [OF inv s(1)] by simp
  with check_span_ok [OF inv s(1,2), of "kMaxPages + 1" "2 ^ 64 - 1"] s
  show "(\<exists>s. spans h p = Some s \<and> sp_length s = l) \<and> check_span h loc (kMaxPages + 1) (2 ^ 64 - 1) p = Some ()"
    by simp
qed

lemma small_checked:
  assumes inv: "ph_inv {} h" and loc: "loc \<noteq> IN_USE" and i: "0 < i"
  shows "CheckList h (free h loc (i - 1)) i i loc = Some True"
proof (rule CheckList_ok)
  fix p assume "p \<in> set (free h loc (i - 1))"
  with lists_okD(1) [OF ph_invD(2) [OF inv] loc, of p "i - 1"] i obtain s
    where s: "spans h p = Some s" "sp_location s = loc" "sp_length s = i" by (auto simp: on_list_def)
  with check_span_ok [OF inv s(1,2), of i i] show "check_span h loc i i p = Some ()" by simp
qed

section \<open>The statistics\<close>

lemma large_fold:
  "foldl (\<lambda>r (l, _). r\<lparr> lss_normal_pages := lss_normal_pages r + l, lss_spans := lss_spans r + 1 \<rparr>) r es
     = r\<lparr> lss_normal_pages := lss_normal_pages r + sum_list (map fst es), lss_spans := lss_spans r + length es \<rparr>"
  "foldl (\<lambda>r (l, _). r\<lparr> lss_returned_pages := lss_returned_pages r + l, lss_spans := lss_spans r + 1 \<rparr>) r es
     = r\<lparr> lss_returned_pages := lss_returned_pages r + sum_list (map fst es), lss_spans := lss_spans r + length es \<rparr>"
  by (induction es arbitrary: r) auto

lemma GetLargeSpanStats_eq:
  "GetLargeSpanStatsLocked h =
     \<lparr> lss_spans = length (large h ON_NORMAL_FREELIST) + length (large h ON_RETURNED_FREELIST),
       lss_normal_pages = sum_list (map fst (large h ON_NORMAL_FREELIST)),
       lss_returned_pages = sum_list (map fst (large h ON_RETURNED_FREELIST)) \<rparr>"
  by (simp add: GetLargeSpanStatsLocked_def large_fold [unfolded Suc_eq_plus1 [symmetric]])

text \<open>The spans of a location, by length.\<close>

definition loc_spans :: "span_store \<Rightarrow> location \<Rightarrow> addr set" where
  "loc_spans sp loc = {p. \<exists>s. sp p = Some s \<and> sp_location s = loc}"

definition span_len :: "span_store \<Rightarrow> addr \<Rightarrow> nat" where
  "span_len sp p = (case sp p of None \<Rightarrow> 0 | Some s \<Rightarrow> sp_length s)"

lemma loc_pages_len:
  assumes "finite (dom sp)"
  shows "loc_pages {} sp loc = (\<Sum>p \<in> loc_spans sp loc. span_len sp p)"
proof -
  have "loc_spans sp loc \<subseteq> dom sp" by (auto simp: loc_spans_def)
  then have "(\<Sum>p \<in> loc_spans sp loc. span_len sp p) = (\<Sum>p \<in> dom sp. contrib {} loc p (sp p))"
    by (intro sum.mono_neutral_cong_left [OF assms]) (auto simp: loc_spans_def span_len_def contrib_def split: if_splits)
  then show ?thesis by (simp add: loc_pages_contrib)
qed

lemma large_distinct:
  assumes "sorted_wrt (SpanBestFitLess sp) es"
  shows "distinct es"
  using assms by (induction es) (auto simp: SpanBestFitLess_def)

lemma small_set:
  assumes "ph_inv {} h" "loc \<noteq> IN_USE" "i < kMaxPages"
  shows "set (free h loc i) = {p \<in> loc_spans (spans h) loc. span_len (spans h) p = i + 1}"
  using lists_okD(1) [OF ph_invD(2) [OF assms(1)] assms(2)] assms(3)
  by (auto simp: loc_spans_def span_len_def on_list_def)

lemma large_set:
  assumes "ph_inv {} h" "loc \<noteq> IN_USE"
  shows "set (large h loc) = (\<lambda>p. (span_len (spans h) p, p)) ` {p \<in> loc_spans (spans h) loc. kMaxPages < span_len (spans h) p}"
  using lists_okD(3) [OF ph_invD(2) [OF assms(1)] assms(2)]
  by (force simp: loc_spans_def span_len_def on_list_def image_iff)

text \<open>The pages on the lists of a location.\<close>

lemma listed_pages:
  assumes inv: "ph_inv {} h" and loc: "loc \<noteq> IN_USE"
  shows "(\<Sum>i < kMaxPages. (i + 1) * length (free h loc i)) + sum_list (map fst (large h loc))
    = loc_pages {} (spans h) loc"
proof -
  let ?S = "loc_spans (spans h) loc" and ?l = "span_len (spans h)"
  note lo = ph_invD(2) [OF inv]
  have fin: "finite ?S"
    using ph_invD(5) [OF inv] by (rule finite_subset [rotated]) (auto simp: loc_spans_def)
  have pos: "0 < ?l p" if "p \<in> ?S" for p
    using that ph_inv_span [OF inv] by (auto simp: loc_spans_def span_len_def)
  let ?B = "{p \<in> ?S. kMaxPages < ?l p}" and ?A = "\<lambda>i. {p \<in> ?S. ?l p = i + 1}"
  have "sum_list (map fst (large h loc)) = (\<Sum>e \<in> set (large h loc). fst e)"
    by (rule sum_list_distinct_conv_sum_set [OF large_distinct [OF lists_okD(4) [OF lo loc]]])
  also have "\<dots> = (\<Sum>p \<in> ?B. ?l p)"
    unfolding large_set [OF inv loc] by (subst sum.reindex) (auto simp: inj_on_def)
  finally have big: "sum_list (map fst (large h loc)) = (\<Sum>p \<in> ?B. ?l p)" .
  have "(i + 1) * length (free h loc i) = (\<Sum>p \<in> ?A i. ?l p)" if "i < kMaxPages" for i
    using distinct_card [OF lists_okD(2) [OF lo loc], of i] small_set [OF inv loc that] by simp
  then have "(\<Sum>i < kMaxPages. (i + 1) * length (free h loc i)) = (\<Sum>i < kMaxPages. \<Sum>p \<in> ?A i. ?l p)"
    by (intro sum.cong) simp_all
  also have "\<dots> = (\<Sum>p \<in> (\<Union>i \<in> {..<kMaxPages}. ?A i). ?l p)"
    using fin by (intro sum.UNION_disjoint [symmetric]) auto
  finally have small: "(\<Sum>i < kMaxPages. (i + 1) * length (free h loc i)) = (\<Sum>p \<in> (\<Union>i \<in> {..<kMaxPages}. ?A i). ?l p)" .
  have un: "(\<Union>i \<in> {..<kMaxPages}. ?A i) \<union> ?B = ?S"
  proof -
    have "\<exists>i < kMaxPages. ?l p = i + 1" if "p \<in> ?S" "\<not> kMaxPages < ?l p" for p
      using pos [OF that(1)] that(2) by (intro exI [of _ "?l p - 1"]) auto
    then show ?thesis by blast
  qed
  have "(\<Sum>p \<in> (\<Union>i \<in> {..<kMaxPages}. ?A i). ?l p) + (\<Sum>p \<in> ?B. ?l p) = (\<Sum>p \<in> ?S. ?l p)"
    using fin by (subst sum.union_disjoint [symmetric]) (auto simp only: un intro: finite_subset)
  then show ?thesis
    unfolding small big loc_pages_len [OF ph_invD(5) [OF inv]] .
qed

section \<open>The enumeration of the spans\<close>

text \<open>A page where a range may be asked for: it is not inside a span.\<close>

definition boundary :: "PageHeap \<Rightarrow> nat \<Rightarrow> bool" where
  "boundary h k \<longleftrightarrow> (\<forall>p s. spans h p = Some s \<longrightarrow> \<not> (sp_start s < k \<and> k < sp_start s + sp_length s))"

definition spans_from :: "PageHeap \<Rightarrow> nat \<Rightarrow> Span set" where
  "spans_from h k = {s \<in> ran (spans h). k \<le> sp_start s}"

lemma spans_from_finite: "ph_inv X h \<Longrightarrow> finite (spans_from h k)"
  by (rule finite_subset [OF _ finite_ran [OF ph_invD(5)]]) (auto simp: spans_from_def)

lemma next_range_none:
  assumes inv: "ph_inv {} h" and k: "boundary h k" and none: "spans_from h k = {}"
  shows "GetNextRange sm h k = Some None"
proof -
  have "GetDescriptor h j = None" if j: "k \<le> j" for j
  proof (rule ccontr)
    assume "GetDescriptor h j \<noteq> None"
    then obtain q s where q: "spans h q = Some s" "j \<in> pages_of s"
      using geom_covered [OF ph_invD(1) [OF inv]] by blast
    with k j have "k \<le> sp_start s" by (fastforce simp: boundary_def pages_of_def)
    with q(1) none show False by (auto simp: spans_from_def intro: ranI)
  qed
  then have "PageMap2_Next kPageMapBits (pagemap h) k = None"
    using pm2.Next_none_iff [of "pagemap h" k] by (simp add: GetDescriptor_def)
  then show ?thesis by (simp add: GetNextRange_def)
qed

lemma next_range_some:
  assumes inv: "ph_inv {} h" and k: "boundary h k" and some: "spans_from h k \<noteq> {}"
  obtains s where "GetNextRange sm h k = Some (Some (range_of sm s))" "k \<le> sp_start s" "0 < sp_length s"
    "boundary h (sp_start s + sp_length s)"
    "spans_from h k = insert s (spans_from h (sp_start s + sp_length s))"
proof -
  note g = ph_invD(1) [OF inv]
  obtain s0 where "s0 \<in> spans_from h k" using some by blast
  from ex_has_least_nat [of "\<lambda>s. s \<in> spans_from h k", OF this, of sp_start]
  obtain s where s: "s \<in> spans_from h k" and least: "\<forall>t \<in> spans_from h k. sp_start s \<le> sp_start t" by blast
  then obtain p where p: "spans h p = Some s" "k \<le> sp_start s" by (auto simp: spans_from_def ran_def)
  have pos: "0 < sp_length s" using ph_inv_span [OF inv p(1)] by simp
  have gs: "GetDescriptor h (sp_start s) = Some p" using geom_span [OF g p(1)] by (simp add: span_ok_def)
  have gap: "GetDescriptor h j = None" if j: "k \<le> j" "j < sp_start s" for j
  proof (rule ccontr)
    assume "GetDescriptor h j \<noteq> None"
    then obtain q t where q: "spans h q = Some t" "j \<in> pages_of t" using geom_covered [OF g] by blast
    with k j have "k \<le> sp_start t" by (fastforce simp: boundary_def pages_of_def)
    with q(1) have "t \<in> spans_from h k" by (auto simp: spans_from_def intro: ranI)
    with least q(2) j show False by (auto simp: pages_of_def)
  qed
  have "PageMap2_Next kPageMapBits (pagemap h) k = Some p"
    using pm2.Next_least [of "pagemap h" "sp_start s" p k] gs p(2) gap by (simp add: GetDescriptor_def)
  then have get: "GetNextRange sm h k = Some (Some (range_of sm s))" by (simp add: GetNextRange_def p(1))
  have far: "sp_start s + sp_length s \<le> sp_start t \<or> sp_start t + sp_length t \<le> sp_start s"
    if "spans h q = Some t" "t \<noteq> s" for q t
    using geom_order [OF g p(1) that(1)] that p(1) by (cases "p = q") auto
  have bd: "boundary h (sp_start s + sp_length s)"
    unfolding boundary_def
  proof (intro allI impI notI)
    fix q t assume "spans h q = Some t" "sp_start t < sp_start s + sp_length s \<and> sp_start s + sp_length s < sp_start t + sp_length t"
    with far [of q t] pos show False by (cases "t = s") auto
  qed
  have "t \<in> spans_from h (sp_start s + sp_length s)" if t: "t \<in> spans_from h k" "t \<noteq> s" for t
  proof -
    from t(1) obtain q where q: "spans h q = Some t" by (auto simp: spans_from_def ran_def)
    have "0 < sp_length t" using ph_inv_span [OF inv q] by simp
    with far [OF q t(2)] least t(1) q show ?thesis by (fastforce simp: spans_from_def intro: ranI)
  qed
  moreover have "spans_from h (sp_start s + sp_length s) \<subseteq> spans_from h k"
    using p(2) by (auto simp: spans_from_def)
  ultimately have eq: "spans_from h k = insert s (spans_from h (sp_start s + sp_length s))" using s by blast
  show ?thesis by (rule that [OF get p(2) pos bd eq])
qed

lemma range_of_simps [simp]:
  "address (range_of sm s) = sp_start s * kPageSize" "range_length (range_of sm s) = sp_length s * kPageSize"
  by (simp_all add: range_of_def Let_def split: location.splits)

text \<open>The ranges \<open>rs\<close> cover the spans from page \<open>k\<close> up to page \<open>k'\<close>, in order.\<close>

definition enumerates :: "SizeMap \<Rightarrow> PageHeap \<Rightarrow> nat \<Rightarrow> MallocRange list \<Rightarrow> nat \<Rightarrow> bool" where
  "enumerates sm h k rs k' \<longleftrightarrow> boundary h k' \<and> k \<le> k'
     \<and> range_of sm ` spans_from h k = set rs \<union> range_of sm ` spans_from h k'
     \<and> (\<forall>r \<in> set rs. k * kPageSize \<le> address r \<and> address r + range_length r \<le> k' * kPageSize)
     \<and> sorted_wrt (\<lambda>a b. address a + range_length a \<le> address b) rs
     \<and> card (spans_from h k) = length rs + card (spans_from h k')"

lemma enumerates_append:
  assumes "enumerates sm h k rs k1" "enumerates sm h k1 rs' k'"
  shows "enumerates sm h k (rs @ rs') k'"
proof -
  have le: "k * kPageSize \<le> k1 * kPageSize" "k1 * kPageSize \<le> k' * kPageSize"
    using assms by (simp_all add: enumerates_def)
  have rs: "k * kPageSize \<le> address r" "address r + range_length r \<le> k1 * kPageSize" if "r \<in> set rs" for r
    using assms(1) that by (simp_all add: enumerates_def)
  have rs': "k1 * kPageSize \<le> address r" "address r + range_length r \<le> k' * kPageSize" if "r \<in> set rs'" for r
    using assms(2) that by (simp_all add: enumerates_def)
  have "k * kPageSize \<le> address r \<and> address r + range_length r \<le> k' * kPageSize" if "r \<in> set (rs @ rs')" for r
    using that rs [of r] rs' [of r] le by (metis Un_iff le_trans set_append)
  moreover have "sorted_wrt (\<lambda>a b. address a + range_length a \<le> address b) (rs @ rs')"
    using assms rs(2) rs'(1) by (auto simp: enumerates_def sorted_wrt_append simp del: kPageSize_def intro: le_trans)
  ultimately show ?thesis
    using assms by (simp add: enumerates_def Un_assoc del: kPageSize_def)
qed

lemma range_batch_ok:
  assumes inv: "ph_inv {} h" and k: "boundary h k"
  shows "\<exists>rs fin k'. range_batch n sm h k = Some (rs, fin, k') \<and> enumerates sm h k rs k'
    \<and> (if fin then spans_from h k' = {} else length rs = n)"
  using k
proof (induction n arbitrary: k)
  case 0
  then show ?case by (intro exI [of _ "[]"] exI [of _ False] exI [of _ k]) (simp add: enumerates_def)
next
  case (Suc n)
  show ?case
  proof (cases "spans_from h k = {}")
    case True
    with next_range_none [OF inv Suc.prems True] Suc.prems show ?thesis
      by (intro exI [of _ "[]"] exI [of _ True] exI [of _ k]) (simp add: enumerates_def)
  next
    case False
    then obtain s where s: "GetNextRange sm h k = Some (Some (range_of sm s))" "k \<le> sp_start s" "0 < sp_length s"
        "boundary h (sp_start s + sp_length s)" "spans_from h k = insert s (spans_from h (sp_start s + sp_length s))"
      using next_range_some [OF inv Suc.prems False, of sm] by blast
    let ?k = "sp_start s + sp_length s"
    have pg: "(sp_start s * kPageSize + sp_length s * kPageSize + kPageSize - 1) div kPageSize = ?k" by simp
    have "s \<notin> spans_from h ?k" using s(3) by (simp add: spans_from_def)
    then have "card (spans_from h k) = 1 + card (spans_from h ?k)"
      unfolding s(5) using spans_from_finite [OF inv] by simp
    moreover have "k * kPageSize \<le> sp_start s * kPageSize" using s(2) by (rule mult_le_mono1)
    ultimately have one: "enumerates sm h k [range_of sm s] ?k"
      using s(2,4) by (simp add: enumerates_def s(5))
    obtain rs fin k' where IH: "range_batch n sm h ?k = Some (rs, fin, k')" "enumerates sm h ?k rs k'"
        "if fin then spans_from h k' = {} else length rs = n"
      using Suc.IH [OF s(4)] by blast
    from enumerates_append [OF one IH(2)] have "enumerates sm h k (range_of sm s # rs) k'" by simp
    with IH show ?thesis using s(1) pg by simp
  qed
qed

lemma ranges_loop_ok:
  assumes inv: "ph_inv {} h" and k: "boundary h k"
  shows "\<exists>rs k'. ranges_loop sm h k = Some rs \<and> enumerates sm h k rs k' \<and> spans_from h k' = {}"
  using k
proof (induction "card (spans_from h k)" arbitrary: k rule: less_induct)
  case less
  obtain rs fin k1 where b: "range_batch kNumRanges sm h k = Some (rs, fin, k1)" "enumerates sm h k rs k1"
      "if fin then spans_from h k1 = {} else length rs = kNumRanges"
    using range_batch_ok [OF inv less.prems] by blast
  show ?case
  proof (cases fin)
    case True
    with b show ?thesis by (subst ranges_loop.simps) auto
  next
    case False
    with b have "card (spans_from h k1) < card (spans_from h k)" "boundary h k1"
      by (auto simp: enumerates_def kNumRanges_def)
    from less.hyps [OF this] obtain rs' k' where r: "ranges_loop sm h k1 = Some rs'" "enumerates sm h k1 rs' k'"
        "spans_from h k' = {}" by blast
    with b False enumerates_append [OF b(2) r(2)] show ?thesis by (subst ranges_loop.simps) auto
  qed
qed

section \<open>Properties\<close>

text \<open>C32. The self-check \<open>CheckExpensive\<close> passes in every reachable heap: every span on a free list has the
  location and the length of its list and is known to the page map at both ends.\<close>

theorem CheckExpensive_passes:
  assumes "heap_reachable h"
  shows "CheckExpensive h = Some True"
proof -
  note inv = heap_okD(1) [OF heap_reachable_ok [OF assms]]
  have "check_lists h [1 ..< kMaxPages + 1] = Some ()"
    by (rule check_lists_ok) (use small_checked [OF inv] in auto)
  then show ?thesis
    using large_checked [OF inv location.distinct(2)] large_checked [OF inv location.distinct(4)]
    unfolding CheckExpensive_def Check_def Let_def by (simp only: bind.bind_lunit)
qed

theorem CheckExpensive_passes_witness:
  "\<exists>p h. NewWithSizeClass demo_heap 5 0 = Some (Some p, h) \<and> CheckExpensive h = Some True"
proof -
  obtain p h where h: "NewWithSizeClass demo_heap 5 0 = Some (Some p, h)" using demo_New [of 5 0] by auto
  have "heap_reachable h" by (rule heap_new [OF demo_heap_reachable _ _ h]) simp_all
  from CheckExpensive_passes [OF this] h show ?thesis by blast
qed

text \<open>The statistics account for the free memory: the pages of the small spans counted by
  \<open>GetSmallSpanStatsLocked\<close> and the pages of the large ones counted by \<open>GetLargeSpanStatsLocked\<close> add up to
  the free bytes and to the unmapped bytes of \<open>StatsLocked\<close>.\<close>

lemma span_stats_add_up:
  assumes "heap_reachable h"
  shows "page_bytes ((\<Sum>i < kMaxPages. (i + 1) * normal_length (GetSmallSpanStatsLocked h) ! i)
        + lss_normal_pages (GetLargeSpanStatsLocked h)) = free_bytes (stats h)
    \<and> page_bytes ((\<Sum>i < kMaxPages. (i + 1) * returned_length (GetSmallSpanStatsLocked h) ! i)
        + lss_returned_pages (GetLargeSpanStatsLocked h)) = unmapped_bytes (stats h)"
proof -
  note inv = heap_okD(1) [OF heap_reachable_ok [OF assms]]
  have small: "normal_length (GetSmallSpanStatsLocked h) ! i = length (free h ON_NORMAL_FREELIST i)"
      "returned_length (GetSmallSpanStatsLocked h) ! i = length (free h ON_RETURNED_FREELIST i)" if "i < kMaxPages" for i
    using that by (simp_all add: GetSmallSpanStatsLocked_def)
  note pages = listed_pages [OF inv, of ON_NORMAL_FREELIST] listed_pages [OF inv, of ON_RETURNED_FREELIST]
  note total = lists_okD(5) [OF ph_invD(2) [OF inv], of ON_NORMAL_FREELIST] lists_okD(5) [OF ph_invD(2) [OF inv], of ON_RETURNED_FREELIST]
  show ?thesis
    using pages total by (simp add: small GetLargeSpanStats_eq stat_bytes_def del: kMaxPages_def)
qed

text \<open>C33. \<open>IterateOverRanges\<close> returns and reports every span of the page heap, free and in use, once
  and in the order of the addresses, whatever the number of batches: it never follows one of the stale pointers that
  merging leaves in the page map.\<close>

theorem IterateOverRanges_complete:
  assumes "heap_reachable h"
  shows "\<exists>rs. IterateOverRanges sm h = Some rs \<and> set rs = range_of sm ` ran (spans h)
    \<and> sorted_wrt (\<lambda>a b. address a + range_length a \<le> address b) rs \<and> length rs = card (ran (spans h))"
proof -
  note inv = heap_okD(1) [OF heap_reachable_ok [OF assms]]
  have start: "0 < sp_start s" if "spans h p = Some s" for p s using ph_inv_span [OF inv that] by simp
  then have "boundary h 1" "spans_from h 1 = ran (spans h)"
    by (auto simp: boundary_def spans_from_def ran_def Suc_le_eq)
  with ranges_loop_ok [OF inv, of 1 sm] show ?thesis
    by (auto simp: IterateOverRanges_def enumerates_def)
qed

theorem IterateOverRanges_complete_witness:
  "\<exists>p h. NewWithSizeClass demo_heap 5 0 = Some (Some p, h)
     \<and> (\<forall>sm. \<exists>rs. IterateOverRanges sm h = Some rs \<and> set rs = range_of sm ` ran (spans h))"
proof -
  obtain p h where h: "NewWithSizeClass demo_heap 5 0 = Some (Some p, h)" using demo_New [of 5 0] by auto
  have "heap_reachable h" by (rule heap_new [OF demo_heap_reachable _ _ h]) simp_all
  from IterateOverRanges_complete [OF this] h show ?thesis by blast
qed

end
