(* ===== verification/TCMalloc_Ext.thy ===== *)
theory TCMalloc_Ext
  imports TCMalloc PageHeap_Inspect
begin

text \<open>
  The interface of \<open>MallocExtension\<close> that \<^verbatim>\<open>src/tcmalloc.cc\<close> implements: the statistics, the named numeric properties, idle threads,
  the release of memory to the system, the ownership of addresses, the sizes of the free lists, and \<open>mallinfo\<close>.
\<close>

section \<open>Statistics\<close>

record TCMallocStats =
  thread_bytes :: u64
  central_bytes :: u64
  transfer_bytes :: u64
  metadata_bytes :: u64
  st_pageheap :: Stats

text \<open>The body of the loop over the size classes; \<open>int\<close> lengths are converted to \<open>size_t\<close>.\<close>

definition extract_class :: "central \<Rightarrow> nat \<Rightarrow> TCMallocStats \<times> (nat \<Rightarrow> u64) \<Rightarrow> TCMallocStats \<times> (nat \<Rightarrow> u64)" where
  "extract_class st cl = (\<lambda>(r, class_count).
     (let len = CFL_length st cl;
          tc_len = tc_length st cl;
          cache_overhead = OverheadBytes st cl;
          sz = (of_nat (ByteSizeForClass (sizemap st) cl) :: u64)
      in (r\<lparr> central_bytes := central_bytes r + (sz * of_int len + cache_overhead),
            transfer_bytes := transfer_bytes r + sz * of_int tc_len \<rparr>,
          class_count(cl := of_int (len + tc_len)))))"

text \<open>\<open>class_count\<close> starts with any contents.  The statistics of free spans are computed when they are asked for.\<close>

definition ExtractStats :: "threads \<Rightarrow> (nat \<Rightarrow> u64) \<Rightarrow> TCMallocStats \<times> (nat \<Rightarrow> u64) \<times> SmallSpanStats \<times> LargeSpanStats" where
  "ExtractStats T class_count =
     (let r = \<lparr> thread_bytes = 0, central_bytes = 0, transfer_bytes = 0, metadata_bytes = 0, st_pageheap = stats (pageheap (cc T)) \<rparr>;
          (r, class_count) = foldl (\<lambda>x cl. extract_class (cc T) cl x) (r, class_count) [0 ..< num_size_classes (sizemap (cc T))];
          (total, counts) = GetThreadStats T
      in (r\<lparr> thread_bytes := total, metadata_bytes := metadata_system_bytes (system (pageheap (cc T))), st_pageheap := stats (pageheap (cc T)) \<rparr>,
          \<lambda>cl. if cl < num_size_classes (sizemap (cc T)) then class_count cl + counts cl else class_count cl,
          GetSmallSpanStatsLocked (pageheap (cc T)), GetLargeSpanStatsLocked (pageheap (cc T))))"

abbreviation extracted :: "threads \<Rightarrow> TCMallocStats" where
  "extracted T \<equiv> fst (ExtractStats T (\<lambda>_. 0))"

definition current_allocated_bytes :: "TCMallocStats \<Rightarrow> u64" where
  "current_allocated_bytes r =
     system_bytes (st_pageheap r) - thread_bytes r - central_bytes r - transfer_bytes r - free_bytes (st_pageheap r) - unmapped_bytes (st_pageheap r)"

text \<open>The fields of \<open>mallinfo\<close> that are filled in, truncated to \<open>int\<close>.\<close>

record mallinfo =
  arena :: int
  fsmblks :: int
  fordblks :: int
  uordblks :: int

definition do_mallinfo :: "threads \<Rightarrow> mallinfo" where
  "do_mallinfo T =
     (let r = extracted T; trunc = (\<lambda>x :: u64. int32_of_nat (unat x))
      in \<lparr> arena = trunc (system_bytes (st_pageheap r)),
          fsmblks = trunc (thread_bytes r + central_bytes r + transfer_bytes r),
          fordblks = trunc (free_bytes (st_pageheap r) + unmapped_bytes (st_pageheap r)),
          uordblks = trunc (current_allocated_bytes r) \<rparr>)"

section \<open>Numeric properties\<close>

text \<open>\<open>None\<close> is the result false.\<close>

definition GetNumericProperty :: "tcmalloc \<Rightarrow> string \<Rightarrow> u64 option" where
  "GetNumericProperty S name =
     (let T = tm S; h = heap_of S; ps = stats h
      in if name = ''generic.current_allocated_bytes'' then Some (current_allocated_bytes (extracted T))
         else if name = ''generic.heap_size'' then Some (system_bytes (st_pageheap (extracted T)))
         else if name = ''generic.total_physical_bytes'' then
           (let r = extracted T in Some (system_bytes (st_pageheap r) + metadata_bytes r - unmapped_bytes (st_pageheap r)))
         else if name = ''tcmalloc.slack_bytes'' then Some (free_bytes ps + unmapped_bytes ps)
         else if name = ''tcmalloc.central_cache_free_bytes'' then Some (central_bytes (extracted T))
         else if name = ''tcmalloc.transfer_cache_free_bytes'' then Some (transfer_bytes (extracted T))
         else if name = ''tcmalloc.thread_cache_free_bytes'' then Some (thread_bytes (extracted T))
         else if name = ''tcmalloc.pageheap_free_bytes'' then Some (free_bytes ps)
         else if name = ''tcmalloc.pageheap_unmapped_bytes'' then Some (unmapped_bytes ps)
         else if name = ''tcmalloc.pageheap_committed_bytes'' then Some (committed_bytes ps)
         else if name = ''tcmalloc.pageheap_scavenge_count'' then Some (scavenge_count ps)
         else if name = ''tcmalloc.pageheap_commit_count'' then Some (commit_count ps)
         else if name = ''tcmalloc.pageheap_total_commit_bytes'' then Some (total_commit_bytes ps)
         else if name = ''tcmalloc.pageheap_decommit_count'' then Some (decommit_count ps)
         else if name = ''tcmalloc.pageheap_total_decommit_bytes'' then Some (total_decommit_bytes ps)
         else if name = ''tcmalloc.pageheap_reserve_count'' then Some (reserve_count ps)
         else if name = ''tcmalloc.pageheap_total_reserve_bytes'' then Some (total_reserve_bytes ps)
         else if name = ''tcmalloc.max_total_thread_cache_bytes'' then Some (of_nat (overall_thread_cache_size T))
         else if name = ''tcmalloc.current_total_thread_cache_bytes'' then Some (thread_bytes (extracted T))
         else if name = ''tcmalloc.aggressive_memory_decommit'' then Some (if GetAggressiveDecommit h then 1 else 0)
         else if name = ''tcmalloc.heap_limit_mb'' then Some (of_int (heap_limit_mb h))
         else None)"

text \<open>\<open>FLAGS_tcmalloc_heap_limit_mb\<close> is an \<open>int64\<close>.\<close>

definition SetNumericProperty :: "string \<Rightarrow> u64 \<Rightarrow> tcmalloc \<Rightarrow> bool \<times> tcmalloc" where
  "SetNumericProperty name v S =
     (if name = ''tcmalloc.max_total_thread_cache_bytes'' then (True, S\<lparr> tm := set_overall_thread_cache_size (tm S) (unat v) \<rparr>)
      else if name = ''tcmalloc.aggressive_memory_decommit'' then (True, set_heap (SetAggressiveDecommit (heap_of S) (v \<noteq> 0)) S)
      else if name = ''tcmalloc.heap_limit_mb'' then (True, set_heap ((heap_of S)\<lparr> heap_limit_mb := sint v \<rparr>) S)
      else (False, S))"

section \<open>Threads and memory\<close>

definition GetThreadCacheSize :: "tcmalloc \<Rightarrow> nat \<Rightarrow> u64 option" where
  "GetThreadCacheSize S me =
     (let t = GetCacheIfPresent (tm S) me
      in if t = 0 then Some 0 else map_option (\<lambda>h. of_int (tc_size h)) (heaps (tm S) t))"

definition MarkThreadIdle :: "nat \<Rightarrow> tcmalloc \<Rightarrow> tcmalloc option" where
  "MarkThreadIdle me S = map_option (\<lambda>T. S\<lparr> tm := T \<rparr>) (BecomeIdle (tm S) me)"

definition MarkThreadTemporarilyIdle :: "nat \<Rightarrow> tcmalloc \<Rightarrow> tcmalloc option" where
  "MarkThreadTemporarilyIdle me S = MarkThreadIdle me S"

definition ReleaseToSystem :: "nat \<Rightarrow> tcmalloc \<Rightarrow> tcmalloc option" where
  "ReleaseToSystem num_bytes S =
     (if num_bytes \<le> extra_bytes_released S
      then Some (S\<lparr> extra_bytes_released := extra_bytes_released S - num_bytes \<rparr>)
      else let num_bytes = num_bytes - extra_bytes_released S;
               num_pages = max (num_bytes div kPageSize) 1
           in do { (released, h) \<leftarrow> ReleaseAtLeastNPages (heap_of S) num_pages;
                   let bytes_released = unat (page_bytes released);
                   Some ((set_heap h S)\<lparr> extra_bytes_released :=
                     (if bytes_released > num_bytes then bytes_released - num_bytes else 0) \<rparr>) })"

definition SetMemoryReleaseRate :: "rat \<Rightarrow> tcmalloc \<Rightarrow> tcmalloc" where
  "SetMemoryReleaseRate r S = set_heap ((heap_of S)\<lparr> release_rate := r \<rparr>) S"

definition GetMemoryReleaseRate :: "tcmalloc \<Rightarrow> rat" where
  "GetMemoryReleaseRate S = release_rate (heap_of S)"

datatype Ownership = kUnknownOwnership | kOwned | kNotOwned

definition kAddressBits :: nat where "kAddressBits = 48"

definition GetOwnership :: "PageHeap \<Rightarrow> addr \<Rightarrow> Ownership" where
  "GetOwnership h ptr =
     (let p = ptr div kPageSize
      in if p div 2 ^ (kAddressBits - kPageShift) > 0 then kNotOwned
         else if TryGetSizeClass h p \<noteq> None then kOwned
         else if GetDescriptor h p \<noteq> None then kOwned else kNotOwned)"

definition GetAllocatedSize :: "tcmalloc \<Rightarrow> addr \<Rightarrow> nat option" where
  "GetAllocatedSize S ptr = (if ptr = 0 then Some 0 else GetSizeWithCallback S ptr)"

definition tc_malloc_size :: "tcmalloc \<Rightarrow> addr \<Rightarrow> nat option" where
  "tc_malloc_size S ptr = GetAllocatedSize S ptr"

section \<open>Free lists\<close>

record FreeListInfo =
  min_object_size :: u64
  max_object_size :: u64
  total_bytes_free :: u64
  info_type :: string

text \<open>The first loop: the central list and the transfer cache of every class, with the size of the class before.\<close>

definition central_infos :: "central \<Rightarrow> FreeListInfo list" where
  "central_infos st =
     concat (map (\<lambda>cl.
       let class_size = (of_nat (ByteSizeForClass (sizemap st) cl) :: u64);
           prev = (if cl = 1 then 0 else of_nat (ByteSizeForClass (sizemap st) (cl - 1)));
           i = \<lparr> min_object_size = prev + 1, max_object_size = class_size,
                 total_bytes_free = of_int (CFL_length st cl) * class_size, info_type = ''tcmalloc.central'' \<rparr>
       in [i, i\<lparr> total_bytes_free := of_int (tc_length st cl) * class_size, info_type := ''tcmalloc.transfer'' \<rparr>])
     [1 ..< num_size_classes (sizemap st)])"

definition thread_infos :: "threads \<Rightarrow> FreeListInfo list" where
  "thread_infos T =
     (let sm = sizemap (cc T); class_count = snd (GetThreadStats T)
      in map (\<lambda>cl. \<lparr> min_object_size = (if cl = 1 then 0 else of_nat (ByteSizeForClass sm (cl - 1))) + 1,
                     max_object_size = of_nat (ByteSizeForClass sm cl),
                     total_bytes_free = class_count cl * of_nat (ByteSizeForClass sm cl), info_type = ''tcmalloc.thread'' \<rparr>)
           [1 ..< num_size_classes sm])"

definition span_infos :: "PageHeap \<Rightarrow> FreeListInfo list" where
  "span_infos h =
     (let small = GetSmallSpanStatsLocked h; large = GetLargeSpanStatsLocked h;
          span_info = \<lparr> min_object_size = page_bytes kMaxPages, max_object_size = - 1,
                        total_bytes_free = page_bytes (lss_normal_pages large), info_type = ''tcmalloc.large'' \<rparr>
      in [span_info, span_info\<lparr> total_bytes_free := page_bytes (lss_returned_pages large), info_type := ''tcmalloc.large_unmapped'' \<rparr>]
         @ concat (map (\<lambda>s.
             let i = \<lparr> min_object_size = page_bytes (s - 1), max_object_size = page_bytes s,
                       total_bytes_free = page_bytes s * of_nat (normal_length small ! (s - 1)), info_type = ''tcmalloc.page'' \<rparr>
             in [i, i\<lparr> total_bytes_free := page_bytes s * of_nat (returned_length small ! (s - 1)), info_type := ''tcmalloc.page_unmapped'' \<rparr>])
           [1 ..< kMaxPages + 1]))"

definition GetFreeListSizes :: "threads \<Rightarrow> FreeListInfo list" where
  "GetFreeListSizes T = central_infos (cc T) @ thread_infos T @ span_infos (pageheap (cc T))"

end
