(* ===== verification/TCMalloc_Mode.thy ===== *)
theory TCMalloc_Mode
  imports TCMalloc_Free TCMalloc_Ext
begin

text \<open>
  The operations of \<open>MallocExtension\<close> that change the state keep the invariant and the blocks in use: the settings, idle threads, and the release of memory.
\<close>

section \<open>Settings\<close>

text \<open>The settings of the page heap are not part of the invariant.\<close>

definition same_pages :: "PageHeap \<Rightarrow> PageHeap \<Rightarrow> bool" where
  "same_pages h h' \<longleftrightarrow> h' = h\<lparr> aggressive_decommit := aggressive_decommit h', heap_limit_mb := heap_limit_mb h', release_rate := release_rate h' \<rparr>"

lemma same_pagesD:
  assumes "same_pages h h'"
  shows "inuse_spans h' = inuse_spans h" "heap_ok h' = heap_ok h" "RoundUpSize h' = RoundUpSize h" "pagemap_cache h' = pagemap_cache h"
    "system h' = system h"
proof -
  have f: "spans h' = spans h" "pagemap h' = pagemap h" "pagemap_cache h' = pagemap_cache h" "stats h' = stats h" "free h' = free h"
      "large h' = large h" "system h' = system h" "span_allocator h' = span_allocator h" "smallest_span_size h' = smallest_span_size h"
    by (subst assms [unfolded same_pages_def], simp)+
  have g: "GetDescriptor h' = GetDescriptor h" by (simp add: GetDescriptor_def [abs_def] f)
  show "inuse_spans h' = inuse_spans h" by (simp add: inuse_spans_def [abs_def] f)
  show "heap_ok h' = heap_ok h" by (simp add: heap_ok_def ph_inv_def imbalance_def g f)
  show "RoundUpSize h' = RoundUpSize h" by (simp add: RoundUpSize_def [abs_def] f)
  show "pagemap_cache h' = pagemap_cache h" "system h' = system h" by (rule f)+
qed

lemma same_pages_tm:
  assumes ok: "threads_ok T" and h: "same_pages (pageheap (cc T)) h'"
  shows "threads_ok (with_heap h' T)" "blocks (with_heap h' T) = blocks T"
proof -
  note s = same_pagesD [OF h]
  let ?st = "(cc T)\<lparr> pageheap := h' \<rparr>"
  have c: "cc_inv ?st = cc_inv (cc T)" by (simp add: cc_inv_def sizes_ok_def s)
  have held: "held ?st = held (cc T)" by (simp add: held_def [abs_def] s)
  have large: "large_spans ?st = large_spans (cc T)" by (simp add: large_spans_def s)
  have live: "live (with_heap h' T) = live T" by (simp add: live_def [abs_def] held)
  have "tc_core ?st g = tc_core (cc T) g" for g by (simp add: tc_core_def fl_ok_def held)
  then have "pool_inv (with_heap h' T) = pool_inv T" by (simp add: pool_inv_def cache_inv_def c)
  moreover have "limits_ok {} (with_heap h' T) = limits_ok {} T" by (simp add: limits_ok_def claimed_def)
  moreover have "caches_ok (with_heap h' T) = caches_ok T" by (simp add: caches_ok_def s)
  ultimately have i: "tc_inv (with_heap h' T) = tc_inv T" by (simp add: tc_inv_def)
  have "cache_ok ?st = cache_ok (cc T)" by (simp add: cache_ok_def s)
  moreover have "locals_ok (with_heap h' T) = locals_ok T" by (simp add: locals_ok_def)
  ultimately show "threads_ok (with_heap h' T)" using ok i by (simp add: threads_ok_def large)
  show "blocks (with_heap h' T) = blocks T" by (simp add: blocks_def live large)
qed

section \<open>Threads come and go\<close>

lemma delete_own_tm:
  assumes ok: "threads_ok T" and p: "p = tls_heap (threadlocal_data T me)" "p \<noteq> 0" and lv: "lively b 0 (pageheap (cc T))"
  shows "wpo b (DeleteCache (upd_local me (\<lambda>d. d\<lparr> tls_heap := 0, fast_path_heap := 0 \<rparr>) T) p) (\<lambda>T'. tm_step 0 T T' (blocks T))"
proof -
  note t = threads_okD [OF ok]
  let ?T = "upd_local me (\<lambda>d. d\<lparr> tls_heap := 0, fast_path_heap := 0 \<rparr>) T"
  obtain h where h: "heaps ?T p = Some h" using locals_okD(2) [OF t(3), of me] p by auto
  have inv: "tc_inv ?T" using t(1) by simp
  have "lively b 0 (pageheap (cc ?T))" using lv by simp
  from DeleteCache_wpo [OF tc_invD(1-3) [OF inv] h this] show ?thesis
  proof (rule wpo_mono, elim conjE, goal_cases)
    case (1 T')
    have d: "threadlocal_data T' = threadlocal_data ?T" "heaps T' = (heaps T)(p := None)" and e: "evolves 0 (cc T) (cc T')" using 1 by simp_all
    note e = evolvesD [OF e]
    have other: "tls_heap (threadlocal_data T you) \<noteq> p" if "you \<noteq> me" for you
      using locals_unique [OF t(3), of me you] that p by auto
    have "locals_ok T'"
      using t(3) other by (auto simp: locals_ok_def d dom_def)
    moreover have "tc_inv T'" using 1 by (simp add: tc_inv_def)
    ultimately have "threads_ok T'" using e t by (simp add: threads_ok_def)
    moreover have "small_blocks (sizemap (cc T)) (live T') = small_blocks (sizemap (cc T)) (live T)"
      by (rule small_blocks_cong) (use 1 in simp)
    ultimately show ?case using e by (simp add: tm_step_def blocks_def)
  qed
qed

lemma BecomeIdle_tm:
  assumes ok: "threads_ok T" and lv: "lively b 0 (pageheap (cc T))"
  shows "wpo b (BecomeIdle T me) (\<lambda>T'. tm_step 0 T T' (blocks T))"
proof (cases "\<not> tsd_inited T \<or> GetThreadHeap T me = 0")
  case True
  then show ?thesis using tm_step_refl [OF ok] by (auto simp: BecomeIdle_def)
next
  case False
  then obtain h where "heaps T (GetThreadHeap T me) = Some h" using locals_okD(2) [OF threads_okD(3) [OF ok], of me] by (auto simp: GetThreadHeap_def)
  moreover have "wpo b (DeleteCache (upd_local me (\<lambda>d. d\<lparr> tls_heap := 0, fast_path_heap := 0 \<rparr>) T) (GetThreadHeap T me)) (\<lambda>T'. tm_step 0 T T' (blocks T))"
    by (rule delete_own_tm [OF ok _ _ lv]) (use False in \<open>simp_all add: GetThreadHeap_def\<close>)
  ultimately show ?thesis using False tm_step_refl [OF ok] by (auto simp: BecomeIdle_def Let_def GetThreadHeap_def)
qed

lemma InitTSD_ok: "threads_ok T \<Longrightarrow> threads_ok (InitTSD T)"
proof -
  assume ok: "threads_ok T"
  have "locals_ok (InitTSD T)" by (rule locals_ok_cong [OF threads_okD(3) [OF ok]]) (simp_all add: InitTSD_def)
  with ok show ?thesis by (simp add: threads_ok_def) (simp add: InitTSD_def)
qed

lemma set_overall_ok_tm:
  assumes ok: "threads_ok T"
  shows "threads_ok (set_overall_thread_cache_size T n)" "blocks (set_overall_thread_cache_size T n) = blocks T"
proof -
  note t = threads_okD [OF ok]
  note s = set_overall_ok [OF tc_invD(1,2) [OF t(1)], of n]
  have "locals_ok (set_overall_thread_cache_size T n)"
    by (rule locals_ok_cong [OF t(3)]) (use s(2) adjusted_dom [OF s(2)] in \<open>simp_all add: adjusted_def\<close>)
  with t s tc_inv_adjusted [OF t(1) s(2)] show "threads_ok (set_overall_thread_cache_size T n)" by (simp add: threads_ok_def adjusted_def)
  show "blocks (set_overall_thread_cache_size T n) = blocks T"
    using s(2) adjusted_pool(2) [OF tc_invD(1) [OF t(1)] s(2)] by (simp add: blocks_def adjusted_def)
qed

section \<open>Properties\<close>

lemma SetNumericProperty_ok:
  assumes ok: "threads_ok (tm S)" and S: "SetNumericProperty name v S = (r, S')"
  shows "threads_ok (tm S') \<and> blocks (tm S') = blocks (tm S) \<and> tc_new_mode S' = tc_new_mode S"
proof -
  from S consider "S' = S\<lparr> tm := set_overall_thread_cache_size (tm S) (unat v) \<rparr>" | h where "S' = set_heap h S" "same_pages (heap_of S) h" | "S' = S"
    by (auto simp: SetNumericProperty_def SetAggressiveDecommit_def same_pages_def split: if_splits)
  then show ?thesis
  proof cases
    case 1
    then show ?thesis using set_overall_ok_tm [OF ok] by simp
  next
    case 2
    then show ?thesis using same_pages_tm [OF ok 2(2)] by simp
  qed (simp add: ok)
qed

lemma SetMemoryReleaseRate_ok:
  assumes "threads_ok (tm S)"
  shows "threads_ok (tm (SetMemoryReleaseRate r S)) \<and> blocks (tm (SetMemoryReleaseRate r S)) = blocks (tm S)"
  using same_pages_tm [OF assms, of "(heap_of S)\<lparr> release_rate := r \<rparr>"] by (simp add: SetMemoryReleaseRate_def same_pages_def)

section \<open>Memory for the system\<close>

text \<open>What is released beyond the request is remembered, and never more than that.\<close>

definition released :: "nat \<Rightarrow> tcmalloc \<Rightarrow> tcmalloc \<Rightarrow> bool" where
  "released n S S' \<longleftrightarrow> extra_bytes_released S' = 0
     \<or> n + extra_bytes_released S' \<le> extra_bytes_released S + (normal_pages (heap_of S) - normal_pages (heap_of S')) * kPageSize"

lemma page_bytes_le: "unat (page_bytes n) \<le> n * kPageSize"
proof -
  have "page_bytes n = of_nat (n * kPageSize)" by (simp add: page_bytes_def)
  then show ?thesis by (simp only: unsigned_of_nat of_nat_id take_bit_nat_less_eq_self)
qed

lemma ReleaseToSystem_wpo:
  assumes ok: "threads_ok (tm S)" and lv: "lively b 0 (heap_of S)"
  shows "wpo b (ReleaseToSystem n S) (\<lambda>S'. tm_step 0 (tm S) (tm S') (blocks (tm S)) \<and> tc_new_mode S' = tc_new_mode S \<and> released n S S')"
proof (cases "n \<le> extra_bytes_released S")
  case True
  then show ?thesis using tm_step_refl [OF ok] by (simp add: ReleaseToSystem_def released_def)
next
  case False
  note t = threads_okD [OF ok]
  show ?thesis
    unfolding ReleaseToSystem_def Let_def if_not_P [OF False] wpo_bind
  proof (rule wpo_mono [OF Release_wpo [OF t(7) lv]], unfold split_paired_all prod.case, elim conjE)
    fix r h' assume h: "heap_ok h'" "kept (heap_of S) h'" "r + normal_pages h' \<le> normal_pages (heap_of S)"
    note k = keptD [OF h(2)]
    have "coherent (pagemap_cache h') (inuse_spans h')" using t(2) k(2,5) by (simp add: cache_ok_def frame_def)
    then have "tm_step 0 (tm S) (with_heap h' (tm S)) (blocks (tm S))"
      using heap_tm [OF ok h(1) frame_settings [OF k(5)] k(2)] k(6) by simp
    moreover have "unat (page_bytes r) \<le> (normal_pages (heap_of S) - normal_pages h') * kPageSize"
      using page_bytes_le [of r] mult_le_mono1 [of r "normal_pages (heap_of S) - normal_pages h'" kPageSize] h(3) by linarith
    ultimately show "wpo b (Some ((set_heap h' S)\<lparr> extra_bytes_released :=
        (if n - extra_bytes_released S < unat (page_bytes r) then unat (page_bytes r) - (n - extra_bytes_released S) else 0) \<rparr>))
      (\<lambda>S'. tm_step 0 (tm S) (tm S') (blocks (tm S)) \<and> tc_new_mode S' = tc_new_mode S \<and> released n S S')"
      using False by (simp add: released_def)
  qed
qed

end
