(* ===== verification/TCMalloc_Realloc.thy ===== *)
theory TCMalloc_Realloc
  imports TCMalloc_Mode
begin

text \<open>
  Reallocation: what an allocation leaves alone beyond the blocks (the memory, the limits of the caches, most of the metadata), and \<open>tc_realloc\<close>.
\<close>

section \<open>What an allocation leaves alone\<close>

lemma wpo_and: "wpo b m Q \<Longrightarrow> wpo False m R \<Longrightarrow> wpo b m (\<lambda>x. Q x \<and> R x)"
  by (cases m) simp_all

abbreviation caches_left :: "threads \<Rightarrow> nat" where
  "caches_left T \<equiv> objects_left sizeof_ThreadCache (threadcache_allocator T)"

text \<open>The limits stay in range, and at most \<open>k\<close> objects of the allocator of caches are used up.\<close>

definition quiet :: "nat \<Rightarrow> threads \<Rightarrow> threads \<Rightarrow> bool" where
  "quiet k T T' \<longleftrightarrow> (slack T \<longrightarrow> slack T') \<and> (\<forall>me. IsUseEmergencyMalloc T' me = IsUseEmergencyMalloc T me)
     \<and> caches_left T \<le> caches_left T' + k"

lemma quiet_trans: "quiet j T T1 \<Longrightarrow> quiet k T1 T2 \<Longrightarrow> quiet (j + k) T T2"
  by (auto simp: quiet_def)

lemma quiet_mono: "quiet j T T' \<Longrightarrow> j \<le> k \<Longrightarrow> quiet k T T'"
  by (auto simp: quiet_def)

lemma quiet_same:
  assumes "\<And>t. map_option tc_max_size (heaps T' t) = map_option tc_max_size (heaps T t)"
    "threadlocal_data T' = threadlocal_data T" "threadcache_allocator T' = threadcache_allocator T"
  shows "quiet k T T'"
proof -
  have "slack T'" if s: "slack T"
    unfolding slack_def
  proof (intro allI impI)
    fix t h' assume "heaps T' t = Some h'"
    then obtain h where "heaps T t = Some h" "tc_max_size h' = tc_max_size h" using assms(1) [of t] by (cases "heaps T t") auto
    with s show "tc_max_size h' + int kStealAmount < 2 ^ 31" unfolding slack_def by metis
  qed
  then show ?thesis using assms(2,3) by (simp add: quiet_def IsUseEmergencyMalloc_def)
qed

text \<open>A new cache starts with a small limit, taken from the unclaimed space or from one other cache.\<close>

definition low_limits :: "threads \<Rightarrow> bool" where
  "low_limits T \<longleftrightarrow> (\<forall>t h. heaps T t = Some h \<longrightarrow> 0 \<le> tc_max_size h \<and> tc_max_size h + int kStealAmount < 2 ^ 31)"

lemma low_limits_upd:
  "low_limits T \<Longrightarrow> 0 \<le> m \<Longrightarrow> m + int kStealAmount < 2 ^ 31 \<Longrightarrow> low_limits (upd_cache t (SetMaxSize m) T)"
  by (auto simp: low_limits_def SetMaxSize_def wrap32_id)

lemma low_limits_keep:
  assumes "low_limits T" "\<And>h. tc_max_size (g h) = tc_max_size h"
  shows "low_limits (upd_cache t g T)"
  unfolding low_limits_def
proof (intro allI impI)
  fix u h assume "heaps (upd_cache t g T) u = Some h"
  then obtain h0 where "heaps T u = Some h0" "tc_max_size h = tc_max_size h0" using assms(2) by (auto split: if_splits)
  with assms(1) show "0 \<le> tc_max_size h \<and> tc_max_size h + int kStealAmount < 2 ^ 31" unfolding low_limits_def by metis
qed

lemma low_limits_heaps: "heaps T' = heaps T \<Longrightarrow> low_limits T' = low_limits T"
  by (simp add: low_limits_def)

lemma steal_loop_quiet:
  assumes "steal_loop i T t = Some T'" "low_limits T" "heaps T t = Some h" "tc_max_size h = 0"
  shows "low_limits T' \<and> threadlocal_data T' = threadlocal_data T \<and> threadcache_allocator T' = threadcache_allocator T"
  using assms
proof (induction i arbitrary: T)
  case (Suc i)
  define T0 where "T0 = (if next_memory_steal T = 0
      then T\<lparr> next_memory_steal := (case thread_heaps T of [] \<Rightarrow> 0 | p # _ \<Rightarrow> p) \<rparr> else T)"
  define v where "v = next_memory_steal T0"
  define T1 where "T1 = T0\<lparr> next_memory_steal := next_heap (thread_heaps T0) v \<rparr>"
  have f: "heaps T1 = heaps T" "threadlocal_data T1 = threadlocal_data T" "threadcache_allocator T1 = threadcache_allocator T" "heaps T0 = heaps T"
    by (simp_all add: T1_def T0_def)
  obtain hv where hv: "heaps T v = Some hv"
    using Suc.prems(1) by (cases "heaps T v") (simp_all add: Let_def T0_def [symmetric] v_def [symmetric] f)
  have l1: "low_limits T1" using Suc.prems(2) low_limits_heaps [OF f(1)] by simp
  show ?case
  proof (cases "v = t \<or> size_t_of_int (tc_max_size hv) \<le> kMinThreadCacheSize")
    case True
    then have "steal_loop i T1 t = Some T'"
      using Suc.prems(1) by (simp add: Let_def T0_def [symmetric] v_def [symmetric] T1_def [symmetric] f hv)
    from Suc.IH [OF this l1] Suc.prems(3,4) f show ?thesis by simp
  next
    case False
    let ?T2 = "upd_cache v (SetMaxSize (tc_max_size hv - int kStealAmount)) T1"
    have m: "0 \<le> tc_max_size hv" "tc_max_size hv + int kStealAmount < 2 ^ 31" using Suc.prems(2) hv unfolding low_limits_def by blast+
    have "int kStealAmount \<le> tc_max_size hv" using False m by (simp add: size_t_of_int_nonneg nat_le_iff)
    then have l2: "low_limits ?T2" using low_limits_upd [OF l1, of "tc_max_size hv - int kStealAmount" v] m(2) by simp
    have "T' = upd_cache t (SetMaxSize (tc_max_size h + int kStealAmount)) ?T2"
      using Suc.prems(1,3) False by (simp add: Let_def T0_def [symmetric] v_def [symmetric] T1_def [symmetric] f hv)
    then show ?thesis using low_limits_upd [OF l2, of "int kStealAmount" t] Suc.prems(4) f by simp
  qed
qed simp

lemma IncreaseCacheLimitLocked_quiet:
  assumes I: "IncreaseCacheLimitLocked T t = Some T'" and h: "low_limits T" "heaps T t = Some h" "tc_max_size h = 0"
  shows "low_limits T' \<and> threadlocal_data T' = threadlocal_data T \<and> threadcache_allocator T' = threadcache_allocator T"
proof (cases "unclaimed_cache_space T > 0")
  case True
  define T1 where "T1 = T\<lparr> unclaimed_cache_space := unclaimed_cache_space T - int kStealAmount \<rparr>"
  have l: "low_limits T1" using h(1) low_limits_heaps [of T1 T] by (simp add: T1_def)
  have "T' = upd_cache t (SetMaxSize (int kStealAmount)) T1" using I True h(2,3) by (simp add: IncreaseCacheLimitLocked_def T1_def)
  with low_limits_upd [OF l, of "int kStealAmount" t] show ?thesis by (simp add: T1_def)
next
  case False
  with I steal_loop_quiet [OF _ h] show ?thesis by (simp add: IncreaseCacheLimitLocked_def)
qed

lemma TC_Init_quiet:
  assumes I: "TC_Init T p tid seed = Some T'" and l: "low_limits (upd_cache p (\<lambda>h. h\<lparr> tc_size := 0, tc_max_size := 0 \<rparr>) T)" and p: "heaps T p = Some h0"
  shows "low_limits T' \<and> threadlocal_data T' = threadlocal_data T \<and> threadcache_allocator T' = threadcache_allocator T"
proof -
  let ?T = "upd_cache p (\<lambda>h. h\<lparr> tc_size := 0, tc_max_size := 0 \<rparr>) T"
  obtain T1 where T1: "IncreaseCacheLimitLocked ?T p = Some T1" using I by (cases "IncreaseCacheLimitLocked ?T p") (simp_all add: TC_Init_def)
  note q = IncreaseCacheLimitLocked_quiet [OF T1 l, of "h0\<lparr> tc_size := 0, tc_max_size := 0 \<rparr>"]
  have l1: "low_limits T1" "threadlocal_data T1 = threadlocal_data T" "threadcache_allocator T1 = threadcache_allocator T" using q p by simp_all
  obtain h where h: "heaps T1 p = Some h" using I T1 by (cases "heaps T1 p") (simp_all add: TC_Init_def)
  define T2 where "T2 = (if tc_max_size h = 0
      then (upd_cache p (SetMaxSize (int kMinThreadCacheSize)) T1)\<lparr> unclaimed_cache_space := unclaimed_cache_space T1 - int kMinThreadCacheSize \<rparr> else T1)"
  have "low_limits T2"
    using l1(1) low_limits_upd [OF l1(1), of "int kMinThreadCacheSize" p]
    by (cases "tc_max_size h = 0") (simp_all add: T2_def low_limits_heaps [of "_\<lparr> unclaimed_cache_space := _ \<rparr>"] low_limits_def)
  moreover have "\<exists>g. T' = upd_cache p g T2 \<and> (\<forall>h. tc_max_size (g h) = tc_max_size h)"
    using I T1 h by (simp add: TC_Init_def Let_def T2_def [symmetric]) (drule sym, rule exI, rule conjI, assumption, simp)
  then obtain g where "T' = upd_cache p g T2" "\<And>h. tc_max_size (g h) = tc_max_size h" by blast
  ultimately have "low_limits T'" using low_limits_keep [of T2 g p] by simp
  moreover have "threadlocal_data T' = threadlocal_data T2 \<and> threadcache_allocator T' = threadcache_allocator T2" using \<open>T' = upd_cache p g T2\<close> by simp
  ultimately show ?thesis using l1(2,3) by (cases "tc_max_size h = 0") (simp_all add: T2_def)
qed

lemma NewHeap_quiet:
  assumes N: "NewHeap T tid seed = Some (p, T')" and l: "low_limits T"
  shows "low_limits T' \<and> threadlocal_data T' = threadlocal_data T \<and> caches_left T \<le> caches_left T' + 1"
proof -
  obtain q s a where q: "PHA_New sizeof_ThreadCache (system (pageheap (cc T))) (threadcache_allocator T) = Some (q, s, a)"
    using N by (cases "PHA_New sizeof_ThreadCache (system (pageheap (cc T))) (threadcache_allocator T)") (auto simp: NewHeap_def)
  define T1 where "T1 = T\<lparr> threadcache_allocator := a, heaps := (heaps T)(q \<mapsto> raw_ThreadCache), cc := upd_heap (\<lambda>h. h\<lparr> system := s \<rparr>) (cc T) \<rparr>"
  obtain T2 where T2: "TC_Init T1 q tid seed = Some T2"
    using N q by (cases "TC_Init T1 q tid seed") (simp_all add: NewHeap_def T1_def)
  have T': "heaps T' = heaps T2" "threadlocal_data T' = threadlocal_data T2" "threadcache_allocator T' = threadcache_allocator T2"
    using N q T2 by (auto simp: NewHeap_def T1_def [symmetric] Let_def)
  have "low_limits (upd_cache q (\<lambda>h. h\<lparr> tc_size := 0, tc_max_size := 0 \<rparr>) T1)" using l by (simp add: low_limits_def T1_def)
  from TC_Init_quiet [OF T2 this, of raw_ThreadCache]
  have "low_limits T2" "threadlocal_data T2 = threadlocal_data T" "threadcache_allocator T2 = a" by (simp_all add: T1_def)
  moreover have "objects_left sizeof_ThreadCache (threadcache_allocator T) \<le> objects_left sizeof_ThreadCache a + 1"
    by (rule objects_left_New [OF _ q]) (simp add: sizeof_ThreadCache_def)
  ultimately show ?thesis using T' low_limits_heaps [OF T'(1)] by simp
qed

lemma low_limits_slack: "limits_ok {} T \<Longrightarrow> low_limits T = slack T"
  using limits_okD(7) [of "{}" T] by (auto simp: low_limits_def slack_def)

lemma GetCache_quiet:
  assumes inv: "tc_inv T" "slack T"
  shows "wpo False (GetCache T me seed) (\<lambda>(t, T'). quiet 1 T T')"
proof -
  have l: "low_limits T" using low_limits_slack [OF tc_invD(2) [OF inv(1)]] inv(2) by simp
  have new: "quiet 1 T T'" if N: "NewHeap T me seed = Some (p, T')" for p T'
    using NewHeap_quiet [OF N l] low_limits_slack [OF tc_invD(2) [OF NewHeap_inv(1) [OF inv N]]] by (simp add: quiet_def IsUseEmergencyMalloc_def)
  have loc: "quiet k T (upd_local me (\<lambda>d. d\<lparr> tls_heap := p, fast_path_heap := p \<rparr>) T') = quiet k T T'" for k p T'
    by (auto simp: quiet_def IsUseEmergencyMalloc_def slack_def)
  have "quiet 1 T T" by (simp add: quiet_def)
  then show ?thesis
    by (auto simp: GetCache_def CreateCacheIfNecessary_def Let_def loc wpo_def simp del: One_nat_def intro: new split: option.split bind_split)
qed

lemma quiet_put:
  assumes "heaps T t = Some h" "heaps T' = (heaps T)(t \<mapsto> h')" "tc_max_size h' = tc_max_size h"
    "threadlocal_data T' = threadlocal_data T" "threadcache_allocator T' = threadcache_allocator T"
  shows "quiet k T T'"
  by (rule quiet_same) (use assms in simp_all)

lemma SampleAllocation_quiet:
  assumes "SampleAllocation T t k = Some (c, T')"
  shows "quiet 0 T T'"
proof -
  obtain h where h: "heaps T t = Some h" using assms by (cases "heaps T t") (simp_all add: SampleAllocation_def)
  then obtain u where "T' = upd_cache t (\<lambda>h. h\<lparr> tc_sampler := u \<rparr>) T" using assms by (auto simp: SampleAllocation_def split: prod.splits)
  then show ?thesis using h by (intro quiet_put [OF h, of _ "h\<lparr> tc_sampler := u \<rparr>"]) simp_all
qed

lemma Allocate_quiet:
  assumes "Allocate T t z cl = Some (r, T')"
  shows "quiet 0 T T'"
proof -
  obtain h where h: "heaps T t = Some h" using assms by (cases "heaps T t") (simp_all add: Allocate_def)
  have "\<exists>h'. heaps T' = (heaps T)(t \<mapsto> h') \<and> tc_max_size h' = tc_max_size h \<and> threadlocal_data T' = threadlocal_data T
      \<and> threadcache_allocator T' = threadcache_allocator T"
    using assms h by (auto simp: Allocate_def FetchFromCentralCache_def Let_def split: prod.splits option.splits bind_splits if_splits list.splits)
  then show ?thesis using quiet_put [OF h] by blast
qed

lemma quiet_heap: "quiet 0 T (with_heap h T)"
  by (rule quiet_same) simp_all

definition silent :: "nat \<Rightarrow> tcmalloc \<Rightarrow> tcmalloc \<Rightarrow> bool" where
  "silent k S S' \<longleftrightarrow> quiet k (tm S) (tm S') \<and> memory S' = memory S"

lemma silent_trans: "silent j S S1 \<Longrightarrow> silent k S1 S2 \<Longrightarrow> silent (j + k) S S2"
  using quiet_trans by (auto simp: silent_def)

lemma silent_heap: "silent 0 S (set_heap h S)"
  using quiet_heap by (simp add: silent_def)

lemma DoSampledAllocation_silent: "DoSampledAllocation S sz = Some (r, S') \<Longrightarrow> silent 0 S S'"
  using quiet_heap by (auto simp: DoSampledAllocation_def Let_def silent_def split: bind_splits prod.splits option.splits)

lemma should_report_large_silent: "should_report_large S n = (c, S') \<Longrightarrow> silent 0 S S'"
  by (auto simp: should_report_large_def Let_def silent_def quiet_def split: if_splits)

lemma do_malloc_pages_silent:
  assumes "do_malloc_pages S t sz = Some (r, S')"
  shows "silent 0 S S'"
proof -
  obtain c T where T: "SampleAllocation (tm S) t (unat sz) = Some (c, T)"
    using assms by (cases "SampleAllocation (tm S) t (unat sz)") (auto simp: do_malloc_pages_def Let_def)
  let ?S = "S\<lparr> tm := T \<rparr>"
  let ?m = "if c then DoSampledAllocation ?S sz
      else do { (r, h) \<leftarrow> PH_New (heap_of ?S) (unat (pages sz));
                Some (case r of None \<Rightarrow> None | Some p \<Rightarrow> SpanToMallocResult h p, set_heap h ?S) }"
  have m: "do { (result, S) \<leftarrow> ?m; case should_report_large S (unat (pages sz)) of (report, S) \<Rightarrow>
      Some (result, if report then S\<lparr> large_reports := (unat (pages sz), result) # large_reports S \<rparr> else S) } = Some (r, S')"
    using assms T unfolding do_malloc_pages_def Let_def by simp
  then obtain r1 S1 where R1: "?m = Some (r1, S1)" by (cases ?m) auto
  obtain c2 S2 where R2: "should_report_large S1 (unat (pages sz)) = (c2, S2)" by (cases "should_report_large S1 (unat (pages sz))")
  have S': "tm S' = tm S2" "memory S' = memory S2" using m unfolding R1 by (auto simp: R2)
  have "silent 0 ?S S1"
  proof (cases c)
    case True
    with R1 show ?thesis using DoSampledAllocation_silent by auto
  next
    case False
    with R1 obtain h where "S1 = set_heap h ?S" by (auto split: bind_splits)
    then show ?thesis using silent_heap [of ?S h] by simp
  qed
  from silent_trans [OF this should_report_large_silent [OF R2]]
  have "silent 0 ?S S'" using S' by (simp add: silent_def)
  with quiet_trans [OF SampleAllocation_quiet [OF T], of 0 "tm S'"] show ?thesis by (simp add: silent_def)
qed

lemma do_malloc_silent:
  assumes inv: "tc_inv (tm S)" "slack (tm S)" and M: "do_malloc me S sz = Some (r, S')"
  shows "silent 1 S S'"
proof -
  obtain t T where T: "GetCache (tm S) me (seed_of S me) = Some (t, T)"
    using M by (cases "GetCache (tm S) me (seed_of S me)") (auto simp: do_malloc_def split: if_splits)
  have g: "silent 1 S (S\<lparr> tm := T \<rparr>)" using wpo_partial [OF GetCache_quiet [OF inv] T] by (simp add: silent_def)
  have "silent 0 (S\<lparr> tm := T \<rparr>) S'"
  proof (cases "GetSizeClass (sizemap (cc T)) sz")
    case None
    then show ?thesis using M T do_malloc_pages_silent by (auto simp: do_malloc_def split: if_splits)
  next
    case (Some cl)
    let ?z = "class_to_size (sizemap (cc T)) cl"
    obtain c T1 where T1: "SampleAllocation T t ?z = Some (c, T1)"
      using M T Some by (cases "SampleAllocation T t ?z") (auto simp: do_malloc_def Let_def split: if_splits)
    have s1: "silent 0 (S\<lparr> tm := T \<rparr>) (S\<lparr> tm := T1 \<rparr>)" using SampleAllocation_quiet [OF T1] by (simp add: silent_def)
    have "silent 0 (S\<lparr> tm := T1 \<rparr>) S'"
    proof (cases c)
      case True
      then show ?thesis using M T Some T1 DoSampledAllocation_silent by (auto simp: do_malloc_def Let_def split: if_splits)
    next
      case False
      then obtain T2 where "Allocate T1 t ?z cl = Some (r, T2)" "S' = S\<lparr> tm := T2 \<rparr>"
        using M T Some T1 by (auto simp: do_malloc_def Let_def split: if_splits bind_splits)
      with Allocate_quiet show ?thesis by (auto simp: silent_def)
    qed
    from silent_trans [OF s1 this] show ?thesis by simp
  qed
  from silent_trans [OF g this] show ?thesis by simp
qed

lemma alloc_wpo:
  assumes r: "ready b me (tm S)" and m: "tc_new_mode S = 0"
  shows "wpo b (do_malloc_or_cpp_alloc nh me S sz) (\<lambda>(out, S'). mallocs sz S (out, S') \<and> silent 1 S S')"
proof -
  have i: "tc_inv (tm S)" "slack (tm S)" using r threads_okD(1) by (auto simp: ready_def)
  have "wpo False (do_malloc me S sz) (\<lambda>(r, S'). silent 1 S S')" using do_malloc_silent [OF i] by (auto simp: wpo_def split: option.split)
  from wpo_and [OF do_malloc_wpo [OF r] this] show ?thesis
    unfolding do_malloc_or_cpp_alloc_def
    by (subst wpo_bind, elim wpo_mono) (use m in \<open>auto simp: handle_oom_def mallocs_def silent_def quiet_def\<close>)
qed

lemma free_memory:
  assumes "tc_free me S p = Some S'"
  shows "memory S' = memory S"
  using assms
  by (auto simp: tc_free_def free_fast_path_def do_free_def do_free_with_callback_def free_object_def free_null_or_invalid_def do_free_pages_def
    PrepareAndDelete_def drop_sample_def Let_def split: if_splits option.splits bind_splits list.splits)

section \<open>Reallocation\<close>

lemma block_bound:
  assumes "cc_inv (cc T)" "(x, m) \<in> blocks T"
  shows "0 < x" "m \<le> 2 ^ 48" "0 < m"
proof -
  obtain p s where s: "inuse_spans (pageheap (cc T)) p = Some s" "extent (x, m) \<subseteq> bytes_of s" "0 < snd (x, m)" by (rule block_in_span [OF assms])
  have i: "ph_inv {} (pageheap (cc T))" by (rule heap_okD(1) [OF cc_invD(1) [OF assms(1)]])
  have sp: "spans (pageheap (cc T)) p = Some s" using s(1) by (simp add: inuse_spans_Some)
  have "sp_start s * kPageSize \<le> x \<and> x + m \<le> (sp_start s + sp_length s) * kPageSize"
    using s(2,3) by (simp add: bytes_of_def)
  then show "0 < x" "m \<le> 2 ^ 48" using ph_inv_span [OF i sp] start_bound [OF i sp] by simp_all
  show "0 < m" using s(3) by simp
qed

lemma gives_less: "gives k n T x \<Longrightarrow> n' \<le> n \<Longrightarrow> gives k n' T x"
  by (cases x; cases "fst x") (auto simp: gives_def intro: order_trans)

text \<open>The two attempts to get the new block.\<close>

lemma realloc_attempts:
  assumes r: "ready b me (tm S)" and m: "tc_new_mode S = 0" and lv: "lively b 8 (heap_of S)" and left: "b \<longrightarrow> 2 \<le> caches_left (tm S)"
    and grow: "grow \<Longrightarrow> unat sz \<le> unat lo"
  shows "wpo b (do { (r, S) \<leftarrow> (if grow then do_malloc_or_cpp_alloc nh me S lo else Some (Returned None, S));
       if r = Returned None then do_malloc_or_cpp_alloc nh me S sz else Some (r, S) })
     (\<lambda>(out, S'). \<exists>r. out = Returned r \<and> gives 8 (unat sz) (tm S) (r, tm S') \<and> tc_new_mode S' = 0
        \<and> (r = None \<longrightarrow> errno S' = ENOMEM) \<and> silent 2 S S')" (is "wpo b _ ?Q")
proof -
  have last: "wpo b (do_malloc_or_cpp_alloc nh me S1 sz) ?Q"
    if S1: "tm_step 4 (tm S) (tm S1) (blocks (tm S))" "silent 1 S S1" "tc_new_mode S1 = 0" for S1
  proof -
    have "lively b 4 (heap_of S1)" using tm_step_lively [OF S1(1), of b 4] lv by simp
    moreover have "slack (tm S1)" "\<not> IsUseEmergencyMalloc (tm S1) me" "b \<longrightarrow> 1 \<le> caches_left (tm S1)"
      using S1(2) r left by (auto simp: silent_def quiet_def ready_def)
    ultimately have "ready b me (tm S1)" using tm_stepD(1) [OF S1(1)] by (simp add: ready_def)
    show ?thesis
    proof (rule wpo_mono [OF alloc_wpo [OF \<open>ready b me (tm S1)\<close> S1(3)]], goal_cases)
      case (1 x)
      obtain out S2 where x: "x = (out, S2)" by (cases x)
      with 1 obtain q where q: "out = Returned q" "gives 4 (unat sz) (tm S1) (q, tm S2)" "tc_new_mode S2 = 0" "q = None \<longrightarrow> errno S2 = ENOMEM" "silent 1 S1 S2"
        using S1(3) by (auto simp: mallocs_def)
      with x gives_trans [OF S1(1) q(2)] silent_trans [OF S1(2) q(5)] show ?case by (simp add: numeral_2_eq_2)
    qed
  qed
  show ?thesis
  proof (cases grow)
    case False
    have "tm_step 4 (tm S) (tm S) (blocks (tm S))" using r tm_step_mono [OF tm_step_refl] by (auto simp: ready_def)
    with last [of S] False m show ?thesis by (simp add: silent_def quiet_def)
  next
    case True
    from alloc_wpo [OF r m, of nh lo] True show ?thesis
    proof (simp only: if_True wpo_bind, elim wpo_mono, goal_cases)
      case (1 x)
      obtain out S1 where x: "x = (out, S1)" by (cases x)
      with 1 obtain q where q: "out = Returned q" "gives 4 (unat lo) (tm S) (q, tm S1)" "tc_new_mode S1 = 0" "silent 1 S S1"
        using m by (auto simp: mallocs_def)
      show ?case
      proof (cases q)
        case None
        with q last [of S1] x show ?thesis by (simp add: gives_def)
      next
        case (Some y)
        have "silent 2 S S1" using q(4) quiet_mono by (fastforce simp: silent_def)
        with Some q x gives_mono [OF gives_less [OF q(2) grow [OF True]], of 8] show ?thesis by simp
      qed
    qed
  qed
qed

definition reallocs :: "addr \<Rightarrow> nat \<Rightarrow> nat \<Rightarrow> u64 \<Rightarrow> tcmalloc \<Rightarrow> outcome \<times> tcmalloc \<Rightarrow> bool" where
  "reallocs p n k sz S = (\<lambda>(out, S'). tc_new_mode S' = 0 \<and> (\<exists>r. out = Returned r \<and> (case r of
      None \<Rightarrow> tm_step 8 (tm S) (tm S') (blocks (tm S)) \<and> errno S' = ENOMEM \<and> memory S' = memory S
    | Some q \<Rightarrow> \<exists>m. tm_step 8 (tm S) (tm S') (insert (q, m) (blocks (tm S) - {(p, n)}))
        \<and> (\<forall>c \<in> blocks (tm S) - {(p, n)}. extent c \<inter> extent (q, m) = {} \<and> (\<forall>a \<in> extent c. memory S' a = memory S a))
        \<and> (k \<le> n \<longrightarrow> unat sz \<le> m \<and> (\<forall>i < min k (unat sz). memory S' (q + i) = memory S (p + i))))))"

lemma reallocsI:
  assumes "tc_new_mode S' = 0" "tm_step 8 (tm S) (tm S') (insert (q, m) (blocks (tm S) - {(p, n)}))"
    "\<And>c. c \<in> blocks (tm S) - {(p, n)} \<Longrightarrow> extent c \<inter> extent (q, m) = {}"
    "\<And>c a. c \<in> blocks (tm S) - {(p, n)} \<Longrightarrow> a \<in> extent c \<Longrightarrow> memory S' a = memory S a"
    "k \<le> n \<Longrightarrow> unat sz \<le> m" "\<And>i. k \<le> n \<Longrightarrow> i < min k (unat sz) \<Longrightarrow> memory S' (q + i) = memory S (p + i)"
  shows "reallocs p n k sz S (Returned (Some q), S')"
  unfolding reallocs_def prod.case
  by (intro conjI exI [of _ "Some q"]) (use assms in \<open>simp_all only: option.case, blast\<close>)

text \<open>The block is big enough and not much too big.\<close>

lemma realloc_keeps:
  assumes ok: "threads_ok (tm S)" and c: "(p, n) \<in> blocks (tm S)" and m: "tc_new_mode S = 0" and sz: "unat sz \<le> k"
  shows "reallocs p n k sz S (Returned (Some p), S)"
proof -
  have "tm_step 8 (tm S) (tm S) (blocks (tm S))" using tm_step_mono [OF tm_step_refl [OF ok]] by simp
  moreover have "insert (p, n) (blocks (tm S) - {(p, n)}) = blocks (tm S)" using c by blast
  moreover have "extent d \<inter> extent (p, n) = {}" if "d \<in> blocks (tm S) - {(p, n)}" for d
    using blocks_disjoint [OF threads_okD(6) [OF ok] _ c] that by blast
  ultimately show ?thesis by (intro reallocsI [of S S p n p n]) (use m sz in simp_all)
qed

text \<open>The contents are copied to the new block and the old one is freed.\<close>

lemma realloc_moves:
  assumes ok: "threads_ok (tm S)" "slack (tm S)" and c: "(p, n) \<in> blocks (tm S)" and lv: "lively b 8 (heap_of S)"
    and g: "gives 8 (unat sz) (tm S) (Some q, tm S1)" "silent 2 S S1" "tc_new_mode S1 = 0" and j: "j \<le> unat sz" "k \<le> n \<Longrightarrow> j = min k (unat sz)"
  shows "wpo b (do { S \<leftarrow> do_free_with_callback me (S1\<lparr> memory := memcpy q p j (memory S1) \<rparr>) p None; Some (Returned (Some q), S) })
     (reallocs p n k sz S)"
proof -
  let ?S = "S1\<lparr> memory := memcpy q p j (memory S1) \<rparr>"
  obtain m where m: "unat sz \<le> m" "fresh (q, m) (tm S)" "tm_step 8 (tm S) (tm S1) (insert (q, m) (blocks (tm S)))"
    using g(1) by (auto simp: gives_def)
  have free: "do_free_with_callback me ?S p None = tc_free me ?S p" by (simp add: tc_free_def free_fast_path_def do_free_def)
  have "threads_ok (tm ?S)" "slack (tm ?S)" "lively b 0 (heap_of ?S)" "(p, n) \<in> blocks (tm ?S)"
    using tm_stepD(1,5) [OF m(3)] g(2) ok(2) tm_step_lively [OF m(3), of b 0] lv c by (auto simp: silent_def quiet_def)
  note f = wpo_and [OF tc_free_wpo [OF this, of me], of "\<lambda>S'. memory S' = memcpy q p j (memory S)"]
  have mem: "memory S1 = memory S" using g(2) by (simp add: silent_def)
  have "wpo False (tc_free me ?S p) (\<lambda>S'. memory S' = memcpy q p j (memory S))"
    using free_memory [of me ?S p] mem by (auto simp: wpo_def split: option.split)
  note f = f [OF this]
  have apart: "extent d \<inter> extent (q, m) = {}" if "d \<in> blocks (tm S)" for d using m(2) that by (auto simp: fresh_def)
  have "0 < n" by (rule block_bound [OF threads_okD(6) [OF ok(1)] c])
  then have "(q, m) \<noteq> (p, n)" using apart [OF c] by auto
  then have B: "insert (q, m) (blocks (tm S)) - {(p, n)} = insert (q, m) (blocks (tm S) - {(p, n)})" by blast
  show ?thesis
    unfolding free wpo_bind
  proof (rule wpo_mono [OF f], goal_cases)
    case (1 S')
    then have s: "tm_step 8 (tm S) (tm S') (insert (q, m) (blocks (tm S) - {(p, n)}))" "memory S' = memcpy q p j (memory S)" "tc_new_mode S' = 0"
      using tm_step_trans [OF m(3), of 0 "tm S'"] tm_stepD(5) [OF m(3)] B g(3) by simp_all
    have "memory S' a = memory S a" if "d \<in> blocks (tm S)" "a \<in> extent d" for d a
    proof -
      have "a \<notin> extent (q, m)" using apart [OF that(1)] that(2) by blast
      then show ?thesis using s(2) j(1) m(1) by (auto simp: memcpy_def)
    qed
    moreover have "memory S' (q + i) = memory S (p + i)" if "i < j" for i using that s(2) by (simp add: memcpy_def)
    ultimately have "reallocs p n k sz S (Returned (Some q), S')"
      by (intro reallocsI [OF s(3,1)]) (use apart m(1) j(2) in blast)+
    then show ?case by simp
  qed
qed

lemma do_realloc_wpo:
  assumes r: "ready b me (tm S)" and m: "tc_new_mode S = 0" and lv: "lively b 8 (heap_of S)" and left: "b \<longrightarrow> 2 \<le> caches_left (tm S)"
    and c: "(p, n) \<in> blocks (tm S)" and k: "GetSizeWithCallback S p = Some k"
  shows "wpo b (do_realloc_with_callback nh me S p sz) (reallocs p n k sz S)"
proof -
  define old where "old = (of_nat k :: u64)"
  define lo where "lo = old + min (old div 4) (- 1 - old)"
  have ok: "threads_ok (tm S)" "slack (tm S)" using r by (simp_all add: ready_def)
  let ?att = "do { (r, S) \<leftarrow> (if sz > old \<and> sz < lo then do_malloc_or_cpp_alloc nh me S lo else Some (Returned None, S));
       if r = Returned None then do_malloc_or_cpp_alloc nh me S sz else Some (r, S) }"
  let ?fin = "\<lambda>(r, S). case r of
      Returned (Some q) \<Rightarrow> do { S \<leftarrow> do_free_with_callback me (S\<lparr> memory := memcpy q p (unat (if old < sz then old else sz)) (memory S) \<rparr>) p None;
                              Some (Returned (Some q), S) }
    | _ \<Rightarrow> Some (r, S)"
  have eq: "do_realloc_with_callback nh me S p sz =
      (if sz > old \<or> sz < old div 2 then ?att \<bind> ?fin else Some (Returned (Some p), S))"
    unfolding do_realloc_with_callback_def k bind.bind_lunit Let_def old_def [symmetric] lo_def [symmetric]
    by (simp add: case_prod_unfold)
  show ?thesis
  proof (cases "sz > old \<or> sz < old div 2")
    case False
    have "unat old \<le> k" by (simp add: old_def unsigned_of_nat)
    then have "unat sz \<le> k" using False by (simp add: word_le_nat_alt word_less_nat_alt)
    with realloc_keeps [OF ok(1) c m] False show ?thesis by (simp add: eq)
  next
    case True
    have "sz < lo \<Longrightarrow> unat sz \<le> unat lo" by (simp add: word_less_nat_alt)
    note a = realloc_attempts [OF r m lv left, of "sz > old \<and> sz < lo" sz lo nh]
    have "unat (if old < sz then old else sz) \<le> unat sz" by (simp add: word_less_nat_alt)
    moreover have "unat (if old < sz then old else sz) = min k (unat sz)" if "k \<le> n"
    proof -
      have "k < 2 ^ 64" using that block_bound(2) [OF threads_okD(6) [OF ok(1)] c] by simp
      then have "unat old = k" by (simp add: old_def unsigned_of_nat take_bit_nat_eq_self)
      then show ?thesis by (simp add: word_less_nat_alt)
    qed
    ultimately have mv: "wpo b (?fin (Returned (Some q), S1)) (reallocs p n k sz S)"
      if "gives 8 (unat sz) (tm S) (Some q, tm S1)" "silent 2 S S1" "tc_new_mode S1 = 0" for q S1
      using realloc_moves [OF ok c lv that, of "unat (if old < sz then old else sz)" k me] by (simp only: prod.case outcome.case option.case)
    show ?thesis
      unfolding eq if_P [OF True] wpo_bind [of _ ?att]
    proof (rule wpo_mono [OF a], goal_cases)
      case 1
      then show ?case by (simp add: word_less_nat_alt)
    next
      case (2 x)
      then obtain q S1 where x: "x = (Returned q, S1)" "gives 8 (unat sz) (tm S) (q, tm S1)" "tc_new_mode S1 = 0" "q = None \<longrightarrow> errno S1 = ENOMEM" "silent 2 S S1"
        by auto
      show ?case
      proof (cases q)
        case None
        with x show ?thesis by (simp add: reallocs_def gives_def silent_def)
      next
        case (Some y)
        with x mv [of y S1] show ?thesis by simp
      qed
    qed
  qed
qed

text \<open>The exported function: a size of zero frees the block.\<close>

definition reallocated :: "addr \<Rightarrow> nat \<Rightarrow> u64 \<Rightarrow> tcmalloc \<Rightarrow> outcome \<times> tcmalloc \<Rightarrow> bool" where
  "reallocated p n sz S = (\<lambda>(out, S'). threads_ok (tm S') \<and> tc_new_mode S' = 0
     \<and> (if sz = 0 then out = Returned None \<and> blocks (tm S') = blocks (tm S) - {(p, n)} \<and> memory S' = memory S
        else \<exists>k. GetSizeWithCallback S p = Some k \<and> reallocs p n k sz S (out, S')))"

lemma reallocsD: "reallocs p n k sz S (out, S') \<Longrightarrow> threads_ok (tm S') \<and> tc_new_mode S' = 0"
  by (auto simp: reallocs_def tm_step_def split: option.splits)

lemma tc_realloc_wpo:
  assumes r: "ready b me (tm S)" and m: "tc_new_mode S = 0" and lv: "lively b 8 (heap_of S)" and left: "b \<longrightarrow> 2 \<le> caches_left (tm S)"
    and c: "(p, n) \<in> blocks (tm S)" and k: "b \<longrightarrow> GetSizeWithCallback S p \<noteq> None"
  shows "wpo b (tc_realloc nh me S p sz) (reallocated p n sz S)"
proof -
  have ok: "threads_ok (tm S)" "slack (tm S)" using r by (simp_all add: ready_def)
  have p: "p \<noteq> 0" using block_bound(1) [OF threads_okD(6) [OF ok(1)] c] by simp
  show ?thesis
  proof (cases "sz = 0")
    case True
    have lv0: "lively b 0 (heap_of S)" using lv by (auto simp: lively_def)
    have "wpo False (tc_free me S p) (\<lambda>S'. memory S' = memory S)" using free_memory by (auto simp: wpo_def split: option.split)
    from wpo_and [OF tc_free_wpo [OF ok lv0 c, of me] this]
    have "wpo b (do_free me S p) (\<lambda>S'. (tm_step 0 (tm S) (tm S') (blocks (tm S) - {(p, n)}) \<and> tc_new_mode S' = tc_new_mode S) \<and> memory S' = memory S)"
      by (simp add: tc_free_def free_fast_path_def)
    with True p m show ?thesis by (auto simp: tc_realloc_def reallocated_def tm_step_def elim!: wpo_mono)
  next
    case False
    then have eq: "tc_realloc nh me S p sz = do_realloc_with_callback nh me S p sz" using p by (simp add: tc_realloc_def)
    show ?thesis
    proof (cases "GetSizeWithCallback S p")
      case None
      with k show ?thesis by (simp add: eq do_realloc_with_callback_def)
    next
      case (Some j)
      from do_realloc_wpo [OF r m lv left c Some, of nh sz] Some False show ?thesis
        unfolding eq by (elim wpo_mono) (auto simp: reallocated_def dest: reallocsD)
    qed
  qed
qed

end
