(* ===== verification/TCMalloc_Props.thy ===== *)
theory TCMalloc_Props
  imports TCMalloc_Realloc
begin

text \<open>
  The reachable states of the whole allocator, and what \<open>malloc\<close>, \<open>calloc\<close>, \<open>free\<close> and \<open>operator new\<close> promise to the application.
\<close>

lemma init_ok: "tc_init env s T \<Longrightarrow> threads_ok T \<and> blocks T = {}"
proof -
  assume i: "tc_init env s T"
  note v = InitModule_inv [OF i]
  have "sizemap_ok (sizemap (cc T))"
  proof -
    obtain st where "InitStaticVars env s = Some st" "sizemap st = sizemap (cc T)"
      using i by (auto simp: tc_init_def InitModule_def bind_eq_Some_conv set_overall_thread_cache_size_def RecomputePerThreadCacheSize_def Let_def
        split: option.splits)
    from InitStaticVars_cases [OF this(1)] this(2) i show ?thesis unfolding tc_init_def sizemap_ok_def by metis
  qed
  moreover have e: "large_spans (cc T) = {}" "cache_ok (cc T)" "locals_ok T"
    using v(2-4) by (simp_all add: large_spans_def cache_ok_def coherent_def locals_ok_def)
  moreover have "live T cl = {}" for cl
  proof (rule equals0I)
    fix x assume "x \<in> live T cl"
    then have "x \<in> held (cc T) cl" using live_held by blast
    then obtain p r where "inuse_spans (pageheap (cc T)) p = Some r" using held_in_span [OF tc_invD(4) [OF v(1)]] by blast
    with v(2) show False by simp
  qed
  ultimately show ?thesis using v(1) by (simp add: threads_ok_def samples_ok_def blocks_def small_blocks_def large_blocks_def)
qed

section \<open>Zeroed memory\<close>

text \<open>The estimate of the size of an allocation is large enough, for sizes that can be allocated.\<close>

lemma nallocx_enough:
  assumes sm: "sizemap_ok (sizemap st)" and h: "heap_ok (pageheap st)" and sz: "unat sz \<le> 2 ^ 48"
  shows "unat sz \<le> tc_nallocx st sz 0"
proof (cases "GetSizeClass (sizemap st) sz")
  case (Some cl)
  with class_of_size(1) [OF sm Some] show ?thesis by (simp add: tc_nallocx_def)
next
  case None
  let ?n = "unat (pages sz)"
  have z: "sz \<noteq> 0" by (rule class_of_size(2) [OF sm None])
  note n = pages_bounds [OF z]
  have "?n \<le> 2 ^ 36" using sz unfolding pages_round_up by simp
  obtain k where k: "k \<le> 31" "smallest_span_size (pageheap st) = 2 ^ k" using h by (auto simp: heap_ok_def)
  have "(2::nat) ^ k \<le> 2 ^ 31" using k(1) by (rule power_increasing) simp
  with RoundUpSize_2_pow [OF k(2,1) n(2)] \<open>?n \<le> 2 ^ 36\<close> have r: "?n \<le> RoundUpSize (pageheap st) ?n" "RoundUpSize (pageheap st) ?n < 2 ^ 37" by simp_all
  have "page_bytes (RoundUpSize (pageheap st) ?n) = of_nat (RoundUpSize (pageheap st) ?n * kPageSize)" by (simp add: page_bytes_def)
  then have "unat (page_bytes (RoundUpSize (pageheap st) ?n)) = RoundUpSize (pageheap st) ?n * kPageSize"
    using r(2) by (simp only: unat_of_nat) simp
  moreover have "align_size_up sz 1 = sz" using z by (simp add: align_size_up_def)
  ultimately show ?thesis
    using None n(3) mult_le_mono1 [OF r(1), of kPageSize] by (simp add: tc_nallocx_def nallocx_slow_def size_class_with_alignment_def)
qed

lemma memset_zero: "i < n \<Longrightarrow> n \<le> k \<Longrightarrow> memset p v k m (p + i) = v"
  by (simp add: memset_def)

lemma tc_calloc_wpo:
  assumes r: "ready b me (tm S)" and m: "tc_new_mode S = 0" and ov: "unat n * unat e < 2 ^ 64"
  shows "wpo b (tc_calloc nh me S n e) (\<lambda>(out, S'). mallocs (n * e) S (out, S')
    \<and> (\<forall>p. out = Returned (Some p) \<longrightarrow> (\<forall>i < unat n * unat e. memory S' (p + i) = 0)))"
proof -
  have u: "unat (n * e) = unat n * unat e" unfolding word_arith_nat_mult [of n e] unat_of_nat using ov by simp
  have "unat (n * e div e) = unat n" if "e \<noteq> 0" using that u unat_0_iff [of e] by (simp add: unat_div_distrib)
  then have fit: "\<not> (e \<noteq> 0 \<and> n * e div e \<noteq> n)" by (metis word_unat_eq_iff)
  have "\<not> IsUseEmergencyMalloc (tm S) me" using r by (simp add: ready_def)
  then have eq: "tc_calloc nh me S n e = do { (r, S) \<leftarrow> do_malloc_or_cpp_alloc nh me S (n * e);
      Some (r, case r of Returned (Some p) \<Rightarrow> S\<lparr> memory := memset p 0 (tc_nallocx (cc (tm S)) (n * e) 0) (memory S) \<rparr> | _ \<Rightarrow> S) }"
    unfolding tc_calloc_def do_calloc_def Let_def if_not_P [OF fit] by simp
  have "wpo b (do_malloc_or_cpp_alloc nh me S (n * e)) (mallocs (n * e) S)"
    unfolding do_malloc_or_cpp_alloc_def
    by (subst wpo_bind, rule wpo_mono [OF do_malloc_wpo [OF r]]) (use m in \<open>auto simp: handle_oom_def mallocs_def\<close>)
  then show ?thesis
    unfolding eq
  proof (subst wpo_bind, elim wpo_mono, goal_cases)
    case (1 x)
    obtain out S1 where x: "x = (out, S1)" by (cases x)
    with 1 obtain q where q: "out = Returned q" "gives 4 (unat (n * e)) (tm S) (q, tm S1)" by (auto simp: mallocs_def)
    show ?case
    proof (cases q)
      case None
      with 1 x q show ?thesis by simp
    next
      case (Some p)
      with q(2) obtain k where k: "unat (n * e) \<le> k" "tm_step 4 (tm S) (tm S1) (insert (p, k) (blocks (tm S)))" by (auto simp: gives_def)
      note t = threads_okD [OF tm_stepD(1) [OF k(2)]]
      have "k \<le> 2 ^ 48" by (rule block_bound(2) [OF t(6), of p]) (simp add: tm_stepD(5) [OF k(2)])
      then have "unat (n * e) \<le> tc_nallocx (cc (tm S1)) (n * e) 0" using nallocx_enough [OF t(4,7)] k(1) by simp
      with 1 x q Some show ?thesis by (auto simp: mallocs_def u intro: memset_zero)
    qed
  qed
qed

section \<open>Reachable states\<close>

text \<open>The program starts with \<open>InitModule\<close>, and then threads allocate, free or reallocate what they were given, become idle or end, write to memory,
  set properties and the release rate, and release memory to the system, in any order.  A thread that allocates or frees does so while the limits of the caches are in range
  (\<open>slack\<close>), allocates without asking for the emergency allocator, and the new mode is the default.\<close>

inductive tm_reachable :: "tcmalloc \<Rightarrow> bool" where
  tm_start: "tc_init env s (tm S) \<Longrightarrow> tc_new_mode S = 0 \<Longrightarrow> tm_reachable S"
| tm_tsd: "tm_reachable S \<Longrightarrow> tm_reachable (S\<lparr> tm := InitTSD (tm S) \<rparr>)"
| tm_malloc: "tm_reachable S \<Longrightarrow> slack (tm S) \<Longrightarrow> \<not> IsUseEmergencyMalloc (tm S) me \<Longrightarrow> tc_malloc nh me S sz = Some (out, S') \<Longrightarrow> tm_reachable S'"
| tm_calloc: "tm_reachable S \<Longrightarrow> slack (tm S) \<Longrightarrow> \<not> IsUseEmergencyMalloc (tm S) me \<Longrightarrow> tc_calloc nh me S n e = Some (out, S') \<Longrightarrow> tm_reachable S'"
| tm_free: "tm_reachable S \<Longrightarrow> slack (tm S) \<Longrightarrow> (ptr, n) \<in> blocks (tm S) \<Longrightarrow> tc_free me S ptr = Some S' \<Longrightarrow> tm_reachable S'"
| tm_realloc: "tm_reachable S \<Longrightarrow> slack (tm S) \<Longrightarrow> \<not> IsUseEmergencyMalloc (tm S) me \<Longrightarrow> (ptr, n) \<in> blocks (tm S)
    \<Longrightarrow> tc_realloc nh me S ptr sz = Some (out, S') \<Longrightarrow> tm_reachable S'"
| tm_idle: "tm_reachable S \<Longrightarrow> MarkThreadIdle me S = Some S' \<Longrightarrow> tm_reachable S'"
| tm_exit: "tm_reachable S \<Longrightarrow> DestroyThreadCache (tm S) me (GetThreadHeap (tm S) me) = Some T \<Longrightarrow> tm_reachable (S\<lparr> tm := T \<rparr>)"
| tm_property: "tm_reachable S \<Longrightarrow> SetNumericProperty name v S = (r, S') \<Longrightarrow> tm_reachable S'"
| tm_rate: "tm_reachable S \<Longrightarrow> tm_reachable (SetMemoryReleaseRate v S)"
| tm_release: "tm_reachable S \<Longrightarrow> ReleaseToSystem n S = Some S' \<Longrightarrow> tm_reachable S'"
| tm_write: "tm_reachable S \<Longrightarrow> tm_reachable (S\<lparr> memory := m \<rparr>)"

lemma mallocsD: "mallocs sz S (out, S') \<Longrightarrow> threads_ok (tm S') \<and> tc_new_mode S' = tc_new_mode S"
  by (auto simp: mallocs_def gives_def tm_step_def split: option.splits)

lemma calloc_wraps:
  assumes "2 ^ 64 \<le> unat n * unat e" "\<not> IsUseEmergencyMalloc (tm S) me"
  shows "tc_calloc nh me S n e = Some (Returned None, S)"
proof -
  have "unat e \<noteq> 0" using assms(1) by (cases "unat e = 0") simp_all
  then have e: "e \<noteq> 0" by auto
  have "n * e div e \<noteq> n"
  proof
    assume "n * e div e = n"
    then have "unat (n * e) div unat e = unat n" by (metis unat_div_distrib)
    then have "unat n * unat e \<le> unat (n * e)" by (metis div_times_less_eq_dividend)
    moreover have "unat (n * e) < 2 ^ 64" using unsigned_less [of "n * e"] by simp
    ultimately show False using assms(1) by linarith
  qed
  with e assms(2) show ?thesis by (simp add: tc_calloc_def do_calloc_def Let_def)
qed

lemma tm_reachable_inv: "tm_reachable S \<Longrightarrow> threads_ok (tm S) \<and> tc_new_mode S = 0"
proof (induction rule: tm_reachable.induct)
  case (tm_start env s S)
  then show ?case using init_ok by blast
next
  case (tm_tsd S)
  then show ?case using InitTSD_ok by simp
next
  case (tm_malloc S me nh sz out S')
  have "ready False me (tm S)" using tm_malloc by (simp add: ready_def lively_def)
  from wpo_partial [OF tc_malloc_wpo [OF this] tm_malloc.hyps(4)] mallocsD tm_malloc.IH show ?case by fastforce
next
  case (tm_calloc S me nh n e out S')
  have r: "ready False me (tm S)" using tm_calloc by (simp add: ready_def lively_def)
  show ?case
  proof (cases "unat n * unat e < 2 ^ 64")
    case True
    from wpo_partial [OF tc_calloc_wpo [OF r _ True] tm_calloc.hyps(4)] mallocsD tm_calloc.IH show ?thesis by fastforce
  next
    case False
    with calloc_wraps [of n e S me nh] tm_calloc show ?thesis by simp
  qed
next
  case (tm_free S ptr n me S')
  have ok: "threads_ok (tm S)" using tm_free.IH by blast
  from wpo_partial [OF tc_free_wpo [OF ok tm_free.hyps(2) lively_False tm_free.hyps(3)] tm_free.hyps(4)] tm_free.IH
  show ?case by (simp add: tm_step_def)
next
  case (tm_realloc S me ptr n nh sz out S')
  have "ready False me (tm S)" using tm_realloc by (simp add: ready_def lively_def)
  from wpo_partial [OF tc_realloc_wpo [OF this _ lively_False _ tm_realloc.hyps(4)] tm_realloc.hyps(5)] tm_realloc.IH show ?case
    by (simp add: reallocated_def)
next
  case (tm_idle S me S')
  have ok: "threads_ok (tm S)" using tm_idle.IH by blast
  from tm_idle.hyps(2) obtain T where T: "BecomeIdle (tm S) me = Some T" "S' = S\<lparr> tm := T \<rparr>" by (auto simp: MarkThreadIdle_def)
  from wpo_partial [OF BecomeIdle_tm [OF ok lively_False] T(1)] T(2) tm_idle.IH show ?case by (simp add: tm_step_def)
next
  case (tm_exit S me T)
  have ok: "threads_ok (tm S)" using tm_exit.IH by blast
  show ?case
  proof (cases "GetThreadHeap (tm S) me = 0")
    case True
    with tm_exit show ?thesis by (simp add: DestroyThreadCache_def)
  next
    case False
    then have p: "GetThreadHeap (tm S) me = tls_heap (threadlocal_data (tm S) me)" "GetThreadHeap (tm S) me \<noteq> 0" by (simp_all add: GetThreadHeap_def)
    have "DeleteCache (upd_local me (\<lambda>d. d\<lparr> tls_heap := 0, fast_path_heap := 0 \<rparr>) (tm S)) (GetThreadHeap (tm S) me) = Some T"
      using tm_exit.hyps(2) False by (simp add: DestroyThreadCache_def)
    from wpo_partial [OF delete_own_tm [OF ok p lively_False] this] tm_exit.IH show ?thesis by (simp add: tm_step_def)
  qed
next
  case (tm_property S name v r S')
  then show ?case using SetNumericProperty_ok by metis
next
  case (tm_rate S v)
  then show ?case using SetMemoryReleaseRate_ok by (auto simp: SetMemoryReleaseRate_def)
next
  case (tm_release S n S')
  have ok: "threads_ok (tm S)" using tm_release.IH by blast
  from wpo_partial [OF ReleaseToSystem_wpo [OF ok lively_False] tm_release.hyps(2)] tm_release.IH show ?case by (simp add: tm_step_def)
next
  case (tm_write S m)
  then show ?case by simp
qed

section \<open>A concrete state\<close>

definition demo_tm :: "threads \<Rightarrow> tcmalloc" where
  "demo_tm T = \<lparr> tm = T, memory = (\<lambda>_. 0), stack_traces = Map.empty, sampled_objects = [], large_alloc_threshold = 0,
     large_reports = [], tc_new_mode = 0, errno = 0, handler_calls = 0, extra_bytes_released = 0, backtrace = [],
     report_setting = 1073741824, seed_of = (\<lambda>_. 1) \<rparr>"

lemma demo_tm_simps [simp]: "tm (demo_tm T) = T" "tc_new_mode (demo_tm T) = 0" "seed_of (demo_tm T) me = 1"
  by (simp_all add: demo_tm_def)

text \<open>A fresh page heap has enough memory.\<close>

lemma fresh_PH_New:
  assumes "fresh_heap h" "0 < n" "n \<le> 1000"
  obtains p h' s where "PH_New h n = Some (Some p, h')" "spans h' p = Some s"
proof -
  obtain p h' where N: "NewWithSizeClass h n 0 = Some (Some p, h')" using fresh_New [OF assms] by blast
  note f = fresh_heapD [OF assms(1)]
  have "span_given (RoundUpSize h n) 0 h p h'"
    using wpo_partial [OF New_wpo [OF f(1) assms(2) _ lively_False] N] assms(3) by simp
  then obtain s where "inuse_spans h' p = Some s" by (auto simp: span_given_def)
  with that N show ?thesis by (simp add: PH_New_def inuse_spans_Some)
qed

lemma fresh_do_malloc_pages:
  assumes f: "fresh_heap (heap_of S)" and sz: "sz \<noteq> 0" "unat (pages sz) \<le> 1000" and D: "do_malloc_pages S t sz = Some (r, S')"
  shows "r \<noteq> None" "slack (tm S) \<Longrightarrow> slack (tm S')"
proof -
  obtain p h' s where N: "PH_New (heap_of S) (unat (pages sz)) = Some (Some p, h')" "spans h' p = Some s"
    by (rule fresh_PH_New [OF f pages_bounds(1) [OF sz(1)] sz(2)])
  obtain c T where T: "SampleAllocation (tm S) t (unat sz) = Some (c, T)" using D by (cases "SampleAllocation (tm S) t (unat sz)") (auto simp: do_malloc_pages_def Let_def)
  obtain g where g: "heaps (tm S) t = Some g" using T by (cases "heaps (tm S) t") (simp_all add: SampleAllocation_def)
  obtain ok u where "RecordAllocation (sampling (tm S)) (tc_sampler g) (of_nat (t + 4104)) (unat sz) = (ok, u)"
    by (cases "RecordAllocation (sampling (tm S)) (tc_sampler g) (of_nat (t + 4104)) (unat sz)")
  with T g have "T = upd_cache t (\<lambda>h. h\<lparr> tc_sampler := u \<rparr>) (tm S)" by (simp add: SampleAllocation_def)
  then have T': "cc T = cc (tm S)" "slack (tm S) \<Longrightarrow> slack T" using g by (simp_all add: slack_def)
  let ?m = "if c then DoSampledAllocation (S\<lparr> tm := T \<rparr>) sz
      else do { (r, h) \<leftarrow> PH_New (heap_of (S\<lparr> tm := T \<rparr>)) (unat (pages sz));
                Some (case r of None \<Rightarrow> None | Some p \<Rightarrow> SpanToMallocResult h p, set_heap h (S\<lparr> tm := T \<rparr>)) }"
  have D': "do { (result, S) \<leftarrow> ?m; case should_report_large S (unat (pages sz)) of (report, S) \<Rightarrow>
      Some (result, if report then S\<lparr> large_reports := (unat (pages sz), result) # large_reports S \<rparr> else S) } = Some (r, S')"
    using D T unfolding do_malloc_pages_def Let_def by simp
  then obtain r1 S1 where R1: "?m = Some (r1, S1)" by (cases ?m) auto
  obtain c2 S2 where R2: "should_report_large S1 (unat (pages sz)) = (c2, S2)" by (cases "should_report_large S1 (unat (pages sz))")
  have R: "?m = Some (r1, S1)" "r1 = r" "tm S' = tm S1"
    using D' should_report_large_same [OF R2] unfolding R1 by (auto simp: R1 R2)
  have "r1 \<noteq> None \<and> (\<exists>h. tm S1 = with_heap h T)"
  proof (cases c)
    case True
    with R(1) N T'(1) sz(1) show ?thesis by (auto simp: DoSampledAllocation_def bind_eq_Some_conv SpanToMallocResult_def)
  next
    case False
    with R(1) N T'(1) show ?thesis by (auto simp: SpanToMallocResult_def)
  qed
  with R(2,3) T'(2) show "r \<noteq> None" "slack (tm S) \<Longrightarrow> slack (tm S')" by (auto simp: slack_def)
qed

lemma demo_start:
  obtains T sm p T' h where "tm_reachable (demo_tm T)" "ready True 7 T" "sizemap (cc T) = sm" "SizeMap_Init 4096 None = Some (Inr sm)"
    "fresh_heap (pageheap (cc T))" "GetCache T 7 1 = Some (p, T')" "cc T' = cc T" "slack T'" "GetFastPathCache T 7 = 0" "\<not> IsUseEmergencyMalloc T 7"
    "heaps T' p = Some h" "sample_parameter (sampling T') = 0" "\<forall>cl < 86. fl_list (tc_list h cl) = [] \<and> fl_max_length (tc_list h cl) = 1"
    "\<forall>cl < 86. CFL_Init sm cl = Some (central_cache (cc T) cl)" "20 \<le> caches_left T" "num_size_classes sm = 86"
proof -
  obtain T sm where T: "tc_init demo_env demo_sys T" "SizeMap_Init 4096 None = Some (Inr sm)" "sizemap (cc T) = sm" "fresh_heap (pageheap (cc T))"
      "\<forall>cl < 86. CFL_Init sm cl = Some (central_cache (cc T) cl)" "free_list (threadcache_allocator T) = [8650752]"
      "heaps T = Map.empty" "thread_heaps T = []" "unclaimed_cache_space T = int kDefaultOverallThreadCacheSize" "num_size_classes sm = 86"
      "sampling T = sample_settings demo_env" "20 \<le> caches_left T" by (rule demo_Init)
  let ?p = "8650752 :: nat"
  note v = InitModule_inv [OF T(1)]
  have r: "tm_reachable (demo_tm T)" by (rule tm_start [of demo_env demo_sys]) (use T(1) in simp_all)
  have sl: "slack T" by (simp add: slack_def T(7))
  have e: "\<not> IsUseEmergencyMalloc T 7" "GetFastPathCache T 7 = 0" "GetThreadHeap T 7 = 0"
    by (simp_all add: IsUseEmergencyMalloc_def GetFastPathCache_def GetThreadHeap_def v(4))
  have "lively True 4 (pageheap (cc T))" using fresh_heapD(2) [OF T(4)] by (auto simp: lively_def)
  then have rd: "ready True 7 T" using sl e init_ok [OF T(1)] T(6) by (simp add: ready_def objects_left_def)
  obtain a where N: "PHA_New sizeof_ThreadCache (system (pageheap (cc T))) (threadcache_allocator T) = Some (?p, system (pageheap (cc T)), a)"
    using T(6) by (simp add: PHA_New_def)
  note i = tc_invD [OF v(1)]
  obtain T' where T': "NewHeap T 7 1 = Some (?p, T')" using NewHeap_ok [OF i(1,2) sl i(3) N, of 7 1] by blast
  note n = NewHeap_inv [OF v(1) sl T']
  obtain h where h: "heaps T' ?p = Some h" using n(4) by blast
  have only: "t = ?p" if "heaps T' t = Some g" for t g using limits_okD(2) [OF tc_invD(2) [OF n(1)]] n(5) T(8) that by auto
  note eval = NewHeap_def TC_Init_def IncreaseCacheLimitLocked_def raw_ThreadCache_def SetMaxSize_def wrap32_id Let_def N T(3,7,8,9)
  have f: "tc_max_size h = 65536 \<and> (\<forall>cl < num_size_classes sm. fl_list (tc_list h cl) = [] \<and> fl_max_length (tc_list h cl) = 1)"
    using T' h by (auto simp: eval FL_Init_def split: bind_splits if_splits)
  have cT: "cc T' = cc T" using T' by (auto simp: eval split: bind_splits if_splits)
  have "slack T'" using only h f by (auto simp: slack_def dest: only)
  moreover have "GetCache T 7 1 = Some (?p, T')"
    using T' h e(3) v(5) n(6) T(8) by (simp add: GetCache_def CreateCacheIfNecessary_def Let_def)
  moreover have "sample_parameter (sampling T') = 0" using n(6) T(11) by (simp add: demo_env_def)
  ultimately show ?thesis using that [OF r rd T(3,2,4) _ cT _ e(2,1) h] f T(5,10,12) by simp
qed

text \<open>A program that asked for 300000 bytes.\<close>

lemma demo_block:
  obtains T S p where "tm_reachable (demo_tm T)" "tc_malloc (\<lambda>_ _. None) 7 (demo_tm T) 300000 = Some (Returned (Some p), S)"
    "slack (tm S)" "ready True 7 T" "release_fair (system (heap_of S))" "tm_reachable S"
proof -
  obtain T sm q T' where T: "tm_reachable (demo_tm T)" "ready True 7 T" "sizemap (cc T) = sm" "SizeMap_Init 4096 None = Some (Inr sm)"
      "fresh_heap (pageheap (cc T))" and q: "GetCache T 7 1 = Some (q, T')" "cc T' = cc T" "slack T'" and T7: "GetFastPathCache T 7 = 0"
      "\<not> IsUseEmergencyMalloc T 7" by (rule demo_start)
  let ?S = "demo_tm T" and ?nh = "\<lambda>_ _. None"
  obtain out S where R: "tc_malloc ?nh 7 ?S 300000 = Some (out, S)" "mallocs 300000 ?S (out, S)"
    using wpo_total [OF tc_malloc_wpo [of True 7 ?S ?nh 300000]] T(2) by auto
  have g: "GetSizeClass (sizemap (cc T')) 300000 = None" by (simp add: GetSizeClass_SizeClass)
  have dm: "do_malloc 7 ?S 300000 = do_malloc_pages (?S\<lparr> tm := T' \<rparr>) q 300000" using T7(2) q g by (simp add: do_malloc_def)
  have R': "do { (p, S) \<leftarrow> do_malloc_pages (?S\<lparr> tm := T' \<rparr>) q 300000;
      if p = None then OOMHandler ?nh malloc_oom 7 S 300000 else Some (Returned p, S) } = Some (out, S)"
    using R(1) T7(1) by (simp add: tc_malloc_def malloc_fast_path_def Let_def do_allocate_full_def dm)
  then obtain r S1 where r: "do_malloc_pages (?S\<lparr> tm := T' \<rparr>) q 300000 = Some (r, S1)" by (cases "do_malloc_pages (?S\<lparr> tm := T' \<rparr>) q 300000") auto
  have f: "fresh_heap (heap_of (?S\<lparr> tm := T' \<rparr>))" "slack (tm (?S\<lparr> tm := T' \<rparr>))" using T(5) q(2,3) by simp_all
  have "unat (pages 300000) \<le> 1000" by (simp add: pages_round_up)
  note d = fresh_do_malloc_pages [OF f(1) _ this r]
  obtain p where p: "r = Some p" "slack (tm S1)" using d(1) d(2) [OF _ f(2)] by auto
  have o: "out = Returned (Some p)" "S = S1" using R' r p by auto
  have "release_fair (system (pageheap (cc T)))" using T(2) by (simp add: ready_def lively_def)
  moreover have "settings (pageheap (cc T)) (heap_of S)" using R(2) by (auto simp: mallocs_def gives_def tm_step_def split: option.splits)
  ultimately have rf: "release_fair (system (heap_of S))" by (simp add: settings_def release_fair_def)
  have "slack T" using T(2) by (simp add: ready_def)
  then have "tm_reachable S" using tm_malloc [OF T(1) _ _ R(1)] T7(2) by simp
  with that [OF T(1) _ _ T(2) rf] R(1) o p(2) show ?thesis by simp
qed

section \<open>The allocator as its clients see it\<close>

text \<open>The contract of an allocator: \<open>gives s n p s'\<close> is an allocation of \<open>n\<close> bytes that returned \<open>p\<close>, \<open>takes s p s'\<close> a deallocation.\<close>

locale block_store =
  fixes good :: "'s \<Rightarrow> bool"
    and used :: "'s \<Rightarrow> (addr \<times> nat) set"
    and gets :: "'s \<Rightarrow> nat \<Rightarrow> addr \<Rightarrow> 's \<Rightarrow> bool"
    and puts :: "'s \<Rightarrow> addr \<Rightarrow> 's \<Rightarrow> bool"
  assumes gets_fresh: "good s \<Longrightarrow> gets s n p s' \<Longrightarrow> good s' \<and> (\<exists>m \<ge> n. used s' = insert (p, m) (used s) \<and> (\<forall>b \<in> used s. extent b \<inter> extent (p, m) = {}))"
    and puts_exact: "good s \<Longrightarrow> (p, m) \<in> used s \<Longrightarrow> puts s p s' \<Longrightarrow> good s' \<and> used s' = used s - {(p, m)}"
    and used_nonempty: "good s \<Longrightarrow> (p, m) \<in> used s \<Longrightarrow> 0 < m"
begin

lemma two_blocks_apart:
  assumes "good s" "gets s n p s1" "gets s1 k q s2"
  shows "{p ..< p + n} \<inter> {q ..< q + k} = {}"
proof -
  obtain m where m: "good s1" "n \<le> m" "(p, m) \<in> used s1" using gets_fresh [OF assms(1,2)] by auto
  obtain m' where m': "k \<le> m'" "extent (p, m) \<inter> extent (q, m') = {}" using gets_fresh [OF m(1) assms(3)] m(3) by auto
  have "{p ..< p + n} \<subseteq> extent (p, m)" "{q ..< q + k} \<subseteq> extent (q, m')" using m(2) m'(1) by auto
  with m'(2) show ?thesis by blast
qed

lemma gets_puts:
  assumes "good s" "gets s n p s1" "puts s1 p s2"
  shows "used s2 = used s" "good s2"
proof -
  obtain m where m: "good s1" "used s1 = insert (p, m) (used s)" "\<forall>b \<in> used s. extent b \<inter> extent (p, m) = {}" using gets_fresh [OF assms(1,2)] by auto
  have "0 < m" using used_nonempty [OF m(1)] m(2) by blast
  then have "(p, m) \<notin> used s" using m(3) by force
  with puts_exact [OF m(1) _ assms(3), of m] m(2) show "used s2 = used s" "good s2" by simp_all
qed

end

text \<open>Allocation and deallocation by any threads are such an allocator.\<close>

definition mallocs_block :: "tcmalloc \<Rightarrow> nat \<Rightarrow> addr \<Rightarrow> tcmalloc \<Rightarrow> bool" where
  "mallocs_block S n p S' \<longleftrightarrow> slack (tm S) \<and> (\<exists>nh me sz. n = unat sz \<and> \<not> IsUseEmergencyMalloc (tm S) me \<and> tc_malloc nh me S sz = Some (Returned (Some p), S'))"

definition frees_block :: "tcmalloc \<Rightarrow> addr \<Rightarrow> tcmalloc \<Rightarrow> bool" where
  "frees_block S p S' \<longleftrightarrow> slack (tm S) \<and> (\<exists>me. tc_free me S p = Some S')"

interpretation bs: block_store "\<lambda>S. threads_ok (tm S) \<and> tc_new_mode S = 0" "\<lambda>S. blocks (tm S)" mallocs_block frees_block
proof (unfold_locales, goal_cases)
  case (1 S n p S')
  then obtain nh me sz where M: "n = unat sz" "\<not> IsUseEmergencyMalloc (tm S) me" "tc_malloc nh me S sz = Some (Returned (Some p), S')" "slack (tm S)"
    by (auto simp: mallocs_block_def)
  have "ready False me (tm S)" using 1 M by (simp add: ready_def lively_def)
  from wpo_partial [OF tc_malloc_wpo [OF this] M(3)] 1(1) M(1) show ?case by (auto simp: mallocs_def gives_def fresh_def tm_step_def)
next
  case (2 S p m S')
  then obtain me where "slack (tm S)" "tc_free me S p = Some S'" by (auto simp: frees_block_def)
  with wpo_partial [OF tc_free_wpo [OF _ _ lively_False 2(2)]] 2(1) show ?case by (simp add: tm_step_def)
next
  case (3 S p m)
  then show ?case using block_in_span [OF threads_okD(6), of "tm S" "(p, m)"] by auto
qed

section \<open>Properties\<close>

text \<open>C1. Allocation through the whole allocator: in every reachable state, \<open>malloc\<close> on behalf of any thread and for any size returns (given metadata for
  four objects of the page heap and a thread cache, and a system call that does not fail with \<open>EAGAIN\<close> for ever), whether the size has a class or
  not and whether or not the allocation is sampled.  It returns a block that is at least as long as was asked for and shares no byte with any block that is
  in use, small or large and of whichever thread; from then on this block and all former ones are in use.  Or it returns
  the null pointer with \<open>errno\<close> set to \<open>ENOMEM\<close>, and nothing changes for the application.\<close>

theorem malloc_gives_fresh_block:
  assumes "tm_reachable S" "slack (tm S)" "\<not> IsUseEmergencyMalloc (tm S) me"
    "4 \<le> room (heap_of S)" "release_fair (system (heap_of S))" "1 \<le> objects_left sizeof_ThreadCache (threadcache_allocator (tm S))"
  shows "\<exists>r S'. tc_malloc nh me S sz = Some (Returned r, S')
    \<and> (case r of
         None \<Rightarrow> errno S' = ENOMEM \<and> blocks (tm S') = blocks (tm S)
       | Some p \<Rightarrow> \<exists>n \<ge> unat sz. blocks (tm S') = insert (p, n) (blocks (tm S)) \<and> (\<forall>b \<in> blocks (tm S). extent b \<inter> extent (p, n) = {}))"
proof -
  have i: "threads_ok (tm S)" "tc_new_mode S = 0" using tm_reachable_inv [OF assms(1)] by simp_all
  have "ready True me (tm S)" using i(1) assms(2-6) by (simp add: ready_def lively_def)
  from wpo_total [OF tc_malloc_wpo [OF this i(2), of nh sz]] obtain r S' where R: "tc_malloc nh me S sz = Some (Returned r, S')"
      "gives 4 (unat sz) (tm S) (r, tm S')" "r = None \<longrightarrow> errno S' = ENOMEM" by (auto simp: mallocs_def)
  then show ?thesis by (cases r) (auto simp: gives_def fresh_def tm_step_def)
qed

theorem malloc_gives_fresh_block_witness:
  "\<exists>T p S n. tm_reachable (demo_tm T) \<and> tc_malloc (\<lambda>_ _. None) 7 (demo_tm T) 300000 = Some (Returned (Some p), S)
    \<and> 300000 \<le> n \<and> (p, n) \<in> blocks (tm S)"
proof -
  obtain T S p where T: "tm_reachable (demo_tm T)" "tc_malloc (\<lambda>_ _. None) 7 (demo_tm T) 300000 = Some (Returned (Some p), S)" "ready True 7 T"
    by (rule demo_block)
  have "\<exists>n \<ge> 300000. (p, n) \<in> blocks (tm S)"
    using malloc_gives_fresh_block [OF T(1), of 7 "\<lambda>_ _. None" 300000] T(2,3) by (auto simp: ready_def lively_def)
  with T(1,2) show ?thesis by blast
qed

text \<open>C2. Deallocation through the whole allocator: in every reachable state, \<open>free\<close> of a block in use returns (given a system call that does not
  fail with \<open>EAGAIN\<close> for ever), whether its class is found in the cache of size classes or in the page map, and whether the thread has a
  cache or not, and whether the block is a sampled span or not.  Exactly this block is in use no longer.\<close>

theorem free_releases_block:
  assumes "tm_reachable S" "slack (tm S)" "release_fair (system (heap_of S))" "(p, n) \<in> blocks (tm S)"
  shows "\<exists>S'. tc_free me S p = Some S' \<and> blocks (tm S') = blocks (tm S) - {(p, n)}"
proof -
  have i: "threads_ok (tm S)" using tm_reachable_inv [OF assms(1)] by simp
  have "lively True 0 (heap_of S)" using assms(3) by (simp add: lively_def)
  from wpo_total [OF tc_free_wpo [OF i assms(2) this assms(4), of me]] show ?thesis by (auto simp: tm_step_def)
qed

text \<open>The concrete program has a block in use.\<close>

lemma demo_blocks:
  obtains S p n where "tm_reachable S" "slack (tm S)" "release_fair (system (heap_of S))" "(p, n) \<in> blocks (tm S)" "300000 \<le> n"
proof -
  obtain T S p where T: "tm_reachable (demo_tm T)" "tc_malloc (\<lambda>_ _. None) 7 (demo_tm T) 300000 = Some (Returned (Some p), S)"
      "slack (tm S)" "ready True 7 T" "release_fair (system (heap_of S))" "tm_reachable S" by (rule demo_block)
  have "mallocs 300000 (demo_tm T) (Returned (Some p), S)"
    using wpo_partial [OF tc_malloc_wpo [of True 7 "demo_tm T"] T(2)] T(4) by simp
  then obtain n where "300000 \<le> n" "(p, n) \<in> blocks (tm S)" by (auto simp: mallocs_def gives_def tm_step_def)
  with that T(3,5,6) show ?thesis by blast
qed

theorem free_releases_block_witness:
  "\<exists>S p n S'. tm_reachable S \<and> (p, n) \<in> blocks (tm S) \<and> tc_free 7 S p = Some S' \<and> (p, n) \<notin> blocks (tm S')"
proof -
  obtain S p n where S: "tm_reachable S" "slack (tm S)" "release_fair (system (heap_of S))" "(p, n) \<in> blocks (tm S)" "300000 \<le> n"
    by (rule demo_blocks)
  from free_releases_block [OF S(1-4), of 7] S(1,4) show ?thesis by blast
qed

text \<open>C4. Round trip: a block that is allocated by one thread and then freed by any thread, the same or another, leaves the blocks in use as they were,
  and the states in between and after have no overlapping blocks.\<close>

theorem malloc_free_round_trip:
  assumes "tm_reachable S" "slack (tm S)" "\<not> IsUseEmergencyMalloc (tm S) me" "tc_malloc nh me S sz = Some (Returned (Some p), S1)"
    "slack (tm S1)" "tc_free other S1 p = Some S2"
  shows "blocks (tm S2) = blocks (tm S) \<and> pairwise (\<lambda>b c. extent b \<inter> extent c = {}) (blocks (tm S1))"
proof -
  have g: "threads_ok (tm S) \<and> tc_new_mode S = 0" by (rule tm_reachable_inv [OF assms(1)])
  have m: "mallocs_block S (unat sz) p S1" "frees_block S1 p S2" using assms by (auto simp: mallocs_block_def frees_block_def)
  have "threads_ok (tm S1)" using bs.gets_fresh [OF g m(1)] by blast
  with bs.gets_puts(1) [OF g m] blocks_disjoint [OF threads_okD(6)] show ?thesis by (simp add: pairwise_def)
qed

theorem malloc_free_round_trip_witness:
  "\<exists>T p S1 S2. tc_malloc (\<lambda>_ _. None) 7 (demo_tm T) 300000 = Some (Returned (Some p), S1) \<and> tc_free 8 S1 p = Some S2
    \<and> blocks (tm S2) = blocks T"
proof -
  obtain T S p where T: "tm_reachable (demo_tm T)" "tc_malloc (\<lambda>_ _. None) 7 (demo_tm T) 300000 = Some (Returned (Some p), S)"
      "slack (tm S)" "ready True 7 T" "release_fair (system (heap_of S))" "tm_reachable S" by (rule demo_block)
  have r: "slack (tm (demo_tm T))" "\<not> IsUseEmergencyMalloc (tm (demo_tm T)) 7" using T(4) by (simp_all add: ready_def)
  have "mallocs 300000 (demo_tm T) (Returned (Some p), S)"
    using wpo_partial [OF tc_malloc_wpo [of True 7 "demo_tm T"] T(2)] T(4) by simp
  then obtain n where "(p, n) \<in> blocks (tm S)" by (auto simp: mallocs_def gives_def tm_step_def)
  moreover have "lively True 0 (heap_of S)" "threads_ok (tm S)" using T(5) tm_reachable_inv [OF T(6)] by (simp_all add: lively_def)
  ultimately obtain S2 where F: "tc_free 8 S p = Some S2" using wpo_total [OF tc_free_wpo [OF _ T(3), of True p n 8]] by blast
  from malloc_free_round_trip [OF T(1) r T(2,3) F] T(2) F show ?thesis by auto
qed

text \<open>C3. The blocks in use: in every reachable state no block is at the null pointer, the blocks in use share no byte, and for the address of a block the
  cache of size classes agrees with the page map, which is what \<open>free\<close> asserts before it trusts the cache.\<close>

theorem blocks_in_use:
  assumes "tm_reachable S" "b \<in> blocks (tm S)"
  shows "0 < fst b \<and> CheckCachedSizeClass (heap_of S) (fst b) \<and> (\<forall>c \<in> blocks (tm S). c \<noteq> b \<longrightarrow> extent b \<inter> extent c = {})"
proof -
  have ok: "threads_ok (tm S)" using tm_reachable_inv [OF assms(1)] by simp
  note t = threads_okD [OF ok]
  obtain p n where b: "b = (p, n)" by (cases b)
  from assms(2) b consider cl where "cl < classes_of (tm S)" "p \<in> live (tm S) cl"
    | q s where "p = sp_start s * kPageSize" "(q, s) \<in> large_spans (cc (tm S))"
    by (auto simp: blocks_def small_blocks_def large_blocks_def)
  then have "CheckCachedSizeClass (heap_of S) p"
  proof cases
    case 1
    obtain q s where "sp_sizeclass s = cl" "GetDescriptor (heap_of S) (p div kPageSize) = Some q" "spans (heap_of S) q = Some s"
        "TryGetSizeClass (heap_of S) (p div kPageSize) \<in> {None, Some cl}" by (rule small_lookup [OF ok 1(2,1)])
    then show ?thesis by (auto simp: CheckCachedSizeClass_def Let_def)
  next
    case 2
    with large_lookup(6) [OF ok 2(2)] show ?thesis by (simp add: CheckCachedSizeClass_def)
  qed
  moreover have "0 < p" using block_bound(1) [OF t(6)] assms(2) b by blast
  ultimately show ?thesis using blocks_disjoint [OF t(6) assms(2)] b by auto
qed

theorem blocks_in_use_witness:
  "\<exists>S b. tm_reachable S \<and> b \<in> blocks (tm S) \<and> 0 < fst b \<and> CheckCachedSizeClass (heap_of S) (fst b)"
proof -
  obtain S p n where S: "tm_reachable S" "(p, n) \<in> blocks (tm S)" by (rule demo_blocks)
  from blocks_in_use [OF S] S show ?thesis by blast
qed

text \<open>C5. \<open>calloc\<close> in every reachable state: when the product of its arguments does not fit into 64 bits it returns the null pointer and changes nothing (not even
  \<open>errno\<close>); otherwise it returns, and a block it gives is fresh, is long enough for the product, and its first
  bytes up to the product are zero.\<close>

theorem calloc_checks_and_zeroes:
  assumes "tm_reachable S" "slack (tm S)" "\<not> IsUseEmergencyMalloc (tm S) me"
    "4 \<le> room (heap_of S)" "release_fair (system (heap_of S))" "1 \<le> objects_left sizeof_ThreadCache (threadcache_allocator (tm S))"
  shows "if 2 ^ 64 \<le> unat n * unat e then tc_calloc nh me S n e = Some (Returned None, S)
    else \<exists>r S'. tc_calloc nh me S n e = Some (Returned r, S')
      \<and> (case r of
           None \<Rightarrow> errno S' = ENOMEM \<and> blocks (tm S') = blocks (tm S)
         | Some p \<Rightarrow> (\<exists>k \<ge> unat n * unat e. fresh (p, k) (tm S) \<and> blocks (tm S') = insert (p, k) (blocks (tm S)))
             \<and> (\<forall>i < unat n * unat e. memory S' (p + i) = 0))"
proof (cases "2 ^ 64 \<le> unat n * unat e")
  case True
  then show ?thesis using calloc_wraps assms(3) by simp
next
  case False
  have i: "threads_ok (tm S)" "tc_new_mode S = 0" using tm_reachable_inv [OF assms(1)] by simp_all
  have r: "ready True me (tm S)" using i(1) assms(2-6) by (simp add: ready_def lively_def)
  have ov: "unat n * unat e < 2 ^ 64" using False by simp
  have u: "unat (n * e) = unat n * unat e" unfolding word_arith_nat_mult [of n e] unat_of_nat using ov by simp
  obtain r S' where R: "tc_calloc nh me S n e = Some (Returned r, S')" "gives 4 (unat n * unat e) (tm S) (r, tm S')" "r = None \<longrightarrow> errno S' = ENOMEM"
      "\<forall>p. r = Some p \<longrightarrow> (\<forall>i < unat n * unat e. memory S' (p + i) = 0)"
    using wpo_total [OF tc_calloc_wpo [OF r i(2) ov, of nh]] by (auto simp: mallocs_def u)
  then show ?thesis using False by (cases r) (auto simp: gives_def tm_step_def)
qed

theorem calloc_checks_and_zeroes_witness:
  "\<exists>T r S. tm_reachable (demo_tm T) \<and> tc_calloc (\<lambda>_ _. None) 7 (demo_tm T) (2 ^ 32) (2 ^ 32) = Some (Returned None, demo_tm T)
    \<and> tc_calloc (\<lambda>_ _. None) 7 (demo_tm T) 10 10 = Some (Returned r, S)"
proof -
  obtain T S p where T: "tm_reachable (demo_tm T)" "ready True 7 T" by (rule demo_block)
  have c: "slack (tm (demo_tm T))" "\<not> IsUseEmergencyMalloc (tm (demo_tm T)) 7" "4 \<le> room (heap_of (demo_tm T))"
      "release_fair (system (heap_of (demo_tm T)))" "1 \<le> objects_left sizeof_ThreadCache (threadcache_allocator (tm (demo_tm T)))"
    using T(2) by (simp_all add: ready_def lively_def)
  from calloc_checks_and_zeroes [OF T(1) c, of "2 ^ 32" "2 ^ 32" "\<lambda>_ _. None"] calloc_checks_and_zeroes [OF T(1) c, of 10 10 "\<lambda>_ _. None"] T(1)
  show ?thesis by auto
qed

text \<open>The loop over the new handler.\<close>

lemma oom_loop_out:
  assumes "oom_loop nh retry nothrow S = Some x"
  shows "(nothrow \<longrightarrow> fst x \<noteq> Bad_alloc) \<and> (\<not> nothrow \<longrightarrow> fst x \<noteq> Returned None)"
proof (rule oom_loop.raw_induct [where P = "\<lambda>nh retry nothrow S x. (nothrow \<longrightarrow> fst x \<noteq> Bad_alloc) \<and> (\<not> nothrow \<longrightarrow> fst x \<noteq> Returned None)",
    OF _ assms], goal_cases)
  case (1 loop nh retry nothrow S x)
  show ?case
  proof (cases "nh (handler_calls S) S")
    case None
    then show ?thesis using 1(2) by (auto split: if_splits)
  next
    case (Some y)
    obtain e S1 where y: "y = (e, S1)" by (cases y)
    show ?thesis
    proof (cases e)
      case Handler_returns
      let ?S = "S1\<lparr> handler_calls := handler_calls S1 + 1 \<rparr>"
      show ?thesis
      proof (cases "retry ?S")
        case None
        then show ?thesis using 1(2) Some y Handler_returns by simp
      next
        case R: (Some z)
        obtain rv S2 where z: "z = (rv, S2)" by (cases z)
        show ?thesis
        proof (cases rv)
          case None
          then have "loop nh retry nothrow S2 = Some x" using 1(2) Some y Handler_returns R z by simp
          then show ?thesis by (rule 1(1))
        next
          case (Some p)
          then show ?thesis using 1(2) \<open>nh (handler_calls S) S = Some y\<close> y Handler_returns R z by auto
        qed
      qed
    qed (use 1(2) Some y in \<open>auto split: if_splits\<close>)
  qed
qed

lemma handle_oom_out:
  "handle_oom nh retry True False S = Some (out, S') \<Longrightarrow> out \<noteq> Returned None"
  "handle_oom nh retry op True S = Some (out, S') \<Longrightarrow> out \<noteq> Bad_alloc"
  using oom_loop_out [of nh retry False _ "(out, S')"] oom_loop_out [of nh retry True _ "(out, S')"]
  by (auto simp: handle_oom_def Let_def split: if_splits)

text \<open>What the three kinds of functions may do when memory is exhausted.\<close>

definition allowed :: "oom_handler \<Rightarrow> outcome \<times> tcmalloc \<Rightarrow> bool" where
  "allowed oom x \<longleftrightarrow> (if oom = cpp_throw_oom then fst x \<noteq> Returned None else fst x \<noteq> Bad_alloc)"

lemma wpo_any: "(\<And>x. Q x) \<Longrightarrow> wpo False m Q"
  by (cases m) simp_all

lemma OOMHandler_allowed: "wpo False (OOMHandler nh oom me S sz) (allowed oom)"
  by (cases oom; cases "OOMHandler nh oom me S sz") (auto simp: OOMHandler_def oom_args_def allowed_def dest: handle_oom_out)

lemma full_allowed: "wpo False (do_allocate_full nh oom me S sz) (allowed oom)"
  unfolding do_allocate_full_def wpo_bind by (rule wpo_any) (auto simp: OOMHandler_allowed allowed_def split: prod.split)

lemma fast_path_allowed: "wpo False (malloc_fast_path nh oom me S sz) (allowed oom)"
proof (cases "GetFastPathCache (tm S) me = 0 \<or> GetSizeClass (sizemap (cc (tm S))) sz = None")
  case True
  then show ?thesis using full_allowed by (auto simp: malloc_fast_path_def Let_def)
next
  case False
  then obtain cl where cl: "GetSizeClass (sizemap (cc (tm S))) sz = Some cl" "GetFastPathCache (tm S) me \<noteq> 0" by auto
  have last: "wpo False (if r = None then OOMHandler nh oom me S1 k else Some (Returned r, S1)) (allowed oom)" for r S1 k
    by (auto simp: OOMHandler_allowed allowed_def)
  show ?thesis
    unfolding malloc_fast_path_def Let_def cl option.case if_not_P [OF cl(2)] wpo_bind
    by (rule wpo_any) (auto simp: full_allowed last intro!: wpo_any split: prod.split)
qed


lemma huge_malloc_fails:
  assumes "ready True me (tm S)" "2 ^ 48 < unat sz"
  shows "\<exists>S'. do_malloc me S sz = Some (None, S') \<and> tc_new_mode S' = tc_new_mode S"
proof -
  obtain r S' where R: "do_malloc me S sz = Some (r, S')" "gives 4 (unat sz) (tm S) (r, tm S')" "tc_new_mode S' = tc_new_mode S"
    using wpo_total [OF do_malloc_wpo [OF assms(1), of sz]] by auto
  have "r = None"
  proof (cases r)
    case (Some p)
    with R(2) obtain n where n: "unat sz \<le> n" "tm_step 4 (tm S) (tm S') (insert (p, n) (blocks (tm S)))" by (auto simp: gives_def)
    have "n \<le> 2 ^ 48" by (rule block_bound(2) [OF threads_okD(6) [OF tm_stepD(1) [OF n(2)]], of p]) (simp add: tm_stepD(5) [OF n(2)])
    with n(1) assms(2) show ?thesis by simp
  qed simp
  with R show ?thesis by blast
qed


section \<open>Observations\<close>

text \<open>\<open>pvalloc\<close> of the largest size asks for 0 bytes.\<close>

lemma pvalloc_wraps:
  assumes "pagesize (system (heap_of S)) = 4096"
  shows "tc_pvalloc nh me S (- 1) = tc_memalign nh me S 4096 0"
  by (simp add: tc_pvalloc_def assms Let_def)

text \<open>A negative threshold, which is meant to turn the reports off, reports every large allocation.\<close>

lemma negative_threshold_reports:
  assumes "large_alloc_threshold S = 0" "report_setting S < 0" "1 \<le> num_pages"
  shows "fst (should_report_large S num_pages)"
proof -
  have "unat (drop_bit kPageShift (of_int (max (int kPageSize) (- 1)) :: u64)) = 1" by (simp add: unat_drop_bit)
  with assms show ?thesis by (simp add: should_report_large_def Let_def)
qed

end
