(* ===== verification/TCMalloc_Stats.thy ===== *)
theory TCMalloc_Stats
  imports TCMalloc_Props
begin

text \<open>
  The statistics of the allocator: what \<open>ExtractStats\<close> counts in thread caches, central lists and page heap, against the blocks of the application.
\<close>

section \<open>Pages\<close>

definition span_pages :: "PageHeap \<Rightarrow> nat" where
  "span_pages h = (\<Sum>p \<in> dom (spans h). sp_length (the (spans h p)))"

lemma span_pages_split:
  "span_pages h = loc_pages {} (spans h) IN_USE + loc_pages {} (spans h) ON_NORMAL_FREELIST + loc_pages {} (spans h) ON_RETURNED_FREELIST"
  unfolding span_pages_def loc_pages_contrib sum.distrib [symmetric]
proof (rule sum.cong)
  fix p assume "p \<in> dom (spans h)"
  then obtain s where "spans h p = Some s" by blast
  then show "sp_length (the (spans h p)) = contrib {} IN_USE p (spans h p) + contrib {} ON_NORMAL_FREELIST p (spans h p) + contrib {} ON_RETURNED_FREELIST p (spans h p)"
    by (cases "sp_location s") (simp_all add: contrib_def)
qed simp

lemma inuse_finite: "cc_inv st \<Longrightarrow> finite (dom (inuse_spans (pageheap st)))"
proof -
  assume inv: "cc_inv st"
  have "dom (inuse_spans (pageheap st)) \<subseteq> dom (spans (pageheap st))" by (auto simp: inuse_spans_Some)
  then show ?thesis using geom_finite [OF ph_invD(1) [OF heap_okD(1) [OF cc_invD(1) [OF inv]]]] finite_subset by blast
qed

lemma loc_pages_inuse: "loc_pages {} (spans h) IN_USE = (\<Sum>p \<in> dom (inuse_spans h). sp_length (the (inuse_spans h p)))" if "finite (dom (spans h))"
  unfolding loc_pages_contrib
proof (rule sum.mono_neutral_cong_right)
  show "finite (dom (spans h))" by (rule that)
  show "dom (inuse_spans h) \<subseteq> dom (spans h)" by (auto simp: inuse_spans_Some)
  show "\<forall>p \<in> dom (spans h) - dom (inuse_spans h). contrib {} IN_USE p (spans h p) = 0" by (auto simp: contrib_def inuse_spans_def split: option.splits if_splits)
  fix p assume "p \<in> dom (inuse_spans h)"
  then obtain s where s: "inuse_spans h p = Some s" by blast
  then have "spans h p = Some s" "sp_location s = IN_USE" by (simp_all add: inuse_spans_Some)
  with s show "contrib {} IN_USE p (spans h p) = sp_length (the (inuse_spans h p))" by (simp add: contrib_def)
qed

text \<open>The pages in use belong to blocks of their own or to the spans of the classes.\<close>

lemma inuse_pages:
  assumes inv: "cc_inv st"
  shows "loc_pages {} (spans (pageheap st)) IN_USE
    = (\<Sum>(p, s) \<in> large_spans st. sp_length s) + (\<Sum>cl = 1 ..< num_size_classes (sizemap st). card (part st cl) * class_to_pages (sizemap st) cl)"
proof -
  let ?U = "inuse_spans (pageheap st)" and ?N = "num_size_classes (sizemap st)"
  let ?cls = "\<lambda>p. sp_sizeclass (the (?U p))" and ?f = "\<lambda>p. sp_length (the (?U p))"
  have N: "0 < ?N" using cc_invD(2) [OF inv] by (simp add: sizes_ok_def)
  have fin: "finite (dom ?U)" by (rule inuse_finite [OF inv])
  have cls: "?cls ` dom ?U \<subseteq> {..<?N}"
  proof (rule image_subsetI)
    fix p assume "p \<in> dom ?U"
    then obtain s where s: "?U p = Some s" by blast
    show "?cls p \<in> {..<?N}" using s cc_invD(4) [OF inv, of p s "sp_sizeclass s"] N by (cases "sp_sizeclass s = 0") (auto simp: class_part_def)
  qed
  have "(\<Sum>p \<in> dom ?U. ?f p) = (\<Sum>cl < ?N. \<Sum>p \<in> {p \<in> dom ?U. ?cls p = cl}. ?f p)"
    by (rule sum.group [OF fin _ cls, symmetric]) simp
  also have "\<dots> = (\<Sum>p \<in> {p \<in> dom ?U. ?cls p = 0}. ?f p) + (\<Sum>cl = 1 ..< ?N. \<Sum>p \<in> {p \<in> dom ?U. ?cls p = cl}. ?f p)"
    using N by (simp add: sum.atLeast_Suc_lessThan atLeast0LessThan [symmetric])
  also have "(\<Sum>p \<in> {p \<in> dom ?U. ?cls p = 0}. ?f p) = (\<Sum>(p, s) \<in> large_spans st. sp_length s)"
    by (rule sum.reindex_bij_witness [of _ fst "\<lambda>p. (p, the (?U p))"]) (auto simp: large_spans_def)
  also have "(\<Sum>cl = 1 ..< ?N. \<Sum>p \<in> {p \<in> dom ?U. ?cls p = cl}. ?f p) = (\<Sum>cl = 1 ..< ?N. card (part st cl) * class_to_pages (sizemap st) cl)"
  proof (rule sum.cong)
    fix cl assume cl: "cl \<in> {1 ..< ?N}"
    have "(\<Sum>p \<in> {p \<in> dom ?U. ?cls p = cl}. ?f p) = (\<Sum>(p, s) \<in> part st cl. sp_length s)"
      by (rule sum.reindex_bij_witness [of _ fst "\<lambda>p. (p, the (?U p))"]) (use cl in \<open>auto simp: class_part_def\<close>)
    also have "\<dots> = (\<Sum>x \<in> part st cl. class_to_pages (sizemap st) cl)"
    proof (rule sum.cong)
      fix x assume "x \<in> part st cl"
      then obtain p s where x: "x = (p, s)" "(p, s) \<in> part st cl" by (cases x) auto
      then show "(case x of (p, s) \<Rightarrow> sp_length s) = class_to_pages (sizemap st) cl"
        using cc_invD(4) [OF inv x(2)] by (simp add: span_inv_def class_part_def)
    qed simp
    finally show "(\<Sum>p \<in> {p \<in> dom ?U. ?cls p = cl}. ?f p) = card (part st cl) * class_to_pages (sizemap st) cl" by simp
  qed simp
  finally show ?thesis
    using loc_pages_inuse [OF geom_finite [OF ph_invD(1) [OF heap_okD(1) [OF cc_invD(1) [OF inv]]]]] by simp
qed

section \<open>Objects\<close>

lemma held_finite: "cc_inv st \<Longrightarrow> finite (held st cl)"
  unfolding held_def all_objs_def by (intro finite_Diff finite_UN_I) (auto simp: grid_def part_finite)

text \<open>The objects outside the central lists are live or in a cache.\<close>

lemma held_census:
  assumes inv: "tc_inv T" and cl: "cl < classes_of T"
  shows "card (held (cc T) cl) = card (live T cl) + (\<Sum>t \<in> dom (heaps T). length (fl_list (tc_list (the (heaps T t)) cl)))"
proof -
  let ?L = "\<lambda>t. set (fl_list (tc_list (the (heaps T t)) cl))"
  note p = pool_invD [OF tc_invD(1) [OF inv]]
  have fin: "finite (dom (heaps T))" by (rule limits_okD(3) [OF tc_invD(2) [OF inv]])
  have sub: "?L t \<subseteq> held (cc T) cl" "distinct (fl_list (tc_list (the (heaps T t)) cl))" if t: "t \<in> dom (heaps T)" for t
  proof -
    obtain h where h: "heaps T t = Some h" using t by blast
    from list_held [OF p(3) [OF h] cl] h show "?L t \<subseteq> held (cc T) cl" by simp
    show "distinct (fl_list (tc_list (the (heaps T t)) cl))"
      using tc_coreD [OF p(3) [OF h]] fl_okD(2) [of "cc T" cl "tc_list h cl"] cl h by (cases "cl = 0") auto
  qed
  have "held (cc T) cl = live T cl \<union> (\<Union>t \<in> dom (heaps T). ?L t)" using sub(1) by (auto simp: live_def)
  moreover have "live T cl \<inter> (\<Union>t \<in> dom (heaps T). ?L t) = {}" by (auto simp: live_def)
  moreover have "finite (live T cl)" using finite_subset [OF live_held held_finite [OF tc_invD(4) [OF inv]]] .
  moreover have "?L t \<inter> ?L u = {}" if "t \<in> dom (heaps T)" "u \<in> dom (heaps T)" "t \<noteq> u" for t u
    using p(5) [OF _ _ that(3) cl] that(1,2) by fastforce
  then have "card (\<Union>t \<in> dom (heaps T). ?L t) = (\<Sum>t \<in> dom (heaps T). card (?L t))"
    by (intro card_UN_disjoint) (use fin in auto)
  moreover have "(\<Sum>t \<in> dom (heaps T). card (?L t)) = (\<Sum>t \<in> dom (heaps T). length (fl_list (tc_list (the (heaps T t)) cl)))"
    by (rule sum.cong) (use sub(2) in \<open>simp_all add: distinct_card\<close>)
  ultimately show ?thesis using fin by (simp add: card_Un_disjoint)
qed

text \<open>The bytes of the spans of a class.\<close>

lemma class_bytes:
  assumes inv: "tc_inv T" and cl: "0 < cl" "cl < classes_of T"
  defines "z \<equiv> ByteSizeForClass (sizemap (cc T)) cl"
  shows "card (part (cc T) cl) * class_to_pages (sizemap (cc T)) cl * kPageSize
    = z * card (free_objs (part (cc T) cl)) + z * length (concat (tc_slots (central_cache (cc T) cl)))
      + card (part (cc T) cl) * (class_to_pages (sizemap (cc T)) cl * kPageSize mod z)
      + z * card (live T cl) + (\<Sum>t \<in> dom (heaps T). length (fl_list (tc_list (the (heaps T t)) cl)) * z)"
proof -
  let ?n = "card (part (cc T) cl)" and ?b = "class_to_pages (sizemap (cc T)) cl * kPageSize"
  have "?n * ?b = ?n * (?b div z * z + ?b mod z)" by simp
  also have "\<dots> = z * (?n * nobjs (sizemap (cc T)) cl) + ?n * (?b mod z)"
    by (simp only: nobjs_def z_def [symmetric] distrib_left) simp
  also have "?n * nobjs (sizemap (cc T)) cl = card (free_objs (part (cc T) cl)) + length (concat (tc_slots (central_cache (cc T) cl)))
      + (card (live T cl) + (\<Sum>t \<in> dom (heaps T). length (fl_list (tc_list (the (heaps T t)) cl))))"
    by (simp only: class_census [OF tc_invD(4) [OF inv] cl] held_census [OF inv cl(2)])
  finally show ?thesis by (simp only: distrib_left sum_distrib_left mult.assoc mult.commute [of z] add_ac)
qed

section \<open>Blocks\<close>

lemma live_0: "tc_inv T \<Longrightarrow> 0 < classes_of T \<Longrightarrow> live T 0 = {}"
  using small_block_span [OF tc_invD(4), of T _ 0] by blast

lemma live_finite: "cc_inv (cc T) \<Longrightarrow> finite (live T cl)"
  using finite_subset [OF live_held held_finite] .

lemma small_bytes:
  assumes ok: "threads_ok T"
  shows "finite (small_blocks (sizemap (cc T)) (live T))"
    "(\<Sum>b \<in> small_blocks (sizemap (cc T)) (live T). snd b) = (\<Sum>cl = 1 ..< classes_of T. ByteSizeForClass (sizemap (cc T)) cl * card (live T cl))"
proof -
  let ?z = "ByteSizeForClass (sizemap (cc T))" and ?N = "classes_of T"
  let ?S = "\<lambda>cl. (\<lambda>x. (x, ?z cl)) ` live T cl"
  note t = threads_okD [OF ok] and fl = live_finite [OF threads_okD(6) [OF ok]]
  have N: "0 < ?N" using cc_invD(2) [OF t(6)] by (simp add: sizes_ok_def)
  have sb: "small_blocks (sizemap (cc T)) (live T) = (\<Union>cl < ?N. ?S cl)" by (auto simp: small_blocks_def)
  then show "finite (small_blocks (sizemap (cc T)) (live T))" using fl by simp
  have apart: "?S cl \<inter> ?S d = {}" if cd: "cl < ?N" "d < ?N" "cl \<noteq> d" for cl d
  proof -
    have "(x, ?z cl) \<noteq> (y, ?z d)" if "x \<in> live T cl" "y \<in> live T d" for x y
    proof -
      have "0 < ?z cl" by (rule small_block_span [OF t(6) that(1) cd(1)])
      then show ?thesis using small_small_disjoint [OF t(6) that] cd(3) by auto
    qed
    then show ?thesis by blast
  qed
  have "(\<Sum>b \<in> small_blocks (sizemap (cc T)) (live T). snd b) = (\<Sum>cl < ?N. \<Sum>b \<in> ?S cl. snd b)"
    unfolding sb by (rule sum.UNION_disjoint) (use fl apart in auto)
  also have "\<dots> = (\<Sum>cl < ?N. ?z cl * card (live T cl))"
    by (rule sum.cong) (simp_all add: sum.reindex inj_on_def)
  finally show "(\<Sum>b \<in> small_blocks (sizemap (cc T)) (live T). snd b) = (\<Sum>cl = 1 ..< ?N. ?z cl * card (live T cl))"
    using N live_0 [OF t(1) N] by (simp add: sum.atLeast_Suc_lessThan atLeast0LessThan [symmetric])
qed

lemma large_bytes:
  assumes ok: "threads_ok T"
  shows "finite (large_blocks (large_spans (cc T)))"
    "(\<Sum>b \<in> large_blocks (large_spans (cc T)). snd b) = (\<Sum>(p, s) \<in> large_spans (cc T). sp_length s * kPageSize)"
proof -
  have "finite (large_spans (cc T))"
    by (rule finite_subset [OF _ finite_imageI [OF inuse_finite [OF threads_okD(6) [OF ok]], of "\<lambda>p. (p, the (inuse_spans (pageheap (cc T)) p))"]])
      (force simp: large_spans_def)
  then show "finite (large_blocks (large_spans (cc T)))" by (simp add: large_blocks_def)
  have "inj_on (\<lambda>(p, s). span_block s) (large_spans (cc T))"
  proof (rule inj_onI, clarify)
    fix p s q u assume a: "(p, s) \<in> large_spans (cc T)" "(q, u) \<in> large_spans (cc T)" "sp_start s * kPageSize = sp_start u * kPageSize"
    note l = large_lookup [OF ok a(1)] and m = large_lookup [OF ok a(2)]
    have "p = q" using l(5) m(5) a(3) by simp
    with l(1) m(1) show "p = q \<and> s = u" by simp
  qed
  then show "(\<Sum>b \<in> large_blocks (large_spans (cc T)). snd b) = (\<Sum>(p, s) \<in> large_spans (cc T). sp_length s * kPageSize)"
    unfolding large_blocks_def by (simp add: sum.reindex case_prod_unfold o_def)
qed

lemma blocks_bytes:
  assumes ok: "threads_ok T"
  shows "(\<Sum>b \<in> blocks T. snd b) = (\<Sum>(p, s) \<in> large_spans (cc T). sp_length s * kPageSize)
    + (\<Sum>cl = 1 ..< classes_of T. ByteSizeForClass (sizemap (cc T)) cl * card (live T cl))"
proof -
  have "c \<notin> large_blocks (large_spans (cc T))" if c: "c \<in> small_blocks (sizemap (cc T)) (live T)" for c
  proof
    assume "c \<in> large_blocks (large_spans (cc T))"
    then obtain p s where s: "(p, s) \<in> large_spans (cc T)" "c = span_block s" by (auto simp: large_blocks_def)
    obtain x cl where x: "x \<in> live T cl" "cl < classes_of T" "c = (x, ByteSizeForClass (sizemap (cc T)) cl)" using c by (auto simp: small_blocks_def)
    have "0 < ByteSizeForClass (sizemap (cc T)) cl" by (rule small_block_span [OF threads_okD(6) [OF ok] x(1,2)])
    with small_large_disjoint [OF threads_okD(6) [OF ok] x(1,2) s(1)] s(2) x(3) show False by auto
  qed
  then have "small_blocks (sizemap (cc T)) (live T) \<inter> large_blocks (large_spans (cc T)) = {}" by blast
  from sum.union_disjoint [OF small_bytes(1) [OF ok] large_bytes(1) [OF ok] this, of snd] small_bytes(2) [OF ok] large_bytes(2) [OF ok]
  show ?thesis by (simp add: blocks_def)
qed

section \<open>The figures of \<open>ExtractStats\<close>\<close>

lemma extract_loop:
  "foldl (\<lambda>x cl. extract_class st cl x) (r, n) cls = (r', n') \<Longrightarrow>
     central_bytes r' = central_bytes r + (\<Sum>cl \<leftarrow> cls. of_nat (ByteSizeForClass (sizemap st) cl) * of_int (CFL_length st cl) + OverheadBytes st cl)
     \<and> transfer_bytes r' = transfer_bytes r + (\<Sum>cl \<leftarrow> cls. of_nat (ByteSizeForClass (sizemap st) cl) * of_int (tc_length st cl))"
proof (induction cls arbitrary: r n)
  case (Cons cl cls)
  obtain r1 n1 where e: "extract_class st cl (r, n) = (r1, n1)" by (cases "extract_class st cl (r, n)")
  have "central_bytes r1 = central_bytes r + (of_nat (ByteSizeForClass (sizemap st) cl) * of_int (CFL_length st cl) + OverheadBytes st cl)
      \<and> transfer_bytes r1 = transfer_bytes r + of_nat (ByteSizeForClass (sizemap st) cl) * of_int (tc_length st cl)"
    using e by (auto simp: extract_class_def Let_def)
  with Cons.IH [of r1 n1] Cons.prems e show ?case by (simp add: add_ac)
qed simp

lemma thread_stats:
  "fst (foldl (\<lambda>(total, count) p. case H p of None \<Rightarrow> (total, count) | Some h \<Rightarrow>
       (total + of_int (tc_size h), f h count)) (a, b) ps) = a + (\<Sum>p \<leftarrow> ps. case H p of None \<Rightarrow> 0 | Some h \<Rightarrow> (of_int (tc_size h) :: u64))"
  by (induction ps arbitrary: a b) (auto simp: add_ac split: option.split)

text \<open>The \<open>int\<close> figures of the lists do not overflow: fewer than \<open>2^31\<close> free objects of a class, and caches of less than \<open>2^31\<close> bytes.\<close>

definition counts_fit :: "threads \<Rightarrow> bool" where
  "counts_fit T \<longleftrightarrow> (\<forall>cl < classes_of T. unat (counter (central_cache (cc T) cl)) < 2 ^ 31)
     \<and> (\<forall>t h. heaps T t = Some h \<longrightarrow> cached_bytes (sizemap (cc T)) h < 2 ^ 31)"

lemma class_figures:
  assumes inv: "cc_inv st" and cl: "cl < num_size_classes (sizemap st)" and fit: "unat (counter (central_cache st cl)) < 2 ^ 31"
  defines "z \<equiv> ByteSizeForClass (sizemap st) cl"
  shows "(of_nat z :: u64) * of_int (CFL_length st cl) + OverheadBytes st cl
      = of_nat (if cl = 0 then 0 else z * card (free_objs (part st cl)) + card (part st cl) * (class_to_pages (sizemap st) cl * kPageSize mod z))"
    "(of_nat z :: u64) * of_int (tc_length st cl) = of_nat (if cl = 0 then 0 else z * length (concat (tc_slots (central_cache st cl))))"
proof -
  note s = slotsD [OF inv cl]
  have ci: "counter (central_cache st cl) = of_nat (card (free_objs (part st cl)))" "num_spans (central_cache st cl) = of_nat (card (part st cl))"
    using cc_invD(3) [OF inv cl] by (simp_all add: cfl_inv_def)
  have tc: "tc_length st cl = int (length (concat (tc_slots (central_cache st cl))))"
    unfolding tc_length_def used_slots_def s(6) using concat_length [OF s(3)] by simp
  have len: "(of_int (CFL_length st cl) :: u64) = of_nat (card (free_objs (part st cl)))"
    unfolding CFL_length_def int32_of_nat_small [OF fit] by (simp add: ci(1) [symmetric])
  have p0: "part st 0 = {}" by (simp add: class_part_def)
  have ov: "OverheadBytes st cl = of_nat (if cl = 0 then 0 else card (part st cl) * (class_to_pages (sizemap st) cl * kPageSize mod z))"
    using s(6) by (simp add: OverheadBytes_def Let_def ci(2) z_def class_to_size_def ByteSizeForClass_def del: kPageSize_def)
  have f0: "card (free_objs (part st cl)) = 0" if "cl = 0" using that p0 by (simp add: free_objs_def)
  then show "(of_nat z :: u64) * of_int (CFL_length st cl) + OverheadBytes st cl
      = of_nat (if cl = 0 then 0 else z * card (free_objs (part st cl)) + card (part st cl) * (class_to_pages (sizemap st) cl * kPageSize mod z))"
    unfolding len ov by (simp del: kPageSize_def)
  have t0: "length (concat (tc_slots (central_cache st cl))) = 0" if "cl = 0" using s(5) that p0 by (simp add: all_objs_def del: length_concat)
  show "(of_nat z :: u64) * of_int (tc_length st cl) = of_nat (if cl = 0 then 0 else z * length (concat (tc_slots (central_cache st cl))))"
  proof (cases "cl = 0")
    case True
    show ?thesis unfolding tc t0 [OF True] by (simp add: True)
  next
    case False
    then show ?thesis unfolding tc by (simp only: if_False of_int_of_nat_eq of_nat_mult)
  qed
qed

lemma sum_from_1: "(\<Sum>cl < (N :: nat). if cl = 0 then 0 else f cl) = (\<Sum>cl = 1 ..< N. f cl :: nat)"
  by (rule sum.mono_neutral_cong_right) auto

lemma list_of_classes:
  fixes g :: "nat \<Rightarrow> u64"
  assumes "\<And>cl. cl < N \<Longrightarrow> g cl = of_nat (if cl = 0 then 0 else f cl)"
  shows "(\<Sum>cl \<leftarrow> [0 ..< N]. g cl) = of_nat (\<Sum>cl = 1 ..< N. f cl)"
proof -
  have "(\<Sum>cl \<leftarrow> [0 ..< N]. g cl) = (\<Sum>cl < N. of_nat (if cl = 0 then 0 else f cl))"
    unfolding interv_sum_list_conv_sum_set_nat by (rule sum.cong) (use assms in auto)
  then show ?thesis unfolding sum_from_1 [symmetric] by (simp only: of_nat_sum)
qed

lemma extracted_central:
  assumes inv: "cc_inv (cc T)" and fit: "counts_fit T"
  defines "z \<equiv> ByteSizeForClass (sizemap (cc T))"
  shows "central_bytes (extracted T) = of_nat (\<Sum>cl = 1 ..< classes_of T. z cl * card (free_objs (part (cc T) cl))
      + card (part (cc T) cl) * (class_to_pages (sizemap (cc T)) cl * kPageSize mod z cl))"
    "transfer_bytes (extracted T) = of_nat (\<Sum>cl = 1 ..< classes_of T. z cl * length (concat (tc_slots (central_cache (cc T) cl))))"
    "st_pageheap (extracted T) = stats (pageheap (cc T))" "thread_bytes (extracted T) = fst (GetThreadStats T)"
proof -
  let ?r0 = "\<lparr> thread_bytes = 0, central_bytes = 0, transfer_bytes = 0, metadata_bytes = 0, st_pageheap = stats (pageheap (cc T)) \<rparr>"
  obtain r' n' where R: "foldl (\<lambda>x cl. extract_class (cc T) cl x) (?r0, \<lambda>_. 0) [0 ..< classes_of T] = (r', n')"
    by (cases "foldl (\<lambda>x cl. extract_class (cc T) cl x) (?r0, \<lambda>_. 0) [0 ..< classes_of T]")
  note e = extract_loop [OF R, simplified]
  have f: "unat (counter (central_cache (cc T) cl)) < 2 ^ 31" if "cl < classes_of T" for cl using fit that by (simp add: counts_fit_def)
  have x: "extracted T = r'\<lparr> thread_bytes := fst (GetThreadStats T), metadata_bytes := metadata_system_bytes (system (pageheap (cc T))), st_pageheap := stats (pageheap (cc T)) \<rparr>"
    by (cases "GetThreadStats T") (simp add: ExtractStats_def R)
  then show "st_pageheap (extracted T) = stats (pageheap (cc T))" "thread_bytes (extracted T) = fst (GetThreadStats T)" by simp_all
  show "central_bytes (extracted T) = of_nat (\<Sum>cl = 1 ..< classes_of T. z cl * card (free_objs (part (cc T) cl))
      + card (part (cc T) cl) * (class_to_pages (sizemap (cc T)) cl * kPageSize mod z cl))"
    using e list_of_classes [OF class_figures(1) [OF inv _ f]] unfolding x z_def by (simp del: kPageSize_def)
  show "transfer_bytes (extracted T) = of_nat (\<Sum>cl = 1 ..< classes_of T. z cl * length (concat (tc_slots (central_cache (cc T) cl))))"
    using e list_of_classes [OF class_figures(2) [OF inv _ f]] unfolding x z_def by simp
qed

lemma extracted_thread:
  assumes inv: "tc_inv T" and fit: "counts_fit T"
  shows "fst (GetThreadStats T) = of_nat (\<Sum>cl = 1 ..< classes_of T. \<Sum>t \<in> dom (heaps T).
    length (fl_list (tc_list (the (heaps T t)) cl)) * ByteSizeForClass (sizemap (cc T)) cl)"
proof -
  let ?n = "\<lambda>t cl. length (fl_list (tc_list (the (heaps T t)) cl)) * ByteSizeForClass (sizemap (cc T)) cl"
  note p = pool_invD [OF tc_invD(1) [OF inv]] and l = limits_okD [OF tc_invD(2) [OF inv]]
  have tc: "(case heaps T t of None \<Rightarrow> 0 | Some h \<Rightarrow> (of_int (tc_size h) :: u64)) = of_nat (\<Sum>cl = 1 ..< classes_of T. ?n t cl)" if t: "t \<in> dom (heaps T)" for t
  proof -
    obtain h where h: "heaps T t = Some h" using t by blast
    have c: "cached_bytes (sizemap (cc T)) h = int (\<Sum>cl < classes_of T. ?n t cl)" by (simp add: cached_bytes_def h)
    have "?n t 0 = 0" using tc_coreD(2) [OF p(3) [OF h]] h by simp
    then have n: "(\<Sum>cl < classes_of T. ?n t cl) = (\<Sum>cl = 1 ..< classes_of T. ?n t cl)"
      unfolding sum_from_1 [symmetric] by (intro sum.cong) auto
    have "0 \<le> cached_bytes (sizemap (cc T)) h" by (simp only: c of_nat_0_le_iff)
    moreover have "cached_bytes (sizemap (cc T)) h < 2 ^ 31" using fit h unfolding counts_fit_def by blast
    ultimately have "wrap32 (cached_bytes (sizemap (cc T)) h) = cached_bytes (sizemap (cc T)) h" by (intro wrap32_id) linarith+
    then have "tc_size h = cached_bytes (sizemap (cc T)) h" using p(3) [OF h] unfolding tc_core_def by (simp only:)
    then have "tc_size h = int (\<Sum>cl = 1 ..< classes_of T. ?n t cl)" unfolding c n .
    then show ?thesis by (subst h) (simp only: option.case of_int_of_nat_eq)
  qed
  have "fst (GetThreadStats T) = (\<Sum>t \<leftarrow> thread_heaps T. case heaps T t of None \<Rightarrow> 0 | Some h \<Rightarrow> (of_int (tc_size h) :: u64))"
    unfolding GetThreadStats_def thread_stats by simp
  also have "\<dots> = (\<Sum>t \<in> dom (heaps T). case heaps T t of None \<Rightarrow> 0 | Some h \<Rightarrow> (of_int (tc_size h) :: u64))"
    using l(1,2) by (simp add: sum_list_distinct_conv_sum_set)
  also have "\<dots> = of_nat (\<Sum>t \<in> dom (heaps T). \<Sum>cl = 1 ..< classes_of T. ?n t cl)"
    unfolding of_nat_sum [of _ "dom (heaps T)"] by (rule sum.cong) (use tc in auto)
  also have "(\<Sum>t \<in> dom (heaps T). \<Sum>cl = 1 ..< classes_of T. ?n t cl) = (\<Sum>cl = 1 ..< classes_of T. \<Sum>t \<in> dom (heaps T). ?n t cl)" by (rule sum.swap)
  finally show ?thesis .
qed

lemma page_bytes_nat: "page_bytes n = of_nat (n * kPageSize)"
  by (simp add: page_bytes_def)

lemma inuse_bytes:
  assumes ok: "threads_ok T"
  defines "z \<equiv> ByteSizeForClass (sizemap (cc T))"
  shows "loc_pages {} (spans (pageheap (cc T))) IN_USE * kPageSize = (\<Sum>b \<in> blocks T. snd b)
    + (\<Sum>cl = 1 ..< classes_of T. z cl * card (free_objs (part (cc T) cl))
      + card (part (cc T) cl) * (class_to_pages (sizemap (cc T)) cl * kPageSize mod z cl))
    + (\<Sum>cl = 1 ..< classes_of T. z cl * length (concat (tc_slots (central_cache (cc T) cl))))
    + (\<Sum>cl = 1 ..< classes_of T. \<Sum>t \<in> dom (heaps T). length (fl_list (tc_list (the (heaps T t)) cl)) * z cl)"
proof -
  note t = threads_okD [OF ok]
  have cb: "(\<Sum>cl = 1 ..< classes_of T. card (part (cc T) cl) * class_to_pages (sizemap (cc T)) cl * kPageSize)
    = (\<Sum>cl = 1 ..< classes_of T. z cl * card (free_objs (part (cc T) cl)) + z cl * length (concat (tc_slots (central_cache (cc T) cl)))
      + card (part (cc T) cl) * (class_to_pages (sizemap (cc T)) cl * kPageSize mod z cl)
      + z cl * card (live T cl) + (\<Sum>t \<in> dom (heaps T). length (fl_list (tc_list (the (heaps T t)) cl)) * z cl))"
    by (rule sum.cong) (use class_bytes [OF t(1)] in \<open>simp_all only: z_def, auto\<close>)
  have "loc_pages {} (spans (pageheap (cc T))) IN_USE * kPageSize = (\<Sum>(p, s) \<in> large_spans (cc T). sp_length s * kPageSize)
      + (\<Sum>cl = 1 ..< classes_of T. card (part (cc T) cl) * class_to_pages (sizemap (cc T)) cl * kPageSize)"
    unfolding inuse_pages [OF t(6)] distrib_right sum_distrib_right by (simp add: case_prod_unfold)
  then show ?thesis unfolding cb blocks_bytes [OF ok] z_def [symmetric] sum.distrib by simp
qed

lemma CFL_Init_counter: "CFL_Init sm cl = Some c \<Longrightarrow> counter c = 0"
  by (auto simp: CFL_Init_def Let_def split: if_splits)

text \<open>C8. The figure \<open>generic.current_allocated_bytes\<close>, which the code computes by subtracting what is in the thread caches, the central lists with their unusable
  ends of spans, the transfer caches and the free and unmapped spans from the bytes of the system, is in every reachable state exactly the sum of the
  lengths of the blocks in use, plus the memory from the system that is in no span (which only a page map that could not be extended leaves
  behind); the numbers of free objects and of bytes in a cache have to fit the \<open>int\<close> fields of the code.\<close>

theorem current_allocated_bytes_exact:
  assumes "tm_reachable S" "counts_fit (tm S)"
  shows "\<exists>v. GetNumericProperty S ''generic.current_allocated_bytes'' = Some v
    \<and> v + page_bytes (span_pages (heap_of S)) = of_nat (\<Sum>b \<in> blocks (tm S). snd b) + system_bytes (stats (heap_of S))"
proof -
  let ?h = "heap_of S" and ?T = "tm S"
  have ok: "threads_ok ?T" using tm_reachable_inv [OF assms(1)] by simp
  note t = threads_okD [OF ok] and x = extracted_central [OF threads_okD(6) [OF ok] assms(2)]
  have st: "free_bytes (stats ?h) = page_bytes (loc_pages {} (spans ?h) ON_NORMAL_FREELIST)"
      "unmapped_bytes (stats ?h) = page_bytes (loc_pages {} (spans ?h) ON_RETURNED_FREELIST)"
    using lists_okD(5) [OF ph_invD(2) [OF heap_okD(1) [OF t(7)]], of ON_NORMAL_FREELIST]
      lists_okD(5) [OF ph_invD(2) [OF heap_okD(1) [OF t(7)]], of ON_RETURNED_FREELIST] by (simp_all add: stat_bytes_def)
  have "page_bytes (span_pages ?h) = of_nat (\<Sum>b \<in> blocks ?T. snd b) + central_bytes (extracted ?T) + transfer_bytes (extracted ?T) + thread_bytes (extracted ?T)
      + free_bytes (stats ?h) + unmapped_bytes (stats ?h)"
    unfolding span_pages_split page_bytes_add st x extracted_thread [OF t(1) assms(2)]
    unfolding page_bytes_nat [of "loc_pages {} (spans ?h) IN_USE"] inuse_bytes [OF ok] by (simp only: of_nat_add)
  then have "current_allocated_bytes (extracted ?T) + page_bytes (span_pages ?h) = of_nat (\<Sum>b \<in> blocks ?T. snd b) + system_bytes (stats ?h)"
    unfolding current_allocated_bytes_def x(3) by (simp only: algebra_simps)
  then show ?thesis by (auto simp only: GetNumericProperty_def Let_def simp_thms if_True)
qed

theorem current_allocated_bytes_exact_witness:
  "\<exists>S v. tm_reachable S \<and> counts_fit (tm S) \<and> GetNumericProperty S ''generic.current_allocated_bytes'' = Some v
    \<and> v + page_bytes (span_pages (heap_of S)) = of_nat (\<Sum>b \<in> blocks (tm S). snd b) + system_bytes (stats (heap_of S))"
proof -
  obtain T sm where T: "tc_init demo_env demo_sys T" "sizemap (cc T) = sm" "\<forall>cl < 86. CFL_Init sm cl = Some (central_cache (cc T) cl)"
      "heaps T = Map.empty" "num_size_classes sm = 86" by (rule demo_Init)
  have "tm_reachable (demo_tm T)" by (rule tm_start [of demo_env demo_sys]) (use T(1) in simp_all)
  moreover have "counter (central_cache (cc T) cl) = 0" if "cl < 86" for cl
    using T(3) that CFL_Init_counter by blast
  then have "counts_fit (tm (demo_tm T))" using T(2,4,5) by (simp add: counts_fit_def)
  ultimately show ?thesis using current_allocated_bytes_exact [of "demo_tm T"] by blast
qed

section \<open>Sizes and owners\<close>

lemma GetDescriptor_bound: "GetDescriptor h k = Some q \<Longrightarrow> k < 2 ^ 35"
  by (simp add: GetDescriptor_def PageMap2_get_def Let_def div_greater_zero_iff split: if_splits)

lemma owned_by_descriptor: "GetDescriptor h (p div kPageSize) = Some q \<Longrightarrow> GetOwnership h p = kOwned"
  using GetDescriptor_bound [of h "p div kPageSize" q] by (simp add: GetOwnership_def Let_def kAddressBits_def del: kPageSize_def)

lemma small_size:
  assumes "threads_ok (tm S)" "x \<in> live (tm S) cl" "cl < classes_of (tm S)" "0 < x"
  shows "GetOwnership (heap_of S) x = kOwned" "tc_malloc_size S x = Some (ByteSizeForClass (sizemap (cc (tm S))) cl)"
proof -
  obtain q s where l: "sp_sizeclass s = cl" "cl \<noteq> 0" "GetDescriptor (heap_of S) (x div kPageSize) = Some q" "spans (heap_of S) q = Some s"
      "TryGetSizeClass (heap_of S) (x div kPageSize) \<in> {None, Some cl}" by (rule small_lookup [OF assms(1-3)])
  show "GetOwnership (heap_of S) x = kOwned" by (rule owned_by_descriptor [OF l(3)])
  show "tc_malloc_size S x = Some (ByteSizeForClass (sizemap (cc (tm S))) cl)"
    using l assms(4) by (auto simp: tc_malloc_size_def GetAllocatedSize_def GetSizeWithCallback_def Let_def simp del: kPageSize_def)
qed

lemma large_size:
  assumes ok: "threads_ok (tm S)" and s: "(q, s) \<in> large_spans (cc (tm S))" and pos: "0 < sp_start s"
  shows "GetOwnership (heap_of S) (sp_start s * kPageSize) = kOwned"
    "\<not> sp_sample s \<Longrightarrow> tc_malloc_size S (sp_start s * kPageSize) = Some (sp_length s * kPageSize)"
proof -
  note l = large_lookup [OF ok s]
  show "GetOwnership (heap_of S) (sp_start s * kPageSize) = kOwned" using owned_by_descriptor [of "heap_of S" "sp_start s * kPageSize" q] l(5) by simp
  have "(sp_start s * kPageSize, sp_length s * kPageSize) \<in> blocks (tm S)" using s by (force simp: blocks_def large_blocks_def)
  then have "sp_length s * kPageSize \<le> 2 ^ 48" by (rule block_bound [OF threads_okD(6) [OF ok]])
  then have "unat (page_bytes (sp_length s)) = sp_length s * kPageSize" by (simp only: page_bytes_nat unsigned_of_nat) (simp add: take_bit_nat_eq_self)
  with l(2,3,5,6) pos show "\<not> sp_sample s \<Longrightarrow> tc_malloc_size S (sp_start s * kPageSize) = Some (sp_length s * kPageSize)"
    by (simp add: tc_malloc_size_def GetAllocatedSize_def GetSizeWithCallback_def)
qed

text \<open>C10. In every reachable state the allocator owns the address of every block in use, and \<open>malloc_size\<close> of it is the length of the block, unless the block is a
  large one that is sampled (there the size is computed again from the request that the stack trace keeps); no address of 48 bits or more is owned, and the size of the null pointer is zero.\<close>

theorem malloc_size_of_block:
  assumes "tm_reachable S" "(p, n) \<in> blocks (tm S)"
  shows "GetOwnership (heap_of S) p = kOwned
    \<and> ((\<forall>q s. (q, s) \<in> large_spans (cc (tm S)) \<and> sp_start s * kPageSize = p \<longrightarrow> \<not> sp_sample s) \<longrightarrow> tc_malloc_size S p = Some n)
    \<and> tc_malloc_size S 0 = Some 0 \<and> (\<forall>a \<ge> 2 ^ 48. GetOwnership (heap_of S) a = kNotOwned)"
proof -
  have ok: "threads_ok (tm S)" using tm_reachable_inv [OF assms(1)] by simp
  have pos: "0 < p" by (rule block_bound [OF threads_okD(6) [OF ok] assms(2)])
  have "GetOwnership (heap_of S) a = kNotOwned" if "2 ^ 48 \<le> a" for a
    using that div_le_mono [OF that, of "2 ^ 48"] by (simp add: GetOwnership_def Let_def kAddressBits_def div_mult2_eq [symmetric])
  moreover from assms(2) consider cl where "cl < classes_of (tm S)" "p \<in> live (tm S) cl" "n = ByteSizeForClass (sizemap (cc (tm S))) cl"
    | q s where "p = sp_start s * kPageSize" "n = sp_length s * kPageSize" "(q, s) \<in> large_spans (cc (tm S))"
    by (auto simp: blocks_def small_blocks_def large_blocks_def)
  then have "GetOwnership (heap_of S) p = kOwned
      \<and> ((\<forall>q s. (q, s) \<in> large_spans (cc (tm S)) \<and> sp_start s * kPageSize = p \<longrightarrow> \<not> sp_sample s) \<longrightarrow> tc_malloc_size S p = Some n)"
  proof cases
    case 1
    then show ?thesis using small_size [OF ok 1(2,1) pos] by simp
  next
    case 2
    then show ?thesis using large_size [OF ok 2(3)] pos by auto
  qed
  ultimately show ?thesis by (simp add: tc_malloc_size_def GetAllocatedSize_def)
qed

theorem malloc_size_of_block_witness:
  "\<exists>S p n. tm_reachable S \<and> (p, n) \<in> blocks (tm S) \<and> 300000 \<le> n \<and> GetOwnership (heap_of S) p = kOwned"
proof -
  obtain S p n where S: "tm_reachable S" "(p, n) \<in> blocks (tm S)" "300000 \<le> n" by (rule demo_blocks)
  from malloc_size_of_block [OF S(1,2)] S show ?thesis by blast
qed

section \<open>Releasing memory\<close>

text \<open>C9. \<open>ReleaseToSystem\<close> in every reachable state: it returns (the system gives an answer to every release), the blocks in use stay as they were and the next state
  is reachable; a request that earlier calls have already paid for touches no page, and the credit that is kept for later calls is nothing or at most what
  the call and the credit before it have released beyond the request.\<close>

theorem ReleaseToSystem_accounts:
  assumes "tm_reachable S" "release_fair (system (heap_of S))"
  shows "\<exists>S'. ReleaseToSystem n S = Some S' \<and> tm_reachable S' \<and> blocks (tm S') = blocks (tm S)
    \<and> (n \<le> extra_bytes_released S \<longrightarrow> tm S' = tm S \<and> extra_bytes_released S' = extra_bytes_released S - n)
    \<and> (extra_bytes_released S' = 0
       \<or> n + extra_bytes_released S' \<le> extra_bytes_released S + (normal_pages (heap_of S) - normal_pages (heap_of S')) * kPageSize)"
proof -
  have ok: "threads_ok (tm S)" using tm_reachable_inv [OF assms(1)] by simp
  have lv: "lively True 0 (heap_of S)" using assms(2) by (simp add: lively_def)
  obtain S' where S': "ReleaseToSystem n S = Some S'" "tm_step 0 (tm S) (tm S') (blocks (tm S))" "released n S S'"
    using wpo_total [OF ReleaseToSystem_wpo [OF ok lv, of n]] by blast
  moreover have "n \<le> extra_bytes_released S \<longrightarrow> tm S' = tm S \<and> extra_bytes_released S' = extra_bytes_released S - n"
    using S'(1) by (auto simp: ReleaseToSystem_def)
  ultimately show ?thesis using tm_release [OF assms(1) S'(1)] tm_stepD(5) [OF S'(2)] by (simp add: released_def)
qed

theorem ReleaseToSystem_accounts_witness:
  "\<exists>S S' p m. tm_reachable S \<and> (p, m) \<in> blocks (tm S) \<and> ReleaseToSystem 1 S = Some S' \<and> tm_reachable S' \<and> (p, m) \<in> blocks (tm S')"
proof -
  obtain S p m where S: "tm_reachable S" "slack (tm S)" "release_fair (system (heap_of S))" "(p, m) \<in> blocks (tm S)" by (rule demo_blocks)
  from ReleaseToSystem_accounts [OF S(1,3), of 1] S show ?thesis by metis
qed

end
