(* ===== verification/TCMalloc_Realloc_Props.thy ===== *)
theory TCMalloc_Realloc_Props
  imports TCMalloc_Stats
begin

text \<open>
  What \<open>realloc\<close> promises to the application, with a small block on the concrete system as the witness.
\<close>

section \<open>A small block on the concrete system\<close>

lemma no_sampling: "sample_parameter e \<le> 0 \<Longrightarrow> fst (RecordAllocation e s self k)"
  by (auto simp: RecordAllocation_def RecordAllocationSlow_def Let_def split: prod.split)

lemma demo_small_block:
  obtains S p n where "tm_reachable S" "slack (tm S)" "\<not> IsUseEmergencyMalloc (tm S) 7" "8 \<le> room (heap_of S)" "release_fair (system (heap_of S))"
    "2 \<le> caches_left (tm S)" "(p, n) \<in> blocks (tm S)" "tc_malloc_size S p = Some n"
proof -
  obtain T sm q T1 h where T: "tm_reachable (demo_tm T)" "ready True 7 T" "sizemap (cc T) = sm" "SizeMap_Init 4096 None = Some (Inr sm)"
      "fresh_heap (pageheap (cc T))" "GetCache T 7 1 = Some (q, T1)" "cc T1 = cc T" "slack T1" "GetFastPathCache T 7 = 0" "\<not> IsUseEmergencyMalloc T 7"
      "heaps T1 q = Some h" "sample_parameter (sampling T1) = 0" "\<forall>cl < 86. fl_list (tc_list h cl) = [] \<and> fl_max_length (tc_list h cl) = 1"
      "\<forall>cl < 86. CFL_Init sm cl = Some (central_cache (cc T) cl)" "20 \<le> caches_left T" "num_size_classes sm = 86" by (rule demo_start)
  let ?S = "demo_tm T" and ?nh = "\<lambda>_ _. None"
  have ok: "threads_ok T" "slack T" using T(2) by (simp_all add: ready_def)
  have ok1: "threads_ok T1" using wpo_partial [OF GetCache_tm [OF T(2)] T(6)] by (simp add: tm_step_def)
  have "unat (100 :: u64) \<le> kMaxSize" by simp
  then obtain cl where g: "GetSizeClass sm 100 = Some cl" by (auto simp: GetSizeClass_SizeClass)
  have cl: "0 < cl" "cl < 86" "class_to_size sm cl = ByteSizeForClass sm cl"
    using class_of_size(1) [OF threads_okD(4) [OF ok(1), unfolded T(3)] g] T(16) by auto
  let ?z = "ByteSizeForClass sm cl"
  obtain u where u: "RecordAllocation (sampling T1) (tc_sampler h) (of_nat (q + 4104)) ?z = (True, u)"
    using no_sampling [of "sampling T1" "tc_sampler h" "of_nat (q + 4104)" ?z] T(12)
    by (cases "RecordAllocation (sampling T1) (tc_sampler h) (of_nat (q + 4104)) ?z") auto
  define T2 where "T2 = upd_cache q (\<lambda>h. h\<lparr> tc_sampler := u \<rparr>) T1"
  have s2: "SampleAllocation T1 q ?z = Some (False, T2)" using u T(11) by (simp add: SampleAllocation_def T2_def)
  have ok2: "threads_ok T2" unfolding T2_def by (rule tm_stepD(1) [OF resampled_tm [OF ok1 T(11)]])
  have c2: "cc T2 = cc T" using T(7) by (simp add: T2_def)
  have h2: "heaps T2 q = Some (h\<lparr> tc_sampler := u \<rparr>)" using T(11) by (simp add: T2_def)
  obtain x T3 where A: "Allocate T2 q ?z cl = Some (Some x, T3)"
    using fresh_Allocate [OF cl(1,2) T(4), of T2 q "h\<lparr> tc_sampler := u \<rparr>"] threads_okD(6) [OF ok2] T(3,5,13,14,16) c2 h2 cl(2) by auto
  have M: "do_malloc 7 ?S 100 = Some (Some x, ?S\<lparr> tm := T3 \<rparr>)"
    using T(3,6,7,10) g cl(3) s2 A by (simp add: do_malloc_def Let_def)
  let ?S3 = "?S\<lparr> tm := T3 \<rparr>"
  have tm: "tc_malloc ?nh 7 ?S 100 = Some (Returned (Some x), ?S3)"
    using M T(9) by (simp add: tc_malloc_def malloc_fast_path_def Let_def do_allocate_full_def)
  have "silent 1 ?S ?S3" by (rule do_malloc_silent [OF _ _ M]) (use ok threads_okD(1) in simp_all)
  then have q3: "slack T3" "\<not> IsUseEmergencyMalloc T3 7" "2 \<le> caches_left T3" using ok(2) T(10,15) by (auto simp: silent_def quiet_def)
  obtain m where st: "tm_step 4 T T3 (insert (x, m) (blocks T))"
    using wpo_partial [OF do_malloc_wpo [of True 7 ?S 100] M] T(2) by (auto simp: gives_def)
  have lv: "lively True 8 (pageheap (cc T3))" using tm_step_lively [OF st, of True 8] fresh_heapD(2) [OF T(5)] by (auto simp: lively_def)
  have r: "tm_reachable ?S3" using tm_malloc [OF T(1) _ _ tm] ok(2) T(10) by simp
  have cl2: "cl < classes_of T2" and A2: "Allocate T2 q (ByteSizeForClass (sizemap (cc T2)) cl) cl = Some (Some x, T3)"
    using A c2 T(3,16) cl(2) by simp_all
  have "stepped 3 T2 T3 ((live T2)(cl := insert x (live T2 cl)))"
    using wpo_partial [OF Allocate_wpo [OF tc_invD(1,2) [OF threads_okD(1) [OF ok2]] h2 lively_False cl(1) cl2] A2] by simp
  then have x: "x \<in> live T3 cl" "classes_of T3 = 86" "sizemap (cc T3) = sm"
    using c2 T(3,16) cl(2) by (simp_all add: stepped_def evolves_def)
  have b: "(x, ?z) \<in> blocks (tm ?S3)" using x cl(2) by (auto simp: blocks_def small_blocks_def)
  have ok3: "threads_ok (tm ?S3)" using tm_stepD(1) [OF st] by simp
  have "tc_malloc_size ?S3 x = Some ?z"
    using small_size(2) [OF ok3 _ _ block_bound(1) [OF threads_okD(6) [OF ok3] b], of cl] x cl(2) by simp
  with that [OF r _ _ _ _ _ b] q3 lv show ?thesis by (simp add: lively_def)
qed

section \<open>The property\<close>

text \<open>C6. \<open>realloc\<close> of a block in use to a size other than zero, in every reachable state, when the size that is looked up for the block is at most its length (it is exactly
  the length unless the block is a sampled large one): it returns.  Either memory is exhausted, and then it returns null with \<open>ENOMEM\<close> and no block and no byte
  of memory has changed; or it returns a block, new or the old one, which takes the place of the old block, is long enough, overlaps no other block,
  and starts with the contents of the old block up to the smaller of both sizes; the contents of all other blocks stay as they were.\<close>

theorem realloc_keeps_contents:
  assumes "tm_reachable S" "slack (tm S)" "\<not> IsUseEmergencyMalloc (tm S) me" "(p, n) \<in> blocks (tm S)" "tc_malloc_size S p = Some k" "k \<le> n" "sz \<noteq> 0"
    "8 \<le> room (heap_of S)" "release_fair (system (heap_of S))" "2 \<le> objects_left sizeof_ThreadCache (threadcache_allocator (tm S))"
  shows "\<exists>r S'. tc_realloc nh me S p sz = Some (Returned r, S') \<and> tm_reachable S'
    \<and> (case r of
         None \<Rightarrow> errno S' = ENOMEM \<and> blocks (tm S') = blocks (tm S) \<and> memory S' = memory S
       | Some q \<Rightarrow> \<exists>m \<ge> unat sz. blocks (tm S') = insert (q, m) (blocks (tm S) - {(p, n)})
           \<and> (\<forall>c \<in> blocks (tm S) - {(p, n)}. extent c \<inter> extent (q, m) = {} \<and> (\<forall>a \<in> extent c. memory S' a = memory S a))
           \<and> (\<forall>i < min k (unat sz). memory S' (q + i) = memory S (p + i)))"
proof -
  have ok: "threads_ok (tm S) \<and> tc_new_mode S = 0" by (rule tm_reachable_inv [OF assms(1)])
  have p: "p \<noteq> 0" using block_bound(1) [OF threads_okD(6) assms(4)] ok by blast
  have k: "GetSizeWithCallback S p = Some k" using assms(5) p by (simp add: tc_malloc_size_def GetAllocatedSize_def)
  have lv: "lively True 8 (heap_of S)" using assms(8,9) by (simp add: lively_def)
  then have r: "ready True me (tm S)" using ok assms(2,3,10) by (simp add: ready_def lively_def)
  obtain out S' where S': "tc_realloc nh me S p sz = Some (out, S')" "reallocated p n sz S (out, S')"
    using wpo_total [OF tc_realloc_wpo [OF r _ lv _ assms(4), of nh sz]] ok assms(10) k by auto
  have re: "reallocs p n k sz S (out, S')" using S'(2) k assms(7) by (simp add: reallocated_def)
  have rch: "tm_reachable S'" by (rule tm_realloc [OF assms(1-4) S'(1)])
  from re obtain r where r: "out = Returned r" by (auto simp: reallocs_def)
  show ?thesis
  proof (cases r)
    case None
    then show ?thesis using S'(1) re rch r by (auto simp: reallocs_def tm_step_def)
  next
    case (Some q)
    with re r obtain m where m: "blocks (tm S') = insert (q, m) (blocks (tm S) - {(p, n)})" "unat sz \<le> m"
        "\<forall>c \<in> blocks (tm S) - {(p, n)}. extent c \<inter> extent (q, m) = {} \<and> (\<forall>a \<in> extent c. memory S' a = memory S a)"
        "\<forall>i < min k (unat sz). memory S' (q + i) = memory S (p + i)"
      using assms(6) tm_stepD(5) by (fastforce simp only: reallocs_def prod.case outcome.inject option.case)
    then show ?thesis using S'(1) rch r Some by (intro exI [of _ "Some q"] exI [of _ S'] conjI) (simp_all only: option.case, blast)
  qed
qed

theorem realloc_keeps_contents_witness:
  "\<exists>S p n r S'. tm_reachable S \<and> (p, n) \<in> blocks (tm S) \<and> tc_realloc (\<lambda>_ _. None) 7 S p 5000 = Some (Returned r, S') \<and> tm_reachable S'"
proof -
  obtain S p n where S: "tm_reachable S" "slack (tm S)" "\<not> IsUseEmergencyMalloc (tm S) 7" "8 \<le> room (heap_of S)" "release_fair (system (heap_of S))"
    "2 \<le> caches_left (tm S)" "(p, n) \<in> blocks (tm S)" "tc_malloc_size S p = Some n" by (rule demo_small_block)
  have "(5000 :: u64) \<noteq> 0" by simp
  from realloc_keeps_contents [OF S(1-3,7,8) order_refl this S(4-6), of "\<lambda>_ _. None"] S(1,7) show ?thesis by blast
qed

end
