(* ===== verification/Spec2Isabelle.thy ===== *)
theory Spec2Isabelle
  imports SizeMap_Props LinkedList StackTraceTable TCMalloc_Realloc_Props
begin

text \<open>
  \<^bold>\<open>A verification development for TCMalloc\<close>

  The repository builds container images of diagnostic tools; the program in it is gperftools, under \<^verbatim>\<open>src/pprof/gperftools\<close>, and
  the core of gperftools is TCMalloc, a memory allocator for programs with many threads.  This development
  models the allocator in layers, as the code has them, and proves for each layer what the layer above relies on, up to what
  \<open>malloc\<close> and \<open>free\<close> promise to the application.  Paths below are relative to \<^verbatim>\<open>src/pprof/gperftools/src\<close>.

  \<^bold>\<open>The parts of the program and how they work together\<close>

  \<^item> Requests of at most 256 KB are rounded up to one of about 86 \<^emph>\<open>size classes\<close> (\<^verbatim>\<open>common.h\<close>, \<^verbatim>\<open>common.cc\<close>).
  \<^item> Every thread has a \<^emph>\<open>thread cache\<close> with a free list of objects per class (\<^verbatim>\<open>thread_cache.h\<close>, \<^verbatim>\<open>thread_cache.cc\<close>).  The caches
    share an overall limit of bytes: a cache that needs more steals from the others.  A \<^emph>\<open>sampler\<close> (\<^verbatim>\<open>sampler.h\<close>, \<^verbatim>\<open>sampler.cc\<close>) in each
    cache picks allocations that are recorded with a stack trace.
  \<^item> Thread caches get and return batches of objects from the \<^emph>\<open>central free lists\<close>, one per class (\<^verbatim>\<open>central_freelist.h\<close>,
    \<^verbatim>\<open>central_freelist.cc\<close>), which cut spans of pages into objects.
  \<^item> Spans come from the \<^emph>\<open>page heap\<close> (\<^verbatim>\<open>page_heap.h\<close>, \<^verbatim>\<open>page_heap.cc\<close>, \<^verbatim>\<open>span.h\<close>, \<^verbatim>\<open>span.cc\<close>), as do the blocks of requests above 256 KB.
    It finds spans through the \<^emph>\<open>page map\<close> (\<^verbatim>\<open>pagemap.h\<close>), with a cache of size classes in front of it (\<^verbatim>\<open>packed-cache-inl.h\<close>), merges
    free neighbours, and gives memory back to the system.
  \<^item> The page heap takes memory from the \<^emph>\<open>system\<close> (\<^verbatim>\<open>system-alloc.cc\<close>); descriptors of spans, stack traces and caches
    come from allocators of their own (\<^verbatim>\<open>page_heap_allocator.h\<close>) on metadata chunks (\<^verbatim>\<open>common.cc\<close>).
  \<^item> The \<^emph>\<open>allocation functions\<close> (\<^verbatim>\<open>tcmalloc.cc\<close>) put the layers together; there too is the interface
    \<open>MallocExtension\<close> (\<^verbatim>\<open>gperftools/malloc_extension.h\<close>) for statistics, settings and the release of memory.

  \<^bold>\<open>Conventions\<close>

  A class or struct is a \<open>record\<close> with the fields of the code, an operation a function on it; where an operation acts on several
  objects they are collected in a record (\<open>central\<close>: page heap, size map and central lists; \<open>threads\<close>: those and all
  thread caches; \<open>tcmalloc\<close>: all of it).  \<open>Span\<close> and \<open>ThreadCache\<close> objects live in stores indexed by their addresses.  \<open>None\<close> as the
  result of an operation is a crash, a failed \<open>CHECK_CONDITION\<close> or a loop that does not end.  \<open>size_t\<close> is \<open>64 word\<close> where it may wrap
  around and \<open>nat\<close> where theory and code bound it; \<open>int32\<close> and \<open>uint16\<close> fields wrap around explicitly.  Loops
  that may run forever are \<open>partial_function (option)\<close>; no definition has fuel.  Operations run to their end: the locks of the
  code make them atomic, and several threads are sequences of operations on behalf of thread numbers.

  Proofs about the option monad use \<open>wpo b m Q\<close> (theory \<open>Wpo\<close>): \<open>m\<close> satisfies \<open>Q\<close> if it returns, and it does return if \<open>b\<close> holds.
  Each lemma about an operation is for every \<open>b\<close>, so it gives partial correctness for the reachable states and, with the conditions
  below, that the operation returns.

  \<^bold>\<open>Theories\<close>

  \<^item> \<open>Prelude\<close>, \<open>Wpo\<close>: machine types, conversions, generic lemmas, specifications in the option monad.
  \<^item> \<open>SizeMap\<close>, \<open>SizeMap_Default\<close>, \<open>SizeMap_Props\<close>: \<open>SizeMap::Init\<close> with its loops and self-checks, \<open>SizeClass\<close>, \<open>GetSizeClass\<close>, \<open>pages\<close>.  \<open>Init\<close>
    returns, its classes are best fits, spans of a class waste at most an eighth; a negative transfer limit makes it run forever.
  \<^item> \<open>PageMap\<close>: the array and the two radix trees, for all values of \<open>BITS\<close>.  The locale \<open>page_map\<close> is the contract the page heap relies on and
    all three are interpretations of it; \<open>Next\<close> equals a linear search.
  \<^item> \<open>PackedCache\<close>: the cache at word width, an interpretation of the locale \<open>page_cache\<close>: it only ever answers with the last value put.
  \<^item> \<open>SystemAlloc\<close>: \<open>TCMalloc_SystemAlloc\<close>, \<open>MetaDataAlloc\<close>, \<open>PageHeapAllocator\<close> (locale \<open>object_allocator\<close>): blocks of metadata and
    objects in use do not overlap.
  \<^item> \<open>LinkedList\<close>: the singly linked lists of objects and the circular lists of spans on an explicit store refine
    operations on lists (locale \<open>object_stack\<close>); the other theories use lists.
  \<^item> \<open>PageHeap\<close> is the model of the page heap.  \<open>PageHeap_Geom\<close> (spans and page map), \<open>PageHeap_Lists\<close> (free lists and statistics) and \<open>PageHeap_Inv\<close> have
    its invariant; \<open>PageHeap_Merge\<close>, \<open>PageHeap_Release\<close>, \<open>PageHeap_Alloc\<close>, \<open>PageHeap_New\<close>, \<open>PageHeap_Aligned\<close> show that each operation keeps it
    and what it returns; \<open>PageHeap_Cache\<close> is about the stale entries of the cache of size classes.  \<open>PageHeap_Props\<close> defines the reachable heaps and has the
    properties; \<open>PageHeap_Inspect\<close> models the self-check, the statistics of free spans and the enumeration of ranges.
  \<^item> \<open>CentralFreeList\<close> is the model; \<open>CentralFreeList_Inv\<close> has its invariant and what it asks of the page heap (locale
    \<open>page_provider\<close>); \<open>_Ops\<close>, \<open>_Range\<close> and \<open>_Props\<close> the operations, with the locale \<open>object_pool\<close> as the contract for the thread caches:
    \<open>held st cl\<close> are the objects of a class handed out.
  \<^item> \<open>Sampler\<close>: countdown, random generator, agreement of the fast path with the full one.
  \<^item> \<open>ThreadCache\<close> is the model of the caches and their limits, \<open>StaticVars\<close> the initialisation (\<open>InitStaticVars\<close>, \<open>InitModule\<close>).  \<open>ThreadCache_Inv\<close> and
    \<open>_Ops\<close> are about one cache and the central lists, \<open>_Pool\<close>, \<open>_Steps\<close> and \<open>_Life\<close> about all caches, \<open>_Props\<close> has the reachable states and the
    properties: \<open>live T cl\<close> are the objects of a class that the application has.
  \<^item> \<open>TCMalloc\<close> is the model of the allocation functions.  \<open>TCMalloc_Inv\<close> has the invariant of the whole allocator and the \<open>blocks\<close> of the
    application: its live small objects and the spans in use without class.  \<open>TCMalloc_Ops\<close> and \<open>TCMalloc_Free\<close> follow \<open>malloc\<close> and \<open>free\<close>
    through all layers.
  \<^item> \<open>TCMalloc_Ext\<close> is the model of \<open>MallocExtension\<close>: \<open>ExtractStats\<close>, \<open>mallinfo\<close>, numeric properties, idle threads, \<open>ReleaseToSystem\<close>, ownership, sizes of
    the free lists.  \<open>TCMalloc_Mode\<close> shows that those that change the state keep the invariant and the blocks.
  \<^item> \<open>TCMalloc_Realloc\<close> shows what an allocation leaves alone (\<open>quiet\<close>, \<open>silent\<close>) and follows \<open>realloc\<close>.  \<open>TCMalloc_Props\<close> has the reachable states of the whole, the contract \<open>block_store\<close> of an allocator with its
    interpretation on \<open>tc_malloc\<close> and \<open>tc_free\<close>, and the properties; \<open>TCMalloc_Stats\<close> those of the statistics, of \<open>malloc_size\<close> and of the release of memory, \<open>TCMalloc_Realloc_Props\<close> that of \<open>realloc\<close>.
  \<^item> \<open>StackTraceTable\<close>: the table in which sampled traces are collected (\<^verbatim>\<open>stack_trace_table.cc\<close>) and the loops of the heap profile
    (\<^verbatim>\<open>malloc_extension.cc\<close>) that read its output: a round trip within the bounds of the array.

  \<^bold>\<open>What is proved\<close>

  From \<open>InitModule\<close> on, through any sequence of allocations, reallocations, deallocations, ends of threads, changes of the settings and releases of memory: \<open>malloc\<close> returns a block that is long
  enough and overlaps no block in use, or null with \<open>ENOMEM\<close>; \<open>free\<close> ends the use of exactly its block; \<open>calloc\<close> checks for overflow and zeroes; \<open>realloc\<close> keeps the contents; the size
  class found for a pointer is never stale; \<open>operator new\<close> never returns null; the number of allocated bytes
  that the statistics of all layers give is the sum of the lengths of the blocks in use.  Underneath: conservation of objects between spans, transfer caches,
  thread caches and application; accounting of the limits and of the bytes of the page heap; that spans never overlap; best
  fit; alignment; termination of the release and scavenging loops; round trips and refinements of the data structures.

  \<^bold>\<open>Hypotheses\<close>

  \<^item> \<open>os_ok\<close>, \<open>os_bounded\<close>: the system allocator returns memory that is new, aligned, within the 48-bit address space, and not null, as
    \<^verbatim>\<open>malloc_extension.h\<close> documents; its sbrk and mmap versions are behind this parameter.
  \<^item> \<open>release_fair\<close>: the call that releases pages does not fail with \<open>EAGAIN\<close> for ever.  \<open>room\<close> and \<open>objects_left\<close>: the
    allocators of metadata have the few objects an operation needs (the code ends the program otherwise).  Both only for the claims that an operation returns.
  \<^item> \<open>slack\<close>: no cache has a limit within 64 KB of \<open>2^31\<close>, where the \<open>int32\<close> field would overflow.
  \<^item> \<open>counts_fit\<close>: fewer than \<open>2^31\<close> free objects of a class and bytes in a cache, which the code reports as \<open>int\<close>.  Only for the statistics.
  \<^item> \<open>sizes_ok\<close>, \<open>init_env\<close>: the size classes suit the page heap, shown for the default settings, for a positive or unset
    \<open>TCMALLOC_TRANSFER_NUM_OBJ\<close>.
  \<^item> The reachable states of \<open>TCMalloc_Props\<close> have the default new mode, in which \<open>malloc\<close> does not call the new handler; \<open>memalign\<close> and sized
    deallocation are modelled and not among their steps.

  Every property with hypotheses has a witness: the default size classes on a concrete system (\<open>demo_sys\<close>, \<open>demo_Init\<close>, \<open>demo_block\<close>).

  \<^bold>\<open>Not modelled\<close>

  The heap checker, the profilers, the debugging allocator, the low-level arena allocator, hooks, stack unwinding and symbols, the
  memory file system allocator and the Windows port: they sit beside the allocator, and live on signals, files, machine registers
  or other processes.  Of \<^verbatim>\<open>tcmalloc.cc\<close> the text reports of \<open>MallocExtension\<close> and the stacks of the heap growth; the emergency allocator, which is used
  only while a stack trace is taken; spin locks and atomics, whose effect is that operations are atomic; the
  versions of \<open>SysAllocator\<close>, which are system calls.  The floating-point logarithm of the sampler, the stack trace and the new handler are parameters.
\<close>

end
